(* ===== verification/Seol_Prelude.thy ===== *)
theory Seol_Prelude
  imports Main "HOL-Library.Word" "HOL-Library.List_Lexorder" "HOL-Library.AList"
begin

text \<open>
  Shared base of the development: the machine types of the Go sources, the pieces of the Go
  standard library the sources call (\<^verbatim>\<open>encoding/binary\<close>, \<^verbatim>\<open>bytes\<close>,
  \<^verbatim>\<open>sort\<close>, \<^verbatim>\<open>hash/crc32\<close> and positional file access), the error values of
  the program, and the generic lemmas and the interface locale for streams of framed records that
  the components share.
\<close>

unbundle bit_operations_syntax

section \<open>Machine types and slices\<close>

type_synonym byte = "8 word"
type_synonym bytes = "byte list"
type_synonym u16 = "16 word"
type_synonym u32 = "32 word"
type_synonym u64 = "64 word"

text \<open>
  Lemma collections: \<open>wire_simps\<close> holds the facts about byte encodings (lengths and round
  trips of the little-endian primitives), \<open>order_simps\<close> the facts that move between
  \<open>bytes_compare\<close> and the linear order on byte strings.
\<close>

named_theorems wire_simps "lengths and round trips of the little-endian primitives"
named_theorems order_simps "bytes.Compare against the linear order of byte strings"

text \<open>\<open>data[lo:hi]\<close>; the callers establish the bounds or model the panic themselves.\<close>

definition subslice :: "'a list \<Rightarrow> nat \<Rightarrow> nat \<Rightarrow> 'a list" where
  "subslice xs lo hi = take (hi - lo) (drop lo xs)"

lemma length_subslice [simp]: "length (subslice xs lo hi) = min (hi - lo) (length xs - lo)"
  by (simp add: subslice_def min.commute)

lemma subslice_append_left: "hi \<le> length xs \<Longrightarrow> subslice (xs @ ys) lo hi = subslice xs lo hi"
  by (simp add: subslice_def)

lemma subslice_append_right:
  "length xs \<le> lo \<Longrightarrow> subslice (xs @ ys) lo hi = subslice ys (lo - length xs) (hi - length xs)"
  by (simp add: subslice_def)

lemma subslice_middle: "subslice (xs @ ys @ zs) (length xs) (length xs + length ys) = ys"
  by (simp add: subslice_def)

lemma subslice_take: "hi \<le> m \<Longrightarrow> subslice (take m xs) lo hi = subslice xs lo hi"
  by (cases "lo \<le> hi") (auto simp: subslice_def take_drop min_def)

lemma subslice_zero: "subslice xs 0 n = take n xs"
  by (simp add: subslice_def)

lemma take_drop_glue: "m = k + n \<Longrightarrow> take n (drop k xs) @ drop m xs = drop k xs"
  by (metis append_take_drop_id drop_drop add.commute)

lemma nth_drop_glue: "k < length xs \<Longrightarrow> m = Suc k \<Longrightarrow> [xs ! k] @ drop m xs = drop k xs"
  by (simp add: Cons_nth_drop_Suc)

text \<open>
  \<open>append([]byte(nil), x...)\<close>: Go's \<open>append\<close> of no element to a nil slice is again nil, so the
  copy of an empty slice is nil (\<open>None\<close>), not an empty slice.
\<close>

definition append_nil :: "'a list \<Rightarrow> 'a list option" where
  "append_nil x = (if x = [] then None else Some x)"


section \<open>encoding/binary: little-endian integers\<close>

fun put_le :: "nat \<Rightarrow> 'a::len word \<Rightarrow> bytes" where
  "put_le 0 w = []"
| "put_le (Suc k) w = ucast w # put_le k (drop_bit 8 w)"

fun get_le :: "bytes \<Rightarrow> 'a::len word" where
  "get_le [] = 0"
| "get_le (b # bs) = ucast b OR push_bit 8 (get_le bs)"

definition put_u16 :: "u16 \<Rightarrow> bytes" where "put_u16 w = put_le 2 w"
definition put_u32 :: "u32 \<Rightarrow> bytes" where "put_u32 w = put_le 4 w"
definition put_u64 :: "u64 \<Rightarrow> bytes" where "put_u64 w = put_le 8 w"
definition get_u16 :: "bytes \<Rightarrow> u16" where "get_u16 bs = get_le (take 2 bs)"
definition get_u32 :: "bytes \<Rightarrow> u32" where "get_u32 bs = get_le (take 4 bs)"
definition get_u64 :: "bytes \<Rightarrow> u64" where "get_u64 bs = get_le (take 8 bs)"

lemma length_put_le [simp]: "length (put_le k w) = k"
  by (induction k arbitrary: w) auto

lemma put_le_bit_step:
  fixes w :: "'a::len word"
  assumes "8 \<le> LENGTH('a)"
  shows "ucast (ucast w :: byte) OR push_bit 8 (take_bit n (drop_bit 8 w)) = take_bit (8 + n) w"
  by (rule bit_word_eqI)
     (use assms in \<open>auto simp: bit_simps simp del: push_bit_take_bit\<close>)

lemma get_put_le:
  fixes w :: "'a::len word"
  assumes "8 * k \<le> LENGTH('a)"
  shows "get_le (put_le k w) = take_bit (8 * k) w"
  using assms
proof (induction k arbitrary: w)
  case 0
  then show ?case by simp
next
  case (Suc k)
  have "get_le (put_le (Suc k) w) = ucast (ucast w :: byte) OR push_bit 8 (take_bit (8 * k) (drop_bit 8 w))"
    using Suc by simp
  also have "\<dots> = take_bit (8 + 8 * k) w"
    using Suc.prems by (intro put_le_bit_step) simp
  finally show ?case by simp
qed

lemma get_le_head: "8 \<le> LENGTH('a) \<Longrightarrow> ucast (ucast b OR push_bit 8 (x :: 'a::len word)) = (b :: byte)"
  by (rule bit_word_eqI) (auto simp: bit_simps)

lemma get_le_tail:
  fixes x :: "'a::len word"
  assumes "8 \<le> LENGTH('a)"
  shows "drop_bit 8 (ucast (b :: byte) OR push_bit 8 x) = take_bit (LENGTH('a) - 8) x"
proof (rule bit_word_eqI)
  fix n
  assume "n < LENGTH('a)"
  show "bit (drop_bit 8 (ucast b OR push_bit 8 x)) n = bit (take_bit (LENGTH('a) - 8) x) n"
    using bit_imp_le_length [of b "8 + n"] bit_imp_le_length [of x n] assms
    by (auto simp: bit_simps)
qed

lemma get_le_bound:
  assumes "8 * length bs \<le> LENGTH('a)"
  shows "take_bit (8 * length bs) (get_le bs :: 'a::len word) = get_le bs"
  using assms
proof (induction bs)
  case Nil
  then show ?case by simp
next
  case (Cons b bs)
  let ?x = "get_le bs :: 'a word"
  have IH: "take_bit (8 * length bs) ?x = ?x" using Cons by simp
  have small: "n < 8 * length bs" if "bit ?x n" for n
    using that IH by (metis bit_take_bit_iff)
  have "bit (take_bit (8 * length (b # bs)) (get_le (b # bs) :: 'a word)) n
      = bit (get_le (b # bs) :: 'a word) n" for n
    using small [of "n - 8"] bit_imp_le_length [of b n] by (auto simp: bit_simps)
  then show ?case by (simp add: bit_eq_iff)
qed

lemma put_get_le:
  assumes "8 * length bs \<le> LENGTH('a)"
  shows "put_le (length bs) (get_le bs :: 'a::len word) = bs"
  using assms
proof (induction bs)
  case Nil
  then show ?case by simp
next
  case (Cons b bs)
  have small: "8 \<le> LENGTH('a)" using Cons.prems by simp
  have "take_bit (LENGTH('a) - 8) (get_le bs :: 'a word) = get_le bs"
  proof -
    have "8 * length bs \<le> LENGTH('a) - 8" using Cons.prems by simp
    then have "take_bit (LENGTH('a) - 8) (take_bit (8 * length bs) (get_le bs :: 'a word))
        = take_bit (8 * length bs) (get_le bs)"
      by (simp add: min_def)
    moreover have "take_bit (8 * length bs) (get_le bs :: 'a word) = get_le bs"
      using Cons.prems by (intro get_le_bound) simp
    ultimately show ?thesis by metis
  qed
  then have "drop_bit 8 (ucast b OR push_bit 8 (get_le bs :: 'a word)) = get_le bs"
    using small by (simp only: get_le_tail)
  then show ?case using Cons small by (simp add: get_le_head del: drop_bit_or)
qed

lemma length_put_int [simp, wire_simps]:
  "length (put_u16 a) = 2" "length (put_u32 b) = 4" "length (put_u64 c) = 8"
  by (simp_all add: put_u16_def put_u32_def put_u64_def)

lemma take_bit_whole_word [simp]: "take_bit LENGTH('a) (w :: 'a::len word) = w"
  by (simp add: take_bit_word_eq_self)

lemma get_put_int [simp, wire_simps]:
  "get_u16 (put_u16 a @ r) = a" "get_u32 (put_u32 b @ r) = b" "get_u64 (put_u64 c @ r) = c"
  by (simp_all add: put_u16_def put_u32_def put_u64_def get_u16_def get_u32_def get_u64_def
      get_put_le take_bit_word_eq_self)

lemma get_put_int_nil [simp, wire_simps]:
  "get_u16 (put_u16 a) = a" "get_u32 (put_u32 b) = b" "get_u64 (put_u64 c) = c"
  using get_put_int [of _ "[]"] by simp_all

lemma put_get_int:
  "length bs = 2 \<Longrightarrow> put_u16 (get_u16 bs) = bs"
  "length bs = 4 \<Longrightarrow> put_u32 (get_u32 bs) = bs"
  "length bs = 8 \<Longrightarrow> put_u64 (get_u64 bs) = bs"
  using put_get_le [of bs, where 'a = 16] put_get_le [of bs, where 'a = 32]
    put_get_le [of bs, where 'a = 64]
  by (simp_all add: put_u16_def put_u32_def put_u64_def get_u16_def get_u32_def get_u64_def)

lemma unat_of_nat_bound:
  "n < 2 ^ 16 \<Longrightarrow> unat (of_nat n :: u16) = n"
  "n < 2 ^ 32 \<Longrightarrow> unat (of_nat n :: u32) = n"
  "n < 2 ^ 64 \<Longrightarrow> unat (of_nat n :: u64) = n"
  by (simp_all add: unat_of_nat)


section \<open>bytes.Compare\<close>

fun bytes_compare :: "bytes \<Rightarrow> bytes \<Rightarrow> int" where
  "bytes_compare [] [] = 0"
| "bytes_compare [] (y # ys) = - 1"
| "bytes_compare (x # xs) [] = 1"
| "bytes_compare (x # xs) (y # ys) =
     (if x < y then - 1 else if y < x then 1 else bytes_compare xs ys)"

lemma bytes_compare_cases:
  "bytes_compare a b = (if a < b then - 1 else if a = b then 0 else 1)"
  by (induction a b rule: bytes_compare.induct) auto

lemma bytes_compare_order [simp, order_simps]:
  "bytes_compare a b < 0 \<longleftrightarrow> a < b"
  "bytes_compare a b \<le> 0 \<longleftrightarrow> a \<le> b"
  "bytes_compare a b = 0 \<longleftrightarrow> a = b"
  "0 < bytes_compare a b \<longleftrightarrow> b < a"
  "0 \<le> bytes_compare a b \<longleftrightarrow> b \<le> a"
  by (auto simp: bytes_compare_cases)


section \<open>sort.Search and sort.Slice\<close>

function search_loop :: "(nat \<Rightarrow> bool) \<Rightarrow> nat \<Rightarrow> nat \<Rightarrow> nat" where
  "search_loop f i j =
     (if i < j then let h = (i + j) div 2 in
        if \<not> f h then search_loop f (h + 1) j else search_loop f i h
      else i)"
  by pat_completeness auto
termination
  by (relation "measure (\<lambda>(f, i, j). j - i)") auto

declare search_loop.simps [simp del]

definition sort_search :: "nat \<Rightarrow> (nat \<Rightarrow> bool) \<Rightarrow> nat" where
  "sort_search n f = search_loop f 0 n"

definition least_hit :: "(nat \<Rightarrow> bool) \<Rightarrow> nat \<Rightarrow> nat \<Rightarrow> bool" where
  "least_hit f n i \<longleftrightarrow> i \<le> n \<and> (\<forall>a < i. \<not> f a) \<and> (\<forall>a. i \<le> a \<longrightarrow> a < n \<longrightarrow> f a)"

lemma search_loop_spec:
  assumes mono: "\<And>a b. a \<le> b \<Longrightarrow> b < n \<Longrightarrow> f a \<Longrightarrow> f b"
  shows "i \<le> j \<Longrightarrow> j \<le> n \<Longrightarrow> \<forall>a < i. \<not> f a \<Longrightarrow> \<forall>a. j \<le> a \<longrightarrow> a < n \<longrightarrow> f a \<Longrightarrow>
    least_hit f n (search_loop f i j)"
proof (induction "j - i" arbitrary: i j rule: less_induct)
  case less
  let ?h = "(i + j) div 2"
  show ?case
  proof (cases "i < j")
    case False
    then have "search_loop f i j = i" by (simp add: search_loop.simps [of f i j])
    with False less.prems show ?thesis by (simp add: least_hit_def)
  next
    case True
    have h: "i \<le> ?h" "?h < j" "?h < n" using True less.prems(2) by auto
    show ?thesis
    proof (cases "f ?h")
      case fh: True
      have "\<forall>a. ?h \<le> a \<longrightarrow> a < n \<longrightarrow> f a" using mono fh by blast
      then have "least_hit f n (search_loop f i ?h)"
        using less.prems(3) h True by (intro less.hyps) simp_all
      then show ?thesis using True fh by (simp add: search_loop.simps [of f i j] Let_def)
    next
      case fh: False
      have "\<not> f a" if "a < ?h + 1" for a using mono [of a ?h] that fh h(3) by auto
      then have "least_hit f n (search_loop f (?h + 1) j)"
        using less.prems h True by (intro less.hyps) auto
      then show ?thesis using True fh by (simp add: search_loop.simps [of f i j] Let_def)
    qed
  qed
qed

text \<open>\<open>sort.Search\<close> finds the least index where a monotone predicate holds.\<close>

lemma sort_search_least:
  assumes "\<And>a b. a \<le> b \<Longrightarrow> b < n \<Longrightarrow> f a \<Longrightarrow> f b"
  shows "least_hit f n (sort_search n f)"
  unfolding sort_search_def using assms by (intro search_loop_spec) auto

lemma least_hit_unique: "least_hit f n i \<Longrightarrow> least_hit f n j \<Longrightarrow> i = j"
  unfolding least_hit_def by (meson nat_neq_iff order_less_le_trans le_refl)

lemma sort_search_eqI:
  assumes "\<And>a b. a \<le> b \<Longrightarrow> b < n \<Longrightarrow> f a \<Longrightarrow> f b" and "least_hit f n i"
  shows "sort_search n f = i"
  using sort_search_least [of n f] assms least_hit_unique by blast

text \<open>
  \<open>sort.Slice\<close> sorts by a less function; it is not stable, so its result is determined only up
  to elements neither of which is less than the other. The model is insertion sort.
\<close>

fun insort_by :: "('a \<Rightarrow> 'a \<Rightarrow> bool) \<Rightarrow> 'a \<Rightarrow> 'a list \<Rightarrow> 'a list" where
  "insort_by lt x [] = [x]"
| "insort_by lt x (y # ys) = (if lt y x then y # insort_by lt x ys else x # y # ys)"

definition sort_slice :: "('a \<Rightarrow> 'a \<Rightarrow> bool) \<Rightarrow> 'a list \<Rightarrow> 'a list" where
  "sort_slice lt xs = foldr (insort_by lt) xs []"

lemma set_insort_by [simp]: "set (insort_by lt x xs) = insert x (set xs)"
  by (induction xs) auto

lemma length_insort_by [simp]: "length (insort_by lt x xs) = Suc (length xs)"
  by (induction xs) auto

lemma set_sort_slice [simp]: "set (sort_slice lt xs) = set xs"
  by (induction xs) (auto simp: sort_slice_def)

lemma length_sort_slice [simp]: "length (sort_slice lt xs) = length xs"
  by (induction xs) (auto simp: sort_slice_def)

lemma sort_slice_Nil [simp]: "sort_slice lt [] = []"
  by (simp add: sort_slice_def)

lemma sort_slice_Cons: "sort_slice lt (x # xs) = insort_by lt x (sort_slice lt xs)"
  by (simp add: sort_slice_def)


section \<open>hash/crc32: the IEEE polynomial, reflected, bit by bit\<close>

definition crc_bit :: "u32 \<Rightarrow> u32" where
  "crc_bit c = (if bit c 0 then drop_bit 1 c XOR 0xEDB88320 else drop_bit 1 c)"

definition crc_byte :: "u32 \<Rightarrow> byte \<Rightarrow> u32" where
  "crc_byte c b = (crc_bit ^^ 8) (c XOR ucast b)"

definition crc32_update :: "u32 \<Rightarrow> bytes \<Rightarrow> u32" where
  "crc32_update c p = NOT (foldl crc_byte (NOT c) p)"

definition crc32_checksum :: "bytes \<Rightarrow> u32" where
  "crc32_checksum p = crc32_update 0 p"

lemma crc32_update_append [simp]: "crc32_update (crc32_update c p) q = crc32_update c (p @ q)"
  by (simp add: crc32_update_def)

lemma crc32_update_Nil [simp]: "crc32_update c [] = c"
  by (simp add: crc32_update_def)


section \<open>Files\<close>

text \<open>
  Positional access to a file's contents: \<open>WriteAt\<close> past the end fills the gap with zero
  bytes; \<open>ReadAt\<close> returns an end-of-file error (\<open>None\<close>) unless it fills the buffer;
  \<open>read_into\<close> is the buffer a caller sees when it ignores that error.
\<close>

definition write_at :: "bytes \<Rightarrow> nat \<Rightarrow> bytes \<Rightarrow> bytes" where
  "write_at file off data =
     (if data = [] then file
      else take off file @ replicate (off - length file) 0 @ data @ drop (off + length data) file)"

definition read_at :: "bytes \<Rightarrow> nat \<Rightarrow> nat \<Rightarrow> bytes option" where
  "read_at file off n = (if n = 0 \<or> off + n \<le> length file then Some (take n (drop off file)) else None)"

definition read_into :: "bytes \<Rightarrow> bytes \<Rightarrow> nat \<Rightarrow> bytes" where
  "read_into buf file off =
     (let got = take (length buf) (drop off file) in got @ drop (length got) buf)"

lemma length_read_into [simp]: "length (read_into buf file off) = length buf"
  by (simp add: read_into_def Let_def)

lemma write_at_end [simp]: "write_at file (length file) data = file @ data"
  by (simp add: write_at_def)

lemma read_at_length: "read_at file off n = Some d \<Longrightarrow> length d = n"
  by (auto simp: read_at_def split: if_splits)

lemma read_at_append:
  "read_at file off n = Some d \<Longrightarrow> read_at (file @ more) off n = Some d"
  by (auto simp: read_at_def split: if_splits)

lemma read_at_middle: "read_at (pre @ d @ post) (length pre) (length d) = Some d"
  by (simp add: read_at_def)

lemma read_into_full: "off + length buf \<le> length file \<Longrightarrow> read_into buf file off = take (length buf) (drop off file)"
  by (simp add: read_into_def Let_def)


section \<open>Sorted association lists\<close>

text \<open>
  The reference for ordered maps: insertion or overwriting in a list of pairs with strictly
  increasing keys. The memtable, the blocks and tables of an sstable and the merge of a compaction
  are all related to such lists.
\<close>

abbreviation sorted_keys :: "('k::linorder \<times> 'v) list \<Rightarrow> bool" where
  "sorted_keys kvs \<equiv> sorted_wrt (<) (map fst kvs)"

fun assoc_put :: "'k::linorder \<Rightarrow> 'v \<Rightarrow> ('k \<times> 'v) list \<Rightarrow> ('k \<times> 'v) list" where
  "assoc_put k v [] = [(k, v)]"
| "assoc_put k v (e # kvs) =
     (if fst e < k then e # assoc_put k v kvs
      else if fst e = k then (k, v) # kvs else (k, v) # e # kvs)"

lemma set_assoc_put_keys: "fst ` set (assoc_put k v kvs) = insert k (fst ` set kvs)"
  by (induction kvs) auto

lemma sorted_assoc_put: "sorted_keys kvs \<Longrightarrow> sorted_keys (assoc_put k v kvs)"
proof (induction kvs)
  case (Cons e kvs)
  then show ?case using set_assoc_put_keys [of k v kvs] by auto
qed simp

lemma map_of_assoc_put [simp]: "map_of (assoc_put k v kvs) = (map_of kvs)(k \<mapsto> v)"
  by (induction kvs) (auto simp: fun_eq_iff)

lemma assoc_put_split:
  assumes "\<forall>e \<in> set xs. fst e < k" "\<forall>e \<in> set ys. k < fst e"
  shows "assoc_put k v (xs @ ys) = xs @ (k, v) # ys" "assoc_put k v (xs @ (k, w) # ys) = xs @ (k, v) # ys"
  using assms by (induction xs) (auto, cases ys, auto)

lemma sorted_keys_distinct: "sorted_keys kvs \<Longrightarrow> distinct (map fst kvs)"
  by (induction kvs) auto

lemma map_of_sorted_append:
  "sorted_keys (xs @ ys) \<Longrightarrow> ys \<noteq> [] \<Longrightarrow>
    map_of (xs @ ys) k = (if fst (hd ys) \<le> k then map_of ys k else map_of xs k)"
proof -
  assume sorted: "sorted_keys (xs @ ys)" and ys: "ys \<noteq> []"
  have "k \<notin> fst ` set xs" if "fst (hd ys) \<le> k"
    using sorted ys that by (cases ys) (auto simp: sorted_wrt_append)
  moreover have "k \<notin> fst ` set ys" if "\<not> fst (hd ys) \<le> k"
    using sorted ys that by (cases ys) (auto simp: sorted_wrt_append)
  moreover have "map_of zs k = None" if "k \<notin> fst ` set zs" for zs :: "('a \<times> 'b) list"
    using that by (simp add: map_of_eq_None_iff)
  ultimately show ?thesis by (auto simp: map_add_def split: option.split)
qed


section \<open>Framed records\<close>

text \<open>
  The program writes records back to back, with no count and no separator, in four places: the
  index and the blocks of an sstable, the write-ahead log and the value log. The interface says
  what makes such a stream readable: the decoder recovers one record from the front of a stream
  and says how long it is, and the reading loop decodes until nothing is left.
\<close>

locale record_stream =
  fixes ok :: "'r \<Rightarrow> bool"
    and enc :: "'r \<Rightarrow> bytes"
    and dec :: "bytes \<Rightarrow> ('r \<times> nat) option"
    and loop :: "bytes \<Rightarrow> 'r list option"
  assumes dec_enc: "ok r \<Longrightarrow> dec (enc r @ rest) = Some (r, length (enc r))"
    and enc_nonempty: "ok r \<Longrightarrow> enc r \<noteq> []"
    and loop_nil: "loop [] = Some []"
    and loop_step: "data \<noteq> [] \<Longrightarrow> dec data = Some (r, n) \<Longrightarrow> loop data = map_option ((#) r) (loop (drop n data))"
begin

lemma loop_append:
  "list_all ok rs \<Longrightarrow> loop (concat (map enc rs) @ tail) = map_option ((@) rs) (loop tail)"
proof (induction rs)
  case Nil
  then show ?case by (cases "loop tail") auto
next
  case (Cons r rs)
  let ?rest = "concat (map enc rs) @ tail"
  have "loop (enc r @ ?rest) = map_option ((#) r) (loop (drop (length (enc r)) (enc r @ ?rest)))"
    using Cons.prems enc_nonempty [of r] dec_enc [of r ?rest] by (intro loop_step) auto
  then show ?case using Cons by (cases "loop tail") (auto simp: option.map_comp)
qed

lemma loop_concat: "list_all ok rs \<Longrightarrow> loop (concat (map enc rs)) = Some rs"
  using loop_append [of rs "[]"] by (simp add: loop_nil)

lemma enc_injective: "ok r \<Longrightarrow> ok s \<Longrightarrow> enc r = enc s \<Longrightarrow> r = s"
  using dec_enc by (metis option.inject prod.inject)

lemma streams_injective:
  "list_all ok rs \<Longrightarrow> list_all ok ss \<Longrightarrow> concat (map enc rs) = concat (map enc ss) \<Longrightarrow> rs = ss"
  using loop_concat by (metis option.inject)

end


text \<open>Go maps that are iterated or counted are association lists with distinct keys.\<close>

lemma alist_update_subset: "set (AList.update k v al) \<subseteq> insert (k, v) (set al)"
  by (induction al) auto

lemma alist_update_keys: "fst ` set (AList.update k v al) = insert k (fst ` set al)"
  by (induction al) auto


section \<open>Cursors\<close>

text \<open>
  The iterator protocol of the program (\<open>Valid\<close>, \<open>Key\<close>, \<open>Value\<close>, \<open>Next\<close>), shared by the memtable and
  the sstable iterators: the entries a loop over an iterator visits in at most \<open>k\<close> steps.
\<close>

fun drain :: "('s \<Rightarrow> bool) \<Rightarrow> ('s \<Rightarrow> bytes option option) \<Rightarrow> ('s \<Rightarrow> bytes option option) \<Rightarrow> ('s \<Rightarrow> 's option) \<Rightarrow>
    nat \<Rightarrow> 's \<Rightarrow> ((bytes \<times> bytes) list \<times> 's) option" where
  "drain valid key val nxt 0 st = Some ([], st)"
| "drain valid key val nxt (Suc k) st =
     (if \<not> valid st then Some ([], st)
      else case (key st, val st, nxt st) of
        (Some (Some kk), Some (Some v), Some st') \<Rightarrow>
          map_option (\<lambda>(es, s). ((kk, v) # es, s)) (drain valid key val nxt k st')
      | _ \<Rightarrow> None)"

locale cursor =
  fixes at :: "'s \<Rightarrow> (bytes \<times> bytes) list \<Rightarrow> nat \<Rightarrow> bool"
    and valid :: "'s \<Rightarrow> bool"
    and key :: "'s \<Rightarrow> bytes option option"
    and val :: "'s \<Rightarrow> bytes option option"
    and nxt :: "'s \<Rightarrow> 's option"
  assumes valid_at: "at st kvs n \<Longrightarrow> valid st = (n < length kvs)"
    and key_at: "at st kvs n \<Longrightarrow> n < length kvs \<Longrightarrow> key st = Some (Some (fst (kvs ! n)))"
    and val_at: "at st kvs n \<Longrightarrow> n < length kvs \<Longrightarrow> val st = Some (Some (snd (kvs ! n)))"
    and next_at: "at st kvs n \<Longrightarrow> n < length kvs \<Longrightarrow> \<exists>st'. nxt st = Some st' \<and> at st' kvs (Suc n)"
    and at_bound: "at st kvs n \<Longrightarrow> n \<le> length kvs"
begin

lemma drain_all:
  "at st kvs n \<Longrightarrow> length kvs - n \<le> k \<Longrightarrow>
    \<exists>st'. drain valid key val nxt k st = Some (drop n kvs, st') \<and> at st' kvs (length kvs) \<and> \<not> valid st'"
proof (induction k arbitrary: st n)
  case 0
  then have "n = length kvs" using at_bound [of st kvs n] by simp
  then show ?case using 0 valid_at [of st kvs n] by auto
next
  case (Suc k)
  show ?case
  proof (cases "n < length kvs")
    case True
    obtain st1 where st1: "nxt st = Some st1" "at st1 kvs (Suc n)" using next_at [OF Suc.prems(1) True] by blast
    obtain st' where "drain valid key val nxt k st1 = Some (drop (Suc n) kvs, st')" "at st' kvs (length kvs)" "\<not> valid st'"
    proof -
      have "length kvs - Suc n \<le> k" using Suc.prems(2) by simp
      from Suc.IH [OF st1(2) this] show ?thesis using that by blast
    qed
    then show ?thesis
      using st1(1) valid_at [OF Suc.prems(1)] key_at [OF Suc.prems(1) True] val_at [OF Suc.prems(1) True] True
      by (simp add: Cons_nth_drop_Suc [OF True, symmetric])
  next
    case False
    then have "n = length kvs" using at_bound [OF Suc.prems(1)] by simp
    then show ?thesis using Suc.prems(1) valid_at [OF Suc.prems(1)] by auto
  qed
qed

end

end
