(* ===== verification/Bloom.thy ===== *)
theory Bloom
  imports Seol_Prelude Complex_Main
begin

text \<open>
  The Bloom filter of \<^verbatim>\<open>src/bloom/bloom.go\<close>: 64-bit words, a probe sequence derived from one
  xxh3 hash, and the binary format stored at the front of every sstable.

  The hash function (\<^verbatim>\<open>xxh3.HashSeed\<close> and \<^verbatim>\<open>xxh3.HashStringSeed\<close>, a third-party
  package) is a parameter of every definition that uses it. The two floating-point expressions of
  the sizing functions are parameters too (\<open>fbits\<close>, \<open>fhashes\<close>: the value of the expression before
  it is rounded); the rounding and clamping around them is modelled. A panic is the value \<open>None\<close>.
  The lemmas show that no added key is ever reported absent, that the answer of \<open>AddHash\<close> is the
  membership answer before the insertion, that no operation on a well-formed filter reads a word
  out of range, and that the binary format is a faithful, canonical encoding.
\<close>

section \<open>Model\<close>

record Filter =
  words :: "u64 list"
  numBits :: u64
  numHashes :: u32
  seed :: u64

definition derivedHashMultiplier :: u64 where "derivedHashMultiplier = 0x517cc1b727220a95"
definition WordBits :: int where "WordBits = 64"
definition Magic :: u32 where "Magic = 0xB100F11E"
definition Version :: byte where "Version = 1"
definition HeaderSize :: nat where "HeaderSize = 4 + 1 + 8 + 4 + 8"

datatype bloom_error =
    DataTooShort
  | InvalidMagic u32
  | UnsupportedVersion byte
  | InvalidBitCount u64
  | InvalidHashCount u32
  | InvalidDataLength nat

definition bloom_index :: "u64 \<Rightarrow> u64 \<Rightarrow> u64" where
  "bloom_index nbits hash = word_of_int ((uint hash * uint nbits) div 2 ^ 64)"

definition wordCount :: "int \<Rightarrow> int" where
  "wordCount nbits = (nbits + 63) div 64"

definition normalizeItems :: "int \<Rightarrow> int" where
  "normalizeItems n = (if n < 1 then 1 else n)"

definition normalizeHashes :: "int \<Rightarrow> u32" where
  "normalizeHashes n = (if n < 1 then 1 else of_int n)"

text \<open>\<open>math.Round\<close> rounds half away from zero.\<close>

definition go_round :: "real \<Rightarrow> int" where
  "go_round x = (if x < 0 then \<lceil>x - 1 / 2\<rceil> else \<lfloor>x + 1 / 2\<rfloor>)"

definition optimalHashes :: "(int \<Rightarrow> int \<Rightarrow> real) \<Rightarrow> int \<Rightarrow> int \<Rightarrow> u32" where
  "optimalHashes fhashes nbits items =
     (let hashes = go_round (fhashes nbits items) in if hashes < 1 then 1 else of_int hashes)"

definition optimalBits :: "(int \<Rightarrow> real \<Rightarrow> real) \<Rightarrow> int \<Rightarrow> real \<Rightarrow> int" where
  "optimalBits fbits items rate =
     (let bits = fbits items rate in if bits < 1 then WordBits else \<lceil>bits\<rceil>)"

definition NewSeeded :: "int \<Rightarrow> int \<Rightarrow> u64 \<Rightarrow> Filter option" where
  "NewSeeded nbits nhashes sd =
     (if nbits \<le> 0 then None
      else let n = wordCount nbits in
        Some \<lparr>words = replicate (nat n) 0, numBits = of_int (n * WordBits),
              numHashes = normalizeHashes nhashes, seed = sd\<rparr>)"

definition New :: "int \<Rightarrow> int \<Rightarrow> Filter option" where
  "New nbits nhashes = NewSeeded nbits nhashes 0"

definition NewForSeeded ::
    "(int \<Rightarrow> real \<Rightarrow> real) \<Rightarrow> (int \<Rightarrow> int \<Rightarrow> real) \<Rightarrow> int \<Rightarrow> real \<Rightarrow> u64 \<Rightarrow> Filter option" where
  "NewForSeeded fbits fhashes expectedItems rate sd =
     (if rate \<le> 0 \<or> rate \<ge> 1 then None
      else let items = normalizeItems expectedItems;
               nbits = optimalBits fbits items rate;
               n = wordCount nbits;
               actualBits = n * WordBits
        in Some \<lparr>words = replicate (nat n) 0, numBits = of_int actualBits,
                 numHashes = optimalHashes fhashes actualBits items, seed = sd\<rparr>)"

definition NewFor :: "(int \<Rightarrow> real \<Rightarrow> real) \<Rightarrow> (int \<Rightarrow> int \<Rightarrow> real) \<Rightarrow> int \<Rightarrow> real \<Rightarrow> Filter option" where
  "NewFor fbits fhashes expectedItems rate = NewForSeeded fbits fhashes expectedItems rate 0"

definition NumBits :: "Filter \<Rightarrow> int" where
  "NumBits f = sint (numBits f)"

definition NumHashes :: "Filter \<Rightarrow> int" where
  "NumHashes f = uint (numHashes f)"

definition filter_check :: "Filter \<Rightarrow> u64 \<Rightarrow> bool option" where
  "filter_check f idx =
     (let w = unat (drop_bit 6 idx); mask = push_bit (unat (idx AND 63)) (1 :: u64) in
      if w < length (words f) then Some (words f ! w AND mask \<noteq> 0) else None)"

definition filter_set :: "Filter \<Rightarrow> u64 \<Rightarrow> (Filter \<times> bool) option" where
  "filter_set f idx =
     (let w = unat (drop_bit 6 idx); mask = push_bit (unat (idx AND 63)) (1 :: u64) in
      if w < length (words f)
      then Some (f\<lparr>words := (words f)[w := words f ! w OR mask]\<rparr>, words f ! w AND mask \<noteq> 0)
      else None)"

text \<open>The loops of \<open>AddHash\<close> and \<open>ContainsHash\<close>; the count is the number of rounds left.\<close>

fun addHash_loop :: "nat \<Rightarrow> u64 \<Rightarrow> u64 \<Rightarrow> Filter \<Rightarrow> bool \<Rightarrow> (Filter \<times> bool) option" where
  "addHash_loop 0 h1 h2 f prev = Some (f, prev)"
| "addHash_loop (Suc k) h1 h2 f prev =
     (let h1' = word_rotl 5 h1 + h2 in
      case filter_set f (bloom_index (numBits f) h1') of
        None \<Rightarrow> None
      | Some (f', wasSet) \<Rightarrow> addHash_loop k h1' h2 f' (prev \<and> wasSet))"

definition AddHash :: "Filter \<Rightarrow> u64 \<Rightarrow> (Filter \<times> bool) option" where
  "AddHash f hash =
     (case filter_set f (bloom_index (numBits f) hash) of
        None \<Rightarrow> None
      | Some (f', prev) \<Rightarrow>
          if numHashes f' = 1 then Some (f', prev)
          else addHash_loop (unat (numHashes f') - 1) hash (hash * derivedHashMultiplier) f' prev)"

fun containsHash_loop :: "nat \<Rightarrow> u64 \<Rightarrow> u64 \<Rightarrow> Filter \<Rightarrow> bool option" where
  "containsHash_loop 0 h1 h2 f = Some True"
| "containsHash_loop (Suc k) h1 h2 f =
     (let h1' = word_rotl 5 h1 + h2 in
      case filter_check f (bloom_index (numBits f) h1') of
        None \<Rightarrow> None
      | Some False \<Rightarrow> Some False
      | Some True \<Rightarrow> containsHash_loop k h1' h2 f)"

definition ContainsHash :: "Filter \<Rightarrow> u64 \<Rightarrow> bool option" where
  "ContainsHash f hash =
     (case filter_check f (bloom_index (numBits f) hash) of
        None \<Rightarrow> None
      | Some False \<Rightarrow> Some False
      | Some True \<Rightarrow>
          if numHashes f = 1 then Some True
          else containsHash_loop (unat (numHashes f) - 1) hash (hash * derivedHashMultiplier) f)"

definition Add :: "(bytes \<Rightarrow> u64 \<Rightarrow> u64) \<Rightarrow> bytes \<Rightarrow> Filter \<Rightarrow> (Filter \<times> bool) option" where
  "Add xxh3 b f = AddHash f (xxh3 b (seed f))"

definition Contains :: "(bytes \<Rightarrow> u64 \<Rightarrow> u64) \<Rightarrow> bytes \<Rightarrow> Filter \<Rightarrow> bool option" where
  "Contains xxh3 b f = ContainsHash f (xxh3 b (seed f))"

definition AddString :: "(string \<Rightarrow> u64 \<Rightarrow> u64) \<Rightarrow> string \<Rightarrow> Filter \<Rightarrow> (Filter \<times> bool) option" where
  "AddString xxh3s s f = AddHash f (xxh3s s (seed f))"

definition ContainsString :: "(string \<Rightarrow> u64 \<Rightarrow> u64) \<Rightarrow> string \<Rightarrow> Filter \<Rightarrow> bool option" where
  "ContainsString xxh3s s f = ContainsHash f (xxh3s s (seed f))"

definition Reset :: "Filter \<Rightarrow> Filter" where
  "Reset f = f\<lparr>words := replicate (length (words f)) 0\<rparr>"

definition MarshalBinary :: "Filter \<Rightarrow> bytes" where
  "MarshalBinary f =
     put_u32 Magic @ [Version] @ put_u64 (numBits f) @ put_u32 (numHashes f) @ put_u64 (seed f)
     @ concat (map put_u64 (words f))"

fun read_words :: "nat \<Rightarrow> bytes \<Rightarrow> u64 list" where
  "read_words 0 data = []"
| "read_words (Suc n) data = get_u64 data # read_words n (drop 8 data)"

definition UnmarshalBinary :: "bytes \<Rightarrow> bloom_error + Filter" where
  "UnmarshalBinary data =
     (if length data < HeaderSize then Inl DataTooShort
      else if get_u32 data \<noteq> Magic then Inl (InvalidMagic (get_u32 data))
      else if data ! 4 \<noteq> Version then Inl (UnsupportedVersion (data ! 4))
      else let nb = get_u64 (drop 5 data) in
        if nb = 0 \<or> nb mod 64 \<noteq> 0 then Inl (InvalidBitCount nb)
        else let nh = get_u32 (drop 13 data) in
          if nh = 0 then Inl (InvalidHashCount nh)
          else let wc = unat (nb div 64) in
            if length data \<noteq> HeaderSize + wc * 8 then Inl (InvalidDataLength (length data))
            else Inr \<lparr>words = read_words wc (drop HeaderSize data), numBits = nb,
                      numHashes = nh, seed = get_u64 (drop 17 data)\<rparr>)"

definition ReadFilter :: "bytes \<Rightarrow> bloom_error + Filter" where
  "ReadFilter data = UnmarshalBinary data"

section \<open>Well-formed filters and the bits they hold\<close>

definition wf_filter :: "Filter \<Rightarrow> bool" where
  "wf_filter f \<longleftrightarrow> words f \<noteq> [] \<and> unat (numBits f) = 64 * length (words f) \<and> numHashes f \<noteq> 0"

definition bit_on :: "Filter \<Rightarrow> nat \<Rightarrow> bool" where
  "bit_on f i \<longleftrightarrow> i < 64 * length (words f) \<and> bit (words f ! (i div 64)) (i mod 64)"

definition same_shape :: "Filter \<Rightarrow> Filter \<Rightarrow> bool" where
  "same_shape f g \<longleftrightarrow> length (words g) = length (words f) \<and> numBits g = numBits f \<and>
     numHashes g = numHashes f \<and> seed g = seed f"

text \<open>The hashes probed after the first one, and the bit positions probed for a source hash.\<close>

fun probe_rest :: "nat \<Rightarrow> u64 \<Rightarrow> u64 \<Rightarrow> u64 list" where
  "probe_rest 0 h1 h2 = []"
| "probe_rest (Suc k) h1 h2 = (let h1' = word_rotl 5 h1 + h2 in h1' # probe_rest k h1' h2)"

definition probes :: "Filter \<Rightarrow> u64 \<Rightarrow> nat set" where
  "probes f hash = (\<lambda>h. unat (bloom_index (numBits f) h)) `
     set (hash # probe_rest (unat (numHashes f) - 1) hash (hash * derivedHashMultiplier))"

lemma same_shape_refl [simp]: "same_shape f f"
  by (simp add: same_shape_def)

lemma same_shape_trans: "same_shape f g \<Longrightarrow> same_shape g h \<Longrightarrow> same_shape f h"
  by (simp add: same_shape_def)

lemma same_shape_wf: "same_shape f g \<Longrightarrow> wf_filter f \<Longrightarrow> wf_filter g"
  by (auto simp: same_shape_def wf_filter_def)

lemma same_shape_probes: "same_shape f g \<Longrightarrow> probes g h = probes f h"
  by (simp add: same_shape_def probes_def)

lemma wf_filter_numBits_pos: "wf_filter f \<Longrightarrow> numBits f \<noteq> 0"
  by (auto simp: wf_filter_def)

lemma bloom_index_bound:
  assumes "nb \<noteq> 0"
  shows "unat (bloom_index nb h) < unat nb"
proof -
  have nb: "0 < uint nb" using assms uint_0_iff [of nb] uint_ge_0 [of nb] by linarith
  have h: "uint h < 2 ^ 64" using uint_lt2p [of h] by simp
  have "uint h * uint nb < uint nb * 2 ^ 64"
    using mult_strict_right_mono [OF h nb] by (simp add: mult.commute)
  then have q: "uint h * uint nb div 2 ^ 64 < uint nb"
    by (simp add: div_less_iff_less_mult)
  have "0 \<le> uint h * uint nb div 2 ^ 64"
    by (simp add: pos_imp_zdiv_nonneg_iff)
  moreover have "uint nb < 2 ^ 64" using uint_lt2p [of nb] by simp
  ultimately have "uint (bloom_index nb h) = uint h * uint nb div 2 ^ 64"
    using q by (simp add: bloom_index_def uint_word_of_int_eq take_bit_int_eq_self)
  with q have "uint (bloom_index nb h) < uint nb" by simp
  then show ?thesis by (simp add: unat_mono word_less_def)
qed

lemma probe_in_range: "wf_filter f \<Longrightarrow> unat (bloom_index (numBits f) h) < 64 * length (words f)"
  using bloom_index_bound [of "numBits f" h] wf_filter_numBits_pos [of f] by (simp add: wf_filter_def)

lemma unat_word_index: "unat (drop_bit 6 (idx :: u64)) = unat idx div 64"
  by (simp only: unat_drop_bit_eq) (simp add: drop_bit_eq_div)

lemma unat_bit_index: "unat ((idx :: u64) AND 63) = unat idx mod 64"
proof -
  have "(63 :: u64) = mask 6" by (simp add: mask_eq_exp_minus_1)
  then have "idx AND 63 = take_bit 6 idx" by (simp add: take_bit_eq_mask)
  then show ?thesis by (simp only: unsigned_take_bit_eq) (simp add: take_bit_eq_mod)
qed

lemma filter_check_spec:
  "unat idx < 64 * length (words f) \<Longrightarrow> filter_check f idx = Some (bit_on f (unat idx))"
  by (simp add: filter_check_def bit_on_def unat_word_index unat_bit_index Let_def
      bit_iff_and_push_bit_not_eq_0 less_mult_imp_div_less)

lemma filter_set_spec:
  assumes "unat idx < 64 * length (words f)"
  obtains g where "filter_set f idx = Some (g, bit_on f (unat idx))" "same_shape f g"
    "\<And>i. bit_on g i \<longleftrightarrow> bit_on f i \<or> i = unat idx"
proof -
  let ?w = "unat idx div 64" and ?b = "unat idx mod 64"
  let ?g = "f\<lparr>words := (words f)[?w := words f ! ?w OR push_bit ?b 1]\<rparr>"
  have w: "?w < length (words f)" using assms by (simp add: less_mult_imp_div_less)
  have eq: "filter_set f idx = Some (?g, bit_on f (unat idx))"
    using w assms by (simp add: filter_set_def bit_on_def unat_word_index unat_bit_index Let_def
        bit_iff_and_push_bit_not_eq_0)
  have "bit_on ?g i \<longleftrightarrow> bit_on f i \<or> i = unat idx" for i
  proof (cases "i div 64 = ?w")
    case True
    then have "i = unat idx \<longleftrightarrow> i mod 64 = ?b" by (metis mult_div_mod_eq)
    moreover have "i < 64 * length (words f)" using True w by linarith
    ultimately show ?thesis using True w
      by (auto simp: bit_on_def bit_or_iff bit_exp_iff)
  next
    case False
    then show ?thesis by (auto simp: bit_on_def)
  qed
  moreover have "same_shape f ?g" by (simp add: same_shape_def)
  ultimately show ?thesis using eq that by blast
qed

section \<open>Membership\<close>

lemma containsHash_loop_spec:
  "wf_filter f \<Longrightarrow> containsHash_loop k h1 h2 f =
     Some (\<forall>h \<in> set (probe_rest k h1 h2). bit_on f (unat (bloom_index (numBits f) h)))"
  by (induction k arbitrary: h1)
     (auto simp: Let_def filter_check_spec probe_in_range split: bool.split)

lemma ContainsHash_spec:
  "wf_filter f \<Longrightarrow> ContainsHash f hash = Some (\<forall>i \<in> probes f hash. bit_on f i)"
  by (auto simp: ContainsHash_def probes_def filter_check_spec probe_in_range
      containsHash_loop_spec split: bool.split)

lemma addHash_loop_spec:
  assumes "wf_filter f"
  shows "\<exists>g. addHash_loop k h1 h2 f prev = Some (g, prev \<and>
      (\<forall>h \<in> set (probe_rest k h1 h2). bit_on f (unat (bloom_index (numBits f) h)))) \<and> same_shape f g \<and>
    (\<forall>i. bit_on g i \<longleftrightarrow> bit_on f i \<or>
      i \<in> (\<lambda>h. unat (bloom_index (numBits f) h)) ` set (probe_rest k h1 h2))"
  using assms
proof (induction k arbitrary: h1 f prev)
  case 0
  then show ?case by simp
next
  case (Suc k)
  let ?h = "word_rotl 5 h1 + h2"
  let ?idx = "bloom_index (numBits f) ?h"
  obtain g where g: "filter_set f ?idx = Some (g, bit_on f (unat ?idx))" "same_shape f g"
    "\<And>i. bit_on g i \<longleftrightarrow> bit_on f i \<or> i = unat ?idx"
    using filter_set_spec [OF probe_in_range [OF Suc.prems, of ?h]] by blast
  have nb: "numBits g = numBits f" using g(2) by (simp add: same_shape_def)
  obtain g' where g': "addHash_loop k ?h h2 g (prev \<and> bit_on f (unat ?idx)) =
      Some (g', (prev \<and> bit_on f (unat ?idx)) \<and>
        (\<forall>h \<in> set (probe_rest k ?h h2). bit_on g (unat (bloom_index (numBits g) h))))"
    "same_shape g g'"
    "\<forall>i. bit_on g' i \<longleftrightarrow> bit_on g i \<or> i \<in> (\<lambda>h. unat (bloom_index (numBits g) h)) ` set (probe_rest k ?h h2)"
    using Suc.IH [OF same_shape_wf [OF g(2) Suc.prems]] by blast
  show ?case
  proof (intro exI conjI)
    show "addHash_loop (Suc k) h1 h2 f prev = Some (g', prev \<and>
      (\<forall>h \<in> set (probe_rest (Suc k) h1 h2). bit_on f (unat (bloom_index (numBits f) h))))"
      using g(1,3) g'(1) nb by (auto simp: Let_def)
    show "same_shape f g'" using g(2) g'(2) by (rule same_shape_trans)
    show "\<forall>i. bit_on g' i \<longleftrightarrow> bit_on f i \<or>
      i \<in> (\<lambda>h. unat (bloom_index (numBits f) h)) ` set (probe_rest (Suc k) h1 h2)"
      using g'(3) g(3) nb by (auto simp: Let_def)
  qed
qed

lemma AddHash_spec:
  assumes "wf_filter f"
  obtains g where "AddHash f hash = Some (g, \<forall>i \<in> probes f hash. bit_on f i)" "same_shape f g"
    "\<And>i. bit_on g i \<longleftrightarrow> bit_on f i \<or> i \<in> probes f hash"
proof -
  let ?idx = "bloom_index (numBits f) hash" and ?k = "unat (numHashes f) - 1"
  let ?h2 = "hash * derivedHashMultiplier"
  obtain g where g: "filter_set f ?idx = Some (g, bit_on f (unat ?idx))" "same_shape f g"
    "\<And>i. bit_on g i \<longleftrightarrow> bit_on f i \<or> i = unat ?idx"
    using filter_set_spec [OF probe_in_range [OF assms, of hash]] by blast
  have nb: "numBits g = numBits f" "numHashes g = numHashes f" using g(2) by (simp_all add: same_shape_def)
  obtain g' where g': "addHash_loop ?k hash ?h2 g (bit_on f (unat ?idx)) =
      Some (g', bit_on f (unat ?idx) \<and>
        (\<forall>h \<in> set (probe_rest ?k hash ?h2). bit_on g (unat (bloom_index (numBits g) h))))"
    "same_shape g g'"
    "\<forall>i. bit_on g' i \<longleftrightarrow> bit_on g i \<or> i \<in> (\<lambda>h. unat (bloom_index (numBits g) h)) ` set (probe_rest ?k hash ?h2)"
    using addHash_loop_spec [OF same_shape_wf [OF g(2) assms]] by blast
  have "AddHash f hash = addHash_loop ?k hash ?h2 g (bit_on f (unat ?idx))"
    using g(1) nb by (simp add: AddHash_def)
  then have "AddHash f hash = Some (g', \<forall>i \<in> probes f hash. bit_on f i)"
    using g'(1) g(3) nb by (auto simp: probes_def)
  moreover have "same_shape f g'" using g(2) g'(2) by (rule same_shape_trans)
  moreover have "bit_on g' i \<longleftrightarrow> bit_on f i \<or> i \<in> probes f hash" for i
    using g'(3) g(3) nb by (auto simp: probes_def)
  ultimately show ?thesis by (rule that)
qed

section \<open>The interface the sstable relies on\<close>

text \<open>
  An approximate set: insertion and the membership test are total on well-formed values, an
  inserted element is reported present, and later insertions never take that answer back.
\<close>

primrec add_all :: "('k \<Rightarrow> 'f \<Rightarrow> ('f \<times> bool) option) \<Rightarrow> 'k list \<Rightarrow> 'f \<Rightarrow> 'f option" where
  "add_all add [] f = Some f"
| "add_all add (k # ks) f = (case add k f of None \<Rightarrow> None | Some (g, _) \<Rightarrow> add_all add ks g)"

locale approximate_set =
  fixes wf :: "'f \<Rightarrow> bool"
    and add :: "'k \<Rightarrow> 'f \<Rightarrow> ('f \<times> bool) option"
    and contains :: "'k \<Rightarrow> 'f \<Rightarrow> bool option"
  assumes add_total: "wf f \<Longrightarrow> \<exists>g b. add k f = Some (g, b) \<and> wf g"
    and contains_total: "wf f \<Longrightarrow> \<exists>b. contains k f = Some b"
    and contains_added: "wf f \<Longrightarrow> add k f = Some (g, b) \<Longrightarrow> contains k g = Some True"
    and contains_kept: "wf f \<Longrightarrow> add j f = Some (g, b) \<Longrightarrow> contains k f = Some True \<Longrightarrow> contains k g = Some True"
begin

lemma add_wf: "wf f \<Longrightarrow> add k f = Some (g, b) \<Longrightarrow> wf g"
  using add_total [of f k] by auto

lemma add_all_total: "wf f \<Longrightarrow> \<exists>g. add_all add ks f = Some g \<and> wf g"
proof (induction ks arbitrary: f)
  case Nil
  then show ?case by simp
next
  case (Cons k ks)
  then obtain g b where "add k f = Some (g, b)" "wf g" using add_total by blast
  then show ?case using Cons.IH by simp
qed

lemma add_all_kept:
  "wf f \<Longrightarrow> add_all add ks f = Some g \<Longrightarrow> contains k f = Some True \<Longrightarrow> contains k g = Some True"
proof (induction ks arbitrary: f)
  case (Cons j ks)
  then obtain h b where h: "add j f = Some (h, b)" "add_all add ks h = Some g"
    by (auto split: option.splits)
  moreover have "wf h" using add_wf [OF Cons.prems(1) h(1)] .
  ultimately show ?case using Cons.IH [of h] contains_kept Cons.prems by blast
qed simp

lemma no_false_negative:
  "wf f \<Longrightarrow> add_all add ks f = Some g \<Longrightarrow> k \<in> set ks \<Longrightarrow> contains k g = Some True"
proof (induction ks arbitrary: f)
  case (Cons j ks)
  then obtain h b where h: "add j f = Some (h, b)" "add_all add ks h = Some g"
    by (auto split: option.splits)
  have wf: "wf h" using add_wf [OF Cons.prems(1) h(1)] .
  show ?case
  proof (cases "k = j")
    case True
    then have "contains k h = Some True" using contains_added Cons.prems(1) h(1) by blast
    then show ?thesis using add_all_kept wf h(2) by blast
  next
    case False
    then show ?thesis using Cons.IH [OF wf h(2)] Cons.prems(3) by simp
  qed
qed simp

end

lemma AddHash_shape: "wf_filter f \<Longrightarrow> AddHash f h = Some (g, b) \<Longrightarrow> same_shape f g"
  by (rule AddHash_spec [of f h]) auto

lemma Add_spec:
  assumes "wf_filter f" "Add xxh3 k f = Some (g, b)"
  shows "same_shape f g" "bit_on g i \<longleftrightarrow> bit_on f i \<or> i \<in> probes f (xxh3 k (seed f))"
    "b \<longleftrightarrow> (\<forall>i \<in> probes f (xxh3 k (seed f)). bit_on f i)"
  using assms(2) by (rule_tac [!] AddHash_spec [OF assms(1), of "xxh3 k (seed f)"]) (auto simp: Add_def)

lemma ContainsHash_same_shape:
  assumes "wf_filter f" "same_shape f g"
  shows "ContainsHash g h = Some (\<forall>i \<in> probes f h. bit_on g i)"
  using ContainsHash_spec [OF same_shape_wf [OF assms(2,1)], of h] same_shape_probes [OF assms(2)] by simp

interpretation bloom: approximate_set wf_filter "Add xxh3" "Contains xxh3" for xxh3
proof unfold_locales
  fix f k
  assume wf: "wf_filter f"
  show "\<exists>g b. Add xxh3 k f = Some (g, b) \<and> wf_filter g"
    using same_shape_wf [OF _ wf] by (rule_tac AddHash_spec [OF wf, of "xxh3 k (seed f)"]) (auto simp: Add_def)
next
  fix f k
  assume "wf_filter f"
  then show "\<exists>b. Contains xxh3 k f = Some b" by (simp add: Contains_def ContainsHash_spec)
next
  fix f k g b
  assume wf: "wf_filter f" and add: "Add xxh3 k f = Some (g, b)"
  note g = Add_spec [OF wf add]
  then show "Contains xxh3 k g = Some True"
    by (simp add: Contains_def ContainsHash_same_shape [OF wf g(1)] same_shape_def)
next
  fix f j g b k
  assume wf: "wf_filter f" and add: "Add xxh3 j f = Some (g, b)" and old: "Contains xxh3 k f = Some True"
  note g = Add_spec [OF wf add]
  have "\<forall>i \<in> probes f (xxh3 k (seed f)). bit_on f i"
    using old wf by (simp add: Contains_def ContainsHash_spec)
  moreover have "seed g = seed f" using g(1) by (simp add: same_shape_def)
  ultimately show "Contains xxh3 k g = Some True"
    using g(2) by (simp add: Contains_def ContainsHash_same_shape [OF wf g(1)])
qed

section \<open>Construction, reset and the binary format\<close>

lemma wordCount_pos: "0 < n \<Longrightarrow> 0 < wordCount n"
  by (simp add: wordCount_def)

lemma wf_blank_filter:
  assumes "0 < n" "64 * n < 2 ^ 64" "nh \<noteq> 0"
  shows "wf_filter \<lparr>words = replicate (nat n) 0, numBits = of_int (n * WordBits), numHashes = nh, seed = sd\<rparr>"
proof -
  have "uint (word_of_int (n * 64) :: u64) = n * 64"
    using assms(1,2) by (simp only: uint_word_of_int_eq) (simp add: take_bit_int_eq_self)
  then have "nat (uint (word_of_int (n * 64) :: u64)) = 64 * nat n"
    using assms(1) by (metis mult.commute nat_mult_distrib nat_numeral zero_le_numeral)
  then have "unat (word_of_int (n * 64) :: u64) = 64 * nat n"
    by (simp only: unat_eq_nat_uint)
  moreover have "replicate (nat n) (0 :: u64) \<noteq> []" using assms(1) by simp
  ultimately show ?thesis
    using assms(3) by (simp only: wf_filter_def WordBits_def Filter.simps length_replicate not_False_eq_True simp_thms)
qed

lemma bit_on_blank [simp]: "\<not> bit_on \<lparr>words = replicate n 0, numBits = nb, numHashes = nh, seed = sd\<rparr> i"
  by (simp add: bit_on_def less_mult_imp_div_less)

lemma length_read_words [simp]: "length (read_words n d) = n"
  by (induction n arbitrary: d) auto

lemma read_words_concat [wire_simps]: "read_words (length ws) (concat (map put_u64 ws)) = ws"
  by (induction ws) auto

lemma concat_read_words: "length d = n * 8 \<Longrightarrow> concat (map put_u64 (read_words n d)) = d"
proof (induction n arbitrary: d)
  case (Suc n)
  have "put_u64 (get_u64 d) = take 8 d"
    using put_get_int(3) [of "take 8 d"] Suc.prems by (simp add: get_u64_def)
  then show ?case using Suc by simp
qed simp

lemma length_concat_put_u64: "length (concat (map put_u64 ws)) = 8 * length ws"
  by (induction ws) auto

lemma length_MarshalBinary [simp]: "length (MarshalBinary f) = HeaderSize + 8 * length (words f)"
  by (simp add: MarshalBinary_def HeaderSize_def length_concat_put_u64)

lemma MarshalBinary_fields:
  "get_u32 (MarshalBinary f) = Magic" "MarshalBinary f ! 4 = Version"
  "get_u64 (drop 5 (MarshalBinary f)) = numBits f" "get_u32 (drop 13 (MarshalBinary f)) = numHashes f"
  "get_u64 (drop 17 (MarshalBinary f)) = seed f"
  "drop HeaderSize (MarshalBinary f) = concat (map put_u64 (words f))"
  by (simp_all add: MarshalBinary_def HeaderSize_def nth_append)

lemma wf_numBits_div: "wf_filter f \<Longrightarrow> unat (numBits f div 64) = length (words f)"
  by (simp add: wf_filter_def unat_div_distrib)

lemma wf_numBits_mod: "wf_filter f \<Longrightarrow> numBits f mod 64 = 0"
  by (simp add: wf_filter_def unat_eq_zero [symmetric] unat_mod_distrib)

lemma Unmarshal_Marshal: "wf_filter f \<Longrightarrow> UnmarshalBinary (MarshalBinary f) = Inr f"
  using wf_filter_numBits_pos [of f]
  by (simp add: UnmarshalBinary_def MarshalBinary_fields Let_def wf_numBits_div wf_numBits_mod
      read_words_concat wf_filter_def)

lemma unat_mult_64:
  assumes "(nb :: u64) mod 64 = 0"
  shows "unat nb = 64 * unat (nb div 64)"
proof -
  have "unat nb mod 64 = 0" using arg_cong [OF assms, of unat] by (simp add: unat_mod_distrib)
  then show ?thesis using div_mult_mod_eq [of "unat nb" 64] by (simp add: unat_div_distrib)
qed

lemma UnmarshalBinary_InrD:
  assumes "UnmarshalBinary d = Inr f"
  shows "get_u32 d = Magic" "d ! 4 = Version" "numBits f = get_u64 (drop 5 d)" "numBits f \<noteq> 0"
    "numHashes f = get_u32 (drop 13 d)" "numHashes f \<noteq> 0"
    "seed f = get_u64 (drop 17 d)" "length d = HeaderSize + length (words f) * 8"
    "unat (numBits f div 64) = length (words f)"
    "words f = read_words (length (words f)) (drop HeaderSize d)"
  using assms by (auto simp: UnmarshalBinary_def Let_def split: if_splits)

lemma UnmarshalBinary_mod:
  assumes "UnmarshalBinary d = Inr f"
  shows "numBits f mod 64 = 0"
proof (rule ccontr)
  assume "numBits f mod 64 \<noteq> 0"
  then have "get_u64 (drop 5 d) mod 64 \<noteq> 0" using UnmarshalBinary_InrD(3) [OF assms] by simp
  with assms show False by (simp add: UnmarshalBinary_def Let_def split: if_splits)
qed

lemma wf_UnmarshalBinary: "UnmarshalBinary d = Inr f \<Longrightarrow> wf_filter f"
  using UnmarshalBinary_InrD [of d f] unat_mult_64 [OF UnmarshalBinary_mod, of d f]
  by (auto simp: wf_filter_def unat_eq_zero)

lemma split_fields:
  assumes "25 \<le> length d"
  shows "d = take 4 d @ [d ! 4] @ take 8 (drop 5 d) @ take 4 (drop 13 d) @ take 8 (drop 17 d) @ drop 25 d"
  using assms by (simp add: take_drop_glue nth_drop_glue del: append.simps)

lemma Marshal_Unmarshal:
  assumes "UnmarshalBinary d = Inr f"
  shows "MarshalBinary f = d"
proof -
  note D = UnmarshalBinary_InrD [OF assms]
  have len: "length d = 25 + length (words f) * 8" using D(8) by (simp add: HeaderSize_def)
  have "put_u32 Magic = take 4 d" using put_get_int(2) [of "take 4 d"] D(1) len by (simp add: get_u32_def)
  moreover have "put_u64 (numBits f) = take 8 (drop 5 d)"
    using put_get_int(3) [of "take 8 (drop 5 d)"] D(3) len by (simp add: get_u64_def)
  moreover have "put_u32 (numHashes f) = take 4 (drop 13 d)"
    using put_get_int(2) [of "take 4 (drop 13 d)"] D(5) len by (simp add: get_u32_def)
  moreover have "put_u64 (seed f) = take 8 (drop 17 d)"
    using put_get_int(3) [of "take 8 (drop 17 d)"] D(7) len by (simp add: get_u64_def)
  moreover have "concat (map put_u64 (words f)) = drop 25 d"
    using concat_read_words [of "drop 25 d" "length (words f)"] D(10) len by (simp add: HeaderSize_def)
  ultimately show ?thesis
    unfolding MarshalBinary_def using split_fields [of d] D(2) len by simp
qed

section \<open>Properties\<close>

lemma NewForSeeded_wf:
  assumes "NewForSeeded fbits fhashes items rate sd = Some f"
    and "64 * wordCount (optimalBits fbits (normalizeItems items) rate) < 2 ^ 64"
    and "numHashes f \<noteq> 0"
  shows "wf_filter f"
proof -
  let ?n = "wordCount (optimalBits fbits (normalizeItems items) rate)"
  have "0 < optimalBits fbits (normalizeItems items) rate"
    by (simp add: optimalBits_def WordBits_def Let_def)
  then have "0 < ?n" by (rule wordCount_pos)
  then show ?thesis
    using assms wf_blank_filter [of ?n] by (auto simp: NewForSeeded_def Let_def split: if_splits)
qed

text \<open>C25: no false negatives. A filter made by \<open>NewFor\<close>, whatever the floating-point sizing
  evaluates to (below the 64-bit address range, with a hash count that fits 32 bits), accepts every
  sequence of insertions without a panic, and afterwards \<open>Contains\<close> answers true for every inserted
  key, for every hash function.\<close>

theorem bloom_no_false_negatives:
  assumes "NewFor fbits fhashes items rate = Some f"
    and "64 * wordCount (optimalBits fbits (normalizeItems items) rate) < 2 ^ 64"
    and "numHashes f \<noteq> 0"
  shows "\<exists>g. add_all (Add xxh3) ks f = Some g \<and> (\<forall>k \<in> set ks. Contains xxh3 k g = Some True)"
proof -
  have wf: "wf_filter f" using assms unfolding NewFor_def by (rule NewForSeeded_wf)
  obtain g where "add_all (Add xxh3) ks f = Some g" using bloom.add_all_total [OF wf] by blast
  then show ?thesis using bloom.no_false_negative [OF wf] by blast
qed

theorem bloom_no_false_negatives_witness:
  "\<exists>g. add_all (Add (\<lambda>b s. of_nat (length b))) [[1], [2, 3]]
      \<lparr>words = [0], numBits = 64, numHashes = 2, seed = 0\<rparr> = Some g \<and>
    (\<forall>k \<in> set [[1], [2, 3]]. Contains (\<lambda>b s. of_nat (length b)) k g = Some True)"
proof (rule bloom_no_false_negatives)
  show "NewFor (\<lambda>_ _. 20) (\<lambda>_ _. 2) 2 (1 / 100) =
      Some \<lparr>words = [0], numBits = 64, numHashes = 2, seed = 0\<rparr>"
    by (simp add: NewFor_def NewForSeeded_def optimalBits_def optimalHashes_def go_round_def
        wordCount_def WordBits_def Let_def)
qed (simp_all add: optimalBits_def wordCount_def)

text \<open>What \<open>AddHash\<close> reports. On a well-formed filter \<open>AddHash\<close> never panics; the flag it returns
  is exactly the membership answer before the insertion, although it is accumulated while bits are
  being set and probes may coincide; the membership answer afterwards is true; and the answers for
  other hashes only ever change from false to true.\<close>

theorem AddHash_reports_membership:
  assumes "wf_filter f"
  shows "\<exists>g b. AddHash f h = Some (g, b) \<and> wf_filter g \<and> ContainsHash f h = Some b \<and>
    ContainsHash g h = Some True \<and>
    (\<forall>h'. ContainsHash f h' = Some True \<longrightarrow> ContainsHash g h' = Some True)"
proof -
  obtain g where g: "AddHash f h = Some (g, \<forall>i \<in> probes f h. bit_on f i)" "same_shape f g"
    "\<And>i. bit_on g i \<longleftrightarrow> bit_on f i \<or> i \<in> probes f h"
    using AddHash_spec [OF assms] by blast
  have "wf_filter g" using same_shape_wf [OF g(2) assms] .
  then show ?thesis
    using g by (simp add: ContainsHash_spec [OF assms] ContainsHash_same_shape [OF assms g(2)])
qed

theorem AddHash_reports_membership_witness:
  "\<exists>g b. AddHash \<lparr>words = [0, 0], numBits = 128, numHashes = 3, seed = 7\<rparr> 0xdeadbeefcafebabe = Some (g, b) \<and>
    wf_filter g \<and> ContainsHash \<lparr>words = [0, 0], numBits = 128, numHashes = 3, seed = 7\<rparr> 0xdeadbeefcafebabe = Some b \<and>
    ContainsHash g 0xdeadbeefcafebabe = Some True \<and>
    (\<forall>h'. ContainsHash \<lparr>words = [0, 0], numBits = 128, numHashes = 3, seed = 7\<rparr> h' = Some True \<longrightarrow>
      ContainsHash g h' = Some True)"
  by (rule AddHash_reports_membership) (simp add: wf_filter_def)

text \<open>C30: the binary format. \<open>UnmarshalBinary\<close> accepts exactly the encodings of well-formed filters,
  and returns the filter that was encoded: the format loses nothing, and no other byte string
  (wrong length, magic, version, bit count or hash count) is read as a filter.\<close>

theorem bloom_format_exact:
  "UnmarshalBinary data = Inr f \<longleftrightarrow> wf_filter f \<and> data = MarshalBinary f"
  using Unmarshal_Marshal Marshal_Unmarshal wf_UnmarshalBinary by metis

end
