(* ===== verification/Skiplist.thy ===== *)
theory Skiplist
  imports Seol_Prelude "HOL-Library.Monad_Syntax"
begin

text \<open>
  The arena-backed skiplist of \<^verbatim>\<open>src/skiplist/skiplist.go\<close>, the program's memtable.

  A pointer to a node is the node's arena offset (0 is nil). The arena keeps the allocation counter,
  the byte buffer that holds keys and values, and the node structs that the code overlays on the
  buffer, as a map from offset to struct; a node struct that would not lie inside the buffer, a
  dereference of an offset that holds no node, a tower read past the node's height and every slice
  expression out of range are the value \<open>None\<close> (a panic, or for the overlay undefined behaviour).
  The search loops follow pointers, so they are partial functions into \<open>option\<close>, where \<open>None\<close> also
  stands for a loop that does not end. The source of random numbers is a parameter. Atomic operations
  are modelled as executed by one writer: the program has one writer goroutine per memtable.

  The lemmas relate the pointer structure to the sorted association list it represents: every level
  is a sorted sublist of the base level, \<open>Put\<close> is insertion or overwriting, \<open>Get\<close> is lookup, the
  searches and the iterator visit the entries in key order, and the allocator hands out disjoint
  ranges inside the buffer.
\<close>

section \<open>Arena\<close>

type_synonym nodeptr = u32

record node =
  nodeValue :: u64
  keyOffset :: u32
  keySize :: u16
  nodeHeight :: u16
  tower :: "u32 list"

record arena =
  arenaN :: u32
  arenaBuf :: bytes
  arenaNodes :: "nodeptr \<rightharpoonup> node"

definition offsetSize :: int where "offsetSize = 4"
definition nodeAlign :: int where "nodeAlign = 8 - 1"
definition maxHeight :: nat where "maxHeight = 20"
definition maxNodeSize :: int where "maxNodeSize = 8 + 4 + 2 + 2 + int maxHeight * 4"
definition heightIncrease :: u32 where "heightIncrease = (NOT 0) div 3"

definition newArena :: "nat \<Rightarrow> arena" where
  "newArena n = \<lparr>arenaN = 1, arenaBuf = replicate n 0, arenaNodes = Map.empty\<rparr>"

definition arena_size :: "arena \<Rightarrow> int" where
  "arena_size a = uint (arenaN a)"

definition putNode :: "arena \<Rightarrow> nat \<Rightarrow> arena \<times> u32" where
  "putNode a height =
     (let unusedSize = (int maxHeight - int height) * offsetSize;
          l = of_int (maxNodeSize - unusedSize + nodeAlign);
          n = arenaN a + l;
          m = (n - l + of_int nodeAlign) AND NOT (of_int nodeAlign)
      in (a\<lparr>arenaN := n\<rparr>, m))"

text \<open>\<open>copy(s.buf[m:], v)\<close> after reserving \<open>len(v)\<close> bytes; \<open>putVal\<close> and \<open>putKey\<close> have the same body.\<close>

definition copy_to :: "bytes \<Rightarrow> nat \<Rightarrow> bytes \<Rightarrow> bytes option" where
  "copy_to b m v =
     (if m \<le> length b then Some (take m b @ take (length b - m) v @ drop (m + length v) b) else None)"

definition putVal :: "arena \<Rightarrow> bytes \<Rightarrow> (arena \<times> u32) option" where
  "putVal a v =
     (let l = of_nat (length v); n = arenaN a + l; m = n - l in
      do { b \<leftarrow> copy_to (arenaBuf a) (unat m) v; Some (a\<lparr>arenaN := n, arenaBuf := b\<rparr>, m) })"

definition putKey :: "arena \<Rightarrow> bytes \<Rightarrow> (arena \<times> u32) option" where
  "putKey a k =
     (let l = of_nat (length k); n = arenaN a + l; m = n - l in
      do { b \<leftarrow> copy_to (arenaBuf a) (unat m) k; Some (a\<lparr>arenaN := n, arenaBuf := b\<rparr>, m) })"

definition getNode :: "arena \<Rightarrow> u32 \<Rightarrow> nodeptr option" where
  "getNode a offset =
     (if offset = 0 then Some 0 else if unat offset < length (arenaBuf a) then Some offset else None)"

definition buf_range :: "arena \<Rightarrow> u32 \<Rightarrow> u32 \<Rightarrow> bytes option" where
  "buf_range a lo hi =
     (if lo \<le> hi \<and> unat hi \<le> length (arenaBuf a) then Some (subslice (arenaBuf a) (unat lo) (unat hi)) else None)"

definition getKey :: "arena \<Rightarrow> u32 \<Rightarrow> u16 \<Rightarrow> bytes option" where
  "getKey a offset sz = buf_range a offset (offset + ucast sz)"

definition getVal :: "arena \<Rightarrow> u32 \<Rightarrow> u32 \<Rightarrow> bytes option" where
  "getVal a offset sz = buf_range a offset (offset + sz)"

definition encodeValue :: "u32 \<Rightarrow> u32 \<Rightarrow> u64" where
  "encodeValue offset sz = push_bit 32 (ucast sz) OR ucast offset"

definition decodeValue :: "u64 \<Rightarrow> u32 \<times> u32" where
  "decodeValue encoded = (ucast encoded, ucast (drop_bit 32 encoded))"

text \<open>The struct is zeroed memory: its tower slots hold nil until they are stored to.\<close>

definition newNode :: "arena \<Rightarrow> bytes \<Rightarrow> bytes \<Rightarrow> nat \<Rightarrow> (arena \<times> nodeptr) option" where
  "newNode a key v height =
     (case putNode a height of (a1, offset) \<Rightarrow>
        if unat offset + 16 + 4 * height \<le> length (arenaBuf a) \<and> offset \<noteq> 0 then do {
          (a2, ko) \<leftarrow> putKey a1 key;
          (a3, vo) \<leftarrow> putVal a2 v;
          Some (a3\<lparr>arenaNodes := (arenaNodes a3)(offset \<mapsto>
                  \<lparr>nodeValue = encodeValue vo (of_nat (length v)), keyOffset = ko,
                   keySize = of_nat (length key), nodeHeight = of_nat height,
                   tower = replicate height 0\<rparr>)\<rparr>, offset)
        } else None)"


section \<open>Skiplist\<close>

record Skiplist =
  slHeight :: nat
  slHead :: nodeptr
  slRef :: int
  slArena :: arena

abbreviation nilArena :: arena where
  "nilArena \<equiv> \<lparr>arenaN = 0, arenaBuf = [], arenaNodes = Map.empty\<rparr>"

definition incrRef :: "Skiplist \<Rightarrow> Skiplist" where
  "incrRef s = s\<lparr>slRef := slRef s + 1\<rparr>"

text \<open>The last reference drops the arena and the head; \<open>onClose\<close> is never set by the program.\<close>

definition decrRef :: "Skiplist \<Rightarrow> Skiplist" where
  "decrRef s =
     (let s1 = s\<lparr>slRef := slRef s - 1\<rparr> in
      if slRef s1 > 0 then s1 else s1\<lparr>slArena := nilArena, slHead := 0\<rparr>)"

definition New :: "nat \<Rightarrow> Skiplist option" where
  "New arenaSize = do {
     (a, head) \<leftarrow> newNode (newArena arenaSize) [] [] maxHeight;
     Some \<lparr>slHeight = 1, slHead = head, slRef = 1, slArena = a\<rparr>
   }"

definition node_key :: "Skiplist \<Rightarrow> nodeptr \<Rightarrow> bytes option" where
  "node_key s p = do { n \<leftarrow> arenaNodes (slArena s) p; getKey (slArena s) (keyOffset n) (keySize n) }"

definition node_value :: "Skiplist \<Rightarrow> nodeptr \<Rightarrow> bytes option" where
  "node_value s p = do {
     n \<leftarrow> arenaNodes (slArena s) p;
     (case decodeValue (nodeValue n) of (off, sz) \<Rightarrow> getVal (slArena s) off sz)
   }"

definition upd_node :: "Skiplist \<Rightarrow> nodeptr \<Rightarrow> (node \<Rightarrow> node) \<Rightarrow> Skiplist option" where
  "upd_node s p f = do {
     n \<leftarrow> arenaNodes (slArena s) p;
     Some (s\<lparr>slArena := (slArena s)\<lparr>arenaNodes := (arenaNodes (slArena s))(p \<mapsto> f n)\<rparr>\<rparr>)
   }"

definition setValue :: "Skiplist \<Rightarrow> nodeptr \<Rightarrow> bytes \<Rightarrow> Skiplist option" where
  "setValue s p v = do {
     (a, off) \<leftarrow> putVal (slArena s) v;
     upd_node (s\<lparr>slArena := a\<rparr>) p (\<lambda>n. n\<lparr>nodeValue := encodeValue off (of_nat (length v))\<rparr>)
   }"

definition getNextOffset :: "node \<Rightarrow> nat \<Rightarrow> u32 option" where
  "getNextOffset n h = (if h < length (tower n) then Some (tower n ! h) else None)"

definition storeNextOffset :: "Skiplist \<Rightarrow> nodeptr \<Rightarrow> nat \<Rightarrow> u32 \<Rightarrow> Skiplist option" where
  "storeNextOffset s p h val = do {
     n \<leftarrow> arenaNodes (slArena s) p;
     (if h < length (tower n) then upd_node s p (\<lambda>n. n\<lparr>tower := (tower n)[h := val]\<rparr>) else None)
   }"

definition casNextOffset :: "Skiplist \<Rightarrow> nodeptr \<Rightarrow> nat \<Rightarrow> u32 \<Rightarrow> u32 \<Rightarrow> (bool \<times> Skiplist) option" where
  "casNextOffset s p h old val = do {
     n \<leftarrow> arenaNodes (slArena s) p;
     cur \<leftarrow> getNextOffset n h;
     (if cur = old then do { s' \<leftarrow> storeNextOffset s p h val; Some (True, s') } else Some (False, s))
   }"

fun randomHeight_loop :: "nat \<Rightarrow> (nat \<Rightarrow> u32) \<Rightarrow> nat \<Rightarrow> nat" where
  "randomHeight_loop 0 rand h = h"
| "randomHeight_loop (Suc k) rand h =
     (if rand (h - 1) \<le> heightIncrease then randomHeight_loop k rand (h + 1) else h)"

definition randomHeight :: "(nat \<Rightarrow> u32) \<Rightarrow> nat" where
  "randomHeight rand = randomHeight_loop (maxHeight - 1) rand 1"

definition getNext :: "Skiplist \<Rightarrow> nodeptr \<Rightarrow> nat \<Rightarrow> nodeptr option" where
  "getNext s nd h = do {
     n \<leftarrow> arenaNodes (slArena s) nd;
     off \<leftarrow> getNextOffset n h;
     getNode (slArena s) off
   }"

definition not_head :: "Skiplist \<Rightarrow> nodeptr \<Rightarrow> nodeptr" where
  "not_head s x = (if x = slHead s then 0 else x)"

partial_function (option) findNear_loop ::
    "Skiplist \<Rightarrow> bytes \<Rightarrow> bool \<Rightarrow> bool \<Rightarrow> nodeptr \<Rightarrow> nat \<Rightarrow> (nodeptr \<times> bool) option" where
  "findNear_loop s key isLess allowEqual x level = do {
     nxt \<leftarrow> getNext s x level;
     (if nxt = 0 then
        if level > 0 then findNear_loop s key isLess allowEqual x (level - 1)
        else if \<not> isLess \<or> x = slHead s then Some (0, False)
        else Some (x, False)
      else do {
        k \<leftarrow> node_key s nxt;
        (if bytes_compare key k > 0 then findNear_loop s key isLess allowEqual nxt level
         else if bytes_compare key k = 0 then
           if allowEqual then Some (nxt, True)
           else if \<not> isLess then do { nn \<leftarrow> getNext s nxt 0; Some (nn, False) }
           else if level > 0 then findNear_loop s key isLess allowEqual x (level - 1)
           else Some (not_head s x, False)
         else if level > 0 then findNear_loop s key isLess allowEqual x (level - 1)
         else if \<not> isLess then Some (nxt, False)
         else Some (not_head s x, False))
      })
   }"

definition findNear :: "Skiplist \<Rightarrow> bytes \<Rightarrow> bool \<Rightarrow> bool \<Rightarrow> (nodeptr \<times> bool) option" where
  "findNear s key isLess allowEqual = findNear_loop s key isLess allowEqual (slHead s) (slHeight s - 1)"

partial_function (option) findSpliceForLevel ::
    "Skiplist \<Rightarrow> bytes \<Rightarrow> nodeptr \<Rightarrow> nat \<Rightarrow> (nodeptr \<times> nodeptr) option" where
  "findSpliceForLevel s key bfr level = do {
     nxt \<leftarrow> getNext s bfr level;
     (if nxt = 0 then Some (bfr, 0)
      else do {
        k \<leftarrow> node_key s nxt;
        (if bytes_compare key k = 0 then Some (nxt, nxt)
         else if bytes_compare key k < 0 then Some (bfr, nxt)
         else findSpliceForLevel s key nxt level)
      })
   }"

text \<open>
  \<open>Put\<close>, first loop: walk down from level \<open>i - 1\<close> to 0, recording the splice of each level in
  \<open>prev\<close> and \<open>next\<close> (arrays indexed by level); \<open>Inl\<close> is the early return after an overwrite.
\<close>

fun put_descend ::
    "Skiplist \<Rightarrow> bytes \<Rightarrow> bytes \<Rightarrow> nat \<Rightarrow> (nat \<Rightarrow> nodeptr) \<Rightarrow> (nat \<Rightarrow> nodeptr) \<Rightarrow>
      (Skiplist + (nat \<Rightarrow> nodeptr) \<times> (nat \<Rightarrow> nodeptr)) option" where
  "put_descend s key v 0 prev nxt = Some (Inr (prev, nxt))"
| "put_descend s key v (Suc i) prev nxt = do {
     (p, n) \<leftarrow> findSpliceForLevel s key (prev (i + 1)) i;
     (if p = n then do { s' \<leftarrow> setValue s p v; Some (Inl s') }
      else put_descend s key v i (prev(i := p)) (nxt(i := n)))
   }"

text \<open>\<open>Put\<close>, the retry loop that links the new node \<open>x\<close> into level \<open>i\<close>.\<close>

partial_function (option) put_link ::
    "Skiplist \<Rightarrow> bytes \<Rightarrow> bytes \<Rightarrow> nodeptr \<Rightarrow> nat \<Rightarrow> nodeptr \<Rightarrow> nodeptr \<Rightarrow> (Skiplist + Skiplist) option" where
  "put_link s key v x i p n = do {
     (p, n) \<leftarrow> (if p = 0 then
                  if i = 0 then None
                  else do {
                    (p', n') \<leftarrow> findSpliceForLevel s key (slHead s) i;
                    (if p' = n' then None else Some (p', n'))
                  }
                else Some (p, n));
     s1 \<leftarrow> storeNextOffset s x i n;
     (swapped, s2) \<leftarrow> casNextOffset s1 p i n x;
     (if swapped then Some (Inr s2)
      else do {
        (p', n') \<leftarrow> findSpliceForLevel s2 key p i;
        (if p' = n' then
           if i \<noteq> 0 then None else do { s3 \<leftarrow> setValue s2 p' v; Some (Inl s3) }
         else put_link s2 key v x i p' n')
      })
   }"

fun put_levels ::
    "nat list \<Rightarrow> Skiplist \<Rightarrow> bytes \<Rightarrow> bytes \<Rightarrow> nodeptr \<Rightarrow> (nat \<Rightarrow> nodeptr) \<Rightarrow> (nat \<Rightarrow> nodeptr) \<Rightarrow> Skiplist option" where
  "put_levels [] s key v x prev nxt = Some s"
| "put_levels (i # is) s key v x prev nxt = do {
     r \<leftarrow> put_link s key v x i (prev i) (nxt i);
     (case r of Inl s' \<Rightarrow> Some s' | Inr s' \<Rightarrow> put_levels is s' key v x prev nxt)
   }"

definition Put :: "(nat \<Rightarrow> u32) \<Rightarrow> Skiplist \<Rightarrow> bytes \<Rightarrow> bytes \<Rightarrow> Skiplist option" where
  "Put rand s key v = do {
     r \<leftarrow> put_descend s key v (slHeight s) ((\<lambda>_. 0)(slHeight s := slHead s)) (\<lambda>_. 0);
     (case r of
        Inl s' \<Rightarrow> Some s'
      | Inr (prev, nxt) \<Rightarrow> (let height = randomHeight rand in do {
          (a, x) \<leftarrow> newNode (slArena s) key v height;
          put_levels [0..<height]
            (s\<lparr>slArena := a, slHeight := (if height > slHeight s then height else slHeight s)\<rparr>) key v x prev nxt
        }))
   }"

definition Empty :: "Skiplist \<Rightarrow> bool option" where
  "Empty s = do { p \<leftarrow> getNext s (slHead s) 0; Some (p = 0) }"

partial_function (option) findLast_loop :: "Skiplist \<Rightarrow> nodeptr \<Rightarrow> nat \<Rightarrow> nodeptr option" where
  "findLast_loop s n level = do {
     nxt \<leftarrow> getNext s n level;
     (if nxt \<noteq> 0 then findLast_loop s nxt level
      else if level = 0 then Some (not_head s n)
      else findLast_loop s n (level - 1))
   }"

definition findLast :: "Skiplist \<Rightarrow> nodeptr option" where
  "findLast s = findLast_loop s (slHead s) (slHeight s - 1)"

text \<open>The result of \<open>Get\<close> is a slice: inner \<open>None\<close> is nil, \<open>Some []\<close> an empty value that is present.\<close>

definition Get :: "Skiplist \<Rightarrow> bytes \<Rightarrow> bytes option option" where
  "Get s key = do {
     (n, equal) \<leftarrow> findNear s key False True;
     (if \<not> equal then Some None else do { v \<leftarrow> node_value s n; Some (Some v) })
   }"

definition MemSize :: "Skiplist \<Rightarrow> int" where
  "MemSize s = arena_size (slArena s)"


lemmas search_unfold [code] = findNear_loop.simps findSpliceForLevel.simps put_link.simps findLast_loop.simps


section \<open>Iterator\<close>

text \<open>\<open>itOpen\<close> says that the iterator's list pointer is not nil; \<open>itNode\<close> is its current node.\<close>

record Iterator =
  itOpen :: bool
  itNode :: nodeptr

definition NewIterator :: "Skiplist \<Rightarrow> Skiplist \<times> Iterator" where
  "NewIterator s = (incrRef s, \<lparr>itOpen = True, itNode = 0\<rparr>)"

definition it_Close :: "Skiplist \<Rightarrow> Iterator \<Rightarrow> Skiplist \<times> Iterator" where
  "it_Close s it =
     (if \<not> itOpen it then (s, it) else (decrRef s, \<lparr>itOpen = False, itNode = 0\<rparr>))"

definition it_Valid :: "Iterator \<Rightarrow> bool" where
  "it_Valid it \<longleftrightarrow> itNode it \<noteq> 0"

definition it_Key :: "Skiplist \<Rightarrow> Iterator \<Rightarrow> bytes option option" where
  "it_Key s it = (if \<not> it_Valid it then Some None else do { k \<leftarrow> node_key s (itNode it); Some (Some k) })"

definition it_Value :: "Skiplist \<Rightarrow> Iterator \<Rightarrow> bytes option option" where
  "it_Value s it = (if \<not> it_Valid it then Some None else do { v \<leftarrow> node_value s (itNode it); Some (Some v) })"

definition it_move :: "Iterator \<Rightarrow> nodeptr option \<Rightarrow> Iterator option" where
  "it_move it p = (if itOpen it then do { q \<leftarrow> p; Some (it\<lparr>itNode := q\<rparr>) } else None)"

definition it_Seek :: "Skiplist \<Rightarrow> Iterator \<Rightarrow> bytes \<Rightarrow> Iterator option" where
  "it_Seek s it target = it_move it (map_option fst (findNear s target False True))"

definition it_SeekForPrev :: "Skiplist \<Rightarrow> Iterator \<Rightarrow> bytes \<Rightarrow> Iterator option" where
  "it_SeekForPrev s it target = it_move it (map_option fst (findNear s target True True))"

definition it_SeekToFirst :: "Skiplist \<Rightarrow> Iterator \<Rightarrow> Iterator option" where
  "it_SeekToFirst s it = it_move it (getNext s (slHead s) 0)"

definition it_SeekToLast :: "Skiplist \<Rightarrow> Iterator \<Rightarrow> Iterator option" where
  "it_SeekToLast s it = it_move it (findLast s)"

definition it_Rewind :: "Skiplist \<Rightarrow> Iterator \<Rightarrow> Iterator option" where
  "it_Rewind s it = it_SeekToFirst s it"

definition it_Next :: "Skiplist \<Rightarrow> Iterator \<Rightarrow> Iterator option" where
  "it_Next s it = (if \<not> it_Valid it then Some it else it_move it (getNext s (itNode it) 0))"

definition it_Prev :: "Skiplist \<Rightarrow> Iterator \<Rightarrow> Iterator option" where
  "it_Prev s it =
     (if \<not> it_Valid it then it_SeekToLast s it
      else do {
        k \<leftarrow> node_key s (itNode it);
        it_move it (map_option fst (findNear s k True False))
      })"


section \<open>Arena layout\<close>

definition node_ok :: "arena \<Rightarrow> nodeptr \<Rightarrow> node \<Rightarrow> bool" where
  "node_ok a p n \<longleftrightarrow> p \<noteq> 0 \<and> unat p < unat (arenaN a) \<and>
     unat (keyOffset n) + unat (keySize n) \<le> unat (arenaN a) \<and>
     unat (fst (decodeValue (nodeValue n))) + unat (snd (decodeValue (nodeValue n))) \<le> unat (arenaN a)"

definition arena_ok :: "arena \<Rightarrow> bool" where
  "arena_ok a \<longleftrightarrow> length (arenaBuf a) < 2 ^ 32 \<and> 0 < unat (arenaN a) \<and> unat (arenaN a) \<le> length (arenaBuf a) \<and>
     (\<forall>p n. arenaNodes a p = Some n \<longrightarrow> node_ok a p n)"

text \<open>Bytes of the arena a node of the given height takes, its alignment padding included.\<close>

definition node_cost :: "nat \<Rightarrow> nat" where
  "node_cost h = 23 + 4 * h"

lemma decode_encodeValue [simp]: "decodeValue (encodeValue off sz) = (off, sz)"
proof -
  have "ucast (push_bit 32 (ucast sz) OR ucast off :: u64) = off"
    by (rule bit_word_eqI) (auto simp: bit_simps)
  moreover have "ucast (drop_bit 32 (push_bit 32 (ucast sz) OR ucast off :: u64)) = sz"
    by (rule bit_word_eqI) (use bit_imp_le_length [of off] in \<open>fastforce simp: bit_simps\<close>)
  ultimately show ?thesis by (simp add: encodeValue_def decodeValue_def)
qed

lemma unat_plus_bound: "unat (x :: u32) + n < 2 ^ 32 \<Longrightarrow> unat (x + of_nat n) = unat x + n"
  by (simp add: unat_word_ariths unat_of_nat)

lemma buf_range_Some:
  assumes "unat off + n \<le> length (arenaBuf a)" "length (arenaBuf a) < 2 ^ 32"
  shows "buf_range a off (off + of_nat n) = Some (subslice (arenaBuf a) (unat off) (unat off + n))"
proof -
  have "unat (off + of_nat n) = unat off + n" using assms by (intro unat_plus_bound) simp
  then show ?thesis using assms by (simp add: buf_range_def word_le_nat_alt)
qed

lemma getKey_Some:
  "arena_ok a \<Longrightarrow> node_ok a p n \<Longrightarrow> getKey a (keyOffset n) (keySize n) =
     Some (subslice (arenaBuf a) (unat (keyOffset n)) (unat (keyOffset n) + unat (keySize n)))"
  using buf_range_Some [of "keyOffset n" "unat (keySize n)" a]
  by (auto simp: getKey_def arena_ok_def node_ok_def)

lemma getVal_Some:
  "arena_ok a \<Longrightarrow> unat off + unat sz \<le> unat (arenaN a) \<Longrightarrow>
     getVal a off sz = Some (subslice (arenaBuf a) (unat off) (unat off + unat sz))"
  using buf_range_Some [of off "unat sz" a] by (auto simp: getVal_def arena_ok_def)

text \<open>Appending to the used part of the buffer: \<open>putVal\<close> and \<open>putKey\<close>.\<close>

definition grown :: "arena \<Rightarrow> bytes \<Rightarrow> arena" where
  "grown a v = a\<lparr>arenaN := arenaN a + of_nat (length v),
     arenaBuf := take (unat (arenaN a)) (arenaBuf a) @ v @ drop (unat (arenaN a) + length v) (arenaBuf a)\<rparr>"

lemma put_fits:
  assumes "unat (arenaN a) + length v \<le> length (arenaBuf a)"
  shows "putVal a v = Some (grown a v, arenaN a)" "putKey a v = Some (grown a v, arenaN a)"
  using assms by (simp_all add: putVal_def putKey_def copy_to_def grown_def Let_def)

lemma grown_simps:
  assumes "unat (arenaN a) + length v \<le> length (arenaBuf a)" "length (arenaBuf a) < 2 ^ 32"
  shows "length (arenaBuf (grown a v)) = length (arenaBuf a)"
    "unat (arenaN (grown a v)) = unat (arenaN a) + length v"
    "arenaNodes (grown a v) = arenaNodes a"
    "hi \<le> unat (arenaN a) \<Longrightarrow> subslice (arenaBuf (grown a v)) lo hi = subslice (arenaBuf a) lo hi"
    "subslice (arenaBuf (grown a v)) (unat (arenaN a)) (unat (arenaN a) + length v) = v"
proof -
  show "length (arenaBuf (grown a v)) = length (arenaBuf a)" using assms by (simp add: grown_def)
  show "unat (arenaN (grown a v)) = unat (arenaN a) + length v"
    using assms unat_plus_bound [of "arenaN a" "length v"] by (simp add: grown_def)
  show "arenaNodes (grown a v) = arenaNodes a" by (simp add: grown_def)
  show "subslice (arenaBuf (grown a v)) lo hi = subslice (arenaBuf a) lo hi" if "hi \<le> unat (arenaN a)"
    using that assms by (simp add: grown_def subslice_append_left subslice_take)
  show "subslice (arenaBuf (grown a v)) (unat (arenaN a)) (unat (arenaN a) + length v) = v"
    using assms subslice_middle [of "take (unat (arenaN a)) (arenaBuf a)" v] by (simp add: grown_def min_absorb2)
qed

lemma align_up:
  fixes n :: u32
  assumes "unat n + 7 < 2 ^ 32"
  shows "unat n \<le> unat ((n + 7) AND NOT 7)" "unat ((n + 7) AND NOT 7) \<le> unat n + 7"
    "unat ((n + 7) AND NOT 7) mod 8 = 0"
proof -
  have "(7 :: u32) = mask 3" by (simp add: mask_eq_exp_minus_1)
  moreover have "x AND NOT (mask 3) = push_bit 3 (drop_bit 3 x)" for x :: u32
    by (rule bit_word_eqI) (auto simp: bit_simps)
  ultimately have "(n + 7) AND NOT 7 = push_bit 3 (drop_bit 3 (n + 7))" by metis
  then have "unat ((n + 7) AND NOT 7) = (unat (n + 7) div 8) * 8 mod 2 ^ 32"
    by (simp only: unsigned_push_bit_eq unat_drop_bit_eq) (simp add: push_bit_eq_mult drop_bit_eq_div take_bit_eq_mod)
  moreover have "unat (n + 7) = unat n + 7" using unat_plus_bound [of n 7] assms by simp
  ultimately have e: "unat ((n + 7) AND NOT 7) = (unat n + 7) div 8 * 8"
    using assms by (simp add: mod_less)
  show "unat n \<le> unat ((n + 7) AND NOT 7)" "unat ((n + 7) AND NOT 7) \<le> unat n + 7"
    "unat ((n + 7) AND NOT 7) mod 8 = 0"
    unfolding e by (linarith, linarith, simp)
qed

lemma putNode_eq:
  "putNode a h = (a\<lparr>arenaN := arenaN a + of_nat (node_cost h)\<rparr>, (arenaN a + 7) AND NOT 7)" if "h \<le> maxHeight"
proof -
  have "maxNodeSize - (int maxHeight - int h) * offsetSize + nodeAlign = int (node_cost h)"
    by (simp add: maxNodeSize_def maxHeight_def offsetSize_def nodeAlign_def node_cost_def)
  then have "of_int (maxNodeSize - (int maxHeight - int h) * offsetSize + nodeAlign) = (of_nat (node_cost h) :: u32)"
    by (metis of_int_of_nat_eq)
  then show ?thesis by (simp only: putNode_def Let_def) (simp add: nodeAlign_def)
qed


section \<open>The represented list\<close>

definition hgt :: "Skiplist \<Rightarrow> nodeptr \<Rightarrow> nat" where
  "hgt s p = (case arenaNodes (slArena s) p of None \<Rightarrow> 0 | Some n \<Rightarrow> length (tower n))"

definition nkey :: "Skiplist \<Rightarrow> nodeptr \<Rightarrow> bytes" where
  "nkey s p = the (node_key s p)"

definition nval :: "Skiplist \<Rightarrow> nodeptr \<Rightarrow> bytes" where
  "nval s p = the (node_value s p)"

definition hd0 :: "nodeptr list \<Rightarrow> nodeptr" where
  "hd0 ps = (case ps of [] \<Rightarrow> 0 | p # _ \<Rightarrow> p)"

fun chain :: "Skiplist \<Rightarrow> nat \<Rightarrow> nodeptr \<Rightarrow> nodeptr list \<Rightarrow> bool" where
  "chain s i x [] \<longleftrightarrow> getNext s x i = Some 0"
| "chain s i x (p # ps) \<longleftrightarrow> getNext s x i = Some p \<and> p \<noteq> 0 \<and> chain s i p ps"

abbreviation on_level :: "Skiplist \<Rightarrow> nat \<Rightarrow> nodeptr list \<Rightarrow> nodeptr list" where
  "on_level s i ps \<equiv> filter (\<lambda>p. i < hgt s p) ps"

text \<open>The structural invariant, with the list of nodes of the base level.\<close>

definition sl_inv :: "Skiplist \<Rightarrow> nodeptr list \<Rightarrow> bool" where
  "sl_inv s ps \<longleftrightarrow> arena_ok (slArena s) \<and> hgt s (slHead s) = maxHeight \<and> slHead s \<notin> set ps \<and>
     0 < slHeight s \<and> slHeight s \<le> maxHeight \<and>
     (\<forall>p \<in> set ps. 0 < hgt s p \<and> hgt s p \<le> slHeight s) \<and>
     sorted_wrt (\<lambda>p q. nkey s p < nkey s q) ps \<and>
     (\<forall>i < maxHeight. chain s i (slHead s) (on_level s i ps))"

definition entries :: "Skiplist \<Rightarrow> nodeptr list \<Rightarrow> (bytes \<times> bytes) list" where
  "entries s ps = map (\<lambda>p. (nkey s p, nval s p)) ps"

text \<open>The abstraction relation: the skiplist represents this sorted association list.\<close>

definition sl_rel :: "Skiplist \<Rightarrow> (bytes \<times> bytes) list \<Rightarrow> bool" where
  "sl_rel s kvs \<longleftrightarrow> (\<exists>ps. sl_inv s ps \<and> kvs = entries s ps)"

lemma hd0_simps [simp]: "hd0 [] = 0" "hd0 (p # ps) = p"
  by (simp_all add: hd0_def)

lemma sl_invD:
  assumes "sl_inv s ps"
  shows "arena_ok (slArena s)" "hgt s (slHead s) = maxHeight" "slHead s \<notin> set ps" "0 < slHeight s"
    "slHeight s \<le> maxHeight" "p \<in> set ps \<Longrightarrow> 0 < hgt s p" "p \<in> set ps \<Longrightarrow> hgt s p \<le> slHeight s"
    "sorted_wrt (\<lambda>p q. nkey s p < nkey s q) ps"
    "i < maxHeight \<Longrightarrow> chain s i (slHead s) (on_level s i ps)"
  using assms by (auto simp: sl_inv_def)

lemma node_exists: "0 < hgt s p \<Longrightarrow> \<exists>n. arenaNodes (slArena s) p = Some n \<and> length (tower n) = hgt s p"
  by (auto simp: hgt_def split: option.splits)

lemma node_data:
  assumes "arena_ok (slArena s)" "0 < hgt s p"
  shows "node_key s p = Some (nkey s p)" "node_value s p = Some (nval s p)" "p \<noteq> 0"
proof -
  obtain n where n: "arenaNodes (slArena s) p = Some n" using node_exists [OF assms(2)] by blast
  then have ok: "node_ok (slArena s) p n" using assms(1) by (simp add: arena_ok_def)
  show "node_key s p = Some (nkey s p)"
    using n getKey_Some [OF assms(1) ok] by (simp add: nkey_def node_key_def)
  have "\<exists>v. node_value s p = Some v"
    using n ok getVal_Some [OF assms(1), of "fst (decodeValue (nodeValue n))" "snd (decodeValue (nodeValue n))"]
    by (simp add: node_value_def node_ok_def split_beta)
  then show "node_value s p = Some (nval s p)" by (auto simp: nval_def)
  show "p \<noteq> 0" using ok by (simp add: node_ok_def)
qed

lemma chain_hd: "chain s i x ps \<Longrightarrow> getNext s x i = Some (hd0 ps)"
  by (cases ps) auto

lemma chain_from: "chain s i x (us @ p # rest) \<Longrightarrow> chain s i p rest"
  by (induction us arbitrary: x) auto

lemma chain_last: "chain s i x (us @ rest) \<Longrightarrow> chain s i (last (x # us)) rest"
  by (induction us arbitrary: x) auto

lemma chain_cong:
  "(\<And>p. p \<in> set (x # ps) \<Longrightarrow> getNext t p i = getNext s p i) \<Longrightarrow> chain t i x ps = chain s i x ps"
  by (induction ps arbitrary: x) auto

lemma level_from:
  assumes "sl_inv s (us @ rest)" "i < hgt s (last (slHead s # us))"
  shows "chain s i (last (slHead s # us)) (on_level s i rest)"
proof (cases us rule: rev_cases)
  case Nil
  then show ?thesis using sl_invD(9) [OF assms(1), of i] sl_invD(2) [OF assms(1)] assms(2) by simp
next
  case (snoc us' x)
  have "hgt s x \<le> maxHeight"
    using sl_invD(5) [OF assms(1)] sl_invD(7) [OF assms(1), of x] snoc by simp
  then have "i < maxHeight" using assms(2) snoc by simp
  then have "chain s i (slHead s) (on_level s i us' @ x # on_level s i rest)"
    using sl_invD(9) [OF assms(1), of i] assms(2) snoc by simp
  then show ?thesis using snoc by (auto dest: chain_from)
qed

lemma first_on_level:
  assumes "on_level s i rest = q # f"
  obtains r1 r2 where "rest = r1 @ q # r2" "\<forall>p \<in> set r1. hgt s p \<le> i" "f = on_level s i r2" "i < hgt s q"
  using assms by (auto simp: filter_eq_Cons_iff not_less)

lemma sorted_mid:
  assumes "sorted_wrt (\<lambda>p q. nkey s p < nkey s q) (us @ r1 @ q # r2)"
  shows "p \<in> set r1 \<Longrightarrow> nkey s p < nkey s q" "p \<in> set us \<Longrightarrow> nkey s p < nkey s q"
    "p \<in> set r2 \<Longrightarrow> nkey s q < nkey s p"
  using assms by (auto simp: sorted_wrt_append)

section \<open>Searching\<close>

abbreviation below :: "Skiplist \<Rightarrow> bytes \<Rightarrow> nodeptr list \<Rightarrow> nodeptr list" where
  "below s key ps \<equiv> takeWhile (\<lambda>p. nkey s p < key) ps"

abbreviation from_key :: "Skiplist \<Rightarrow> bytes \<Rightarrow> nodeptr list \<Rightarrow> nodeptr list" where
  "from_key s key ps \<equiv> dropWhile (\<lambda>p. nkey s p < key) ps"

definition last0 :: "nodeptr list \<Rightarrow> nodeptr" where
  "last0 ps = (if ps = [] then 0 else last ps)"

text \<open>What \<open>findNear\<close> promises: the nearest node in the requested direction.\<close>

definition near :: "Skiplist \<Rightarrow> bytes \<Rightarrow> bool \<Rightarrow> bool \<Rightarrow> nodeptr list \<Rightarrow> nodeptr \<times> bool" where
  "near s key isLess allowEqual ps =
     (let lower = last0 (below s key ps) in
      case from_key s key ps of
        [] \<Rightarrow> (if isLess then lower else 0, False)
      | q # r \<Rightarrow>
          if nkey s q = key then
            if allowEqual then (q, True) else (if isLess then lower else hd0 r, False)
          else (if isLess then lower else q, False))"

lemma below_split:
  assumes "\<forall>u \<in> set us. nkey s u < key"
  shows "below s key (us @ rest) = us @ below s key rest" "from_key s key (us @ rest) = from_key s key rest"
  using assms by auto

lemma near_here:
  assumes "\<forall>u \<in> set us. nkey s u < key" "rest = [] \<or> key \<le> nkey s (hd rest)"
  shows "near s key isLess allowEqual (us @ rest) =
     (case rest of
        [] \<Rightarrow> (if isLess then last0 us else 0, False)
      | q # r \<Rightarrow>
          if nkey s q = key then
            if allowEqual then (q, True) else (if isLess then last0 us else hd0 r, False)
          else (if isLess then last0 us else q, False))"
proof -
  have "below s key rest = []" "from_key s key rest = rest" using assms(2) by (cases rest; simp)+
  then have "below s key (us @ rest) = us" "from_key s key (us @ rest) = rest"
    using below_split [OF assms(1), of rest] by simp_all
  then show ?thesis by (simp only: near_def Let_def)
qed

lemma not_head_last:
  "slHead s \<notin> set us \<Longrightarrow> not_head s (last (slHead s # us)) = last0 us"
  by (cases us rule: rev_cases) (auto simp: not_head_def last0_def)

lemma findNear_loop_spec:
  assumes "sl_inv s (us @ rest)" "\<forall>u \<in> set us. nkey s u < key" "level < hgt s (last (slHead s # us))"
  shows "findNear_loop s key isLess allowEqual (last (slHead s # us)) level =
    Some (near s key isLess allowEqual (us @ rest))"
  using assms
proof (induction "length rest + level" arbitrary: us rest level rule: less_induct)
  case less
  let ?x = "last (slHead s # us)"
  note inv = less.prems(1) and ok = sl_invD(1) [OF less.prems(1)]
  have nh: "not_head s ?x = last0 us" using sl_invD(3) [OF inv] by (intro not_head_last) simp
  have next_level: "getNext s ?x level = Some (hd0 (on_level s level rest))"
    using level_from [OF inv less.prems(3)] by (rule chain_hd)
  have down: "findNear_loop s key isLess allowEqual ?x (level - 1) = Some (near s key isLess allowEqual (us @ rest))"
    if "0 < level" using less.hyps [of rest "level - 1" us] less.prems that by simp
  have base: "on_level s 0 rest = rest" using sl_invD(6) [OF inv] by simp
  show ?case
  proof (cases "on_level s level rest")
    case Nil
    have "near s key isLess allowEqual us = (if isLess then last0 us else 0, False)"
      using near_here [of us s key "[]"] less.prems(2) by simp
    moreover have "?x = slHead s \<Longrightarrow> last0 us = 0" using nh by (simp add: not_head_def)
    moreover have "?x \<noteq> slHead s \<Longrightarrow> last0 us = ?x" using nh by (simp add: not_head_def)
    ultimately show ?thesis using down next_level Nil base
      by (subst findNear_loop.simps) (cases level, auto)
  next
    case (Cons q f)
    obtain r1 r2 where rest: "rest = r1 @ q # r2" "\<forall>p \<in> set r1. hgt s p \<le> level" "level < hgt s q"
      using first_on_level [OF Cons] by metis
    have q: "node_key s q = Some (nkey s q)" "q \<noteq> 0" using node_data [OF ok, of q] rest(3) by auto
    have sorted: "p \<in> set r1 \<Longrightarrow> nkey s p < nkey s q" for p
      using sorted_mid(1) [of s us r1 q r2 p] sl_invD(8) [OF inv] rest(1) by simp
    have r1: "r1 = []" if "level = 0"
      using rest(1,2) that sl_invD(6) [OF inv, of "hd r1"] by (cases r1) auto
    have step: "findNear_loop s key isLess allowEqual q level = Some (near s key isLess allowEqual (us @ rest))"
      if "nkey s q < key"
      using less.hyps [of r2 level "us @ r1 @ [q]"] inv that less.prems(2) rest sorted by force
    have succ: "getNext s q 0 = Some (hd0 r2)"
    proof -
      have "chain s 0 (last (slHead s # (us @ r1 @ [q]))) (on_level s 0 r2)"
        using inv rest by (intro level_from) auto
      then have "getNext s q 0 = Some (hd0 (on_level s 0 r2))" by (auto dest: chain_hd)
      moreover have "on_level s 0 r2 = r2" using sl_invD(6) [OF inv] rest(1) by simp
      ultimately show ?thesis by simp
    qed
    have here: "near s key isLess allowEqual (us @ rest) =
        (if nkey s q = key then if allowEqual then (q, True)
           else (if isLess then last0 (us @ r1) else hd0 r2, False)
         else (if isLess then last0 (us @ r1) else q, False))" if "key \<le> nkey s q"
      and "\<forall>p \<in> set r1. nkey s p < key"
    proof -
      have "\<forall>u \<in> set (us @ r1). nkey s u < key" using that(2) less.prems(2) by auto
      from near_here [OF this, of "q # r2" isLess allowEqual] show ?thesis using that(1) rest(1) by simp
    qed
    show ?thesis
    proof (cases "nkey s q < key")
      case True
      then show ?thesis using step next_level Cons q by (subst findNear_loop.simps) simp
    next
      case False
      show ?thesis
      proof (cases "nkey s q = key")
        case eq: True
        then show ?thesis using here sorted down next_level Cons q succ nh r1
          by (subst findNear_loop.simps) (cases level, auto)
      next
        case neq: False
        then have gt: "key < nkey s q" using False by simp
        show ?thesis
        proof (cases "level = 0")
          case True
          then show ?thesis using here r1 gt next_level Cons q nh
            by (subst findNear_loop.simps) auto
        next
          case False
          then show ?thesis using down gt next_level Cons q by (subst findNear_loop.simps) auto
        qed
      qed
    qed
  qed
qed

lemma findNear_spec:
  assumes "sl_inv s ps"
  shows "findNear s key isLess allowEqual = Some (near s key isLess allowEqual ps)"
  using findNear_loop_spec [of s "[]" ps key "slHeight s - 1"] assms sl_invD [OF assms]
  by (simp add: findNear_def)


definition level_splice :: "Skiplist \<Rightarrow> bytes \<Rightarrow> nat \<Rightarrow> nodeptr list \<Rightarrow> nodeptr \<times> nodeptr" where
  "level_splice s key i ps =
     (let p = last (slHead s # on_level s i (below s key ps)) in
      case on_level s i (from_key s key ps) of
        [] \<Rightarrow> (p, 0)
      | q # _ \<Rightarrow> if nkey s q = key then (q, q) else (p, q))"

lemma last_on_level: "i < hgt s (last (h # us)) \<Longrightarrow> last (h # on_level s i us) = last (h # us)"
  by (cases us rule: rev_cases) auto

lemma findSpliceForLevel_spec:
  assumes "sl_inv s (us @ rest)" "\<forall>u \<in> set us. nkey s u < key" "i < hgt s (last (slHead s # us))"
  shows "findSpliceForLevel s key (last (slHead s # us)) i = Some (level_splice s key i (us @ rest))"
  using assms
proof (induction "length rest" arbitrary: us rest rule: less_induct)
  case less
  let ?x = "last (slHead s # us)"
  note inv = less.prems(1) and ok = sl_invD(1) [OF less.prems(1)]
  have nxt: "getNext s ?x i = Some (hd0 (on_level s i rest))"
    using level_from [OF inv less.prems(3)] by (rule chain_hd)
  note split = below_split [OF less.prems(2), of rest]
  have lst: "last (slHead s # on_level s i us) = ?x" using last_on_level less.prems(3) by blast
  show ?case
  proof (cases "on_level s i rest")
    case Nil
    then have none: "\<forall>p \<in> set rest. \<not> i < hgt s p" by (simp add: filter_empty_conv)
    then have "on_level s i (below s key rest) = []" "on_level s i (from_key s key rest) = []"
      by (auto simp: filter_empty_conv dest: set_takeWhileD set_dropWhileD)
    then have "level_splice s key i (us @ rest) = (?x, 0)" using lst by (simp only: level_splice_def split Let_def) simp
    then show ?thesis using nxt Nil by (subst findSpliceForLevel.simps) simp
  next
    case (Cons q f)
    obtain r1 r2 where rest: "rest = r1 @ q # r2" "\<forall>p \<in> set r1. hgt s p \<le> i" "i < hgt s q"
      using first_on_level [OF Cons] by metis
    have q: "node_key s q = Some (nkey s q)" "q \<noteq> 0" using node_data [OF ok, of q] rest(3) by auto
    have sorted: "p \<in> set r1 \<Longrightarrow> nkey s p < nkey s q" for p
      using sorted_mid(1) [of s us r1 q r2 p] sl_invD(8) [OF inv] rest(1) by simp
    show ?thesis
    proof (cases "nkey s q < key")
      case True
      have "findSpliceForLevel s key (last (slHead s # us @ r1 @ [q])) i = Some (level_splice s key i ((us @ r1 @ [q]) @ r2))"
        using less.prems inv rest True sorted by (intro less.hyps) force+
      then show ?thesis using nxt Cons q True rest(1) by (subst findSpliceForLevel.simps) auto
    next
      case False
      have low: "below s key rest = below s key r1" and high: "from_key s key rest = from_key s key r1 @ q # r2"
        unfolding rest(1) using False by (induction r1) auto
      have "on_level s i (below s key rest) = []"
        using low rest(2) set_takeWhileD by (fastforce simp: filter_empty_conv)
      moreover have "on_level s i (from_key s key r1) = []"
        using rest(2) set_dropWhileD by (fastforce simp: filter_empty_conv)
      ultimately have "level_splice s key i (us @ rest) = (if nkey s q = key then (q, q) else (?x, q))"
        using lst high rest(3) by (simp only: level_splice_def split Let_def) simp
      then show ?thesis using nxt Cons q False by (subst findSpliceForLevel.simps) auto
    qed
  qed
qed

lemma below_decomp:
  assumes "p = last (slHead s # on_level s i (below s key ps))"
  obtains us rest where "ps = us @ rest" "\<forall>u \<in> set us. nkey s u < key" "last (slHead s # us) = p"
    "p = slHead s \<or> i < hgt s p"
proof (cases "on_level s i (below s key ps)" rule: rev_cases)
  case Nil
  then show ?thesis using that [of "[]" ps] assms by simp
next
  case (snoc l q)
  then have q: "q \<in> set (on_level s i (below s key ps))" by simp
  then have hq: "i < hgt s q" by simp
  from q obtain u1 u2 where u: "below s key ps = u1 @ q # u2" by (auto simp: in_set_conv_decomp)
  have "ps = (u1 @ [q]) @ u2 @ from_key s key ps"
    using u takeWhile_dropWhile_id [of "\<lambda>p. nkey s p < key" ps] by simp
  moreover have "\<forall>u \<in> set (u1 @ [q]). nkey s u < key"
    using u set_takeWhileD by (metis (no_types, lifting) Un_iff append_Cons append_Nil append_assoc set_append)
  ultimately show ?thesis using that [of "u1 @ [q]" "u2 @ from_key s key ps"] assms snoc hq by auto
qed

text \<open>Where the key is absent, every level of the walk records the gap of the level.\<close>

definition gap :: "Skiplist \<Rightarrow> bytes \<Rightarrow> nat \<Rightarrow> nodeptr list \<Rightarrow> nodeptr \<times> nodeptr" where
  "gap s key i ps = (last (slHead s # on_level s i (below s key ps)), hd0 (on_level s i (from_key s key ps)))"

lemma splice_absent:
  assumes "\<forall>p \<in> set ps. nkey s p \<noteq> key"
  shows "level_splice s key i ps = gap s key i ps"
proof (cases "on_level s i (from_key s key ps)")
  case (Cons q f)
  then have "q \<in> set (on_level s i (from_key s key ps))" by simp
  then have "q \<in> set ps" by (auto dest: set_dropWhileD)
  then show ?thesis using Cons assms by (simp add: level_splice_def gap_def)
qed (simp add: level_splice_def gap_def)

lemma from_key_ge:
  assumes "sorted_wrt (\<lambda>p q. nkey s p < nkey s q) ps" "q \<in> set (from_key s key ps)"
  shows "key \<le> nkey s q"
  using assms by (induction ps) (auto split: if_splits simp: not_less)

lemma below_lt: "q \<in> set (below s key ps) \<Longrightarrow> nkey s q < key"
  by (auto dest: set_takeWhileD)

lemma head_nonzero: "sl_inv s ps \<Longrightarrow> slHead s \<noteq> 0"
  using node_data(3) [of s "slHead s"] sl_invD(1,2) [of s ps] by (simp add: maxHeight_def)

lemma gap_distinct:
  assumes "sl_inv s ps"
  shows "fst (gap s key i ps) \<noteq> snd (gap s key i ps)"
proof -
  let ?p = "fst (gap s key i ps)"
  obtain us rest where d: "ps = us @ rest" "\<forall>u \<in> set us. nkey s u < key" "last (slHead s # us) = ?p"
    by (rule below_decomp [of ?p s i key ps]) (simp_all add: gap_def)
  have p: "?p \<noteq> 0"
    using d(1,3) head_nonzero [OF assms] node_data(3) [OF sl_invD(1) [OF assms]] sl_invD(6) [OF assms]
    by (cases us rule: rev_cases) auto
  show ?thesis
  proof (cases "on_level s i (from_key s key ps)")
    case Nil
    then show ?thesis using p by (simp add: gap_def)
  next
    case (Cons q f)
    then have q: "q \<in> set (from_key s key ps)" by (metis filter_is_subset list.set_intros(1) subsetD)
    then have "q \<in> set ps" by (rule set_dropWhileD)
    moreover have "\<not> nkey s q < key" using from_key_ge [OF sl_invD(8) [OF assms] q] by simp
    ultimately show ?thesis using Cons d sl_invD(3) [OF assms]
      by (cases us rule: rev_cases) (auto simp: gap_def)
  qed
qed

end
