(* ===== verification/Skiplist_Put.thy ===== *)
theory Skiplist_Put
  imports Skiplist
begin

text \<open>
  Correctness of the skiplist of \<^verbatim>\<open>src/skiplist/skiplist.go\<close>: every operation of the pointer structure
  against the sorted association list it represents.
\<close>

section \<open>Put: overwriting\<close>

lemma sl_inv_transfer:
  assumes "sl_inv s ps" "arena_ok (slArena t)" "slHead t = slHead s" "slHeight t = slHeight s"
    and "\<And>p i. getNext t p i = getNext s p i" "\<And>p. hgt t p = hgt s p"
    and "\<And>p. p \<in> set ps \<Longrightarrow> nkey t p = nkey s p"
  shows "sl_inv t ps"
proof -
  have "chain t i x l = chain s i x l" for i x l using assms(5) by (intro chain_cong) simp
  moreover have "sorted_wrt (\<lambda>p q. nkey t p < nkey t q) ps"
    using sl_invD(8) [OF assms(1)] assms(7) by (auto simp: sorted_wrt_iff_nth_less)
  ultimately show ?thesis using assms by (simp add: sl_inv_def)
qed

lemma node_ok_mono: "node_ok a p n \<Longrightarrow> unat (arenaN a) \<le> unat (arenaN b) \<Longrightarrow> node_ok b p n"
  by (auto simp: node_ok_def)

lemma arena_ok_grown:
  assumes "arena_ok a" "unat (arenaN a) + length v \<le> length (arenaBuf a)"
  shows "arena_ok (grown a v)"
proof -
  have "length (arenaBuf a) < 2 ^ 32" using assms(1) by (simp add: arena_ok_def)
  note g = grown_simps [OF assms(2) this]
  have "node_ok (grown a v) p n" if "arenaNodes (grown a v) p = Some n" for p n
    using assms(1) that g(2,3) by (metis arena_ok_def le_add1 node_ok_mono)
  then show ?thesis using assms g(1,2) by (simp add: arena_ok_def)
qed

lemma setValue_spec:
  assumes inv: "sl_inv s ps" and e: "e \<in> set ps"
    and room: "unat (arenaN (slArena s)) + length v \<le> length (arenaBuf (slArena s))"
  shows "\<exists>t. setValue s e v = Some t \<and> sl_inv t ps \<and> (\<forall>p \<in> set ps. nkey t p = nkey s p) \<and>
    (\<forall>p \<in> set ps. nval t p = (if p = e then v else nval s p)) \<and>
    arenaBuf (slArena t) = arenaBuf (grown (slArena s) v) \<and>
    unat (arenaN (slArena t)) = unat (arenaN (slArena s)) + length v"
proof -
  let ?a = "slArena s"
  have ok: "arena_ok ?a" using sl_invD(1) [OF inv] .
  have len: "length (arenaBuf ?a) < 2 ^ 32" using ok by (simp add: arena_ok_def)
  note g = grown_simps [OF room len]
  obtain n where n: "arenaNodes ?a e = Some n" using node_exists [OF sl_invD(6) [OF inv e]] by blast
  have nok: "arenaNodes ?a p = Some m \<Longrightarrow> node_ok ?a p m" for p m using ok by (simp add: arena_ok_def)
  define n' where "n' = n\<lparr>nodeValue := encodeValue (arenaN ?a) (of_nat (length v))\<rparr>"
  define t where "t = s\<lparr>slArena := (grown ?a v)\<lparr>arenaNodes := (arenaNodes ?a)(e \<mapsto> n')\<rparr>\<rparr>"
  have eq: "setValue s e v = Some t"
    using n g(3) by (simp add: setValue_def put_fits(1) [OF room] upd_node_def t_def n'_def)
  have lv: "unat (of_nat (length v) :: u32) = length v" using room len by (simp add: unat_of_nat)
  have nok': "node_ok (slArena t) e n'"
    using nok [OF n] g(2) lv by (auto simp: t_def n'_def node_ok_def)
  have nok'': "node_ok (slArena t) p m" if "arenaNodes ?a p = Some m" for p m
    using nok [OF that] g(2) by (auto simp: t_def node_ok_def)
  have okt: "arena_ok (slArena t)"
    using ok room g(1,2) nok' nok'' by (auto simp: arena_ok_def t_def split: if_splits)
  have nodes: "arenaNodes (slArena t) p = (if p = e then Some n' else arenaNodes ?a p)" for p
    by (simp add: t_def)
  have buf: "arenaBuf (slArena t) = arenaBuf (grown ?a v)" by (simp add: t_def)
  have hg: "hgt t p = hgt s p" for p using n by (simp add: hgt_def nodes n'_def)
  have gn: "getNext t p i = getNext s p i" for p i
  proof -
    have "getNode (slArena t) = getNode ?a" using g(1) buf by (simp add: fun_eq_iff getNode_def)
    then show ?thesis using n by (cases "p = e") (simp_all add: getNext_def nodes n'_def getNextOffset_def)
  qed
  have key: "nkey t p = nkey s p" if pin: "p \<in> set ps" for p
  proof -
    obtain m where m: "arenaNodes ?a p = Some m" using node_exists [OF sl_invD(6) [OF inv pin]] by blast
    define m' where "m' = (if p = e then n' else m)"
    have m': "arenaNodes (slArena t) p = Some m'" "keyOffset m' = keyOffset m" "keySize m' = keySize m"
      using m n by (auto simp: nodes m'_def n'_def)
    have nokm: "node_ok (slArena t) p m'" using okt m'(1) by (simp add: arena_ok_def)
    show ?thesis
      using getKey_Some [OF ok nok [OF m]] getKey_Some [OF okt nokm] m m' nok [OF m]
        g(4) [of "unat (keyOffset m) + unat (keySize m)" "unat (keyOffset m)"] buf
      by (simp add: nkey_def node_key_def node_ok_def)
  qed
  have val: "nval t p = (if p = e then v else nval s p)" if pin: "p \<in> set ps" for p
  proof (cases "p = e")
    case True
    have "getVal (slArena t) (arenaN ?a) (of_nat (length v)) = Some v"
      using getVal_Some [OF okt, of "arenaN ?a" "of_nat (length v)"] g(2,5) lv buf by (simp add: t_def)
    then show ?thesis using True by (simp add: nval_def node_value_def nodes n'_def)
  next
    case False
    obtain m where m: "arenaNodes ?a p = Some m" using node_exists [OF sl_invD(6) [OF inv pin]] by blast
    obtain off sz where d: "decodeValue (nodeValue m) = (off, sz)" by fastforce
    have b: "unat off + unat sz \<le> unat (arenaN ?a)" using nok [OF m] d by (simp add: node_ok_def)
    then have b': "unat off + unat sz \<le> unat (arenaN (slArena t))" using g(2) by (simp add: t_def)
    show ?thesis
      using False m d getVal_Some [OF ok b] getVal_Some [OF okt b'] g(4) [OF b] buf
      by (simp add: nval_def node_value_def nodes)
  qed
  have "sl_inv t ps" using inv okt _ _ gn hg key by (rule sl_inv_transfer) (simp_all add: t_def)
  then show ?thesis using eq key val buf g(2) by (auto simp: t_def)
qed

lemma unique_key:
  assumes "sorted_wrt (\<lambda>p q. nkey s p < nkey s q) ps" "p \<in> set ps" "q \<in> set ps" "nkey s p = nkey s q"
  shows "p = q"
proof (rule ccontr)
  assume "p \<noteq> q"
  moreover obtain i j where "i < length ps" "ps ! i = p" "j < length ps" "ps ! j = q"
    using assms(2,3) by (meson in_set_conv_nth)
  ultimately have "nkey s p < nkey s q \<or> nkey s q < nkey s p"
    using assms(1) by (metis linorder_neqE_nat sorted_wrt_iff_nth_less)
  then show False using assms(4) by simp
qed

lemma put_descend_absent:
  assumes "sl_inv s (us @ rest)" "\<forall>u \<in> set us. nkey s u < key" "prev i = last (slHead s # us)"
    "i \<le> hgt s (prev i)" "\<forall>p \<in> set (us @ rest). nkey s p \<noteq> key"
  shows "\<exists>prev' nxt'. put_descend s key v i prev nxt = Some (Inr (prev', nxt')) \<and>
    (\<forall>j < i. (prev' j, nxt' j) = gap s key j (us @ rest)) \<and> (\<forall>j \<ge> i. prev' j = prev j \<and> nxt' j = nxt j)"
  using assms
proof (induction i arbitrary: us rest prev nxt)
  case 0
  then show ?case by simp
next
  case (Suc i)
  let ?ps = "us @ rest"
  obtain p n where pn: "gap s key i ?ps = (p, n)" by fastforce
  have "findSpliceForLevel s key (prev (Suc i)) i = Some (p, n)"
    using findSpliceForLevel_spec [OF Suc.prems(1,2), of i] splice_absent [OF Suc.prems(5)] Suc.prems(3,4) pn
    by simp
  moreover have "p \<noteq> n" using gap_distinct [OF Suc.prems(1), of key i] pn by simp
  ultimately have step: "put_descend s key v (Suc i) prev nxt = put_descend s key v i (prev(i := p)) (nxt(i := n))"
    by simp
  obtain us' rest' where d: "?ps = us' @ rest'" "\<forall>u \<in> set us'. nkey s u < key"
    "last (slHead s # us') = p" "p = slHead s \<or> i < hgt s p"
    by (rule below_decomp [of p s i key ?ps]) (use pn in \<open>simp add: gap_def\<close>)
  have "i \<le> maxHeight"
  proof -
    have "hgt s (prev (Suc i)) \<le> maxHeight"
      using Suc.prems(3) sl_invD(2,5,7) [OF Suc.prems(1)]
      by (cases us rule: rev_cases) (auto, fastforce)
    then show ?thesis using Suc.prems(4) by simp
  qed
  then have "i \<le> hgt s p" using d(4) sl_invD(2) [OF Suc.prems(1)] by auto
  then have "\<exists>prev' nxt'. put_descend s key v i (prev(i := p)) (nxt(i := n)) = Some (Inr (prev', nxt')) \<and>
    (\<forall>j < i. (prev' j, nxt' j) = gap s key j ?ps) \<and>
    (\<forall>j \<ge> i. prev' j = (prev(i := p)) j \<and> nxt' j = (nxt(i := n)) j)"
    using Suc.prems(1,5) d(2,3) unfolding d(1) by (intro Suc.IH) simp_all
  then obtain prev' nxt' where r: "put_descend s key v i (prev(i := p)) (nxt(i := n)) = Some (Inr (prev', nxt'))"
    "\<forall>j < i. (prev' j, nxt' j) = gap s key j ?ps"
    "\<forall>j \<ge> i. prev' j = (prev(i := p)) j \<and> nxt' j = (nxt(i := n)) j" by blast
  have "(prev' j, nxt' j) = gap s key j ?ps" if "j < Suc i" for j
    using r(2,3) pn that by (cases "j = i") auto
  moreover have "prev' j = prev j \<and> nxt' j = nxt j" if "j \<ge> Suc i" for j
    using r(3) that by (auto dest: spec [of _ j])
  ultimately show ?case unfolding step using r(1) by blast
qed

lemma put_descend_present:
  assumes "sl_inv s (us @ rest)" "\<forall>u \<in> set us. nkey s u < key" "prev (Suc i) = last (slHead s # us)"
    "i < hgt s (prev (Suc i))" "e \<in> set (us @ rest)" "nkey s e = key"
  shows "put_descend s key v (Suc i) prev nxt = do { s' \<leftarrow> setValue s e v; Some (Inl s') }"
  using assms
proof (induction i arbitrary: us rest prev nxt)
  case 0
  have e: "e \<in> set rest" using "0.prems"(2,5,6) by auto
  obtain r1 r2 where r: "rest = r1 @ e # r2" using split_list [OF e] by blast
  have "from_key s key rest = e # r2"
  proof -
    have "nkey s p < key" if "p \<in> set r1" for p
      using sorted_mid(1) [of s us r1 e r2 p] sl_invD(8) [OF "0.prems"(1)] r that "0.prems"(6) by simp
    then show ?thesis using r "0.prems"(6) by simp
  qed
  moreover have "0 < hgt s e" using sl_invD(6) [OF "0.prems"(1) "0.prems"(5)] .
  ultimately have "level_splice s key 0 (us @ rest) = (e, e)"
    using below_split [OF "0.prems"(2), of rest] "0.prems"(6) by (simp add: level_splice_def Let_def)
  then show ?case
    using findSpliceForLevel_spec [OF "0.prems"(1,2), of 0] "0.prems"(3,4) by simp
next
  case (Suc i)
  let ?ps = "us @ rest"
  have fs: "findSpliceForLevel s key (prev (Suc (Suc i))) (Suc i) = Some (level_splice s key (Suc i) ?ps)"
    using findSpliceForLevel_spec [OF Suc.prems(1,2), of "Suc i"] Suc.prems(3,4) by simp
  show ?case
  proof (cases "level_splice s key (Suc i) ?ps = gap s key (Suc i) ?ps")
    case True
    obtain p n where pn: "gap s key (Suc i) ?ps = (p, n)" by fastforce
    have "p \<noteq> n" using gap_distinct [OF Suc.prems(1), of key "Suc i"] pn by simp
    then have step: "put_descend s key v (Suc (Suc i)) prev nxt =
        put_descend s key v (Suc i) (prev(Suc i := p)) (nxt(Suc i := n))"
      using fs True pn by simp
    obtain us' rest' where d: "?ps = us' @ rest'" "\<forall>u \<in> set us'. nkey s u < key"
      "last (slHead s # us') = p" "p = slHead s \<or> Suc i < hgt s p"
      by (rule below_decomp [of p s "Suc i" key ?ps]) (use pn in \<open>simp add: gap_def\<close>)
    have "hgt s (prev (Suc (Suc i))) \<le> maxHeight"
      using Suc.prems(3) sl_invD(2,5,7) [OF Suc.prems(1)]
      by (cases us rule: rev_cases) (auto, fastforce)
    then have "i < hgt s p" using d(4) sl_invD(2) [OF Suc.prems(1)] Suc.prems(4) by auto
    then show ?thesis unfolding step
      using Suc.prems(1,5,6) d(2,3) unfolding d(1) by (intro Suc.IH) simp_all
  next
    case False
    obtain q f where q: "on_level s (Suc i) (from_key s key ?ps) = q # f" "nkey s q = key"
      using False by (auto simp: level_splice_def gap_def Let_def split: list.splits if_splits)
    then have "q \<in> set ?ps"
      by (metis filter_is_subset list.set_intros(1) set_dropWhileD subsetD)
    then have "q = e" using unique_key [OF sl_invD(8) [OF Suc.prems(1)]] Suc.prems(5,6) q(2) by metis
    then have "level_splice s key (Suc i) ?ps = (e, e)" using q by (simp add: level_splice_def Let_def)
    then show ?thesis using fs by simp
  qed
qed


section \<open>Put: linking a new node\<close>

definition room :: "arena \<Rightarrow> nat \<Rightarrow> bytes \<Rightarrow> bytes \<Rightarrow> bool" where
  "room a h key v \<longleftrightarrow> unat (arenaN a) + node_cost h + length key + length v \<le> length (arenaBuf a)"

lemma newNode_spec:
  assumes ok: "arena_ok a" and h: "h \<le> maxHeight" and key: "length key < 2 ^ 16" and rm: "room a h key v"
  obtains b x n where "newNode a key v h = Some (b, x)" "arena_ok b" "arenaNodes a x = None"
    "unat x < length (arenaBuf b)" "arenaNodes b = (arenaNodes a)(x \<mapsto> n)" "tower n = replicate h 0"
    "length (arenaBuf b) = length (arenaBuf a)"
    "\<And>lo hi. hi \<le> unat (arenaN a) \<Longrightarrow> subslice (arenaBuf b) lo hi = subslice (arenaBuf a) lo hi"
    "getKey b (keyOffset n) (keySize n) = Some key"
    "\<And>off sz. decodeValue (nodeValue n) = (off, sz) \<Longrightarrow> getVal b off sz = Some v"
    "unat (arenaN b) = unat (arenaN a) + node_cost h + length key + length v"
    "unat (arenaN a) \<le> unat x" "unat x mod 8 = 0" "unat x + 16 + 4 * h \<le> unat (arenaN a) + node_cost h"
    "unat (keyOffset n) = unat (arenaN a) + node_cost h"
    "unat (fst (decodeValue (nodeValue n))) = unat (arenaN a) + node_cost h + length key"
proof -
  define x where "x = (arenaN a + 7) AND NOT 7"
  define a1 where "a1 = a\<lparr>arenaN := arenaN a + of_nat (node_cost h)\<rparr>"
  define a2 where "a2 = grown a1 key"
  define a3 where "a3 = grown a2 v"
  define n where "n = \<lparr>nodeValue = encodeValue (arenaN a2) (of_nat (length v)), keyOffset = arenaN a1,
    keySize = of_nat (length key), nodeHeight = of_nat h, tower = replicate h 0\<rparr>"
  define b where "b = a3\<lparr>arenaNodes := (arenaNodes a3)(x \<mapsto> n)\<rparr>"
  have len: "length (arenaBuf a) < 2 ^ 32" "0 < unat (arenaN a)" using ok by (simp_all add: arena_ok_def)
  have x: "unat (arenaN a) \<le> unat x" "unat x \<le> unat (arenaN a) + 7" "unat x mod 8 = 0"
    using align_up [of "arenaN a"] rm len by (simp_all add: x_def room_def node_cost_def)
  have n1: "unat (arenaN a1) = unat (arenaN a) + node_cost h"
    using unat_plus_bound [of "arenaN a" "node_cost h"] rm len by (simp add: a1_def room_def)
  have f2: "unat (arenaN a1) + length key \<le> length (arenaBuf a1)" "length (arenaBuf a1) < 2 ^ 32"
    using rm len n1 by (simp_all add: a1_def room_def)
  note g2 = grown_simps [OF f2, folded a2_def]
  have f3: "unat (arenaN a2) + length v \<le> length (arenaBuf a2)" "length (arenaBuf a2) < 2 ^ 32"
    using rm len n1 g2 by (simp_all add: a1_def room_def)
  note g3 = grown_simps [OF f3, folded a3_def]
  have xin: "unat x + 16 + 4 * h \<le> unat (arenaN a) + node_cost h" using x(2) by (simp add: node_cost_def)
  have x0: "x \<noteq> 0" using x(1) len(2) by auto
  have pn: "putNode a h = (a1, x)" using putNode_eq [OF h] by (simp only: a1_def x_def)
  have pk: "putKey a1 key = Some (a2, arenaN a1)" "putVal a2 v = Some (a3, arenaN a2)"
    using put_fits(2) [OF f2(1)] put_fits(1) [OF f3(1)] by (simp_all only: a2_def a3_def)
  have eq: "newNode a key v h = Some (b, x)"
    using xin x0 rm by (simp add: newNode_def pn pk room_def b_def n_def)
  have bN: "unat (arenaN b) = unat (arenaN a) + node_cost h + length key + length v"
    using g2(2) g3(2) n1 by (simp add: b_def)
  have nodes3: "arenaNodes a3 = arenaNodes a" using g2(3) g3(3) by (simp add: a1_def)
  have lk: "unat (of_nat (length key) :: u16) = length key" using key by (simp add: unat_of_nat)
  have lv: "unat (of_nat (length v) :: u32) = length v" using rm len by (simp add: unat_of_nat room_def)
  have nn: "node_ok b x n"
    using x0 xin bN n1 g2(2) lk lv by (auto simp: node_ok_def n_def node_cost_def)
  have fresh: "arenaNodes a x = None"
    using ok x(1) by (metis arena_ok_def node_ok_def not_less option.exhaust)
  have okb: "arena_ok b"
  proof -
    have "node_ok b p m" if "arenaNodes b p = Some m" for p m
    proof (cases "p = x")
      case True
      then show ?thesis using nn that by (simp add: b_def)
    next
      case False
      then have "node_ok a p m" using ok that nodes3 by (simp add: b_def arena_ok_def)
      then show ?thesis using bN by (auto intro: node_ok_mono)
    qed
    then show ?thesis using rm len bN g2(1) g3(1) by (simp add: arena_ok_def room_def b_def a1_def)
  qed
  have bb: "arenaBuf b = arenaBuf a3" by (simp add: b_def)
  have keyb: "getKey b (keyOffset n) (keySize n) = Some key"
    using getKey_Some [OF okb nn] g2(2,5) g3(4) [of "unat (arenaN a1) + length key" "unat (arenaN a1)"] lk bb
    by (simp add: n_def)
  have valb: "getVal b off sz = Some v" if "decodeValue (nodeValue n) = (off, sz)" for off sz
    using that getVal_Some [OF okb, of off sz] g3(5) lv bb bN g2(2) n1 by (auto simp: n_def)
  have low: "subslice (arenaBuf b) lo hi = subslice (arenaBuf a) lo hi" if "hi \<le> unat (arenaN a)" for lo hi
    using that g2(2,4) g3(4) n1 bb by (simp add: a1_def)
  have "unat x < length (arenaBuf b)" "length (arenaBuf b) = length (arenaBuf a)"
    using xin rm g2(1) g3(1) bb by (simp_all add: room_def a1_def node_cost_def)
  then show ?thesis
    using that [OF eq okb fresh _ _ _ _ low keyb valb bN x(1,3) xin] nodes3 n1 g2(2) by (simp add: b_def n_def)
qed

text \<open>Storing a successor at one level of one tower.\<close>

definition link :: "Skiplist \<Rightarrow> nodeptr \<Rightarrow> nat \<Rightarrow> nodeptr \<Rightarrow> Skiplist" where
  "link s p i q = s\<lparr>slArena := (slArena s)\<lparr>arenaNodes := (arenaNodes (slArena s))
     (p := map_option (\<lambda>n. n\<lparr>tower := (tower n)[i := q]\<rparr>) (arenaNodes (slArena s) p))\<rparr>\<rparr>"

lemma storeNextOffset_link: "i < hgt s p \<Longrightarrow> storeNextOffset s p i q = Some (link s p i q)"
  by (auto simp: storeNextOffset_def link_def upd_node_def hgt_def split: option.splits)

lemma link_simps [simp]:
  "slHead (link s p i q) = slHead s" "slHeight (link s p i q) = slHeight s"
  "hgt (link s p i q) r = hgt s r" "node_key (link s p i q) r = node_key s r"
  "node_value (link s p i q) r = node_value s r" "nkey (link s p i q) r = nkey s r"
  "nval (link s p i q) r = nval s r" "arenaBuf (slArena (link s p i q)) = arenaBuf (slArena s)"
  "arenaN (slArena (link s p i q)) = arenaN (slArena s)"
proof -
  have b: "arenaBuf (slArena (link s p i q)) = arenaBuf (slArena s)" by (simp add: link_def)
  have "getKey (slArena (link s p i q)) = getKey (slArena s)" "getVal (slArena (link s p i q)) = getVal (slArena s)"
    by (simp_all add: fun_eq_iff getKey_def getVal_def buf_range_def b)
  moreover have "arenaNodes (slArena (link s p i q)) r = (if r = p
      then map_option (\<lambda>n. n\<lparr>tower := (tower n)[i := q]\<rparr>) (arenaNodes (slArena s) p) else arenaNodes (slArena s) r)" for r
    by (simp add: link_def)
  ultimately show k: "node_key (link s p i q) r = node_key s r" and v: "node_value (link s p i q) r = node_value s r" for r
    by (cases "arenaNodes (slArena s) p"; simp add: node_key_def node_value_def)+
  show "nkey (link s p i q) r = nkey s r" "nval (link s p i q) r = nval s r"
    by (simp_all add: nkey_def nval_def k v)
qed (auto simp: link_def hgt_def split: option.splits)

lemma arena_ok_link: "arena_ok (slArena s) \<Longrightarrow> arena_ok (slArena (link s p i q))"
  by (auto simp: arena_ok_def link_def node_ok_def)

lemma getNext_link:
  assumes "i < hgt s p" "q = 0 \<or> unat q < length (arenaBuf (slArena s))"
  shows "getNext (link s p i q) r j = (if r = p \<and> j = i then Some q else getNext s r j)"
proof -
  have g: "getNode (slArena (link s p i q)) = getNode (slArena s)"
    by (simp add: fun_eq_iff getNode_def)
  obtain n where n: "arenaNodes (slArena s) p = Some n" "i < length (tower n)"
    using assms(1) by (auto simp: hgt_def split: option.splits)
  show ?thesis
  proof (cases "r = p")
    case True
    then show ?thesis using n assms(2) g
      by (auto simp: getNext_def link_def getNextOffset_def getNode_def)
  next
    case False
    then show ?thesis using g by (simp add: getNext_def) (simp add: link_def)
  qed
qed

lemma getNext_in_buf: "getNext s p i = Some q \<Longrightarrow> q = 0 \<or> unat q < length (arenaBuf (slArena s))"
  by (auto simp: getNext_def getNode_def bind_eq_Some_conv split: if_splits)

lemma getNext_level: "getNext s p i = Some q \<Longrightarrow> i < hgt s p"
  by (auto simp: getNext_def getNextOffset_def hgt_def bind_eq_Some_conv split: if_splits)

lemma cas_matching:
  assumes "getNext s p i = Some n"
  shows "casNextOffset s p i n x = Some (True, link s p i x)"
proof -
  obtain m where "arenaNodes (slArena s) p = Some m" "getNextOffset m i = Some n"
    using assms by (auto simp: getNext_def getNode_def bind_eq_Some_conv split: if_splits)
  then show ?thesis using storeNextOffset_link [OF getNext_level [OF assms], of x] by (simp add: casNextOffset_def)
qed

lemma chain_insert:
  assumes "chain s i h (L @ G)" "distinct (h # L @ G)" "x \<notin> set (h # L @ G)" "x \<noteq> 0"
    and "\<And>r. getNext t r i = (if r = last (h # L) then Some x else if r = x then Some (hd0 G) else getNext s r i)"
  shows "chain t i h (L @ x # G)"
  using assms
proof (induction L arbitrary: h)
  case Nil
  have "chain t i x G"
  proof (cases G)
    case (Cons g G')
    have "chain t i g G' = chain s i g G'"
      using Nil.prems Cons by (intro chain_cong) auto
    then show ?thesis using Nil.prems Cons by auto
  qed (use Nil.prems in auto)
  then show ?case using Nil.prems by simp
next
  case (Cons l L)
  have "h \<noteq> last (l # L)" using Cons.prems(2) last_in_set [of "l # L"] by auto
  then have "getNext t h i = getNext s h i" using Cons.prems(3,5) by auto
  then show ?case using Cons by simp
qed

text \<open>
  While \<open>Put\<close> links the new node \<open>x\<close> between \<open>lt\<close> and \<open>ge\<close>: below level \<open>i\<close> the chains contain it,
  from level \<open>i\<close> on they do not.
\<close>

definition linking :: "Skiplist \<Rightarrow> nodeptr list \<Rightarrow> nodeptr \<Rightarrow> nodeptr list \<Rightarrow> nat \<Rightarrow> bool" where
  "linking t lt x ge i \<longleftrightarrow> arena_ok (slArena t) \<and> hgt t (slHead t) = maxHeight \<and>
     distinct (slHead t # lt @ x # ge) \<and> x \<noteq> 0 \<and> unat x < length (arenaBuf (slArena t)) \<and>
     slHead t \<noteq> 0 \<and> (\<forall>p \<in> set (lt @ ge). 0 < hgt t p) \<and>
     (\<forall>j < maxHeight. chain t j (slHead t) (on_level t j (if j < i then lt @ x # ge else lt @ ge)))"

lemma linking_step:
  assumes l: "linking t lt x ge i" and i: "i < hgt t x" "i < maxHeight"
    and p: "p = last (slHead t # on_level t i lt)" and n: "n = hd0 (on_level t i ge)"
  defines "t' \<equiv> link (link t x i n) p i x"
  shows "storeNextOffset t x i n = Some (link t x i n)"
    "casNextOffset (link t x i n) p i n x = Some (True, t')" "linking t' lt x ge (Suc i)"
proof -
  have chains: "chain t j (slHead t) (on_level t j (if j < i then lt @ x # ge else lt @ ge))"
    if "j < maxHeight" for j using l that by (simp add: linking_def)
  have dist: "distinct (slHead t # lt @ x # ge)" using l by (simp add: linking_def)
  have next_p: "getNext t p i = Some n"
  proof -
    have "chain t i (slHead t) (on_level t i lt @ on_level t i ge)" using chains [OF i(2)] by simp
    then have "chain t i p (on_level t i ge)" unfolding p by (rule chain_last)
    then show ?thesis unfolding n by (rule chain_hd)
  qed
  show "storeNextOffset t x i n = Some (link t x i n)" using i(1) by (rule storeNextOffset_link)
  have nb: "n = 0 \<or> unat n < length (arenaBuf (slArena t))" using getNext_in_buf [OF next_p] .
  have pset: "p \<in> set (slHead t # lt)"
    unfolding p by (metis filter_is_subset insert_mono last_in_set list.distinct(1) list.simps(15) subsetD)
  then have px: "p \<noteq> x" using dist by auto
  have gx: "getNext (link t x i n) r j = (if r = x \<and> j = i then Some n else getNext t r j)" for r j
    using getNext_link [OF i(1) nb] .
  then have "getNext (link t x i n) p i = Some n" using px next_p by simp
  then show "casNextOffset (link t x i n) p i n x = Some (True, t')"
    unfolding t'_def by (rule cas_matching)
  have hp: "i < hgt t p" using getNext_level [OF next_p] .
  have xb: "unat x < length (arenaBuf (slArena t))" using l by (simp add: linking_def)
  have g: "getNext t' r j = (if r = p \<and> j = i then Some x else if r = x \<and> j = i then Some n else getNext t r j)" for r j
    unfolding t'_def using getNext_link [of i "link t x i n" p x] hp xb gx by simp
  have "chain t' j (slHead t') (on_level t' j (if j < Suc i then lt @ x # ge else lt @ ge))" if j: "j < maxHeight" for j
  proof (cases "j = i")
    case True
    have "chain t' i (slHead t) (on_level t i lt @ x # on_level t i ge)"
    proof (rule chain_insert)
      show "chain t i (slHead t) (on_level t i lt @ on_level t i ge)" using chains [OF i(2)] by simp
      show "distinct (slHead t # on_level t i lt @ on_level t i ge)" using dist by auto
      show "x \<notin> set (slHead t # on_level t i lt @ on_level t i ge)" using dist by auto
      show "x \<noteq> 0" using l by (simp add: linking_def)
    qed (use g p n in simp)
    then show ?thesis using True i(1) by (simp add: t'_def)
  next
    case False
    let ?l = "on_level t j (if j < i then lt @ x # ge else lt @ ge)"
    have "chain t' j (slHead t) ?l = chain t j (slHead t) ?l" using g False by (intro chain_cong) simp
    then have "chain t' j (slHead t) ?l" using chains [OF j] by simp
    moreover have "(j < Suc i) = (j < i)" using False by auto
    ultimately show ?thesis by (simp add: t'_def)
  qed
  then show "linking t' lt x ge (Suc i)"
    using l by (simp add: linking_def t'_def arena_ok_link)
qed

lemma put_link_step:
  assumes l: "linking t lt x ge i" and i: "i < hgt t x" "i < maxHeight"
    and pn: "(p, n) = (last (slHead t # on_level t i lt), hd0 (on_level t i ge)) \<or>
      p = 0 \<and> 0 < i \<and> on_level t i (lt @ ge) = []"
  obtains t' where "put_link t key v x i p n = Some (Inr t')" "linking t' lt x ge (Suc i)"
    "slHead t' = slHead t" "slHeight t' = slHeight t" "hgt t' = hgt t" "nkey t' = nkey t" "nval t' = nval t"
    "arenaBuf (slArena t') = arenaBuf (slArena t)" "arenaN (slArena t') = arenaN (slArena t)"
proof -
  let ?p = "last (slHead t # on_level t i lt)" and ?n = "hd0 (on_level t i ge)"
  let ?t = "link (link t x i ?n) ?p i x"
  note step = linking_step [OF l i refl refl]
  have h0: "slHead t \<noteq> 0" using l by (simp add: linking_def)
  have pick: "(if p = 0 then if i = 0 then None
      else do { (p', n') \<leftarrow> findSpliceForLevel t key (slHead t) i; (if p' = n' then None else Some (p', n')) }
      else Some (p, n)) = Some (?p, ?n)"
  proof (cases "p = 0 \<and> 0 < i \<and> on_level t i (lt @ ge) = []")
    case True
    have "\<forall>j < maxHeight. chain t j (slHead t) (on_level t j (if j < i then lt @ x # ge else lt @ ge))"
      using l by (simp add: linking_def)
    from this [rule_format, OF i(2)] have "chain t i (slHead t) (on_level t i (lt @ ge))" by simp
    then have "getNext t (slHead t) i = Some 0" using True by (auto dest: chain_hd)
    then have "findSpliceForLevel t key (slHead t) i = Some (slHead t, 0)"
      by (subst findSpliceForLevel.simps) simp
    then show ?thesis using True h0 by simp
  next
    case False
    have "?p \<noteq> 0"
    proof (cases "on_level t i lt" rule: rev_cases)
      case (snoc l q)
      then have "q \<in> set (on_level t i lt)" by simp
      then have "0 < hgt t q" by simp
      then have "q \<noteq> 0" using node_data(3) [of t q] l by (simp add: linking_def)
      then show ?thesis using snoc by simp
    qed (use h0 in simp)
    then show ?thesis using False pn by auto
  qed
  have eq: "put_link t key v x i p n = Some (Inr ?t)"
    by (subst put_link.simps) (simp only: pick step(1,2) Option.bind.simps split_conv if_True)
  have nb: "hgt ?t = hgt t" "nkey ?t = nkey t" "nval ?t = nval t" by (simp_all add: fun_eq_iff)
  show ?thesis by (rule that [OF eq step(3) _ _ nb]) simp_all
qed

lemma put_levels_spec:
  assumes "linking t lt x ge i" "i + k = h" "hgt t x = h" "h \<le> maxHeight"
    and "\<And>j. i \<le> j \<Longrightarrow> j < h \<Longrightarrow>
      (prev j, nxt j) = (last (slHead t # on_level t j lt), hd0 (on_level t j ge)) \<or>
      prev j = 0 \<and> 0 < j \<and> on_level t j (lt @ ge) = []"
  shows "\<exists>t'. put_levels [i..<h] t key v x prev nxt = Some t' \<and> linking t' lt x ge h \<and>
    slHead t' = slHead t \<and> slHeight t' = slHeight t \<and> hgt t' = hgt t \<and> nkey t' = nkey t \<and> nval t' = nval t \<and>
    arenaBuf (slArena t') = arenaBuf (slArena t) \<and> arenaN (slArena t') = arenaN (slArena t)"
  using assms
proof (induction k arbitrary: i t)
  case 0
  then show ?case by simp
next
  case (Suc k)
  have ih: "i < h" using Suc.prems(2) by simp
  obtain t1 where t1: "put_link t key v x i (prev i) (nxt i) = Some (Inr t1)" "linking t1 lt x ge (Suc i)"
    "slHead t1 = slHead t" "slHeight t1 = slHeight t" "hgt t1 = hgt t" "nkey t1 = nkey t" "nval t1 = nval t"
    "arenaBuf (slArena t1) = arenaBuf (slArena t)" "arenaN (slArena t1) = arenaN (slArena t)"
    by (rule put_link_step [OF Suc.prems(1), of "prev i" "nxt i" key v]) (use ih Suc.prems in auto)
  have "[i..<h] = i # [Suc i..<h]" using ih by (simp add: upt_conv_Cons)
  then have step: "put_levels [i..<h] t key v x prev nxt = put_levels [Suc i..<h] t1 key v x prev nxt"
    using t1(1) by simp
  have pn: "(prev j, nxt j) = (last (slHead t1 # on_level t1 j lt), hd0 (on_level t1 j ge)) \<or>
      prev j = 0 \<and> 0 < j \<and> on_level t1 j (lt @ ge) = []" if "Suc i \<le> j" "j < h" for j
    unfolding t1(3,5) using Suc.prems(5) [of j] that by simp
  have "Suc i + k = h" "hgt t1 x = h" using Suc.prems(2,3) t1(5) by simp_all
  from Suc.IH [OF t1(2) this Suc.prems(4) pn] show ?case unfolding step t1(3-) .
qed

lemma randomHeight_bounds: "1 \<le> randomHeight rand" "randomHeight rand \<le> maxHeight"
proof -
  have "h \<le> randomHeight_loop k rand h \<and> randomHeight_loop k rand h \<le> h + k" for k h
  proof (induction k arbitrary: h)
    case (Suc k)
    then show ?case using Suc.IH [of "Suc h"] by (auto dest: Suc_leD)
  qed simp
  from this [of 1 "maxHeight - 1"] show "1 \<le> randomHeight rand" "randomHeight rand \<le> maxHeight"
    by (auto simp: randomHeight_def maxHeight_def)
qed

lemma linked_inv:
  assumes l: "linking t lt x ge (hgt t x)" and h: "0 < hgt t x" "hgt t x \<le> slHeight t"
    and ht: "slHeight t \<le> maxHeight" "\<forall>p \<in> set (lt @ ge). hgt t p \<le> slHeight t"
    and sorted: "sorted_wrt (\<lambda>p q. nkey t p < nkey t q) (lt @ x # ge)"
  shows "sl_inv t (lt @ x # ge)"
proof -
  have all: "\<forall>j < maxHeight. chain t j (slHead t) (on_level t j (if j < hgt t x then lt @ x # ge else lt @ ge))"
    using l by (simp add: linking_def)
  have "chain t j (slHead t) (on_level t j (lt @ x # ge))" if "j < maxHeight" for j
    using all [rule_format, OF that] by (cases "j < hgt t x") simp_all
  then show ?thesis using l h ht sorted by (auto simp: sl_inv_def linking_def)
qed

lemma sorted_insert_key:
  assumes "sorted_wrt (\<lambda>p q. nkey s p < nkey s q) ps" "\<forall>p \<in> set ps. nkey s p \<noteq> key"
    and "\<And>p. p \<in> set ps \<Longrightarrow> nkey t p = nkey s p" "nkey t x = key"
  shows "sorted_wrt (\<lambda>p q. nkey t p < nkey t q) (below s key ps @ x # from_key s key ps)"
proof -
  have "sorted_wrt (\<lambda>p q. nkey t p < nkey t q) (below s key ps @ from_key s key ps)"
    using assms(1,3) by (simp add: sorted_wrt_iff_nth_less)
  moreover have "nkey t p < key" if "p \<in> set (below s key ps)" for p
    using that below_lt [OF that] assms(3) by (auto dest: set_takeWhileD)
  moreover have "key < nkey t p" if "p \<in> set (from_key s key ps)" for p
    using from_key_ge [OF assms(1) that] assms(2,3) set_dropWhileD [OF that] by force
  ultimately show ?thesis using assms(4) by (auto simp: sorted_wrt_append simp del: takeWhile_dropWhile_id)
qed

section \<open>Put: the whole operation\<close>

lemma distinct_insert_mid:
  "distinct (xs @ ys) \<Longrightarrow> h \<notin> set (xs @ ys) \<Longrightarrow> x \<notin> set (h # xs @ ys) \<Longrightarrow> distinct (h # xs @ x # ys)"
  by auto

text \<open>A fresh node, not yet linked, leaves the structure as it was.\<close>

lemma fresh_node:
  assumes inv: "sl_inv s ps" and key: "length key < 2 ^ 16" and h: "h \<le> maxHeight" and rm: "room (slArena s) h key v"
  obtains b x where "newNode (slArena s) key v h = Some (b, x)" "x \<notin> set (slHead s # ps)"
    "\<And>H t. t = s\<lparr>slArena := b, slHeight := H\<rparr> \<Longrightarrow> arena_ok b \<and> x \<noteq> 0 \<and> unat x < length (arenaBuf b) \<and>
      hgt t x = h \<and> nkey t x = key \<and> nval t x = v \<and>
      (\<forall>p \<in> set (slHead s # ps). hgt t p = hgt s p \<and> nkey t p = nkey s p \<and> nval t p = nval s p \<and>
        (\<forall>j. getNext t p j = getNext s p j))"
    "length (arenaBuf b) = length (arenaBuf (slArena s))"
    "unat (arenaN b) = unat (arenaN (slArena s)) + node_cost h + length key + length v"
proof -
  let ?a = "slArena s"
  have ok: "arena_ok ?a" using sl_invD(1) [OF inv] .
  obtain b x n where new: "newNode ?a key v h = Some (b, x)" "arena_ok b" "arenaNodes ?a x = None"
    "unat x < length (arenaBuf b)" "arenaNodes b = (arenaNodes ?a)(x \<mapsto> n)" "tower n = replicate h 0"
    "length (arenaBuf b) = length (arenaBuf ?a)"
    "\<And>lo hi. hi \<le> unat (arenaN ?a) \<Longrightarrow> subslice (arenaBuf b) lo hi = subslice (arenaBuf ?a) lo hi"
    "getKey b (keyOffset n) (keySize n) = Some key"
    "\<And>off sz. decodeValue (nodeValue n) = (off, sz) \<Longrightarrow> getVal b off sz = Some v"
    "unat (arenaN b) = unat (arenaN ?a) + node_cost h + length key + length v"
    by (rule newNode_spec [OF ok h key rm]) metis
  have pos: "0 < hgt s p" if "p \<in> set (slHead s # ps)" for p
    using that sl_invD(2,6) [OF inv] by (auto simp: maxHeight_def)
  have xnew: "x \<notin> set (slHead s # ps)" using pos [of x] new(3) by (auto simp: hgt_def)
  have x0: "x \<noteq> 0" using new(2,5) by (auto simp: arena_ok_def node_ok_def)
  have nb: "node_ok ?a p m" "node_ok b p m" if "arenaNodes ?a p = Some m" for p m
  proof -
    show nok: "node_ok ?a p m" using ok that by (simp add: arena_ok_def)
    show "node_ok b p m" by (rule node_ok_mono [OF nok]) (simp add: new(11))
  qed
  have fr: "hgt t x = h \<and> nkey t x = key \<and> nval t x = v" if t: "t = s\<lparr>slArena := b, slHeight := H\<rparr>" for t H
    using new(5,6,9,10) by (simp add: t hgt_def nkey_def nval_def node_key_def node_value_def split: prod.splits)
  have old: "hgt t p = hgt s p \<and> nkey t p = nkey s p \<and> nval t p = nval s p \<and> (\<forall>j. getNext t p j = getNext s p j)"
    if t: "t = s\<lparr>slArena := b, slHeight := H\<rparr>" and p: "p \<in> set (slHead s # ps)" for t H p
  proof -
    obtain m where m: "arenaNodes ?a p = Some m" using node_exists [OF pos [OF p]] by blast
    have m': "arenaNodes b p = Some m" using m new(3,5) by auto
    obtain off sz where d: "decodeValue (nodeValue m) = (off, sz)" by fastforce
    have bnd: "unat off + unat sz \<le> unat (arenaN ?a)" "unat (keyOffset m) + unat (keySize m) \<le> unat (arenaN ?a)"
      using nb(1) [OF m] d by (simp_all add: node_ok_def)
    have "getNode b = getNode ?a" using new(7) by (simp add: fun_eq_iff getNode_def)
    moreover have "getKey b (keyOffset m) (keySize m) = getKey ?a (keyOffset m) (keySize m)"
      using getKey_Some [OF ok nb(1) [OF m]] getKey_Some [OF new(2) nb(2) [OF m]] new(8) [OF bnd(2)] by simp
    moreover have "getVal b off sz = getVal ?a off sz"
      using getVal_Some [OF ok bnd(1)] getVal_Some [OF new(2), of off sz] new(8) [OF bnd(1)] bnd(1) new(11) by simp
    ultimately show ?thesis
      by (simp add: t hgt_def nkey_def nval_def node_key_def node_value_def getNext_def m m' d)
  qed
  show ?thesis
    by (rule that [OF new(1) xnew _ new(7,11)]) (use fr old new(2,4) x0 in blast)
qed

lemma entries_split:
  assumes "sl_inv s ps"
  shows "\<forall>e \<in> set (entries s (below s key ps)). fst e < key"
    "(\<forall>p \<in> set ps. nkey s p \<noteq> key) \<Longrightarrow> \<forall>e \<in> set (entries s (from_key s key ps)). key < fst e"
proof -
  show "\<forall>e \<in> set (entries s (below s key ps)). fst e < key" using below_lt by (fastforce simp: entries_def)
  assume "\<forall>p \<in> set ps. nkey s p \<noteq> key"
  then show "\<forall>e \<in> set (entries s (from_key s key ps)). key < fst e"
    using from_key_ge [OF sl_invD(8) [OF assms]] set_dropWhileD by (fastforce simp: entries_def le_less)
qed

lemma Put_absent:
  assumes inv: "sl_inv s ps" and key: "length key < 2 ^ 16" and rm: "room (slArena s) (randomHeight rand) key v"
    and absent: "\<forall>p \<in> set ps. nkey s p \<noteq> key"
  obtains t ps' where "Put rand s key v = Some t" "sl_inv t ps'" "entries t ps' = assoc_put key v (entries s ps)"
    "length (arenaBuf (slArena t)) = length (arenaBuf (slArena s))"
    "unat (arenaN (slArena t)) = unat (arenaN (slArena s)) + node_cost (randomHeight rand) + length key + length v"
proof -
  let ?h = "randomHeight rand" and ?lt = "below s key ps" and ?ge = "from_key s key ps"
  let ?H = "if ?h > slHeight s then ?h else slHeight s"
  have ps: "ps = ?lt @ ?ge" by simp
  obtain prev nxt where desc: "put_descend s key v (slHeight s) ((\<lambda>_. 0)(slHeight s := slHead s)) (\<lambda>_. 0) = Some (Inr (prev, nxt))"
    and gaps: "\<forall>j < slHeight s. (prev j, nxt j) = gap s key j ps"
    and above: "\<forall>j \<ge> slHeight s. prev j = ((\<lambda>_. 0)(slHeight s := slHead s)) j \<and> nxt j = 0"
    using put_descend_absent [of s "[]" ps key "(\<lambda>_. 0)(slHeight s := slHead s)" "slHeight s" v "\<lambda>_. 0"]
      inv absent sl_invD(2,5) [OF inv] by auto
  obtain b x where new: "newNode (slArena s) key v ?h = Some (b, x)" "x \<notin> set (slHead s # ps)"
    and frame: "\<And>H t. t = s\<lparr>slArena := b, slHeight := H\<rparr> \<Longrightarrow> arena_ok b \<and> x \<noteq> 0 \<and> unat x < length (arenaBuf b) \<and>
      hgt t x = ?h \<and> nkey t x = key \<and> nval t x = v \<and>
      (\<forall>p \<in> set (slHead s # ps). hgt t p = hgt s p \<and> nkey t p = nkey s p \<and> nval t p = nval s p \<and>
        (\<forall>j. getNext t p j = getNext s p j))"
    and buf: "length (arenaBuf b) = length (arenaBuf (slArena s))"
    and used: "unat (arenaN b) = unat (arenaN (slArena s)) + node_cost ?h + length key + length v"
    by (rule fresh_node [OF inv key randomHeight_bounds(2) rm]) metis
  define t0 where "t0 = s\<lparr>slArena := b, slHeight := ?H\<rparr>"
  note f = frame [OF t0_def]
  have lvl: "on_level t0 j l = on_level s j l" if "set l \<subseteq> set ps" for j l
    using f that by (intro filter_cong) auto
  have sub: "set ?lt \<subseteq> set ps" "set ?ge \<subseteq> set ps" by (auto dest: set_takeWhileD set_dropWhileD)
  have dist: "distinct ps"
    using sl_invD(8) [OF inv] by (metis distinct_map less_irrefl sorted_wrt_map strict_sorted_iff)
  have chain0: "chain t0 j (slHead s) (on_level s j ps)" if "j < maxHeight" for j
    using sl_invD(9) [OF inv that] f chain_cong [of "slHead s" "on_level s j ps" t0 j s] by auto
  have l0: "linking t0 ?lt x ?ge 0"
  proof -
    have "on_level t0 j (?lt @ ?ge) = on_level s j ps" for j using lvl [of ps j] by simp
    then have "\<forall>j < maxHeight. chain t0 j (slHead t0) (on_level t0 j (?lt @ ?ge))"
      using chain0 by (simp only: t0_def) simp
    moreover have "distinct (slHead s # ?lt @ x # ?ge)"
      using distinct_insert_mid [of ?lt ?ge "slHead s" x] dist new(2) sl_invD(3) [OF inv] by simp
    ultimately show ?thesis
      using f head_nonzero [OF inv] sl_invD(2,6) [OF inv] by (simp add: linking_def t0_def)
  qed
  have hd: "slHead t0 = slHead s" by (simp add: t0_def)
  have pn: "(prev j, nxt j) = (last (slHead t0 # on_level t0 j ?lt), hd0 (on_level t0 j ?ge)) \<or>
      prev j = 0 \<and> 0 < j \<and> on_level t0 j (?lt @ ?ge) = []" for j
  proof (cases "j < slHeight s")
    case True
    then show ?thesis using gaps lvl [OF sub(1)] lvl [OF sub(2)] hd by (simp add: gap_def)
  next
    case False
    have none: "on_level s j l = []" if "set l \<subseteq> set ps" for l
      using that False sl_invD(7) [OF inv] by (fastforce simp: filter_empty_conv)
    show ?thesis
      using above False none [OF sub(1)] none [OF sub(2)] none [of ps] lvl [OF sub(1)] lvl [OF sub(2)] lvl [of ps]
        sl_invD(4) [OF inv] hd
      by (cases "j = slHeight s") simp_all
  qed
  obtain t where t: "put_levels [0..<?h] t0 key v x prev nxt = Some t" "linking t ?lt x ?ge ?h"
    "slHead t = slHead t0" "slHeight t = slHeight t0" "hgt t = hgt t0" "nkey t = nkey t0" "nval t = nval t0"
    "arenaBuf (slArena t) = arenaBuf (slArena t0)" "arenaN (slArena t) = arenaN (slArena t0)"
    using put_levels_spec [OF l0, of ?h ?h prev nxt key v] f pn randomHeight_bounds(2) [of rand] by auto
  have put: "Put rand s key v = Some t"
    using desc new(1) t(1) by (simp add: Put_def Let_def t0_def)
  have same: "hgt t p = hgt s p" "nkey t p = nkey s p" "nval t p = nval s p" if "p \<in> set ps" for p
    using f that t(5-7) by auto
  have new_x: "hgt t x = ?h" "nkey t x = key" "nval t x = v" using f t(5-7) by simp_all
  have ents: "entries t ?lt = entries s ?lt" "entries t ?ge = entries s ?ge"
    using same sub by (auto simp: entries_def)
  have "entries t (?lt @ x # ?ge) = entries s ?lt @ (key, v) # entries s ?ge"
    using ents new_x by (simp add: entries_def)
  also have "\<dots> = assoc_put key v (entries s ?lt @ entries s ?ge)"
    using assoc_put_split(1) [OF entries_split(1) [OF inv] entries_split(2) [OF inv absent]] by simp
  also have "entries s ?lt @ entries s ?ge = entries s ps" by (simp add: entries_def flip: map_append)
  finally have result: "entries t (?lt @ x # ?ge) = assoc_put key v (entries s ps)" .
  have "sl_inv t (?lt @ x # ?ge)"
  proof (rule linked_inv)
    show "linking t ?lt x ?ge (hgt t x)" using t(2) new_x(1) by simp
    show "0 < hgt t x" "hgt t x \<le> slHeight t" "slHeight t \<le> maxHeight"
      using new_x(1) randomHeight_bounds [of rand] t(4) sl_invD(5) [OF inv] by (auto simp: t0_def)
    show "\<forall>p \<in> set (?lt @ ?ge). hgt t p \<le> slHeight t"
      using same(1) sl_invD(7) [OF inv] t(4) by (fastforce simp: t0_def)
    show "sorted_wrt (\<lambda>p q. nkey t p < nkey t q) (?lt @ x # ?ge)"
      using sl_invD(8) [OF inv] absent same(2) new_x(2) by (rule sorted_insert_key)
  qed
  then show ?thesis
    using that [OF put _ result] t(8,9) buf used by (simp add: t0_def)
qed

lemma entries_mid: "entries s (us @ p # rest) = entries s us @ (nkey s p, nval s p) # entries s rest"
  by (simp add: entries_def)

lemma sorted_entries: "sl_inv s ps \<Longrightarrow> sorted_keys (entries s ps)"
  using sl_invD(8) [of s ps] by (simp add: entries_def sorted_wrt_map comp_def)

lemma Put_present:
  assumes inv: "sl_inv s ps" and e: "e \<in> set ps" "nkey s e = key"
    and rm: "unat (arenaN (slArena s)) + length v \<le> length (arenaBuf (slArena s))"
  obtains t where "Put rand s key v = Some t" "sl_inv t ps" "entries t ps = assoc_put key v (entries s ps)"
    "length (arenaBuf (slArena t)) = length (arenaBuf (slArena s))"
    "unat (arenaN (slArena t)) = unat (arenaN (slArena s)) + length v"
proof -
  obtain h where h: "slHeight s = Suc h" using sl_invD(4) [OF inv] by (cases "slHeight s") auto
  obtain t where t: "setValue s e v = Some t" "sl_inv t ps" "\<forall>p \<in> set ps. nkey t p = nkey s p"
    "\<forall>p \<in> set ps. nval t p = (if p = e then v else nval s p)"
    "arenaBuf (slArena t) = arenaBuf (grown (slArena s) v)"
    "unat (arenaN (slArena t)) = unat (arenaN (slArena s)) + length v"
    using setValue_spec [OF inv e(1) rm] by blast
  have "put_descend s key v (Suc h) ((\<lambda>_. 0)(slHeight s := slHead s)) (\<lambda>_. 0) = Some (Inl t)"
    using put_descend_present [of s "[]" ps key "(\<lambda>_. 0)(slHeight s := slHead s)" h e v "\<lambda>_. 0"]
      inv e t(1) h sl_invD(2,5) [OF inv] by simp
  then have put: "Put rand s key v = Some t" using h by (simp add: Put_def)
  obtain us rest where d: "ps = us @ e # rest" using split_list [OF e(1)] by blast
  note sorted = sorted_mid [of s us "[]" e rest] sl_invD(8) [OF inv]
  have neq: "e \<notin> set us" "e \<notin> set rest" using sorted d by auto
  have "entries t us = entries s us" "entries t rest = entries s rest"
    using t(3,4) d neq by (auto simp: entries_def)
  then have "entries t ps = entries s us @ (key, v) # entries s rest"
    unfolding d entries_mid using t(3,4) d e(2) by simp
  also have "\<dots> = assoc_put key v (entries s us @ (key, nval s e) # entries s rest)"
    using sorted d e(2) by (intro assoc_put_split(2) [symmetric]) (auto simp: entries_def)
  finally have "entries t ps = assoc_put key v (entries s ps)" using entries_mid [of s us e rest] d e(2) by simp
  moreover have "length (arenaBuf (slArena t)) = length (arenaBuf (slArena s))"
    using grown_simps(1) [OF rm] sl_invD(1) [OF inv] t(5) by (simp add: arena_ok_def)
  ultimately show ?thesis using that put t(2,6) by blast
qed

text \<open>The arena bytes a \<open>Put\<close> takes: a node for a new key, the value alone for a key that is present.\<close>

definition put_cost :: "(bytes \<times> bytes) list \<Rightarrow> nat \<Rightarrow> bytes \<Rightarrow> bytes \<Rightarrow> nat" where
  "put_cost kvs h key v = (if map_of kvs key = None then node_cost h + length key + length v else length v)"

definition sl_used :: "Skiplist \<Rightarrow> nat" where
  "sl_used s = unat (arenaN (slArena s))"

definition sl_cap :: "Skiplist \<Rightarrow> nat" where
  "sl_cap s = length (arenaBuf (slArena s))"

lemma entries_lookup_None: "map_of (entries s ps) key = None \<longleftrightarrow> (\<forall>p \<in> set ps. nkey s p \<noteq> key)"
  by (simp add: entries_def map_of_eq_None_iff image_iff) metis

lemma Put_refines:
  assumes rel: "sl_rel s kvs" and key: "length key < 2 ^ 16"
    and rm: "sl_used s + put_cost kvs (randomHeight rand) key v \<le> sl_cap s"
  shows "\<exists>t. Put rand s key v = Some t \<and> sl_rel t (assoc_put key v kvs) \<and> sl_cap t = sl_cap s \<and>
    sl_used t = sl_used s + put_cost kvs (randomHeight rand) key v"
proof -
  obtain ps where ps: "sl_inv s ps" "kvs = entries s ps" using rel by (auto simp: sl_rel_def)
  show ?thesis
  proof (cases "map_of kvs key")
    case None
    have "room (slArena s) (randomHeight rand) key v"
      using rm None by (simp add: room_def put_cost_def sl_used_def sl_cap_def)
    from Put_absent [OF ps(1) key this] obtain t ps' where t: "Put rand s key v = Some t" "sl_inv t ps'"
      "entries t ps' = assoc_put key v (entries s ps)" "length (arenaBuf (slArena t)) = length (arenaBuf (slArena s))"
      "unat (arenaN (slArena t)) = unat (arenaN (slArena s)) + node_cost (randomHeight rand) + length key + length v"
      using None unfolding ps(2) entries_lookup_None by metis
    have "sl_rel t (assoc_put key v kvs)" using t(2,3) ps(2) unfolding sl_rel_def by metis
    then show ?thesis using t(1,4,5) None by (simp add: put_cost_def sl_used_def sl_cap_def)
  next
    case (Some w)
    then obtain e where e: "e \<in> set ps" "nkey s e = key" using ps(2) entries_lookup_None [of s ps key] by auto
    have "unat (arenaN (slArena s)) + length v \<le> length (arenaBuf (slArena s))"
      using rm Some by (simp add: put_cost_def sl_used_def sl_cap_def)
    from Put_present [OF ps(1) e this] obtain t where t: "Put rand s key v = Some t" "sl_inv t ps"
      "entries t ps = assoc_put key v (entries s ps)" "length (arenaBuf (slArena t)) = length (arenaBuf (slArena s))"
      "unat (arenaN (slArena t)) = unat (arenaN (slArena s)) + length v" by metis
    have "sl_rel t (assoc_put key v kvs)" using t(2,3) ps(2) unfolding sl_rel_def by metis
    then show ?thesis using t(1,4,5) Some by (simp add: put_cost_def sl_used_def sl_cap_def)
  qed
qed

section \<open>Lookup and construction\<close>

lemma map_of_entries:
  assumes inv: "sl_inv s ps"
  shows "map_of (entries s ps) key =
    (case from_key s key ps of [] \<Rightarrow> None | q # _ \<Rightarrow> if nkey s q = key then Some (nval s q) else None)"
proof -
  have "map_of (entries s (us @ rest)) key = map_of (entries s rest) key" if "\<forall>p \<in> set us. nkey s p < key" for us rest
    using that by (induction us) (auto simp: entries_def)
  from this [of "below s key ps" "from_key s key ps"]
  have low: "map_of (entries s ps) key = map_of (entries s (from_key s key ps)) key" using below_lt by simp
  show ?thesis
  proof (cases "from_key s key ps")
    case Nil
    show ?thesis unfolding low Nil by (simp add: entries_def)
  next
    case (Cons q r)
    have "key \<le> nkey s q" using from_key_ge [OF sl_invD(8) [OF inv], of q key] Cons by simp
    moreover have "nkey s q < nkey s p" if "p \<in> set r" for p
    proof -
      have "sorted_wrt (\<lambda>p q. nkey s p < nkey s q) (below s key ps @ q # r)"
        using sl_invD(8) [OF inv] Cons takeWhile_dropWhile_id [of "\<lambda>p. nkey s p < key" ps] by simp
      then show ?thesis using that by (simp add: sorted_wrt_append)
    qed
    ultimately have "nkey s q \<noteq> key \<Longrightarrow> map_of (entries s r) key = None"
      unfolding entries_lookup_None by force
    then show ?thesis using low Cons by (auto simp: entries_def)
  qed
qed

lemma Get_refines:
  assumes "sl_rel s kvs"
  shows "Get s key = Some (map_of kvs key)"
proof -
  obtain ps where ps: "sl_inv s ps" "kvs = entries s ps" using assms by (auto simp: sl_rel_def)
  have f: "findNear s key False True = Some (near s key False True ps)" using findNear_spec [OF ps(1)] .
  show ?thesis
  proof (cases "from_key s key ps")
    case Nil
    have "near s key False True ps = (0, False)" unfolding near_def Nil by simp
    moreover have "map_of kvs key = None" unfolding ps(2) map_of_entries [OF ps(1)] Nil by simp
    ultimately show ?thesis using f by (simp add: Get_def)
  next
    case (Cons q r)
    then have "q \<in> set ps" by (metis list.set_intros(1) set_dropWhileD)
    then have "node_value s q = Some (nval s q)"
      using node_data(2) [OF sl_invD(1) [OF ps(1)]] sl_invD(6) [OF ps(1)] by blast
    then show ?thesis using f map_of_entries [OF ps(1), of key] ps(2) Cons by (simp add: Get_def near_def)
  qed
qed

lemma New_refines:
  assumes "104 \<le> n" "n < 2 ^ 32"
  shows "\<exists>s. New n = Some s \<and> sl_rel s [] \<and> sl_cap s = n \<and> sl_used s = 104"
proof -
  have ok: "arena_ok (newArena n)" using assms by (auto simp: arena_ok_def newArena_def)
  have rm: "room (newArena n) maxHeight [] []"
    using assms by (simp add: room_def newArena_def node_cost_def maxHeight_def)
  obtain b x m where new: "newNode (newArena n) [] [] maxHeight = Some (b, x)" "arena_ok b"
    "unat x < length (arenaBuf b)" "arenaNodes b = (arenaNodes (newArena n))(x \<mapsto> m)" "tower m = replicate maxHeight 0"
    "length (arenaBuf b) = length (arenaBuf (newArena n))"
    "unat (arenaN b) = unat (arenaN (newArena n)) + node_cost maxHeight + length ([] :: bytes) + length ([] :: bytes)"
    by (rule newNode_spec [OF ok _ _ rm]) auto
  define s where "s = \<lparr>slHeight = 1, slHead = x, slRef = 1, slArena = b\<rparr>"
  have "getNext s x i = Some 0" if "i < maxHeight" for i
    using new(4,5) that by (simp add: s_def getNext_def getNextOffset_def getNode_def)
  then have "sl_inv s []"
    using new(2,4,5) by (simp add: sl_inv_def s_def hgt_def maxHeight_def)
  moreover have "New n = Some s" using new(1) by (simp add: New_def s_def)
  ultimately show ?thesis using new(6,7)
    by (auto simp: sl_rel_def entries_def sl_cap_def sl_used_def s_def newArena_def node_cost_def maxHeight_def)
qed

lemma base_level: "sl_inv s ps \<Longrightarrow> on_level s 0 ps = ps"
  using sl_invD(6) by simp

lemma first_node: "sl_inv s ps \<Longrightarrow> getNext s (slHead s) 0 = Some (hd0 ps)"
  using sl_invD(9) [of s ps 0] base_level [of s ps] by (auto simp: maxHeight_def dest: chain_hd)

lemma next_node:
  assumes "sl_inv s (us @ p # rest)"
  shows "getNext s p 0 = Some (hd0 rest)"
proof -
  have "chain s 0 p (on_level s 0 rest)"
    using level_from [of s "us @ [p]" rest 0] sl_invD(6) [OF assms, of p] assms by simp
  moreover have "on_level s 0 rest = rest" using sl_invD(6) [OF assms] by simp
  ultimately show ?thesis using chain_hd by metis
qed

lemma Empty_refines:
  assumes "sl_rel s kvs"
  shows "Empty s = Some (kvs = [])"
proof -
  obtain ps where ps: "sl_inv s ps" "kvs = entries s ps" using assms by (auto simp: sl_rel_def)
  have "p \<noteq> 0" if "p \<in> set ps" for p
    using node_data(3) [OF sl_invD(1) [OF ps(1)]] sl_invD(6) [OF ps(1) that] by blast
  then have "(hd0 ps = 0) = (kvs = [])" unfolding ps(2) by (cases ps) (simp_all add: entries_def)
  then show ?thesis using first_node [OF ps(1)] by (simp add: Empty_def)
qed

lemma findLast_loop_spec:
  assumes "sl_inv s (us @ rest)" "level < hgt s (last (slHead s # us))"
  shows "findLast_loop s (last (slHead s # us)) level = Some (last0 (us @ rest))"
  using assms
proof (induction "length rest + level" arbitrary: us rest level rule: less_induct)
  case less
  let ?x = "last (slHead s # us)"
  note inv = less.prems(1)
  have nxt: "getNext s ?x level = Some (hd0 (on_level s level rest))"
    using level_from [OF inv less.prems(2)] by (rule chain_hd)
  show ?case
  proof (cases "on_level s level rest")
    case Nil
    have "findLast_loop s ?x (level - 1) = Some (last0 (us @ rest))" if "0 < level"
      using less.hyps [of rest "level - 1" us] less.prems that by simp
    moreover have "rest = []" if "level = 0" using Nil that sl_invD(6) [OF inv] by (cases rest) (auto split: if_splits)
    moreover have "not_head s ?x = last0 us" using sl_invD(3) [OF inv] by (intro not_head_last) simp
    ultimately show ?thesis using nxt Nil by (subst findLast_loop.simps) auto
  next
    case (Cons q f)
    obtain r1 r2 where rest: "rest = r1 @ q # r2" "level < hgt s q" using first_on_level [OF Cons] by metis
    have "findLast_loop s q level = Some (last0 (us @ rest))"
      using less.hyps [of r2 level "us @ r1 @ [q]"] inv rest by simp
    moreover have "q \<noteq> 0" using node_data(3) [OF sl_invD(1) [OF inv], of q] rest(2) by simp
    ultimately show ?thesis using nxt Cons by (subst findLast_loop.simps) simp
  qed
qed

lemma findLast_spec: "sl_inv s ps \<Longrightarrow> findLast s = Some (last0 ps)"
  using findLast_loop_spec [of s "[]" ps "slHeight s - 1"] sl_invD(2,4,5) [of s ps] by (simp add: findLast_def)

section \<open>The iterator as a cursor\<close>

text \<open>
  A cursor over a list is an index; the length of the list stands for a cursor that is not valid.
\<close>

definition cursor_next :: "'e list \<Rightarrow> nat \<Rightarrow> nat" where
  "cursor_next kvs i = (if i < length kvs then Suc i else i)"

definition cursor_before :: "'e list \<Rightarrow> nat \<Rightarrow> nat" where
  "cursor_before kvs n = (if n = 0 then length kvs else n - 1)"

definition cursor_prev :: "'e list \<Rightarrow> nat \<Rightarrow> nat" where
  "cursor_prev kvs i = (if kvs = [] then 0 else cursor_before kvs i)"

definition cursor_seek :: "(bytes \<times> bytes) list \<Rightarrow> bytes \<Rightarrow> nat" where
  "cursor_seek kvs target = length (takeWhile (\<lambda>e. fst e < target) kvs)"

definition cursor_seek_prev :: "(bytes \<times> bytes) list \<Rightarrow> bytes \<Rightarrow> nat" where
  "cursor_seek_prev kvs target = cursor_before kvs (length (takeWhile (\<lambda>e. fst e \<le> target) kvs))"

definition node_at :: "nodeptr list \<Rightarrow> nat \<Rightarrow> nodeptr" where
  "node_at ps i = (if i < length ps then ps ! i else 0)"

definition it_at :: "Skiplist \<Rightarrow> (bytes \<times> bytes) list \<Rightarrow> Iterator \<Rightarrow> nat \<Rightarrow> bool" where
  "it_at s kvs it i \<longleftrightarrow> (\<exists>ps. sl_inv s ps \<and> kvs = entries s ps \<and> itOpen it \<and> i \<le> length ps \<and> itNode it = node_at ps i)"

lemma length_entries [simp]: "length (entries s ps) = length ps"
  by (simp add: entries_def)

lemma it_atI: "sl_inv s ps \<Longrightarrow> kvs = entries s ps \<Longrightarrow> itOpen it \<Longrightarrow> i \<le> length ps \<Longrightarrow> itNode it = node_at ps i \<Longrightarrow> it_at s kvs it i"
  by (auto simp: it_at_def)

lemma it_move_at:
  assumes "sl_inv s ps" "itOpen it" "p = Some (node_at ps i)" "i \<le> length ps"
  shows "\<exists>it'. it_move it p = Some it' \<and> it_at s (entries s ps) it' i"
  using assms by (auto simp: it_move_def it_at_def)

lemma node_at_0: "hd0 ps = node_at ps 0"
  by (cases ps) (simp_all add: node_at_def)

lemma last0_prefix: "last0 (take n ps) = node_at ps (cursor_before ps n)" if "n \<le> length ps"
proof (cases "n = 0")
  case False
  then show ?thesis using that by (auto simp: last0_def node_at_def cursor_before_def last_conv_nth)
qed (simp add: last0_def node_at_def cursor_before_def)

lemma node_at_nonzero: "sl_inv s ps \<Longrightarrow> (node_at ps i = 0) = (\<not> i < length ps)"
  using node_data(3) [OF sl_invD(1) sl_invD(6)] by (auto simp: node_at_def dest: nth_mem)

lemma below_take: "below s key ps = take (length (below s key ps)) ps"
  by (metis append_eq_conv_conj takeWhile_dropWhile_id)

lemma hd0_from_key: "hd0 (from_key s key ps) = node_at ps (length (below s key ps))"
  by (induction ps) (simp_all add: node_at_def)

lemma cursor_seek_entries: "cursor_seek (entries s ps) key = length (below s key ps)"
  by (simp add: cursor_seek_def entries_def takeWhile_map comp_def)

lemma near_ge: "fst (near s key False True ps) = node_at ps (cursor_seek (entries s ps) key)"
proof -
  have "fst (near s key False True ps) = hd0 (from_key s key ps)"
    by (simp add: near_def Let_def split: list.split del: dropWhile_eq_Nil_conv)
  then show ?thesis by (simp add: hd0_from_key cursor_seek_entries)
qed

lemma near_lt: "fst (near s key True False ps) = last0 (below s key ps)"
  by (simp add: near_def Let_def split: list.split)

lemma at_most_prefix:
  assumes "sorted_wrt (\<lambda>p q. nkey s p < nkey s q) ps"
  shows "takeWhile (\<lambda>p. nkey s p \<le> key) ps =
    (case from_key s key ps of q # r \<Rightarrow> if nkey s q = key then below s key ps @ [q] else below s key ps | [] \<Rightarrow> below s key ps)"
  using assms
proof (induction ps)
  case (Cons p ps)
  consider "nkey s p < key" | "nkey s p = key" | "key < nkey s p" using less_linear by blast
  then show ?case
  proof cases
    case 1
    then show ?thesis using Cons by (simp add: less_imp_le split: list.split del: dropWhile_eq_Nil_conv)
  next
    case 2
    then have "takeWhile (\<lambda>p. nkey s p \<le> key) ps = []" using Cons.prems by (cases ps) auto
    then show ?thesis using 2 by simp
  next
    case 3
    then have "\<not> nkey s p < key" "nkey s p \<noteq> key" "\<not> nkey s p \<le> key" by auto
    then show ?thesis by simp
  qed
qed simp

lemma near_le:
  assumes "sl_inv s ps"
  shows "fst (near s key True True ps) = node_at ps (cursor_seek_prev (entries s ps) key)"
proof -
  let ?n = "length (takeWhile (\<lambda>p. nkey s p \<le> key) ps)"
  have "fst (near s key True True ps) = last0 (takeWhile (\<lambda>p. nkey s p \<le> key) ps)"
    unfolding at_most_prefix [OF sl_invD(8) [OF assms]]
    by (simp add: near_def Let_def last0_def split: list.split del: dropWhile_eq_Nil_conv)
  also have "\<dots> = last0 (take ?n ps)" by (metis append_eq_conv_conj takeWhile_dropWhile_id)
  also have "\<dots> = node_at ps (cursor_before ps ?n)" by (rule last0_prefix) (rule length_takeWhile_le)
  also have "cursor_before ps ?n = cursor_seek_prev (entries s ps) key"
    by (simp add: cursor_seek_prev_def cursor_before_def) (simp add: entries_def takeWhile_map comp_def)
  finally show ?thesis .
qed

lemma below_nth:
  assumes "sl_inv s ps" "i < length ps"
  shows "below s (nkey s (ps ! i)) ps = take i ps"
proof -
  have "sorted_wrt (\<lambda>p q. nkey s p < nkey s q) (take i ps @ ps ! i # drop (Suc i) ps)"
    using sl_invD(8) [OF assms(1)] assms(2) by (simp flip: id_take_nth_drop)
  then have "\<forall>p \<in> set (take i ps). nkey s p < nkey s (ps ! i)" by (simp add: sorted_wrt_append)
  then have "below s (nkey s (ps ! i)) (take i ps @ ps ! i # drop (Suc i) ps) = take i ps" by simp
  then show ?thesis using assms(2) by (simp flip: id_take_nth_drop)
qed

lemma cursor_bounds:
  "cursor_before kvs n \<le> length kvs" if "n \<le> length kvs"
  using that by (auto simp: cursor_before_def)

lemma it_Next_cursor:
  assumes "it_at s kvs it i"
  shows "\<exists>it'. it_Next s it = Some it' \<and> it_at s kvs it' (cursor_next kvs i)"
proof -
  obtain ps where ps: "sl_inv s ps" "kvs = entries s ps" "itOpen it" "i \<le> length ps" "itNode it = node_at ps i"
    using assms by (auto simp: it_at_def)
  show ?thesis
  proof (cases "i < length ps")
    case True
    have d: "ps = take i ps @ ps ! i # drop (Suc i) ps" using True by (simp add: id_take_nth_drop)
    have "getNext s (ps ! i) 0 = Some (hd0 (drop (Suc i) ps))"
      by (rule next_node [of s "take i ps"]) (use ps(1) d in simp)
    moreover have "hd0 (drop (Suc i) ps) = node_at ps (Suc i)"
      by (simp add: hd0_def node_at_def hd_drop_conv_nth [symmetric] split: list.split)
    moreover have "it_Valid it" "itNode it = ps ! i" 
      using node_at_nonzero [OF ps(1), of i] ps(5) True by (simp_all add: it_Valid_def) (simp add: node_at_def)
    ultimately show ?thesis
      using it_move_at [OF ps(1,3), of "getNext s (ps ! i) 0" "Suc i"] ps(2) True
      by (simp add: it_Next_def cursor_next_def)
  next
    case False
    then have "\<not> it_Valid it" using node_at_nonzero [OF ps(1), of i] ps(5) by (simp add: it_Valid_def)
    then show ?thesis using assms False ps(2) by (simp add: it_Next_def cursor_next_def)
  qed
qed

lemma it_SeekToLast_cursor:
  assumes "sl_inv s ps" "itOpen it"
  shows "\<exists>it'. it_SeekToLast s it = Some it' \<and> it_at s (entries s ps) it' (length ps - 1)"
proof -
  have "last0 ps = node_at ps (length ps - 1)" by (auto simp: last0_def node_at_def last_conv_nth)
  then show ?thesis
    using it_move_at [OF assms, of "findLast s" "length ps - 1"] findLast_spec [OF assms(1)]
    by (simp add: it_SeekToLast_def)
qed

lemma it_Prev_cursor:
  assumes "it_at s kvs it i"
  shows "\<exists>it'. it_Prev s it = Some it' \<and> it_at s kvs it' (cursor_prev kvs i)"
proof -
  obtain ps where ps: "sl_inv s ps" "kvs = entries s ps" "itOpen it" "i \<le> length ps" "itNode it = node_at ps i"
    using assms by (auto simp: it_at_def)
  have vld: "it_Valid it = (i < length ps)" using node_at_nonzero [OF ps(1)] ps(5) by (simp add: it_Valid_def)
  show ?thesis
  proof (cases "i < length ps")
    case True
    have k: "node_key s (ps ! i) = Some (nkey s (ps ! i))"
      using node_data(1) [OF sl_invD(1) [OF ps(1)]] sl_invD(6) [OF ps(1)] True by simp
    have "map_option fst (findNear s (nkey s (ps ! i)) True False) = Some (node_at ps (cursor_before ps i))"
      using findNear_spec [OF ps(1)] near_lt below_nth [OF ps(1) True] last0_prefix [OF ps(4)] by simp
    moreover have "cursor_prev kvs i = cursor_before ps i" using True ps(2) by (auto simp: cursor_prev_def cursor_before_def entries_def)
    ultimately show ?thesis
      using it_move_at [OF ps(1,3), of "map_option fst (findNear s (nkey s (ps ! i)) True False)" "cursor_before ps i"]
        ps(2,5) True k vld cursor_bounds [OF ps(4)] by (simp add: it_Prev_def node_at_def)
  next
    case False
    then have "cursor_prev kvs i = length ps - 1" using ps(2,4) by (auto simp: cursor_prev_def cursor_before_def entries_def)
    then show ?thesis using it_SeekToLast_cursor [OF ps(1,3)] vld False ps(2) by (simp add: it_Prev_def)
  qed
qed

lemma it_read_cursor:
  assumes "it_at s kvs it i"
  shows "it_Valid it = (i < length kvs)"
    "it_Key s it = Some (if i < length kvs then Some (fst (kvs ! i)) else None)"
    "it_Value s it = Some (if i < length kvs then Some (snd (kvs ! i)) else None)"
proof -
  obtain ps where ps: "sl_inv s ps" "kvs = entries s ps" "i \<le> length ps" "itNode it = node_at ps i"
    using assms by (auto simp: it_at_def)
  show vld: "it_Valid it = (i < length kvs)" using node_at_nonzero [OF ps(1)] ps(2,4) by (simp add: it_Valid_def)
  have "node_key s (ps ! i) = Some (nkey s (ps ! i)) \<and> node_value s (ps ! i) = Some (nval s (ps ! i))" if "i < length ps"
    using node_data(1,2) [OF sl_invD(1) [OF ps(1)]] sl_invD(6) [OF ps(1)] that by simp
  then show "it_Key s it = Some (if i < length kvs then Some (fst (kvs ! i)) else None)"
    "it_Value s it = Some (if i < length kvs then Some (snd (kvs ! i)) else None)"
    using vld ps by (auto simp: it_Key_def it_Value_def node_at_def entries_def)
qed

lemma it_seeks_cursor:
  assumes rel: "sl_rel s kvs" and op: "itOpen it"
  shows "\<exists>it'. it_SeekToFirst s it = Some it' \<and> it_at s kvs it' 0"
    "\<exists>it'. it_SeekToLast s it = Some it' \<and> it_at s kvs it' (length kvs - 1)"
    "\<exists>it'. it_Seek s it target = Some it' \<and> it_at s kvs it' (cursor_seek kvs target)"
    "\<exists>it'. it_SeekForPrev s it target = Some it' \<and> it_at s kvs it' (cursor_seek_prev kvs target)"
proof -
  obtain ps where ps: "sl_inv s ps" "kvs = entries s ps" using rel by (auto simp: sl_rel_def)
  note mv = it_move_at [OF ps(1) op]
  show "\<exists>it'. it_SeekToFirst s it = Some it' \<and> it_at s kvs it' 0"
    using mv [of _ 0] first_node [OF ps(1)] node_at_0 ps(2) by (simp add: it_SeekToFirst_def)
  show "\<exists>it'. it_SeekToLast s it = Some it' \<and> it_at s kvs it' (length kvs - 1)"
    using it_SeekToLast_cursor [OF ps(1) op] ps(2) by simp
  show "\<exists>it'. it_Seek s it target = Some it' \<and> it_at s kvs it' (cursor_seek kvs target)"
    using mv [of _ "cursor_seek kvs target"] findNear_spec [OF ps(1)] near_ge ps(2) length_takeWhile_le [of _ kvs]
    by (simp add: it_Seek_def cursor_seek_def)
  have "cursor_seek_prev kvs target \<le> length kvs"
    unfolding cursor_seek_prev_def by (rule cursor_bounds [OF length_takeWhile_le])
  then have "cursor_seek_prev kvs target \<le> length ps" using ps(2) by simp
  then show "\<exists>it'. it_SeekForPrev s it target = Some it' \<and> it_at s kvs it' (cursor_seek_prev kvs target)"
    using mv [of _ "cursor_seek_prev kvs target"] findNear_spec [OF ps(1)] near_le [OF ps(1)] ps(2)
    by (simp add: it_SeekForPrev_def)
qed

text \<open>The invariant does not look at the reference count, which is all an iterator changes while it is open.\<close>

lemma sl_rel_slRef [simp]: "sl_rel (s\<lparr>slRef := r\<rparr>) kvs = sl_rel s kvs"
proof -
  let ?t = "s\<lparr>slRef := r\<rparr>"
  have g: "getNext ?t p i = getNext s p i" "hgt ?t p = hgt s p" "nkey ?t p = nkey s p" "nval ?t p = nval s p" for p i
    by (simp_all add: getNext_def hgt_def nkey_def nval_def node_key_def node_value_def)
  have "chain ?t i x l = chain s i x l" for i x l using g(1) by (intro chain_cong) simp
  then show ?thesis unfolding sl_rel_def sl_inv_def entries_def g by simp
qed

lemma sl_rel_incrRef [simp]: "sl_rel (incrRef s) kvs = sl_rel s kvs"
  by (simp add: incrRef_def)


section \<open>The memtable interface\<close>

text \<open>A run of writes, each with the random numbers it draws.\<close>

fun put_all :: "('r \<Rightarrow> 'm \<Rightarrow> bytes \<Rightarrow> bytes \<Rightarrow> 'm option) \<Rightarrow> ('r \<times> bytes \<times> bytes) list \<Rightarrow> 'm \<Rightarrow> 'm option" where
  "put_all put [] m = Some m"
| "put_all put ((r, k, v) # ws) m = do { m' \<leftarrow> put r m k v; put_all put ws m' }"

abbreviation apply_writes :: "('r \<times> bytes \<times> bytes) list \<Rightarrow> (bytes \<times> bytes) list \<Rightarrow> (bytes \<times> bytes) list" where
  "apply_writes ws kvs \<equiv> fold (\<lambda>(r, k, v). assoc_put k v) ws kvs"

text \<open>
  What the database relies on in a memtable: it represents a sorted association list, a write with
  enough budget left succeeds and is an insertion, and a lookup is the lookup in that list.
\<close>

locale memtable_store =
  fixes rel :: "'m \<Rightarrow> (bytes \<times> bytes) list \<Rightarrow> bool"
    and put :: "'r \<Rightarrow> 'm \<Rightarrow> bytes \<Rightarrow> bytes \<Rightarrow> 'm option"
    and get :: "'m \<Rightarrow> bytes \<Rightarrow> bytes option option"
    and used :: "'m \<Rightarrow> nat"
    and cap :: "'m \<Rightarrow> nat"
    and key_ok :: "bytes \<Rightarrow> bool"
    and cost :: "bytes \<Rightarrow> bytes \<Rightarrow> nat"
  assumes put_rel: "rel m kvs \<Longrightarrow> key_ok k \<Longrightarrow> used m + cost k v \<le> cap m \<Longrightarrow>
      \<exists>m'. put r m k v = Some m' \<and> rel m' (assoc_put k v kvs) \<and> cap m' = cap m \<and> used m' \<le> used m + cost k v"
    and get_rel: "rel m kvs \<Longrightarrow> get m k = Some (map_of kvs k)"
    and rel_sorted: "rel m kvs \<Longrightarrow> sorted_keys kvs"
begin

lemma put_all_rel:
  assumes "rel m kvs" "\<forall>(r, k, v) \<in> set ws. key_ok k" "used m + (\<Sum>(r, k, v) \<leftarrow> ws. cost k v) \<le> cap m"
  shows "\<exists>m'. put_all put ws m = Some m' \<and> rel m' (apply_writes ws kvs) \<and> cap m' = cap m \<and>
    used m' \<le> used m + (\<Sum>(r, k, v) \<leftarrow> ws. cost k v)"
  using assms
proof (induction ws arbitrary: m kvs)
  case Nil
  then show ?case by simp
next
  case (Cons w ws)
  obtain r k v where w: "w = (r, k, v)" by (cases w)
  have "key_ok k" "used m + cost k v \<le> cap m" using Cons.prems(2,3) w by simp_all
  from put_rel [OF Cons.prems(1) this, of r] obtain m1 where m1: "put r m k v = Some m1"
    "rel m1 (assoc_put k v kvs)" "cap m1 = cap m" "used m1 \<le> used m + cost k v" by blast
  have "used m1 + (\<Sum>(r, k, v) \<leftarrow> ws. cost k v) \<le> cap m1" using Cons.prems(3) w m1(3,4) by simp
  from Cons.IH [OF m1(2) _ this] Cons.prems(2) obtain m' where m': "put_all put ws m1 = Some m'"
    "rel m' (apply_writes ws (assoc_put k v kvs))" "cap m' = cap m1"
    "used m' \<le> used m1 + (\<Sum>(r, k, v) \<leftarrow> ws. cost k v)" by auto
  show ?case
    by (rule exI [of _ m']) (use m' m1 w in simp)
qed

lemma last_write_wins:
  assumes "rel m' (apply_writes ws kvs)"
  shows "get m' k = Some (map_of (rev (map snd ws) @ kvs) k)"
proof -
  have "map_of (apply_writes ws kvs) = map_of (rev (map snd ws) @ kvs)"
    by (induction ws arbitrary: kvs) (simp_all add: split_beta)
  then show ?thesis using get_rel [OF assms, of k] by simp
qed

lemma representation_unique:
  assumes "rel m kvs" "rel m kvs'"
  shows "kvs = kvs'"
proof -
  have "map_of kvs = map_of kvs'" using get_rel [OF assms(1)] get_rel [OF assms(2)] by (auto simp: fun_eq_iff)
  then have "set kvs = set kvs'"
    using rel_sorted [OF assms(1)] rel_sorted [OF assms(2)] sorted_keys_distinct by (metis map_of_inject_set)
  moreover have "sorted (map fst kvs)" "sorted (map fst kvs')" "distinct (map fst kvs)" "distinct (map fst kvs')"
    using rel_sorted assms sorted_keys_distinct strict_sorted_imp_sorted by blast+
  moreover have "inj_on fst (set kvs \<union> set kvs')" using calculation by (simp add: distinct_map)
  ultimately show ?thesis by (metis distinct_map map_sorted_distinct_set_unique)
qed

end

definition worst_cost :: "bytes \<Rightarrow> bytes \<Rightarrow> nat" where
  "worst_cost key v = node_cost maxHeight + length key + length v"

lemma put_cost_le: "h \<le> maxHeight \<Longrightarrow> put_cost kvs h key v \<le> worst_cost key v"
  by (simp add: put_cost_def worst_cost_def node_cost_def)

interpretation skl: memtable_store sl_rel Put Get sl_used sl_cap "\<lambda>k. length k < 2 ^ 16" worst_cost
proof unfold_locales
  fix s kvs k v and rand :: "nat \<Rightarrow> u32"
  assume a: "sl_rel s kvs" "length k < 2 ^ 16" "sl_used s + worst_cost k v \<le> sl_cap s"
  have c: "put_cost kvs (randomHeight rand) k v \<le> worst_cost k v" by (rule put_cost_le [OF randomHeight_bounds(2)])
  then have "sl_used s + put_cost kvs (randomHeight rand) k v \<le> sl_cap s" using a(3) by simp
  from Put_refines [OF a(1,2) this] c show
    "\<exists>t. Put rand s k v = Some t \<and> sl_rel t (assoc_put k v kvs) \<and> sl_cap t = sl_cap s \<and> sl_used t \<le> sl_used s + worst_cost k v"
    by force
next
  fix s kvs k
  assume "sl_rel s kvs"
  then show "Get s k = Some (map_of kvs k)" by (rule Get_refines)
next
  fix s kvs
  assume "sl_rel s kvs"
  then show "sorted_keys kvs" using sorted_entries by (auto simp: sl_rel_def)
qed


interpretation skl_cursor: cursor "\<lambda>(s, it) kvs n. it_at s kvs it n" "\<lambda>(s, it). it_Valid it" "\<lambda>(s, it). it_Key s it"
  "\<lambda>(s, it). it_Value s it" "\<lambda>(s, it). map_option (Pair s) (it_Next s it)"
proof unfold_locales
  fix st kvs n
  assume "(\<lambda>(s, it) kvs n. it_at s kvs it n) st kvs n" "n < length kvs"
  moreover obtain s it where "st = (s, it)" by fastforce
  ultimately show "\<exists>st'. (\<lambda>(s, it). map_option (Pair s) (it_Next s it)) st = Some st' \<and> (\<lambda>(s, it) kvs n. it_at s kvs it n) st' kvs (Suc n)"
    using it_Next_cursor [of s kvs it n] by (auto simp: cursor_next_def)
next
  fix st kvs n
  assume "(\<lambda>(s, it) kvs n. it_at s kvs it n) st kvs n"
  then show "n \<le> length kvs" by (cases st) (auto simp: it_at_def)
qed (auto simp: it_read_cursor)


text \<open>Insertion does not change the reference count.\<close>

lemma upd_node_slRef: "upd_node s p f = Some t \<Longrightarrow> slRef t = slRef s"
  by (auto simp: upd_node_def split: option.splits Option.bind_splits)

lemma setValue_slRef: "setValue s p v = Some t \<Longrightarrow> slRef t = slRef s"
  by (auto simp: setValue_def dest!: upd_node_slRef split: Option.bind_splits)

lemma put_descend_slRef: "put_descend s key v i prev nxt = Some (Inl t) \<Longrightarrow> slRef t = slRef s"
  by (induction s key v i prev nxt rule: put_descend.induct) (auto split: Option.bind_splits if_splits dest: setValue_slRef)

lemma storeNextOffset_slRef: "storeNextOffset s p h x = Some t \<Longrightarrow> slRef t = slRef s"
  by (auto simp: storeNextOffset_def dest!: upd_node_slRef split: Option.bind_splits if_splits)

lemma casNextOffset_slRef: "casNextOffset s p h x y = Some (b, t) \<Longrightarrow> slRef t = slRef s"
  by (auto simp: casNextOffset_def dest!: storeNextOffset_slRef split: Option.bind_splits if_splits)

lemma put_link_slRef:
  assumes "put_link s key v x i p n = Some r"
  shows "case r of Inl t \<Rightarrow> slRef t = slRef s | Inr t \<Rightarrow> slRef t = slRef s"
proof (rule put_link.raw_induct [where P = "\<lambda>s key v x i p n r. case r of Inl t \<Rightarrow> slRef t = slRef s | Inr t \<Rightarrow> slRef t = slRef s"
      and xa = "((((((s, key), v), x), i), p), n)" and y = r, unfolded prod.case])
  show "put_link s key v x i p n = Some r" by (rule assms)
next
  fix f s key v x i p n r
  assume ih: "\<And>s key v x i p n r. f s key v x i p n = Some r \<Longrightarrow> (case r of Inl t \<Rightarrow> slRef t = slRef s | Inr t \<Rightarrow> slRef t = slRef s)"
    and eq: "(do {
       (p, n) \<leftarrow> (if p = 0 then
                    if i = 0 then None
                    else do {
                      (p', n') \<leftarrow> findSpliceForLevel s key (slHead s) i;
                      (if p' = n' then None else Some (p', n'))
                    }
                  else Some (p, n));
       s1 \<leftarrow> storeNextOffset s x i n;
       (swapped, s2) \<leftarrow> casNextOffset s1 p i n x;
       (if swapped then Some (Inr s2)
        else do {
          (p', n') \<leftarrow> findSpliceForLevel s2 key p i;
          (if p' = n' then
             if i \<noteq> 0 then None else do { s3 \<leftarrow> setValue s2 p' v; Some (Inl s3) }
           else f s2 key v x i p' n')
        })
     }) = Some r"
  obtain p0 n0 s1 sw s2 where s1: "storeNextOffset s x i n0 = Some s1" "casNextOffset s1 p0 i n0 x = Some (sw, s2)"
    and r: "(if sw then Some (Inr s2)
        else do {
          (p', n') \<leftarrow> findSpliceForLevel s2 key p0 i;
          (if p' = n' then
             if i \<noteq> 0 then None else do { s3 \<leftarrow> setValue s2 p' v; Some (Inl s3) }
           else f s2 key v x i p' n')
        }) = Some r"
    using eq by (auto split: Option.bind_splits)
  have "slRef s2 = slRef s" using storeNextOffset_slRef [OF s1(1)] casNextOffset_slRef [OF s1(2)] by simp
  then show "case r of Inl t \<Rightarrow> slRef t = slRef s | Inr t \<Rightarrow> slRef t = slRef s"
    using r by (auto split: Option.bind_splits if_splits sum.splits dest!: setValue_slRef ih)
qed

lemma put_levels_slRef: "put_levels is s key v x prev nxt = Some t \<Longrightarrow> slRef t = slRef s"
proof (induction "is" arbitrary: s)
  case (Cons i "is")
  then show ?case by (auto split: Option.bind_splits sum.splits dest!: put_link_slRef)
qed simp

lemma Put_slRef: "Put rand s key v = Some t \<Longrightarrow> slRef t = slRef s"
  by (auto simp: Put_def Let_def split: Option.bind_splits sum.splits dest!: put_descend_slRef put_levels_slRef)

lemma New_slRef: "New n = Some s \<Longrightarrow> slRef s = 1"
  by (auto simp: New_def split: Option.bind_splits)

section \<open>Properties of the skiplist\<close>

text \<open>
  C16: \<open>Put\<close> refines insertion into a sorted association list. When the key fits in its 16-bit length
  and the arena has room for what this call allocates, \<open>Put\<close> returns without a panic, whatever the
  random numbers are; the new structure represents the list with the key inserted or overwritten, and
  the arena counter has grown by exactly the bytes of the node, the key and the value for a new key
  and of the value alone for a key that was present.
\<close>

theorem Put_inserts:
  assumes "sl_rel s kvs" "length key < 2 ^ 16"
    and "sl_used s + put_cost kvs (randomHeight rand) key v \<le> sl_cap s"
  shows "\<exists>t. Put rand s key v = Some t \<and> sl_rel t (assoc_put key v kvs) \<and> sl_cap t = sl_cap s \<and>
    sl_used t = sl_used s + put_cost kvs (randomHeight rand) key v"
  using assms by (rule Put_refines)

theorem Put_inserts_witness:
  "\<exists>s t. New 400 = Some s \<and> Put (\<lambda>_. 0) s [1] [2] = Some t \<and> sl_rel t [([1], [2])]"
proof -
  obtain s where s: "New 400 = Some s" "sl_rel s []" "sl_cap s = 400" "sl_used s = 104"
    using New_refines [of 400] by auto
  have "put_cost [] (randomHeight (\<lambda>_. 0)) [1] [2] = 105" by code_simp
  then show ?thesis using Put_inserts [OF s(2), of "[1]" "\<lambda>_. 0" "[2]"] s by auto
qed

text \<open>
  C8: a memtable that starts empty and takes any run of writes whose worst-case allocations fit in
  the arena completes every one of them, and afterwards \<open>Get\<close> returns for each key the value of the
  last write to it and nil for a key never written.
\<close>

theorem memtable_last_write_wins:
  assumes "104 \<le> n" "n < 2 ^ 32" "\<forall>(r, k, v) \<in> set ws. length k < 2 ^ 16"
    and "104 + (\<Sum>(r, k, v) \<leftarrow> ws. worst_cost k v) \<le> n"
  shows "\<exists>s t. New n = Some s \<and> put_all Put ws s = Some t \<and>
    (\<forall>k. Get t k = Some (map_of (rev (map snd ws)) k)) \<and> sl_rel t (apply_writes ws [])"
proof -
  obtain s where s: "New n = Some s" "sl_rel s []" "sl_cap s = n" "sl_used s = 104"
    using New_refines [OF assms(1,2)] by blast
  from skl.put_all_rel [OF s(2) assms(3)] s(3,4) assms(4) obtain t where
    t: "put_all Put ws s = Some t" "sl_rel t (apply_writes ws [])" by auto
  from skl.last_write_wins [OF t(2)] t s(1) show ?thesis by auto
qed

theorem memtable_last_write_wins_witness:
  "\<exists>s t. New 1000 = Some s \<and>
    put_all Put [(\<lambda>_. 0, [1], [2]), (\<lambda>_. 7, [3], []), (\<lambda>_. 0, [1], [9, 9])] s = Some t \<and>
    Get t [1] = Some (Some [9, 9]) \<and> Get t [3] = Some (Some []) \<and> Get t [2] = Some None"
  using memtable_last_write_wins [of 1000 "[(\<lambda>_. 0, [1], [2]), (\<lambda>_. 7, [3], []), (\<lambda>_. 0, [1], [9, 9])]"]
  by (force simp: worst_cost_def node_cost_def maxHeight_def)

text \<open>
  C23: the skiplist iterator is a cursor over the represented list. From any cursor position
  \<open>Valid\<close>, \<open>Key\<close> and \<open>Value\<close> read the entry there, \<open>Next\<close> and \<open>Prev\<close> step to the neighbours
  (\<open>Prev\<close> of an iterator that is not valid goes to the last entry, stepping off either end makes it
  not valid), \<open>Seek\<close> goes to the first key not below the target and \<open>SeekForPrev\<close> to the last key
  not above it; none of them panics.
\<close>

theorem iterator_is_cursor:
  assumes "it_at s kvs it i"
  shows "it_Valid it = (i < length kvs) \<and>
    it_Key s it = Some (if i < length kvs then Some (fst (kvs ! i)) else None) \<and>
    it_Value s it = Some (if i < length kvs then Some (snd (kvs ! i)) else None) \<and>
    (\<exists>it'. it_Next s it = Some it' \<and> it_at s kvs it' (cursor_next kvs i)) \<and>
    (\<exists>it'. it_Prev s it = Some it' \<and> it_at s kvs it' (cursor_prev kvs i)) \<and>
    (\<exists>it'. it_SeekToFirst s it = Some it' \<and> it_at s kvs it' 0) \<and>
    (\<exists>it'. it_SeekToLast s it = Some it' \<and> it_at s kvs it' (length kvs - 1)) \<and>
    (\<exists>it'. it_Seek s it target = Some it' \<and> it_at s kvs it' (cursor_seek kvs target)) \<and>
    (\<exists>it'. it_SeekForPrev s it target = Some it' \<and> it_at s kvs it' (cursor_seek_prev kvs target))"
proof -
  have "sl_rel s kvs" "itOpen it" using assms by (auto simp: it_at_def sl_rel_def)
  note seeks = it_seeks_cursor [OF this]
  show ?thesis
    using it_read_cursor [OF assms] it_Next_cursor [OF assms] it_Prev_cursor [OF assms] seeks by simp
qed

theorem iterator_is_cursor_witness:
  "\<exists>s t it. New 400 = Some s \<and> Put (\<lambda>_. 0) s [5] [2] = Some t \<and> it_at t [([5], [2])] it 0 \<and>
    it_Key t it = Some (Some [5]) \<and> (\<exists>it'. it_Seek t it [6] = Some it' \<and> it_at t [([5], [2])] it' 1)"
proof -
  obtain s where s: "New 400 = Some s" "sl_rel s []" "sl_cap s = 400" "sl_used s = 104"
    using New_refines [of 400] by auto
  have "put_cost [] (randomHeight (\<lambda>_. 0)) [5] [2] = 105" by code_simp
  then obtain t where t: "Put (\<lambda>_. 0) s [5] [2] = Some t" "sl_rel t [([5], [2])]"
    using Put_refines [OF s(2), of "[5]" "\<lambda>_. 0" "[2]"] s by auto
  obtain it where it: "it_at t [([5], [2])] it 0" using it_seeks_cursor(1) [OF t(2), of "\<lparr>itOpen = True, itNode = 0\<rparr>"] by auto
  have "cursor_seek [([5], [2])] [6] = 1" by code_simp
  then show ?thesis using iterator_is_cursor [OF it, of "[6]"] s t it by auto
qed

text \<open>
  The allocator of the arena. Allocating a node of a given height with its key and value, when
  they fit, returns an 8-byte aligned offset at or after the old counter; the node struct, the key
  bytes and the value bytes lie in this order in disjoint ranges between the old and the new counter;
  the bytes below the old counter and the nodes allocated before are unchanged; and reading back the
  key and the value gives what was stored.
\<close>

theorem newNode_allocates:
  assumes "arena_ok a" "h \<le> maxHeight" "length key < 2 ^ 16" "room a h key v"
  shows "\<exists>b x n. newNode a key v h = Some (b, x) \<and> arena_ok b \<and> unat x mod 8 = 0 \<and> unat (arenaN a) \<le> unat x \<and>
    arenaNodes b = (arenaNodes a)(x \<mapsto> n) \<and> arenaNodes a x = None \<and>
    unat x + 16 + 4 * h \<le> unat (keyOffset n) \<and>
    unat (keyOffset n) + length key \<le> unat (fst (decodeValue (nodeValue n))) \<and>
    unat (fst (decodeValue (nodeValue n))) + length v = unat (arenaN b) \<and> unat (arenaN b) \<le> length (arenaBuf b) \<and>
    (\<forall>lo hi. hi \<le> unat (arenaN a) \<longrightarrow> subslice (arenaBuf b) lo hi = subslice (arenaBuf a) lo hi) \<and>
    getKey b (keyOffset n) (keySize n) = Some key \<and>
    (case decodeValue (nodeValue n) of (off, sz) \<Rightarrow> getVal b off sz = Some v)"
proof -
  obtain b x n where new: "newNode a key v h = Some (b, x)" "arena_ok b" "arenaNodes a x = None"
    "arenaNodes b = (arenaNodes a)(x \<mapsto> n)"
    "\<And>lo hi. hi \<le> unat (arenaN a) \<Longrightarrow> subslice (arenaBuf b) lo hi = subslice (arenaBuf a) lo hi"
    "getKey b (keyOffset n) (keySize n) = Some key"
    "\<And>off sz. decodeValue (nodeValue n) = (off, sz) \<Longrightarrow> getVal b off sz = Some v"
    "unat (arenaN b) = unat (arenaN a) + node_cost h + length key + length v"
    "unat (arenaN a) \<le> unat x" "unat x mod 8 = 0" "unat x + 16 + 4 * h \<le> unat (arenaN a) + node_cost h"
    "unat (keyOffset n) = unat (arenaN a) + node_cost h"
    "unat (fst (decodeValue (nodeValue n))) = unat (arenaN a) + node_cost h + length key"
    by (rule newNode_spec [OF assms]) metis
  have "unat (arenaN b) \<le> length (arenaBuf b)" using new(2) by (simp add: arena_ok_def)
  then show ?thesis
    by (intro exI [of _ b] exI [of _ x] exI [of _ n]) (use new in \<open>simp split: prod.split\<close>)
qed

theorem newNode_allocates_witness:
  "\<exists>b x. newNode (newArena 200) [1, 2] [3] 1 = Some (b, x) \<and> unat x mod 8 = 0 \<and> arena_ok b"
proof -
  have "arena_ok (newArena 200)" by (auto simp: arena_ok_def newArena_def)
  moreover have "room (newArena 200) 1 [1, 2] [3]" by (simp add: room_def newArena_def node_cost_def)
  ultimately show ?thesis using newNode_allocates [of "newArena 200" 1 "[1, 2]" "[3]"] by (auto simp: maxHeight_def)
qed

end
