(* ===== verification/Go_IO.thy ===== *)
theory Go_IO
  imports Seol_Prelude "HOL-Library.Monad_Syntax" "HOL-Library.Sublist"
begin

text \<open>
  The parts of the Go run time the storage components rest on: results that may be an error or a
  panic, writes into slices, \<^verbatim>\<open>os.File\<close> with injected device faults, \<^verbatim>\<open>bufio.Writer\<close>, decimal
  file names, and a binary search whose predicate may panic.

  A call returns \<open>Some (Inr x)\<close> normally, \<open>Some (Inl e)\<close> with an error value, and \<open>None\<close> when it
  panics (or does not return). Device faults are part of the file: a write that starts at offset
  \<open>o\<close> stops after \<open>n\<close> bytes with an error when \<open>devShort o = Some n\<close>, a read at an offset in
  \<open>devUnread\<close> fails. The lemmas show what a fault-free device gives; every theorem about error
  paths is stated for an arbitrary device.
\<close>

section \<open>Results\<close>

definition tryE :: "('e + 'a) option \<Rightarrow> ('a \<Rightarrow> ('e + 'b) option) \<Rightarrow> ('e + 'b) option" where
  "tryE m k = (case m of None \<Rightarrow> None | Some (Inl e) \<Rightarrow> Some (Inl e) | Some (Inr a) \<Rightarrow> k a)"

definition wrapE :: "('e \<Rightarrow> 'f) \<Rightarrow> 'e + 'a \<Rightarrow> 'f + 'a" where
  "wrapE f r = (case r of Inl e \<Rightarrow> Inl (f e) | Inr a \<Rightarrow> Inr a)"

lemma tryE_simps [simp]:
  "tryE None k = None" "tryE (Some (Inl e)) k = Some (Inl e)" "tryE (Some (Inr a)) k = k a"
  by (simp_all add: tryE_def)

lemma wrapE_simps [simp]: "wrapE f (Inl e) = Inl (f e)" "wrapE f (Inr a) = Inr a"
  by (simp_all add: wrapE_def)

lemma tryE_Ok_iff: "tryE m k = Some (Inr b) \<longleftrightarrow> (\<exists>a. m = Some (Inr a) \<and> k a = Some (Inr b))"
  by (auto simp: tryE_def split: option.splits sum.splits)

lemma tryE_mono [partial_function_mono]:
  assumes "mono_option B" "\<And>y. mono_option (\<lambda>f. C y f)"
  shows "mono_option (\<lambda>f. tryE (B f) (\<lambda>y. C y f))"
proof -
  have "mono_option (\<lambda>f. Option.bind (B f) (\<lambda>r. case r of Inl e \<Rightarrow> Some (Inl e) | Inr a \<Rightarrow> C a f))"
  proof (rule bind_mono [OF assms(1)])
    show "mono_option (\<lambda>f. case r of Inl e \<Rightarrow> Some (Inl e) | Inr a \<Rightarrow> C a f)" for r
      using assms(2) option.const_mono by (cases r) simp_all
  qed
  moreover have "tryE (B f) (\<lambda>y. C y f) = Option.bind (B f) (\<lambda>r. case r of Inl e \<Rightarrow> Some (Inl e) | Inr a \<Rightarrow> C a f)" for f
    by (auto simp: tryE_def split: option.splits sum.splits)
  ultimately show ?thesis by simp
qed

section \<open>Slices\<close>

text \<open>A write of all of \<open>bs\<close> at an offset of a slice (\<open>PutUint\<close> panics when it does not fit).\<close>

definition overlay :: "bytes \<Rightarrow> nat \<Rightarrow> bytes \<Rightarrow> bytes option" where
  "overlay dst off bs =
     (if off + length bs \<le> length dst then Some (take off dst @ bs @ drop (off + length bs) dst) else None)"

text \<open>\<open>copy(dst[off:], bs)\<close>: copies what fits; the slice expression panics past the length.\<close>

definition copy_at :: "bytes \<Rightarrow> nat \<Rightarrow> bytes \<Rightarrow> bytes option" where
  "copy_at dst off bs = (if off \<le> length dst then overlay dst off (take (length dst - off) bs) else None)"

lemma overlay_fit:
  "length a = off \<Longrightarrow> length bs = length m \<Longrightarrow> overlay (a @ m @ c) off bs = Some (a @ bs @ c)"
  by (simp add: overlay_def)

lemma copy_at_fit:
  "length a = off \<Longrightarrow> length bs = length m \<Longrightarrow> copy_at (a @ m @ c) off bs = Some (a @ bs @ c)"
  by (simp add: copy_at_def overlay_fit)

section \<open>os.File\<close>

record device =
  devCreate :: bool
  devSeek :: bool
  devStat :: bool
  devSync :: bool
  devTrunc :: bool
  devShort :: "nat \<Rightarrow> nat option"
  devUnread :: "nat \<Rightarrow> bool"

record osfile =
  fData :: bytes
  fPos :: nat
  fOpen :: bool
  fDev :: device

definition good_device :: "device \<Rightarrow> bool" where
  "good_device d \<longleftrightarrow> \<not> devCreate d \<and> \<not> devSeek d \<and> \<not> devStat d \<and> \<not> devSync d \<and> \<not> devTrunc d \<and>
     devShort d = (\<lambda>_. None) \<and> devUnread d = (\<lambda>_. False)"

abbreviation perfect_device :: device where
  "perfect_device \<equiv> \<lparr>devCreate = False, devSeek = False, devStat = False, devSync = False, devTrunc = False,
     devShort = (\<lambda>_. None), devUnread = (\<lambda>_. False)\<rparr>"

lemma good_perfect [simp]: "good_device perfect_device"
  by (simp add: good_device_def)

datatype io_error = EOF | EIO | EInval | EClosed | EExist | ENoent | ErrShortWrite | ErrUnexpectedEOF

text \<open>\<open>WriteAt\<close> reports the bytes written and whether it failed; \<open>Write\<close> also moves the offset.\<close>

definition os_WriteAt :: "osfile \<Rightarrow> bytes \<Rightarrow> nat \<Rightarrow> osfile \<times> nat \<times> io_error option" where
  "os_WriteAt f p off =
     (if \<not> fOpen f then (f, 0, Some EClosed)
      else case devShort (fDev f) off of
        None \<Rightarrow> (f\<lparr>fData := write_at (fData f) off p\<rparr>, length p, None)
      | Some n \<Rightarrow> (f\<lparr>fData := write_at (fData f) off (take n p)\<rparr>, min n (length p), Some EIO))"

definition os_Write :: "osfile \<Rightarrow> bytes \<Rightarrow> osfile \<times> nat \<times> io_error option" where
  "os_Write f p = (case os_WriteAt f p (fPos f) of (f', n, e) \<Rightarrow> (f'\<lparr>fPos := fPos f' + n\<rparr>, n, e))"

text \<open>
  \<open>ReadAt\<close> into a buffer: the buffer afterwards, and the error. A read that does not fill the
  buffer returns \<open>io.EOF\<close> with what it got in front of the old contents; an empty buffer is not read.
\<close>

definition os_ReadAt :: "osfile \<Rightarrow> bytes \<Rightarrow> nat \<Rightarrow> bytes \<times> io_error option" where
  "os_ReadAt f buf off =
     (if buf = [] then ([], None)
      else if \<not> fOpen f then (buf, Some EClosed)
      else if devUnread (fDev f) off then (buf, Some EIO)
      else (read_into buf (fData f) off, if length (fData f) < off + length buf then Some EOF else None))"

text \<open>A read at a 64-bit offset: \<open>int64(off)\<close> is negative from \<open>2^63\<close> on and is refused.\<close>

definition os_ReadAt64 :: "osfile \<Rightarrow> bytes \<Rightarrow> nat \<Rightarrow> bytes \<times> io_error option" where
  "os_ReadAt64 f buf off = (if 2 ^ 63 \<le> off then (buf, Some EInval) else os_ReadAt f buf off)"

text \<open>\<open>io.ReadFull\<close> at the file's offset: \<open>EOF\<close> when nothing is left, \<open>ErrUnexpectedEOF\<close> when less than asked.\<close>

definition os_ReadFull :: "osfile \<Rightarrow> nat \<Rightarrow> osfile \<times> bytes \<times> io_error option" where
  "os_ReadFull f n =
     (let rest = drop (fPos f) (fData f) in
      if n = 0 then (f, [], None)
      else if \<not> fOpen f then (f, [], Some EClosed)
      else if devUnread (fDev f) (fPos f) then (f, [], Some EIO)
      else if rest = [] then (f, [], Some EOF)
      else if length rest < n then (f\<lparr>fPos := length (fData f)\<rparr>, rest, Some ErrUnexpectedEOF)
      else (f\<lparr>fPos := fPos f + n\<rparr>, take n rest, None))"

definition os_Seek :: "osfile \<Rightarrow> nat \<Rightarrow> io_error + osfile" where
  "os_Seek f off = (if \<not> fOpen f then Inl EClosed else if devSeek (fDev f) then Inl EIO else Inr (f\<lparr>fPos := off\<rparr>))"

definition os_Size :: "osfile \<Rightarrow> io_error + nat" where
  "os_Size f = (if \<not> fOpen f then Inl EClosed else if devStat (fDev f) then Inl EIO else Inr (length (fData f)))"

definition os_Sync :: "osfile \<Rightarrow> io_error option" where
  "os_Sync f = (if \<not> fOpen f then Some EClosed else if devSync (fDev f) then Some EIO else None)"

definition os_Truncate :: "osfile \<Rightarrow> nat \<Rightarrow> io_error + osfile" where
  "os_Truncate f n =
     (if \<not> fOpen f then Inl EClosed else if devTrunc (fDev f) then Inl EIO
      else Inr (f\<lparr>fData := take n (fData f) @ replicate (n - length (fData f)) 0\<rparr>))"

definition os_Close :: "osfile \<Rightarrow> osfile \<times> io_error option" where
  "os_Close f = (if fOpen f then (f\<lparr>fOpen := False\<rparr>, None) else (f, Some EClosed))"

lemma os_ReadAt_good:
  assumes "fOpen f" "good_device (fDev f)" "off + length buf \<le> length (fData f)"
  shows "os_ReadAt f buf off = (take (length buf) (drop off (fData f)), None)"
  using assms by (auto simp: os_ReadAt_def good_device_def read_into_full)

lemma os_ReadAt64_good:
  assumes "fOpen f" "good_device (fDev f)" "off + length buf \<le> length (fData f)" "length (fData f) < 2 ^ 63"
  shows "os_ReadAt64 f buf off = (take (length buf) (drop off (fData f)), None)"
  using os_ReadAt_good [OF assms(1-3)] assms(3,4) by (simp add: os_ReadAt64_def)

lemma write_at_write_at:
  "write_at (write_at file off a) (off + length a) b = write_at file off (a @ b)"
proof (cases "a = [] \<or> b = []")
  case False
  let ?p = "take off file @ replicate (off - length file) 0 @ a"
  have "write_at file off a = ?p @ drop (off + length a) file" using False by (simp add: write_at_def)
  moreover have "length ?p = off + length a" by (simp add: min_def)
  ultimately show ?thesis using False by (simp add: write_at_def ac_simps)
qed (auto simp: write_at_def)

lemma write_at_Nil [simp]: "write_at file off [] = file"
  by (simp add: write_at_def)

text \<open>
  The surroundings of a call that creates a file: the clock, whether the name is taken, and the device
  the new file gets.
\<close>

record env =
  envNow :: nat
  envExists :: bool
  envDev :: device

section \<open>bufio.Writer\<close>

record bufio =
  bwFile :: osfile
  bwBuf :: bytes
  bwSize :: nat
  bwErr :: "io_error option"

definition bw_New :: "osfile \<Rightarrow> nat \<Rightarrow> bufio" where
  "bw_New f sz = \<lparr>bwFile = f, bwBuf = [], bwSize = sz, bwErr = None\<rparr>"

definition bw_Flush :: "bufio \<Rightarrow> bufio" where
  "bw_Flush b =
     (if bwErr b \<noteq> None \<or> bwBuf b = [] then b
      else case os_Write (bwFile b) (bwBuf b) of (f, n, e) \<Rightarrow>
        let e' = (if n < length (bwBuf b) \<and> e = None then Some ErrShortWrite else e) in
        (if e' \<noteq> None then b\<lparr>bwFile := f, bwBuf := drop n (bwBuf b), bwErr := e'\<rparr>
         else b\<lparr>bwFile := f, bwBuf := []\<rparr>))"

text \<open>One round of the loop in \<open>Write\<close>: a direct write when nothing is buffered, else fill and flush.\<close>

definition bw_round :: "bufio \<Rightarrow> bytes \<Rightarrow> bufio \<times> bytes" where
  "bw_round b p =
     (if bwBuf b = [] then
        (case os_Write (bwFile b) p of (f, n, e) \<Rightarrow> (b\<lparr>bwFile := f, bwErr := e\<rparr>, drop n p))
      else let n = bwSize b - length (bwBuf b) in
        (bw_Flush (b\<lparr>bwBuf := bwBuf b @ take n p\<rparr>), drop n p))"

lemma bw_round_measure:
  assumes "bwErr b = None" "p \<noteq> []" "bw_round b p = (b', p')" "bwErr b' = None"
  shows "2 * length p' + (if bwBuf b' = [] then 0 else 1) < 2 * length p + (if bwBuf b = [] then 0 else 1 :: nat)"
proof (cases "bwBuf b = []")
  case True
  then show ?thesis using assms
    by (auto simp: bw_round_def os_Write_def os_WriteAt_def split: prod.splits if_splits option.splits)
next
  case False
  then have "bwBuf b' = []" using assms
    by (auto simp: bw_round_def bw_Flush_def Let_def split: prod.splits if_splits)
  moreover have "length p' \<le> length p" using assms(3) False by (auto simp: bw_round_def Let_def)
  ultimately show ?thesis using False by simp
qed

function bw_loop :: "bufio \<Rightarrow> bytes \<Rightarrow> bufio \<times> bytes" where
  "bw_loop b p =
     (if bwSize b - length (bwBuf b) < length p \<and> bwErr b = None
      then (case bw_round b p of (b', p') \<Rightarrow> bw_loop b' p')
      else (b, p))"
  by pat_completeness auto
termination
proof (relation "measure (\<lambda>(b, p). if bwErr b \<noteq> None then 0 else Suc (2 * length p + (if bwBuf b = [] then 0 else 1)))")
  fix b p b' p'
  assume "bwSize b - length (bwBuf b) < length p \<and> bwErr b = None" "(b', p') = bw_round b p"
  then have "bw_round b p = (b', p')" "bwErr b = None" "p \<noteq> []" by auto
  then show "((b', p'), b, p) \<in> measure (\<lambda>(b, p). if bwErr b \<noteq> None then 0 else Suc (2 * length p + (if bwBuf b = [] then 0 else 1)))"
    using bw_round_measure [of b p b' p'] by (cases "bwErr b' = None") simp_all
qed simp

declare bw_loop.simps [simp del]

text \<open>Errors stick: once a write has failed, every later \<open>Write\<close> and \<open>Flush\<close> returns that error.\<close>

definition bw_Write :: "bufio \<Rightarrow> bytes \<Rightarrow> bufio" where
  "bw_Write b p = (case bw_loop b p of (b', p') \<Rightarrow> if bwErr b' \<noteq> None then b' else b'\<lparr>bwBuf := bwBuf b' @ p'\<rparr>)"

text \<open>The file's contents once everything buffered has reached it.\<close>

definition bw_image :: "bufio \<Rightarrow> bytes" where
  "bw_image b = write_at (fData (bwFile b)) (fPos (bwFile b)) (bwBuf b)"

definition bw_end :: "bufio \<Rightarrow> nat" where
  "bw_end b = fPos (bwFile b) + length (bwBuf b)"

definition bw_good :: "bufio \<Rightarrow> bool" where
  "bw_good b \<longleftrightarrow> fOpen (bwFile b) \<and> good_device (fDev (bwFile b)) \<and> bwErr b = None"

lemma os_Write_good:
  assumes "fOpen f" "good_device (fDev f)"
  shows "os_Write f p = (f\<lparr>fData := write_at (fData f) (fPos f) p, fPos := fPos f + length p\<rparr>, length p, None)"
  using assms by (simp add: os_Write_def os_WriteAt_def good_device_def)

lemma bw_Flush_good:
  assumes "bw_good b"
  shows "bw_good (bw_Flush b)" "bwBuf (bw_Flush b) = []" "bw_image (bw_Flush b) = bw_image b"
    "bw_end (bw_Flush b) = bw_end b" "bwSize (bw_Flush b) = bwSize b" "fData (bwFile (bw_Flush b)) = bw_image b"
    "fDev (bwFile (bw_Flush b)) = fDev (bwFile b)"
  using assms by (auto simp: bw_Flush_def bw_good_def os_Write_good bw_image_def bw_end_def Let_def)

lemma bw_round_good:
  assumes "bw_good b" "bw_round b p = (b', p')"
  shows "bw_good b' \<and> write_at (bw_image b') (bw_end b') p' = write_at (bw_image b) (bw_end b) p \<and>
    bw_end b' + length p' = bw_end b + length p \<and> bwSize b' = bwSize b \<and> fDev (bwFile b') = fDev (bwFile b)"
proof (cases "bwBuf b = []")
  case True
  then show ?thesis using assms
    by (auto simp: bw_round_def os_Write_good bw_good_def bw_image_def bw_end_def)
next
  case False
  define c where "c = b\<lparr>bwBuf := bwBuf b @ take (bwSize b - length (bwBuf b)) p\<rparr>"
  have c: "bw_good c" "bw_image c = write_at (bw_image b) (bw_end b) (take (bwSize b - length (bwBuf b)) p)"
    "bw_end c = bw_end b + length (take (bwSize b - length (bwBuf b)) p)"
    using assms(1) by (simp_all add: c_def bw_good_def bw_image_def bw_end_def write_at_write_at)
  have r: "b' = bw_Flush c" "p' = drop (bwSize b - length (bwBuf b)) p"
    using assms(2) False by (auto simp: bw_round_def c_def Let_def)
  have "write_at (bw_image c) (bw_end c) p' = write_at (bw_image b) (bw_end b) p"
    unfolding c(2,3) r(2) write_at_write_at by simp
  moreover have "bw_end c + length p' = bw_end b + length p" unfolding c(3) r(2) by simp
  ultimately show ?thesis using bw_Flush_good [OF c(1)] r by (simp add: c_def)
qed

lemma bw_loop_good:
  "bw_good b \<Longrightarrow> bw_loop b p = (b', p') \<Longrightarrow>
    bw_good b' \<and> write_at (bw_image b') (bw_end b') p' = write_at (bw_image b) (bw_end b) p \<and>
    bw_end b' + length p' = bw_end b + length p \<and> bwSize b' = bwSize b \<and> fDev (bwFile b') = fDev (bwFile b)"
proof (induction b p rule: bw_loop.induct)
  case (1 b p)
  show ?case
  proof (cases "bwSize b - length (bwBuf b) < length p \<and> bwErr b = None")
    case True
    obtain c q where c: "bw_round b p = (c, q)" by fastforce
    then have "bw_loop c q = (b', p')" using 1(3) True by (simp add: bw_loop.simps [of b p])
    then show ?thesis using 1(1) [OF True c [symmetric]] bw_round_good [OF 1(2) c] by simp
  next
    case False
    then have "bw_loop b p = (b, p)" by (simp only: bw_loop.simps [of b p] if_False)
    then show ?thesis using 1(2,3) by simp
  qed
qed

text \<open>On a device without faults the writer appends, whatever the buffer size and the chunking.\<close>

lemma bw_Write_good:
  assumes "bw_good b"
  shows "bw_good (bw_Write b p)" "bw_image (bw_Write b p) = write_at (bw_image b) (bw_end b) p"
    "bw_end (bw_Write b p) = bw_end b + length p" "fDev (bwFile (bw_Write b p)) = fDev (bwFile b)"
proof -
  obtain c q where c: "bw_loop b p = (c, q)" by fastforce
  note l = bw_loop_good [OF assms c]
  then have e: "bw_Write b p = c\<lparr>bwBuf := bwBuf c @ q\<rparr>" using c by (simp add: bw_Write_def bw_good_def)
  show "bw_good (bw_Write b p)" "bw_end (bw_Write b p) = bw_end b + length p"
    "fDev (bwFile (bw_Write b p)) = fDev (bwFile b)"
    using l unfolding e bw_good_def bw_end_def by auto
  have "bw_image (bw_Write b p) = write_at (bw_image c) (bw_end c) q"
    unfolding e by (simp add: bw_image_def bw_end_def write_at_write_at)
  then show "bw_image (bw_Write b p) = write_at (bw_image b) (bw_end b) p" using l by simp
qed

lemma bw_New_good:
  assumes "fOpen f" "good_device (fDev f)"
  shows "bw_good (bw_New f n)" "bw_image (bw_New f n) = fData f" "bw_end (bw_New f n) = fPos f"
    "fDev (bwFile (bw_New f n)) = fDev f"
  using assms by (simp_all add: bw_New_def bw_good_def bw_image_def bw_end_def)

text \<open>
  On any device: while no error is pending, what has reached the file and what is buffered together
  grow by a front of the data, all of it when no error is reported.
\<close>

definition at_end :: "osfile \<Rightarrow> bool" where
  "at_end f \<longleftrightarrow> fPos f = length (fData f)"

definition bw_all :: "bufio \<Rightarrow> bytes" where
  "bw_all b = fData (bwFile b) @ bwBuf b"

lemma os_Write_end:
  assumes "at_end f" "os_Write f p = (f', n, e)"
  shows "fData f' = fData f @ take n p \<and> at_end f' \<and> n \<le> length p \<and> (e = None \<longrightarrow> n = length p)"
  using assms by (auto simp: at_end_def os_Write_def os_WriteAt_def min_def split: if_splits option.splits)

lemma bw_Flush_end:
  assumes "at_end (bwFile b)"
  shows "at_end (bwFile (bw_Flush b))" "bw_all (bw_Flush b) = bw_all b" "bwErr (bw_Flush b) = None \<Longrightarrow> bwBuf (bw_Flush b) = []"
    "bwErr b \<noteq> None \<Longrightarrow> bw_Flush b = b"
proof -
  obtain f n e where w: "os_Write (bwFile b) (bwBuf b) = (f, n, e)" by (cases "os_Write (bwFile b) (bwBuf b)")
  note o = os_Write_end [OF assms w]
  show "at_end (bwFile (bw_Flush b))" "bw_all (bw_Flush b) = bw_all b" "bwErr (bw_Flush b) = None \<Longrightarrow> bwBuf (bw_Flush b) = []"
    "bwErr b \<noteq> None \<Longrightarrow> bw_Flush b = b"
    using o assms w by (auto simp: bw_Flush_def bw_all_def Let_def)
qed

lemma bw_round_end:
  assumes "at_end (bwFile b)" "bwErr b = None" "bw_round b p = (b', p')"
  shows "at_end (bwFile b')" "\<exists>q. p = q @ p' \<and> bw_all b' = bw_all b @ q"
proof -
  show "at_end (bwFile b')"
    using assms os_Write_end [OF assms(1)] bw_Flush_end(1) [of "b\<lparr>bwBuf := bwBuf b @ take (bwSize b - length (bwBuf b)) p\<rparr>"]
    by (auto simp: bw_round_def Let_def split: if_splits prod.splits)
  show "\<exists>q. p = q @ p' \<and> bw_all b' = bw_all b @ q"
  proof (cases "bwBuf b = []")
    case True
    obtain f n e where w: "os_Write (bwFile b) p = (f, n, e)" by (cases "os_Write (bwFile b) p")
    then have "b' = b\<lparr>bwFile := f, bwErr := e\<rparr>" "p' = drop n p" using assms(3) True by (simp_all add: bw_round_def)
    then show ?thesis using os_Write_end [OF assms(1) w] True by (intro exI [of _ "take n p"]) (simp add: bw_all_def)
  next
    case False
    let ?n = "bwSize b - length (bwBuf b)"
    have "b' = bw_Flush (b\<lparr>bwBuf := bwBuf b @ take ?n p\<rparr>)" "p' = drop ?n p" using assms(3) False by (simp_all add: bw_round_def Let_def)
    then show ?thesis using bw_Flush_end(2) [of "b\<lparr>bwBuf := bwBuf b @ take ?n p\<rparr>"] assms(1)
      by (intro exI [of _ "take ?n p"]) (simp add: bw_all_def)
  qed
qed

lemma bw_loop_end:
  "at_end (bwFile b) \<Longrightarrow> bw_loop b p = (b', p') \<Longrightarrow> at_end (bwFile b') \<and> (\<exists>q. p = q @ p' \<and> bw_all b' = bw_all b @ q)"
proof (induction b p rule: bw_loop.induct)
  case (1 b p)
  show ?case
  proof (cases "bwSize b - length (bwBuf b) < length p \<and> bwErr b = None")
    case True
    obtain c q where c: "bw_round b p = (c, q)" by fastforce
    then have l: "bw_loop c q = (b', p')" using 1(3) True by (simp add: bw_loop.simps [of b p])
    have e: "bwErr b = None" using True by simp
    note r = bw_round_end [OF 1(2) e c]
    show ?thesis using 1(1) [OF True c [symmetric] r(1) l] r(2) by (metis append.assoc)
  next
    case False
    then have "bw_loop b p = (b, p)" by (simp only: bw_loop.simps [of b p] if_False)
    then show ?thesis using 1(2,3) by simp
  qed
qed

lemma bw_Write_end:
  assumes "at_end (bwFile b)"
  shows "at_end (bwFile (bw_Write b p))" "\<exists>q. prefix q p \<and> bw_all (bw_Write b p) = bw_all b @ q"
    "bwErr (bw_Write b p) = None \<Longrightarrow> bw_all (bw_Write b p) = bw_all b @ p"
proof -
  obtain c r where c: "bw_loop b p = (c, r)" by fastforce
  obtain q where q: "at_end (bwFile c)" "p = q @ r" "bw_all c = bw_all b @ q" using bw_loop_end [OF assms c] by blast
  show "at_end (bwFile (bw_Write b p))" "\<exists>q. prefix q p \<and> bw_all (bw_Write b p) = bw_all b @ q"
    "bwErr (bw_Write b p) = None \<Longrightarrow> bw_all (bw_Write b p) = bw_all b @ p"
    using q c by (auto simp: bw_Write_def bw_all_def)
qed

section \<open>sort.Search with a predicate that may panic\<close>

function search_panic :: "(nat \<Rightarrow> bool option) \<Rightarrow> nat \<Rightarrow> nat \<Rightarrow> nat option" where
  "search_panic f i j =
     (if i < j then let h = (i + j) div 2 in
        (case f h of None \<Rightarrow> None
         | Some b \<Rightarrow> if \<not> b then search_panic f (h + 1) j else search_panic f i h)
      else Some i)"
  by pat_completeness auto
termination
  by (relation "measure (\<lambda>(f, i, j). j - i)") auto

declare search_panic.simps [simp del]

lemma search_panic_eq:
  "\<forall>a < j. f a = Some (g a) \<Longrightarrow> search_panic f i j = Some (search_loop g i j)"
proof (induction "j - i" arbitrary: i j rule: less_induct)
  case less
  let ?h = "(i + j) div 2"
  show ?case
  proof (cases "i < j")
    case True
    then have h: "?h < j" "i \<le> ?h" by auto
    then have "search_panic f (?h + 1) j = Some (search_loop g (?h + 1) j)"
      "search_panic f i ?h = Some (search_loop g i ?h)" "f ?h = Some (g ?h)"
      using less.hyps [of j "?h + 1"] less.hyps [of ?h i] less.prems True by auto
    then show ?thesis using True
      by (simp add: search_panic.simps [of f i j] search_loop.simps [of g i j] Let_def)
  qed (simp add: search_panic.simps [of f i j] search_loop.simps [of g i j])
qed

section \<open>File names\<close>

type_synonym path = "string \<times> string"

definition has_suffix :: "string \<Rightarrow> string \<Rightarrow> bool" where
  "has_suffix s suf \<longleftrightarrow> length suf \<le> length s \<and> drop (length s - length suf) s = suf"

lemma has_suffix_append [simp]: "has_suffix (s @ suf) suf"
  by (simp add: has_suffix_def)

fun dec_digits :: "nat \<Rightarrow> string" where
  "dec_digits n = (if n < 10 then [char_of (48 + n)] else dec_digits (n div 10) @ [char_of (48 + n mod 10)])"

declare dec_digits.simps [simp del]

definition digit_of :: "char \<Rightarrow> nat option" where
  "digit_of c = (let n = of_char c :: nat in if 48 \<le> n \<and> n \<le> 57 then Some (n - 48) else None)"

text \<open>\<open>strconv.ParseUint(s, 10, 64)\<close>: a non-empty string of decimal digits below \<open>2^64\<close>.\<close>

fun parse_digits :: "string \<Rightarrow> nat \<Rightarrow> nat option" where
  "parse_digits [] acc = Some acc"
| "parse_digits (c # cs) acc = (case digit_of c of None \<Rightarrow> None | Some d \<Rightarrow> parse_digits cs (10 * acc + d))"

definition parse_uint64 :: "string \<Rightarrow> u64 option" where
  "parse_uint64 s =
     (if s = [] then None
      else case parse_digits s 0 of None \<Rightarrow> None | Some n \<Rightarrow> if n < 2 ^ 64 then Some (of_nat n) else None)"

lemma digit_of_char: "n < 10 \<Longrightarrow> digit_of (char_of (48 + n)) = Some n"
  by (simp add: digit_of_def Let_def)

lemma parse_digits_append:
  "parse_digits (xs @ ys) acc = Option.bind (parse_digits xs acc) (parse_digits ys)"
  by (induction xs arbitrary: acc) (auto split: option.split)

lemma parse_dec_digits: "parse_digits (dec_digits n) 0 = Some n"
proof (induction n rule: dec_digits.induct)
  case (1 n)
  show ?case
  proof (cases "n < 10")
    case True
    then show ?thesis by (simp add: dec_digits.simps [of n] digit_of_char)
  next
    case False
    then have "parse_digits (dec_digits (n div 10)) 0 = Some (n div 10)" using 1 by simp
    then show ?thesis using False by (simp add: dec_digits.simps [of n] parse_digits_append digit_of_char)
  qed
qed

lemma parse_leading_zeros: "parse_digits (replicate k (char_of (48 :: nat)) @ s) 0 = parse_digits s 0"
  using digit_of_char [of 0] by (induction k) simp_all

lemma dec_digits_not_Nil [simp]: "dec_digits n \<noteq> []"
  by (simp add: dec_digits.simps [of n])

lemma parse_uint64_padded:
  assumes "n < 2 ^ 64"
  shows "parse_uint64 (replicate k (char_of (48 :: nat)) @ dec_digits n) = Some (of_nat n)"
  using assms by (simp add: parse_uint64_def parse_leading_zeros parse_dec_digits)

end
