(* ===== verification/Sstable_Block.thy ===== *)
theory Sstable_Block
  imports Go_IO
begin

text \<open>
  The parts of an sstable of \<^verbatim>\<open>src/sstable/sstable.go\<close>: data blocks of length-prefixed entries
  (\<open>newCachedDataBlock\<close>, \<open>entryAt\<close>, \<open>lookup\<close>, \<open>appendBlockEntry\<close>), the sharded first-in
  first-out block cache (\<open>dataBlockCache\<close>), and the block index (\<open>dataRange\<close>, \<open>tableIndex\<close>).

  The lemmas: parsing a block inverts writing it and never panics on any bytes, lookup in a parsed
  sorted block is lookup in its entries, the index format round trips, the index search finds the only
  block that can hold a key, and the cache stays bounded and returns only what was put in.
\<close>

section \<open>Constants and errors\<close>

definition sstableBlockSize :: nat where "sstableBlockSize = 4 * 1024"
definition sstableMagic :: u32 where "sstableMagic = 0xFF12FF45"
definition sstableVersion :: byte where "sstableVersion = 2"
definition sstableFooterSize :: nat where "sstableFooterSize = 8 + 4 + 1"
definition entryMetaSize :: nat where "entryMetaSize = 2 + 4"
definition dataRangeMetaSize :: nat where "dataRangeMetaSize = 2 + 8 + 4"
definition blockCacheShardCount :: int where "blockCacheShardCount = 16"
definition blockCacheEntryLimit :: int where "blockCacheEntryLimit = 256"

lemmas sst_consts = sstableBlockSize_def sstableFooterSize_def entryMetaSize_def dataRangeMetaSize_def

datatype block_error = TruncatedEntryHeader | TruncatedEntryBody


section \<open>Data blocks\<close>

text \<open>
  \<open>getDataBlock\<close> leases a buffer of the requested length: a fresh zeroed one for an oversized block,
  else the front of a pooled array, which still holds the bytes of its last use (\<open>stale\<close>).
\<close>

definition getDataBlock :: "bytes \<Rightarrow> u32 \<Rightarrow> bytes" where
  "getDataBlock stale len =
     (if sstableBlockSize < unat len then replicate (unat len) 0
      else take (unat len) (stale @ replicate sstableBlockSize 0))"

record cachedDataBlock =
  cbData :: bytes
  entryOffsets :: "u32 list"

text \<open>The parse loop of \<open>newCachedDataBlock\<close>, from position \<open>ptr\<close>.\<close>

function parse_block :: "bytes \<Rightarrow> nat \<Rightarrow> u32 list \<Rightarrow> block_error + u32 list" where
  "parse_block data ptr offs =
     (if ptr < length data then
        if length data - ptr < entryMetaSize then Inl TruncatedEntryHeader
        else
          let offs' = offs @ [of_nat ptr];
              klen = unat (get_u16 (drop ptr data));
              vlen = unat (get_u32 (drop (ptr + 2) data));
              ptr' = ptr + entryMetaSize in
          (if ptr' + klen + vlen > length data then Inl TruncatedEntryBody
           else parse_block data (ptr' + (klen + vlen)) offs')
      else Inr offs)"
  by pat_completeness auto
termination
  by (relation "measure (\<lambda>(data, ptr, offs). length data - ptr)") (auto simp: entryMetaSize_def)

declare parse_block.simps [simp del]

definition newCachedDataBlock :: "bytes \<Rightarrow> block_error + cachedDataBlock" where
  "newCachedDataBlock raw =
     (case parse_block raw 0 [] of Inl e \<Rightarrow> Inl e | Inr offs \<Rightarrow> Inr \<lparr>cbData = raw, entryOffsets = offs\<rparr>)"

definition entryAt :: "cachedDataBlock \<Rightarrow> nat \<Rightarrow> (bytes \<times> bytes) option" where
  "entryAt b i =
     (if i < length (entryOffsets b) \<and> unat (entryOffsets b ! i) + entryMetaSize \<le> length (cbData b) then
        let ptr = unat (entryOffsets b ! i);
            klen = unat (get_u16 (drop ptr (cbData b)));
            vlen = unat (get_u32 (drop (ptr + 2) (cbData b)));
            ptr' = ptr + entryMetaSize in
        (if ptr' + klen + vlen \<le> length (cbData b)
         then Some (subslice (cbData b) ptr' (ptr' + klen), subslice (cbData b) (ptr' + klen) (ptr' + klen + vlen))
         else None)
      else None)"

text \<open>\<open>lookup\<close> returns a slice of the block: inner \<open>None\<close> is nil, an empty value is \<open>Some []\<close>.\<close>

definition block_lookup :: "cachedDataBlock \<Rightarrow> bytes \<Rightarrow> bytes option option" where
  "block_lookup b key = do {
     idx \<leftarrow> search_panic (\<lambda>i. do { (k, _) \<leftarrow> entryAt b i; Some (bytes_compare k key \<ge> 0) }) 0 (length (entryOffsets b));
     (if idx = length (entryOffsets b) then Some None
      else do {
        (k, v) \<leftarrow> entryAt b idx;
        (if k \<noteq> key then Some None else Some (Some v))
      })
   }"

text \<open>
  \<open>appendBlockEntry\<close> extends the block inside its capacity of one block size; past it the slice
  expression panics.
\<close>

definition appendBlockEntry :: "bytes \<Rightarrow> bytes \<Rightarrow> bytes \<Rightarrow> bytes option" where
  "appendBlockEntry block key val =
     (let entrySize = entryMetaSize + length key + length val in
      if length block + entrySize \<le> sstableBlockSize
      then Some (block @ put_u16 (of_nat (length key)) @ put_u32 (of_nat (length val)) @ key @ val)
      else None)"

section \<open>Block cache\<close>

record dataBlockCacheShard =
  shBlocks :: "(u64 \<times> cachedDataBlock) list"
  shOrder :: "u64 list"
  shMax :: nat

type_synonym dataBlockCache = "dataBlockCacheShard list option"

definition newDataBlockCache :: "int \<Rightarrow> dataBlockCache" where
  "newDataBlockCache maxEntries =
     (if maxEntries < 1 then None
      else
        let shardCount = (if maxEntries < blockCacheShardCount then maxEntries else blockCacheShardCount);
            perShard = (maxEntries + shardCount - 1) div shardCount in
        Some (replicate (nat shardCount) \<lparr>shBlocks = [], shOrder = [], shMax = nat perShard\<rparr>))"

definition cache_shard :: "dataBlockCacheShard list \<Rightarrow> u64 \<Rightarrow> nat option" where
  "cache_shard c off = (if c = [] then None else Some (unat (off mod of_nat (length c))))"

definition cache_get :: "dataBlockCache \<Rightarrow> u64 \<Rightarrow> cachedDataBlock option option" where
  "cache_get c off =
     (case c of None \<Rightarrow> Some None
      | Some shs \<Rightarrow> do { i \<leftarrow> cache_shard shs off; Some (map_of (shBlocks (shs ! i)) off) })"

fun evictOldest :: "(u64 \<times> cachedDataBlock) list \<Rightarrow> u64 list \<Rightarrow> (u64 \<times> cachedDataBlock) list \<times> u64 list" where
  "evictOldest blocks [] = (blocks, [])"
| "evictOldest blocks (oldest # order) =
     (if map_of blocks oldest \<noteq> None then (AList.delete oldest blocks, order)
      else evictOldest blocks order)"

definition shard_add :: "dataBlockCacheShard \<Rightarrow> u64 \<Rightarrow> cachedDataBlock \<Rightarrow> dataBlockCacheShard" where
  "shard_add sh off block =
     (if map_of (shBlocks sh) off \<noteq> None then sh\<lparr>shBlocks := AList.update off block (shBlocks sh)\<rparr>
      else
        let (blocks, order) =
              (if length (shBlocks sh) \<ge> shMax sh then evictOldest (shBlocks sh) (shOrder sh)
               else (shBlocks sh, shOrder sh)) in
        sh\<lparr>shBlocks := AList.update off block blocks, shOrder := order @ [off]\<rparr>)"

definition cache_add :: "dataBlockCache \<Rightarrow> u64 \<Rightarrow> cachedDataBlock \<Rightarrow> dataBlockCache option" where
  "cache_add c off block =
     (case c of None \<Rightarrow> Some None
      | Some shs \<Rightarrow> do { i \<leftarrow> cache_shard shs off; Some (Some (shs[i := shard_add (shs ! i) off block])) })"

definition cache_clear :: "dataBlockCache \<Rightarrow> dataBlockCache" where
  "cache_clear c = map_option (map (\<lambda>sh. sh\<lparr>shBlocks := [], shOrder := []\<rparr>)) c"

section \<open>Block index\<close>

record dataRange =
  firstKey :: bytes
  drOffset :: u64
  drLength :: u32

text \<open>
  \<open>encode\<close> writes into \<open>dst\<close>; its offsets \<open>2+keyln\<close> and \<open>2+keyln+8\<close> are 16-bit sums that wrap.
\<close>

definition dr_encode :: "dataRange \<Rightarrow> bytes \<Rightarrow> (bytes \<times> nat) option" where
  "dr_encode dr dst =
     (let keyln = (of_nat (length (firstKey dr)) :: u16) in do {
        d1 \<leftarrow> overlay dst 0 (put_u16 keyln);
        d2 \<leftarrow> copy_at d1 2 (firstKey dr);
        d3 \<leftarrow> overlay d2 (unat (2 + keyln)) (put_u64 (drOffset dr));
        d4 \<leftarrow> overlay d3 (unat (2 + keyln + 8)) (put_u32 (drLength dr));
        Some (d4, unat keyln + dataRangeMetaSize)
      })"

definition dr_decode :: "bytes \<Rightarrow> (dataRange \<times> nat) option" where
  "dr_decode src =
     (if length src < 2 then None
      else
        let klen = unat (get_u16 src) in
        if length src < 2 + klen + 8 + 4 then None
        else Some (\<lparr>firstKey = subslice src 2 (2 + klen), drOffset = get_u64 (drop (2 + klen) src),
                    drLength = get_u32 (drop (2 + klen + 8) src)\<rparr>, klen + dataRangeMetaSize))"

fun encode_ranges :: "dataRange list \<Rightarrow> bytes \<Rightarrow> bytes option" where
  "encode_ranges [] res = Some res"
| "encode_ranges (ra # rs) res = do {
     (d, n) \<leftarrow> dr_encode ra res;
     (if n \<le> length d then do { rest \<leftarrow> encode_ranges rs (drop n d); Some (take n d @ rest) } else None)
   }"

definition encodeFullRange :: "dataRange list \<Rightarrow> bytes option" where
  "encodeFullRange rs =
     (if rs = [] then Some []
      else encode_ranges rs (replicate (\<Sum>ra \<leftarrow> rs. length (firstKey ra) + dataRangeMetaSize) 0))"

lemma dr_decode_pos: "dr_decode data = Some (dr, n) \<Longrightarrow> 0 < n \<and> n \<le> length data"
  by (auto simp: dr_decode_def Let_def dataRangeMetaSize_def split: if_splits)

function decodeFullRange :: "bytes \<Rightarrow> dataRange list option" where
  "decodeFullRange data =
     (if data = [] then Some []
      else case dr_decode data of
        None \<Rightarrow> None
      | Some (dr, n) \<Rightarrow> map_option ((#) dr) (decodeFullRange (drop n data)))"
  by pat_completeness auto
termination
  by (relation "measure length") (auto dest: dr_decode_pos)

declare decodeFullRange.simps [simp del]

definition findDataRange :: "dataRange list \<Rightarrow> bytes \<Rightarrow> dataRange option" where
  "findDataRange rs key =
     (if rs = [] then None
      else
        let idx = sort_search (length rs) (\<lambda>i. bytes_compare (firstKey (rs ! i)) key > 0) in
        if idx = 0 then None else Some (rs ! (idx - 1)))"


section \<open>The block format\<close>

definition entry_ok :: "bytes \<times> bytes \<Rightarrow> bool" where
  "entry_ok e \<longleftrightarrow> length (fst e) < 2 ^ 16 \<and> length (snd e) < 2 ^ 32"

definition enc_entry :: "bytes \<times> bytes \<Rightarrow> bytes" where
  "enc_entry e = put_u16 (of_nat (length (fst e))) @ put_u32 (of_nat (length (snd e))) @ fst e @ snd e"

definition enc_block :: "(bytes \<times> bytes) list \<Rightarrow> bytes" where
  "enc_block es = concat (map enc_entry es)"

fun offsets_of :: "nat \<Rightarrow> (bytes \<times> bytes) list \<Rightarrow> u32 list" where
  "offsets_of p [] = []"
| "offsets_of p (e # es) = of_nat p # offsets_of (p + length (enc_entry e)) es"

definition block_of :: "(bytes \<times> bytes) list \<Rightarrow> cachedDataBlock" where
  "block_of es = \<lparr>cbData = enc_block es, entryOffsets = offsets_of 0 es\<rparr>"

lemma enc_block_simps [simp]:
  "enc_block [] = []" "enc_block (e # es) = enc_entry e @ enc_block es"
  "enc_block (xs @ ys) = enc_block xs @ enc_block ys"
  by (simp_all add: enc_block_def)

lemma length_enc_entry [simp]: "length (enc_entry e) = entryMetaSize + length (fst e) + length (snd e)"
  by (simp add: enc_entry_def entryMetaSize_def)

lemma length_offsets_of [simp]: "length (offsets_of p es) = length es"
  by (induction es arbitrary: p) auto

lemma offsets_of_nth: "i < length es \<Longrightarrow> offsets_of p es ! i = of_nat (p + length (enc_block (take i es)))"
proof (induction es arbitrary: p i)
  case (Cons e es)
  then show ?case by (cases i) (simp_all add: ac_simps)
qed simp

lemma entry_header:
  assumes "entry_ok e" "drop ptr data = enc_entry e @ rest"
  shows "unat (get_u16 (drop ptr data)) = length (fst e)" "unat (get_u32 (drop (ptr + 2) data)) = length (snd e)"
    "drop (ptr + (entryMetaSize + length (fst e) + length (snd e))) data = rest"
    "subslice data (ptr + entryMetaSize) (ptr + entryMetaSize + length (fst e)) = fst e"
    "subslice data (ptr + entryMetaSize + length (fst e)) (ptr + entryMetaSize + length (fst e) + length (snd e)) = snd e"
proof -
  have d: "drop (ptr + n) data = drop n (enc_entry e @ rest)" for n
    using assms(2) by (metis add.commute drop_drop)
  have l: "unat (of_nat (length (fst e)) :: u16) = length (fst e)" "unat (of_nat (length (snd e)) :: u32) = length (snd e)"
    using assms(1) by (simp_all add: entry_ok_def unat_of_nat)
  show "unat (get_u16 (drop ptr data)) = length (fst e)" using assms(2) l(1) by (simp add: enc_entry_def)
  show "unat (get_u32 (drop (ptr + 2) data)) = length (snd e)" unfolding d using l(2) by (simp add: enc_entry_def)
  show "drop (ptr + (entryMetaSize + length (fst e) + length (snd e))) data = rest" unfolding d by simp
  have e6: "drop (ptr + (6 + n)) data = drop n (fst e @ snd e @ rest)" for n
    unfolding d by (simp add: enc_entry_def)
  show "subslice data (ptr + entryMetaSize) (ptr + entryMetaSize + length (fst e)) = fst e"
    using e6 [of 0] by (simp add: subslice_def entryMetaSize_def)
  show "subslice data (ptr + entryMetaSize + length (fst e)) (ptr + entryMetaSize + length (fst e) + length (snd e)) = snd e"
    using e6 [of "length (fst e)"] by (simp add: subslice_def entryMetaSize_def add.assoc)
qed

lemma parse_block_enc:
  assumes "list_all entry_ok es" "drop ptr data = enc_block es" "ptr \<le> length data"
  shows "parse_block data ptr offs = Inr (offs @ offsets_of ptr es)"
  using assms
proof (induction es arbitrary: ptr offs)
  case Nil
  then show ?case by (simp add: parse_block.simps [of data ptr])
next
  case (Cons e es)
  have ok: "entry_ok e" and d: "drop ptr data = enc_entry e @ enc_block es" using Cons.prems by simp_all
  note h = entry_header [OF ok d]
  have len: "length data - ptr = length (enc_entry e) + length (enc_block es)"
    using d by (metis length_append length_drop)
  have "parse_block data (ptr + (entryMetaSize + length (fst e) + length (snd e))) (offs @ [of_nat ptr])
      = Inr ((offs @ [of_nat ptr]) @ offsets_of (ptr + (entryMetaSize + length (fst e) + length (snd e))) es)"
    using Cons.prems(1,3) h(3) len by (intro Cons.IH) auto
  then show ?case using Cons.prems(3) h(1,2) len
    by (simp add: parse_block.simps [of data ptr] Let_def add.assoc) (simp add: entryMetaSize_def)
qed

lemma parse_block_inv:
  assumes "parse_block data ptr offs = Inr r" "ptr \<le> length data"
  shows "\<exists>es. list_all entry_ok es \<and> drop ptr data = enc_block es \<and> r = offs @ offsets_of ptr es"
  using assms
proof (induction data ptr offs rule: parse_block.induct)
  case (1 data ptr offs)
  show ?case
  proof (cases "ptr < length data")
    case False
    then show ?thesis using 1 by (intro exI [of _ "[]"]) (auto simp: parse_block.simps [of data "length data"])
  next
    case True
    define k v where kv: "k = unat (get_u16 (drop ptr data))" "v = unat (get_u32 (drop (ptr + 2) data))"
    let ?key = "subslice data (ptr + 6) (ptr + 6 + k)" and ?val = "subslice data (ptr + 6 + k) (ptr + 6 + k + v)"
    let ?n = "ptr + entryMetaSize + (k + v)"
    have fits: "entryMetaSize \<le> length data - ptr" "?n \<le> length data"
      and rec: "parse_block data ?n (offs @ [of_nat ptr]) = Inr r"
      using 1(2) True by (auto simp: parse_block.simps [of data ptr] Let_def kv add.assoc split: if_splits)
    obtain es where es: "list_all entry_ok es" "drop ?n data = enc_block es" "r = (offs @ [of_nat ptr]) @ offsets_of ?n es"
      using 1(1) [OF True _ refl kv refl] rec fits by (auto simp: not_less add.assoc)
    have lk: "length ?key = k" "length ?val = v" using fits by (simp_all add: entryMetaSize_def)
    have bnd: "k < 2 ^ 16" "v < 2 ^ 32" using unsigned_less [of "get_u16 (drop ptr data)"] unsigned_less [of "get_u32 (drop (ptr + 2) data)"]
      by (simp_all add: kv)
    have hdr: "put_u16 (of_nat k) = take 2 (drop ptr data)" "put_u32 (of_nat v) = take 4 (drop (ptr + 2) data)"
      using put_get_int(1) [of "take 2 (drop ptr data)"] put_get_int(2) [of "take 4 (drop (ptr + 2) data)"] fits
      by (simp_all add: kv entryMetaSize_def get_u16_def get_u32_def)
    have "enc_entry (?key, ?val) = take 2 (drop ptr data) @ take 4 (drop (ptr + 2) data) @ ?key @ ?val"
      using hdr lk by (simp add: enc_entry_def)
    then have "enc_entry (?key, ?val) @ drop ?n data = drop ptr data"
      by (simp add: subslice_def entryMetaSize_def take_drop_glue add.assoc)
    then have "drop ptr data = enc_block ((?key, ?val) # es)" using es(2) by simp
    moreover have "entry_ok (?key, ?val)" using lk bnd by (simp add: entry_ok_def)
    moreover have "r = offs @ offsets_of ptr ((?key, ?val) # es)" using es(3) lk by (simp add: entryMetaSize_def ac_simps)
    ultimately show ?thesis using es(1) by (intro exI [of _ "(?key, ?val) # es"]) simp
  qed
qed

lemma newCachedDataBlock_enc: "list_all entry_ok es \<Longrightarrow> newCachedDataBlock (enc_block es) = Inr (block_of es)"
  using parse_block_enc [of es 0 "enc_block es" "[]"] by (simp add: newCachedDataBlock_def block_of_def)

lemma newCachedDataBlock_inv:
  "newCachedDataBlock raw = Inr b \<Longrightarrow> \<exists>es. list_all entry_ok es \<and> raw = enc_block es \<and> b = block_of es"
  using parse_block_inv [of raw 0 "[]"]
  by (auto simp: newCachedDataBlock_def block_of_def split: sum.splits)

lemma entryAt_block_of:
  assumes "list_all entry_ok es" "length (enc_block es) < 2 ^ 32" "i < length es"
  shows "entryAt (block_of es) i = Some (es ! i)"
proof -
  let ?p = "length (enc_block (take i es))"
  have es: "es = take i es @ es ! i # drop (Suc i) es" using assms(3) by (simp add: id_take_nth_drop)
  then have eq: "enc_block es = enc_block (take i es) @ enc_entry (es ! i) @ enc_block (drop (Suc i) es)"
    by (metis enc_block_simps(2,3))
  then have d: "drop ?p (enc_block es) = enc_entry (es ! i) @ enc_block (drop (Suc i) es)" by simp
  have len: "?p + length (enc_entry (es ! i)) \<le> length (enc_block es)" using eq by simp
  then have off: "unat (offsets_of 0 es ! i) = ?p"
    using assms(2,3) by (simp add: offsets_of_nth unat_of_nat)
  have "entry_ok (es ! i)" using assms(1,3) by (simp add: list_all_length)
  note h = entry_header [OF this d]
  show ?thesis using assms(3) off len h(1,2,4,5)
    by (simp add: entryAt_def block_of_def Let_def)
qed

section \<open>Lookup in a sorted list by binary search\<close>

abbreviation lower_count :: "bytes \<Rightarrow> (bytes \<times> 'v) list \<Rightarrow> nat" where
  "lower_count key es \<equiv> length (takeWhile (\<lambda>e. fst e < key) es)"

lemma sorted_keys_nth: "sorted_keys es \<Longrightarrow> a \<le> b \<Longrightarrow> b < length es \<Longrightarrow> fst (es ! a) \<le> fst (es ! b)"
  by (cases "a = b") (auto simp: sorted_wrt_iff_nth_less order.strict_implies_order)

lemma lower_count_least:
  assumes "sorted_keys es"
  shows "least_hit (\<lambda>i. key \<le> fst (es ! i)) (length es) (lower_count key es)"
proof -
  let ?n = "lower_count key es"
  have "fst (es ! a) < key" if "a < ?n" for a
    using nth_mem [OF that] set_takeWhileD takeWhile_nth [OF that] by fastforce
  moreover have "key \<le> fst (es ! a)" if "?n \<le> a" "a < length es" for a
  proof -
    have "\<not> fst (es ! ?n) < key" using that nth_length_takeWhile [of "\<lambda>e. fst e < key" es] by simp
    then show ?thesis using sorted_keys_nth [OF assms that] by simp
  qed
  ultimately show ?thesis by (auto simp: least_hit_def not_le length_takeWhile_le)
qed

lemma search_lower:
  assumes "sorted_keys es"
  shows "sort_search (length es) (\<lambda>i. key \<le> fst (es ! i)) = lower_count key es"
  using sorted_keys_nth [OF assms] by (intro sort_search_eqI lower_count_least [OF assms]) (meson order_trans)

lemma map_of_lower:
  assumes "sorted_keys es"
  shows "map_of es key = (let i = lower_count key es in
    if i < length es \<and> fst (es ! i) = key then Some (snd (es ! i)) else None)"
  using assms
proof (induction es)
  case (Cons e es)
  have "map_of es (fst e) = None" using Cons.prems by (auto simp: map_of_eq_None_iff)
  moreover have "map_of es key = None" if "key < fst e"
    using Cons.prems that by (auto simp: map_of_eq_None_iff)
  ultimately show ?case using Cons by (cases "fst e" key rule: linorder_cases) (auto simp: Let_def)
qed simp

lemma block_lookup_spec:
  assumes "list_all entry_ok es" "length (enc_block es) < 2 ^ 32" "sorted_keys es"
  shows "block_lookup (block_of es) key = Some (map_of es key)"
proof -
  let ?f = "\<lambda>i. do { (k, _) \<leftarrow> entryAt (block_of es) i; Some (bytes_compare k key \<ge> 0) }"
  have e: "entryAt (block_of es) i = Some (es ! i)" if "i < length es" for i
    using entryAt_block_of [OF assms(1,2) that] .
  have "\<forall>i < length es. ?f i = Some (key \<le> fst (es ! i))" using e by (simp add: split_beta)
  then have "search_panic ?f 0 (length es) = Some (search_loop (\<lambda>i. key \<le> fst (es ! i)) 0 (length es))"
    by (rule search_panic_eq)
  then have s: "search_panic ?f 0 (length es) = Some (lower_count key es)"
    using search_lower [OF assms(3), of key] by (simp add: sort_search_def)
  have l: "length (entryOffsets (block_of es)) = length es" by (simp add: block_of_def)
  show ?thesis
  proof (cases "lower_count key es = length es")
    case True
    then show ?thesis using s l map_of_lower [OF assms(3), of key] by (simp add: block_lookup_def)
  next
    case False
    then have "lower_count key es < length es" using length_takeWhile_le le_neq_implies_less by blast
    then show ?thesis using s l e map_of_lower [OF assms(3), of key]
      by (simp add: block_lookup_def Let_def split_beta)
  qed
qed

section \<open>The index format\<close>

definition range_ok :: "dataRange \<Rightarrow> bool" where
  "range_ok dr \<longleftrightarrow> length (firstKey dr) < 2 ^ 16"

definition enc_range :: "dataRange \<Rightarrow> bytes" where
  "enc_range dr = put_u16 (of_nat (length (firstKey dr))) @ firstKey dr @ put_u64 (drOffset dr) @ put_u32 (drLength dr)"

lemma length_enc_range [simp]: "length (enc_range dr) = length (firstKey dr) + dataRangeMetaSize"
  by (simp add: enc_range_def dataRangeMetaSize_def)

lemma dr_decode_enc: "range_ok dr \<Longrightarrow> dr_decode (enc_range dr @ rest) = Some (dr, length (enc_range dr))"
  by (cases dr) (auto simp: dr_decode_def enc_range_def range_ok_def dataRangeMetaSize_def unat_of_nat_bound
      subslice_def Let_def add.assoc split: if_splits)

interpretation index_stream: record_stream range_ok enc_range dr_decode decodeFullRange
proof unfold_locales
  fix r rest
  assume "range_ok r"
  then show "dr_decode (enc_range r @ rest) = Some (r, length (enc_range r))" by (rule dr_decode_enc)
next
  fix r
  have "length (enc_range r) \<noteq> 0" by (simp add: dataRangeMetaSize_def)
  then show "enc_range r \<noteq> []" using length_0_conv by blast
qed (simp_all add: decodeFullRange.simps)

lemma dr_encode_fit:
  assumes "length (firstKey dr) + 10 < 2 ^ 16" "length (firstKey dr) + dataRangeMetaSize \<le> length dst"
  shows "dr_encode dr dst = Some (enc_range dr @ drop (length (enc_range dr)) dst, length (enc_range dr))"
proof -
  let ?k = "firstKey dr"
  obtain a m c d e where dst: "dst = a @ m @ c @ d @ e" and len: "length a = 2" "length m = length ?k" "length c = 8" "length d = 4"
  proof -
    let ?n = "length ?k"
    have "dst = take 2 dst @ take ?n (drop 2 dst) @ take 8 (drop (2 + ?n) dst) @ take 4 (drop (2 + ?n + 8) dst) @ drop (2 + ?n + 8 + 4) dst"
      by (simp add: take_drop_glue)
    then show ?thesis by (rule that) (use assms(2) in \<open>simp_all add: dataRangeMetaSize_def\<close>)
  qed
  have w: "unat (of_nat (length ?k) :: u16) = length ?k" "unat (2 + of_nat (length ?k) :: u16) = 2 + length ?k"
    "unat (2 + of_nat (length ?k) + 8 :: u16) = 10 + length ?k"
    using assms(1) unat_of_nat_bound(1) [of "length ?k"] unat_of_nat_bound(1) [of "2 + length ?k"]
      unat_of_nat_bound(1) [of "10 + length ?k"] by (simp_all add: ac_simps)
  have o1: "overlay dst 0 (put_u16 (of_nat (length ?k))) = Some (put_u16 (of_nat (length ?k)) @ m @ c @ d @ e)"
    using overlay_fit [of "[]" 0 _ a "m @ c @ d @ e"] dst len by simp
  have o2: "copy_at (put_u16 (of_nat (length ?k)) @ m @ c @ d @ e) 2 ?k = Some (put_u16 (of_nat (length ?k)) @ ?k @ c @ d @ e)"
    using len by (intro copy_at_fit) simp_all
  have o3: "overlay (put_u16 (of_nat (length ?k)) @ ?k @ c @ d @ e) (2 + length ?k) (put_u64 (drOffset dr)) =
      Some (put_u16 (of_nat (length ?k)) @ ?k @ put_u64 (drOffset dr) @ d @ e)"
    using overlay_fit [of "put_u16 (of_nat (length ?k)) @ ?k" "2 + length ?k" _ c "d @ e"] len by simp
  have o4: "overlay (put_u16 (of_nat (length ?k)) @ ?k @ put_u64 (drOffset dr) @ d @ e) (10 + length ?k) (put_u32 (drLength dr)) =
      Some (put_u16 (of_nat (length ?k)) @ ?k @ put_u64 (drOffset dr) @ put_u32 (drLength dr) @ e)"
    using overlay_fit [of "put_u16 (of_nat (length ?k)) @ ?k @ put_u64 (drOffset dr)" "10 + length ?k" _ d e] len by simp
  have tail: "drop (length (enc_range dr)) dst = e" unfolding dst using len by (simp add: dataRangeMetaSize_def)
  show ?thesis unfolding tail
    by (simp only: dr_encode_def Let_def o1 o2 w o3 o4 Option.bind.simps length_enc_range) (simp add: enc_range_def)
qed

lemma encode_ranges_fit:
  assumes "\<forall>ra \<in> set rs. length (firstKey ra) + 10 < 2 ^ 16"
    "length res = (\<Sum>ra \<leftarrow> rs. length (firstKey ra) + dataRangeMetaSize)"
  shows "encode_ranges rs res = Some (concat (map enc_range rs))"
  using assms
proof (induction rs arbitrary: res)
  case (Cons ra rs)
  have "dr_encode ra res = Some (enc_range ra @ drop (length (enc_range ra)) res, length (enc_range ra))"
    using Cons.prems by (intro dr_encode_fit) simp_all
  moreover have "encode_ranges rs (drop (length (enc_range ra)) res) = Some (concat (map enc_range rs))"
    using Cons.prems by (intro Cons.IH) simp_all
  ultimately show ?case using Cons.prems by simp
qed simp

lemma encodeFullRange_fit:
  "\<forall>ra \<in> set rs. length (firstKey ra) + 10 < 2 ^ 16 \<Longrightarrow> encodeFullRange rs = Some (concat (map enc_range rs))"
  by (simp add: encodeFullRange_def encode_ranges_fit)

lemma decode_encoded_index:
  "\<forall>ra \<in> set rs. length (firstKey ra) + 10 < 2 ^ 16 \<Longrightarrow> decodeFullRange (concat (map enc_range rs)) = Some rs"
  by (rule index_stream.loop_concat) (auto simp: list_all_iff range_ok_def)

text \<open>The search finds the last range whose first key is not above the target.\<close>

lemma findDataRange_spec:
  fixes key :: bytes
  assumes "sorted_wrt (\<lambda>a b. firstKey a < firstKey b) rs"
  defines "n \<equiv> length (takeWhile (\<lambda>r. firstKey r \<le> key) rs)"
  shows "findDataRange rs key = (if n = 0 then None else Some (rs ! (n - 1)))"
proof -
  let ?f = "\<lambda>i. bytes_compare (firstKey (rs ! i)) key > 0"
  have mono: "firstKey (rs ! a) \<le> firstKey (rs ! b)" if "a \<le> b" "b < length rs" for a b
    using assms(1) that by (cases "a = b") (auto simp: sorted_wrt_iff_nth_less order.strict_implies_order)
  have "\<not> ?f a" if "a < n" for a
    using nth_mem [of a "takeWhile (\<lambda>r. firstKey r \<le> key) rs"] set_takeWhileD takeWhile_nth [of a "\<lambda>r. firstKey r \<le> key" rs] that
    unfolding n_def by fastforce
  moreover have "?f a" if "n \<le> a" "a < length rs" for a
  proof -
    have "\<not> firstKey (rs ! n) \<le> key" using that nth_length_takeWhile [of "\<lambda>r. firstKey r \<le> key" rs] unfolding n_def by simp
    then show ?thesis using mono [OF that] by simp
  qed
  ultimately have "least_hit ?f (length rs) n" unfolding n_def by (auto simp: least_hit_def length_takeWhile_le)
  then have "sort_search (length rs) ?f = n"
    using mono by (intro sort_search_eqI) (auto intro: order.strict_trans2)
  moreover have "n = 0" if "rs = []" using that by (simp add: n_def)
  ultimately show ?thesis by (auto simp: findDataRange_def Let_def)
qed

section \<open>The block cache\<close>

definition shard_ok :: "dataBlockCacheShard \<Rightarrow> bool" where
  "shard_ok sh \<longleftrightarrow> distinct (map fst (shBlocks sh)) \<and> distinct (shOrder sh) \<and>
     set (shOrder sh) = fst ` set (shBlocks sh) \<and> length (shBlocks sh) \<le> shMax sh \<and> 0 < shMax sh"

definition cache_ok :: "dataBlockCache \<Rightarrow> bool" where
  "cache_ok c \<longleftrightarrow> (case c of None \<Rightarrow> True | Some shs \<Rightarrow> shs \<noteq> [] \<and> length shs < 2 ^ 64 \<and> list_all shard_ok shs)"

definition cached_pairs :: "dataBlockCache \<Rightarrow> (u64 \<times> cachedDataBlock) set" where
  "cached_pairs c = (case c of None \<Rightarrow> {} | Some shs \<Rightarrow> \<Union>sh \<in> set shs. set (shBlocks sh))"

lemma evictOldest_spec:
  assumes "evictOldest blocks order = (blocks', order')" "distinct (map fst blocks)" "distinct order"
    "set order = fst ` set blocks" "blocks \<noteq> []"
  shows "distinct (map fst blocks') \<and> distinct order' \<and> set order' = fst ` set blocks' \<and> length blocks' < length blocks \<and>
    set blocks' \<subseteq> set blocks"
proof (cases order)
  case Nil
  then show ?thesis using assms(4,5) by simp
next
  case (Cons o1 os)
  then have "o1 \<in> fst ` set blocks" using assms(4) by auto
  then have "map_of blocks o1 \<noteq> None" by (simp add: map_of_eq_None_iff)
  then have e: "blocks' = AList.delete o1 blocks" "order' = os" using assms(1) Cons by auto
  have "set os = fst ` set blocks - {o1}" using assms(3,4) Cons by auto
  moreover have "length (AList.delete o1 blocks) < length blocks"
    using \<open>o1 \<in> fst ` set blocks\<close> unfolding AList.delete_eq
    by (metis (mono_tags, lifting) imageE length_filter_less split_beta)
  moreover have "distinct (map fst blocks')" using assms(2) unfolding e AList.delete_eq by (rule distinct_map_filter)
  moreover have "set blocks' \<subseteq> set blocks" unfolding e AList.delete_eq by auto
  moreover have "fst ` set blocks' = fst ` set blocks - {o1}" unfolding e AList.delete_eq by auto
  ultimately show ?thesis using assms(3) Cons e by auto
qed

lemma shard_add_spec:
  assumes "shard_ok sh"
  shows "shard_ok (shard_add sh off b)" "set (shBlocks (shard_add sh off b)) \<subseteq> insert (off, b) (set (shBlocks sh))"
    "map_of (shBlocks (shard_add sh off b)) off = Some b" "shMax (shard_add sh off b) = shMax sh"
proof -
  note upd = alist_update_subset [of off b] and keys = alist_update_keys [of off b]
  have len: "length (AList.update off b bl) \<le> Suc (length bl)" for bl :: "(u64 \<times> cachedDataBlock) list"
    by (induction bl) auto
  have same: "map_of bl off \<noteq> None \<Longrightarrow> length (AList.update off b bl) = length bl" for bl :: "(u64 \<times> cachedDataBlock) list"
    by (induction bl) (auto split: if_splits)
  note ok = assms [unfolded shard_ok_def]
  show "map_of (shBlocks (shard_add sh off b)) off = Some b" "shMax (shard_add sh off b) = shMax sh"
    by (auto simp: shard_add_def Let_def update_conv' split: prod.split)
  show "shard_ok (shard_add sh off b)" and "set (shBlocks (shard_add sh off b)) \<subseteq> insert (off, b) (set (shBlocks sh))"
  proof -
    consider (hit) "map_of (shBlocks sh) off \<noteq> None" | (miss) "map_of (shBlocks sh) off = None" by blast
    then have "shard_ok (shard_add sh off b) \<and> set (shBlocks (shard_add sh off b)) \<subseteq> insert (off, b) (set (shBlocks sh))"
    proof cases
      case hit
      then have "off \<in> fst ` set (shBlocks sh)" by (simp add: map_of_eq_None_iff)
      then have "insert off (fst ` set (shBlocks sh)) = fst ` set (shBlocks sh)" by blast
      then show ?thesis using hit ok upd same keys
        by (auto simp: shard_add_def shard_ok_def distinct_update)
    next
      case miss
      obtain bl od where p: "(bl, od) = (if length (shBlocks sh) \<ge> shMax sh then evictOldest (shBlocks sh) (shOrder sh) else (shBlocks sh, shOrder sh))"
        by (metis surj_pair)
      have inv: "distinct (map fst bl) \<and> distinct od \<and> set od = fst ` set bl \<and> length bl < shMax sh \<and> set bl \<subseteq> set (shBlocks sh)"
      proof (cases "length (shBlocks sh) \<ge> shMax sh")
        case True
        have "evictOldest (shBlocks sh) (shOrder sh) = (bl, od)" "shBlocks sh \<noteq> []" using p True ok by auto
        from evictOldest_spec [OF this(1) _ _ _ this(2)] show ?thesis using ok by auto
      qed (use p ok in auto)
      have "off \<notin> fst ` set (shBlocks sh)" using miss by (simp add: map_of_eq_None_iff)
      then have "off \<notin> set od" using inv by auto
      moreover have "shard_add sh off b = sh\<lparr>shBlocks := AList.update off b bl, shOrder := od @ [off]\<rparr>"
        using miss by (simp add: shard_add_def p [symmetric])
      ultimately show ?thesis using inv upd [of bl] len [of bl] keys [of bl] ok
        by (auto simp: shard_ok_def distinct_update)
    qed
    then show "shard_ok (shard_add sh off b)" "set (shBlocks (shard_add sh off b)) \<subseteq> insert (off, b) (set (shBlocks sh))" by auto
  qed
qed

lemma cache_shard_bound: "shs \<noteq> [] \<Longrightarrow> length shs < 2 ^ 64 \<Longrightarrow> \<exists>i < length shs. cache_shard shs off = Some i"
  by (auto simp: cache_shard_def unat_mod_distrib unat_of_nat_bound)

lemma cache_add_spec:
  assumes "cache_ok c"
  shows "\<exists>c'. cache_add c off b = Some c' \<and> cache_ok c' \<and> cached_pairs c' \<subseteq> insert (off, b) (cached_pairs c)"
proof (cases c)
  case (Some shs)
  then obtain i where i: "i < length shs" "cache_shard shs off = Some i"
    using assms cache_shard_bound [of shs off] by (auto simp: cache_ok_def)
  have "shard_ok (shs ! i)" using assms Some i(1) by (simp add: cache_ok_def list_all_length)
  note a = shard_add_spec [OF this, of off b]
  let ?shs = "shs[i := shard_add (shs ! i) off b]"
  have "cache_ok (Some ?shs)" using assms Some a(1) i(1) by (auto simp: cache_ok_def list_all_length nth_list_update)
  moreover have "cached_pairs (Some ?shs) \<subseteq> insert (off, b) (cached_pairs c)"
    using a(2) i(1) Some set_update_subset_insert [of shs i "shard_add (shs ! i) off b"]
    by (auto simp: cached_pairs_def dest!: subsetD)
  ultimately show ?thesis using Some i by (simp add: cache_add_def)
qed (use assms in \<open>auto simp: cache_add_def\<close>)

lemma cache_get_spec:
  assumes "cache_ok c"
  shows "\<exists>r. cache_get c off = Some r \<and> (\<forall>b. r = Some b \<longrightarrow> (off, b) \<in> cached_pairs c)"
proof (cases c)
  case (Some shs)
  then obtain i where i: "i < length shs" "cache_shard shs off = Some i"
    using assms cache_shard_bound [of shs off] by (auto simp: cache_ok_def)
  then show ?thesis using Some by (auto simp: cache_get_def cached_pairs_def dest!: map_of_SomeD intro: nth_mem)
qed (simp add: cache_get_def)

lemma newDataBlockCache_ok: "cache_ok (newDataBlockCache n)" "cached_pairs (newDataBlockCache n) = {}" if "n < 2 ^ 63"
proof -
  have "0 < (n + m - 1) div m" if "1 \<le> n" "1 \<le> m" for m
  proof -
    have "m \<le> n + m - 1" using that by simp
    then have "m div m \<le> (n + m - 1) div m" using that by (intro zdiv_mono1) simp_all
    then show ?thesis using that by simp
  qed
  then show "cache_ok (newDataBlockCache n)"
    by (auto simp: newDataBlockCache_def cache_ok_def Let_def list_all_iff shard_ok_def blockCacheShardCount_def)
  show "cached_pairs (newDataBlockCache n) = {}"
    by (auto simp: newDataBlockCache_def cached_pairs_def Let_def)
qed

lemma cache_clear_ok: "cache_ok c \<Longrightarrow> cache_ok (cache_clear c)" "cached_pairs (cache_clear c) = {}"
  by (auto simp: cache_clear_def cache_ok_def cached_pairs_def list_all_iff shard_ok_def split: option.splits)

lemma appendBlockEntry_enc:
  "length block + length (enc_entry (key, val)) \<le> sstableBlockSize \<Longrightarrow>
    appendBlockEntry block key val = Some (block @ enc_entry (key, val))"
  by (simp add: appendBlockEntry_def Let_def enc_entry_def entryMetaSize_def)

primrec cache_add_all :: "(u64 \<times> cachedDataBlock) list \<Rightarrow> dataBlockCache \<Rightarrow> dataBlockCache option" where
  "cache_add_all [] c = Some c"
| "cache_add_all (e # es) c = do { c' \<leftarrow> cache_add c (fst e) (snd e); cache_add_all es c' }"

definition cache_count :: "dataBlockCache \<Rightarrow> nat" where
  "cache_count c = (case c of None \<Rightarrow> 0 | Some shs \<Rightarrow> \<Sum>sh \<leftarrow> shs. length (shBlocks sh))"

definition cache_limits :: "dataBlockCache \<Rightarrow> nat list" where
  "cache_limits c = (case c of None \<Rightarrow> [] | Some shs \<Rightarrow> map shMax shs)"

lemma cache_count_le: "cache_ok c \<Longrightarrow> cache_count c \<le> sum_list (cache_limits c)"
  by (auto simp: cache_ok_def cache_count_def cache_limits_def list_all_iff shard_ok_def
      intro!: sum_list_mono split: option.splits)

lemma cache_add_limits:
  assumes "cache_ok c" "cache_add c off b = Some c'"
  shows "cache_limits c' = cache_limits c"
proof (cases c)
  case (Some shs)
  obtain i where i: "i < length shs" "cache_shard shs off = Some i"
    using assms(1) Some cache_shard_bound [of shs off] by (auto simp: cache_ok_def)
  have "shMax (shard_add (shs ! i) off b) = shMax (shs ! i)"
    by (auto simp: shard_add_def Let_def split: prod.split)
  then have "map shMax (shs[i := shard_add (shs ! i) off b]) = map shMax shs"
    using i(1) by (metis list_update_id map_update nth_map)
  then show ?thesis using assms(2) Some i by (auto simp: cache_add_def cache_limits_def)
qed (use assms in \<open>auto simp: cache_add_def\<close>)

lemma cache_add_all_spec:
  "cache_ok c \<Longrightarrow> \<exists>c'. cache_add_all es c = Some c' \<and> cache_ok c' \<and> cache_limits c' = cache_limits c \<and>
    cached_pairs c' \<subseteq> set es \<union> cached_pairs c"
proof (induction es arbitrary: c)
  case (Cons e es)
  obtain c1 where c1: "cache_add c (fst e) (snd e) = Some c1" "cache_ok c1" "cached_pairs c1 \<subseteq> insert e (cached_pairs c)"
    using cache_add_spec [OF Cons.prems, of "fst e" "snd e"] by auto
  obtain c' where "cache_add_all es c1 = Some c'" "cache_ok c'" "cache_limits c' = cache_limits c1"
    "cached_pairs c' \<subseteq> set es \<union> cached_pairs c1" using Cons.IH [OF c1(2)] by blast
  then show ?case using c1 cache_add_limits [OF Cons.prems c1(1)] by auto
qed simp

lemma cache_add_get:
  assumes "cache_ok c" "c \<noteq> None" "cache_add c off b = Some c'"
  shows "cache_get c' off = Some (Some b)"
proof -
  obtain shs where shs: "c = Some shs" using assms(2) by blast
  obtain i where i: "i < length shs" "cache_shard shs off = Some i"
    using assms(1) shs cache_shard_bound [of shs off] by (auto simp: cache_ok_def)
  have "map_of (shBlocks (shard_add (shs ! i) off b)) off = Some b"
    using assms(1) shs i(1) by (intro shard_add_spec(3)) (simp add: cache_ok_def list_all_length)
  moreover have "cache_shard (shs[i := x]) off = Some i" for x using i by (auto simp: cache_shard_def)
  ultimately show ?thesis using assms(3) shs i by (auto simp: cache_add_def cache_get_def)
qed


section \<open>Properties of blocks, index and cache\<close>

text \<open>
  C28: parsing a data block is exact and safe on every input. \<open>newCachedDataBlock\<close> accepts a byte
  string precisely when it is the concatenation of length-prefixed entries, the cached block is the one
  determined by those entries, and then \<open>entryAt\<close> returns each entry at its index and panics at none
  (for blocks below the 32-bit offset range).
\<close>

theorem block_parse_exact:
  assumes "length raw < 2 ^ 32"
  shows "(newCachedDataBlock raw = Inr b) =
    (\<exists>es. list_all entry_ok es \<and> raw = enc_block es \<and> b = block_of es \<and>
      (\<forall>i < length (entryOffsets b). entryAt b i = Some (es ! i)))"
proof
  assume "newCachedDataBlock raw = Inr b"
  from newCachedDataBlock_inv [OF this] obtain es where es: "list_all entry_ok es" "raw = enc_block es" "b = block_of es"
    by blast
  then show "\<exists>es. list_all entry_ok es \<and> raw = enc_block es \<and> b = block_of es \<and>
      (\<forall>i < length (entryOffsets b). entryAt b i = Some (es ! i))"
    using entryAt_block_of [OF es(1)] assms by (intro exI [of _ es]) (auto simp: block_of_def)
qed (use newCachedDataBlock_enc in auto)

theorem block_parse_exact_witness:
  "newCachedDataBlock [1, 0, 2, 0, 0, 0, 97, 5, 6] = Inr (block_of [([97], [5, 6])]) \<and>
    newCachedDataBlock [1, 0, 2, 0, 0, 0, 97, 5] = Inl TruncatedEntryBody"
proof
  have "enc_block [([97], [5, 6])] = [1, 0, 2, 0, 0, 0, 97, 5, 6]" by code_simp
  moreover have "entryAt (block_of [([97], [5, 6])]) 0 = Some ([97], [5, 6])" by code_simp
  ultimately show "newCachedDataBlock [1, 0, 2, 0, 0, 0, 97, 5, 6] = Inr (block_of [([97], [5, 6])])"
    by (subst block_parse_exact) (auto simp: entry_ok_def block_of_def intro!: exI [of _ "[([97], [5, 6])]"])
  show "newCachedDataBlock [1, 0, 2, 0, 0, 0, 97, 5] = Inl TruncatedEntryBody" by code_simp
qed

text \<open>
  The binary search of \<open>lookup\<close> in a cached block of sorted entries returns the value of the key
  (an empty value as an empty slice) and nil when the key is absent, without a panic.
\<close>

theorem block_lookup_correct:
  assumes "list_all entry_ok es" "length (enc_block es) < 2 ^ 32" "sorted_keys es"
  shows "\<exists>b. newCachedDataBlock (enc_block es) = Inr b \<and> (\<forall>key. block_lookup b key = Some (map_of es key))"
  using newCachedDataBlock_enc [OF assms(1)] block_lookup_spec [OF assms] by blast

theorem block_lookup_correct_witness:
  "\<exists>b. newCachedDataBlock (enc_block [([1], [7]), ([1, 2], []), ([9], [8])]) = Inr b \<and>
    block_lookup b [1, 2] = Some (Some []) \<and> block_lookup b [2] = Some None"
  using block_lookup_correct [of "[([1], [7]), ([1, 2], []), ([9], [8])]"]
  by (force simp: entry_ok_def entryMetaSize_def)

text \<open>
  The block index round trips through its file format. \<open>encodeFullRange\<close> of ranges whose first
  keys leave room for the 16-bit offset arithmetic does not panic, and \<open>decodeFullRange\<close> of its bytes
  gives the same ranges back.
\<close>

theorem index_round_trip:
  assumes "\<forall>ra \<in> set rs. length (firstKey ra) + 10 < 2 ^ 16"
  shows "\<exists>data. encodeFullRange rs = Some data \<and> decodeFullRange data = Some rs"
  using encodeFullRange_fit [OF assms] decode_encoded_index [OF assms] by blast

theorem index_round_trip_witness:
  "\<exists>data. encodeFullRange [\<lparr>firstKey = [1, 2], drOffset = 300, drLength = 70000\<rparr>] = Some data \<and>
    decodeFullRange data = Some [\<lparr>firstKey = [1, 2], drOffset = 300, drLength = 70000\<rparr>]"
  using index_round_trip [of "[\<lparr>firstKey = [1, 2], drOffset = 300, drLength = 70000\<rparr>]"] by simp

text \<open>
  C29: the block cache of a table is bounded. Whatever blocks are added to the cache that \<open>Flush\<close> and
  \<open>Open\<close> create, no operation panics, the cache never holds more than its limit of 256 blocks, every
  block it holds was added under that offset, and the block added last is found under its offset.
\<close>

theorem block_cache_bounded:
  "\<exists>c c'. cache_add_all es (newDataBlockCache blockCacheEntryLimit) = Some c \<and> cache_count c \<le> 256 \<and>
    cached_pairs c \<subseteq> set es \<and> cache_add c off b = Some c' \<and> cache_get c' off = Some (Some b) \<and> cache_count c' \<le> 256"
proof -
  let ?c = "newDataBlockCache blockCacheEntryLimit"
  have ok: "cache_ok ?c" "cached_pairs ?c = {}" using newDataBlockCache_ok [of 256] by (simp_all add: blockCacheEntryLimit_def)
  have lim: "sum_list (cache_limits ?c) = 256" by code_simp
  obtain c where c: "cache_add_all es ?c = Some c" "cache_ok c" "cache_limits c = cache_limits ?c" "cached_pairs c \<subseteq> set es"
    using cache_add_all_spec [OF ok(1), of es] ok(2) by auto
  obtain c' where c': "cache_add c off b = Some c'" "cache_ok c'" using cache_add_spec [OF c(2)] by blast
  have lim': "cache_limits c' = cache_limits ?c" using cache_add_limits [OF c(2) c'(1)] c(3) by simp
  have "sum_list (cache_limits None) = 0" by (simp add: cache_limits_def)
  then have "c \<noteq> None" using c(3) lim zero_neq_numeral by metis
  then have "cache_get c' off = Some (Some b)" using cache_add_get [OF c(2) _ c'(1)] by blast
  then show ?thesis using c c' cache_count_le [OF c(2)] cache_count_le [OF c'(2)] lim lim' by auto
qed

end
