(* ===== verification/Sstable.thy ===== *)
theory Sstable
  imports Bloom Skiplist_Put Sstable_Block
begin

text \<open>
  Writing and reading whole sstables, \<^verbatim>\<open>src/sstable/sstable.go\<close>: \<open>Flush\<close> streams a memtable into a
  file laid out as bloom filter, data blocks, index and footer; \<open>Open\<close> validates and loads such a file;
  \<open>Get\<close>, \<open>Scan\<close> and the table iterator read it through the block cache.

  The parameters are the code outside the repository: \<open>xxh3\<close> is the hash of the bloom filter,
  \<open>fbits\<close> and \<open>fhashes\<close> the two floating-point formulas that size it. \<open>stale\<close> is whatever bytes the
  pooled read buffer still holds, and the device carries the injected I/O faults.
\<close>

section \<open>State\<close>

datatype sst_error =
    SstIO io_error
  | SstBlock block_error
  | EntryExceedsBlockSize bytes
  | FileTooSmall
  | BloomMagic u32
  | BloomVersion byte
  | BloomBits u64
  | FileTooSmallForBloom
  | SstBloom bloom_error
  | SstMagic u32
  | SstVersion byte
  | SstIndexOffset u64

definition bloomFalsePositiveRate :: real where "bloomFalsePositiveRate = 1 / 100"

record Table =
  tIdx :: "dataRange list"
  tFilter :: "Filter option"
  tF :: osfile
  tCache :: dataBlockCache
  tPath :: path
  tSmallest :: "bytes option"
  tLargest :: "bytes option"
  tSizeBytes :: nat

record Metadata =
  mdPath :: path
  mdSmallest :: "bytes option"
  mdLargest :: "bytes option"
  mdSizeBytes :: nat

type_synonym fs = "path \<Rightarrow> bytes option"

definition sstableID :: "nat \<Rightarrow> string" where
  "sstableID micros = dec_digits micros @ ''.sst''"

abbreviation go_bytes :: "bytes option \<Rightarrow> bytes" where
  "go_bytes s \<equiv> (case s of None \<Rightarrow> [] | Some b \<Rightarrow> b)"

section \<open>Writing a table\<close>

partial_function (option) count_loop :: "Skiplist \<Rightarrow> Iterator \<Rightarrow> int \<Rightarrow> (Iterator \<times> int) option" where
  "count_loop sk it count =
     (if it_Valid it then do { it' \<leftarrow> it_Next sk it; count_loop sk it' (count + 1) } else Some (it, count))"

definition countEntries :: "Skiplist \<Rightarrow> (int \<times> Skiplist) option" where
  "countEntries sk0 =
     (case NewIterator sk0 of (sk, it) \<Rightarrow> do {
        it1 \<leftarrow> it_Rewind sk it;
        (it2, count) \<leftarrow> count_loop sk it1 0;
        Some (count, fst (it_Close sk it2))
      })"

definition prepareBloomFilter ::
    "(int \<Rightarrow> real \<Rightarrow> real) \<Rightarrow> (int \<Rightarrow> int \<Rightarrow> real) \<Rightarrow> osfile \<Rightarrow> Skiplist \<Rightarrow>
      (sst_error + (Filter \<times> nat \<times> osfile \<times> Skiplist)) option" where
  "prepareBloomFilter fbits fhashes file sk = do {
     (count, sk') \<leftarrow> countEntries sk;
     flt \<leftarrow> NewFor fbits fhashes count bloomFalsePositiveRate;
     (case os_Seek file (length (MarshalBinary flt)) of
        Inl e \<Rightarrow> Some (Inl (SstIO e))
      | Inr file' \<Rightarrow> Some (Inr (flt, length (MarshalBinary flt), file', sk')))
   }"

record blockWriter =
  bkIdx :: "dataRange list"
  bkBw :: bufio
  bkOffset :: u64
  bkBlock :: bytes
  bkRange :: dataRange

abbreviation emptyRange :: dataRange where
  "emptyRange \<equiv> \<lparr>firstKey = [], drOffset = 0, drLength = 0\<rparr>"

definition flushBlock :: "blockWriter \<Rightarrow> sst_error + blockWriter" where
  "flushBlock w =
     (if bkBlock w = [] then Inr w
      else
        let range = (bkRange w)\<lparr>drLength := of_nat (length (bkBlock w))\<rparr>;
            bw = bw_Write (bkBw w) (bkBlock w) in
        (case bwErr bw of
           Some e \<Rightarrow> Inl (SstIO e)
         | None \<Rightarrow> Inr \<lparr>bkIdx = bkIdx w @ [range], bkBw = bw, bkOffset = bkOffset w + of_nat (length (bkBlock w)),
                        bkBlock = [], bkRange = emptyRange\<rparr>))"

text \<open>The entry loop of \<open>writeDataBlocks\<close>.\<close>

partial_function (option) blocks_loop ::
    "(bytes \<Rightarrow> u64 \<Rightarrow> u64) \<Rightarrow> Skiplist \<Rightarrow> Iterator \<Rightarrow> Filter \<Rightarrow> blockWriter \<Rightarrow>
      (sst_error + (Iterator \<times> Filter \<times> blockWriter)) option" where
  "blocks_loop xxh3 sk it flt w =
     (if \<not> it_Valid it then Some (Inr (it, flt, w))
      else do {
        ko \<leftarrow> it_Key sk it;
        vo \<leftarrow> it_Value sk it;
        (flt', _) \<leftarrow> Add xxh3 (go_bytes ko) flt;
        (let key = go_bytes ko; val = go_bytes vo; entrySize = entryMetaSize + length key + length val in
         if sstableBlockSize < entrySize then Some (Inl (EntryExceedsBlockSize key))
         else
           tryE (Some (if bkBlock w \<noteq> [] \<and> sstableBlockSize < length (bkBlock w) + entrySize then flushBlock w else Inr w))
             (\<lambda>w1.
               let w2 = (if bkBlock w1 = []
                         then w1\<lparr>bkRange := (bkRange w1)\<lparr>firstKey := key, drOffset := bkOffset w1\<rparr>\<rparr> else w1) in do {
                 block \<leftarrow> appendBlockEntry (bkBlock w2) key val;
                 it' \<leftarrow> it_Next sk it;
                 blocks_loop xxh3 sk it' flt' (w2\<lparr>bkBlock := block\<rparr>)
               }))
      })"

definition writeDataBlocks ::
    "(bytes \<Rightarrow> u64 \<Rightarrow> u64) \<Rightarrow> bufio \<Rightarrow> Skiplist \<Rightarrow> Filter \<Rightarrow> u64 \<Rightarrow>
      (Skiplist \<times> (sst_error + (Filter \<times> bufio \<times> dataRange list \<times> u64))) option" where
  "writeDataBlocks xxh3 bw sk0 flt startOffset =
     (case NewIterator sk0 of (sk, it) \<Rightarrow> do {
        it1 \<leftarrow> it_Rewind sk it;
        r \<leftarrow> blocks_loop xxh3 sk it1 flt
               \<lparr>bkIdx = [], bkBw = bw, bkOffset = startOffset, bkBlock = [], bkRange = emptyRange\<rparr>;
        (let sk' = fst (it_Close sk it) in
         case r of
           Inl e \<Rightarrow> Some (sk', Inl e)
         | Inr (_, flt', w) \<Rightarrow>
             (case flushBlock w of
                Inl e \<Rightarrow> Some (sk', Inl e)
              | Inr w' \<Rightarrow> Some (sk', Inr (flt', bkBw w', bkIdx w', bkOffset w'))))
      })"

definition footer_bytes :: "u64 \<Rightarrow> bytes" where
  "footer_bytes indexOffset = put_u64 indexOffset @ put_u32 sstableMagic @ [sstableVersion]"

definition writeIndexAndFooter :: "bufio \<Rightarrow> dataRange list \<Rightarrow> u64 \<Rightarrow> (io_error + bufio) option" where
  "writeIndexAndFooter bw idx indexOffset = do {
     data \<leftarrow> encodeFullRange idx;
     (let bw1 = bw_Write bw data in
      case bwErr bw1 of Some e \<Rightarrow> Some (Inl e)
      | None \<Rightarrow>
          let bw2 = bw_Write bw1 (footer_bytes indexOffset) in
          (case bwErr bw2 of Some e \<Rightarrow> Some (Inl e) | None \<Rightarrow> Some (Inr bw2)))
   }"

section \<open>Reading blocks\<close>

definition getCachedBlock :: "bytes \<Rightarrow> Table \<Rightarrow> dataRange \<Rightarrow> (sst_error + (cachedDataBlock \<times> Table)) option" where
  "getCachedBlock stale t ra = do {
     hit \<leftarrow> cache_get (tCache t) (drOffset ra);
     (case hit of
        Some block \<Rightarrow> Some (Inr (block, t))
      | None \<Rightarrow>
          if sint (drOffset ra) < 0 then Some (Inl (SstIO EInval))
          else
            (case os_ReadAt (tF t) (getDataBlock stale (drLength ra)) (unat (drOffset ra)) of (raw, e) \<Rightarrow>
               if e \<noteq> None \<and> e \<noteq> Some EOF then Some (Inl (SstIO (the e)))
               else
                 (case newCachedDataBlock raw of
                    Inl e \<Rightarrow> Some (Inl (SstBlock e))
                  | Inr block \<Rightarrow> do {
                      cache \<leftarrow> cache_add (tCache t) (drOffset ra) block;
                      Some (Inr (block, t\<lparr>tCache := cache\<rparr>))
                    })))
   }"

definition loadMetadata :: "bytes \<Rightarrow> Table \<Rightarrow> (sst_error + Table) option" where
  "loadMetadata stale t =
     (case os_Size (tF t) of
        Inl e \<Rightarrow> Some (Inl (SstIO e))
      | Inr sz \<Rightarrow>
          let t1 = t\<lparr>tSizeBytes := sz\<rparr> in
          if tIdx t = [] then Some (Inr (t1\<lparr>tSmallest := None, tLargest := None\<rparr>))
          else
            let t2 = t1\<lparr>tSmallest := append_nil (firstKey (hd (tIdx t)))\<rparr> in
            tryE (getCachedBlock stale t2 (last (tIdx t))) (\<lambda>(block, t3).
              if entryOffsets block = [] then Some (Inr (t3\<lparr>tLargest := None\<rparr>))
              else do {
                (lastKey, _) \<leftarrow> entryAt block (length (entryOffsets block) - 1);
                Some (Inr (t3\<lparr>tLargest := append_nil lastKey\<rparr>))
              }))"

section \<open>Flush and Open\<close>

text \<open>The body of \<open>Flush\<close> after the file has been created: the table, or the error that cleans up.\<close>

definition flush_file ::
    "(bytes \<Rightarrow> u64 \<Rightarrow> u64) \<Rightarrow> (int \<Rightarrow> real \<Rightarrow> real) \<Rightarrow> (int \<Rightarrow> int \<Rightarrow> real) \<Rightarrow> bytes \<Rightarrow> osfile \<Rightarrow> path \<Rightarrow>
      Skiplist \<Rightarrow> (Skiplist \<times> (sst_error + Table)) option" where
  "flush_file xxh3 fbits fhashes stale file path sk = do {
     r \<leftarrow> prepareBloomFilter fbits fhashes file sk;
     (case r of
        Inl e \<Rightarrow> Some (sk, Inl e)
      | Inr (flt, bloomSize, file1, sk1) \<Rightarrow> do {
          (sk2, r2) \<leftarrow> writeDataBlocks xxh3 (bw_New file1 4096) sk1 flt (of_nat bloomSize);
          (case r2 of
             Inl e \<Rightarrow> Some (sk2, Inl e)
           | Inr (flt', bw, idx, indexOffset) \<Rightarrow> do {
               r3 \<leftarrow> writeIndexAndFooter bw idx indexOffset;
               (case r3 of
                  Inl e \<Rightarrow> Some (sk2, Inl (SstIO e))
                | Inr bw1 \<Rightarrow>
                    let bw2 = bw_Flush bw1 in
                    (case bwErr bw2 of
                       Some e \<Rightarrow> Some (sk2, Inl (SstIO e))
                     | None \<Rightarrow>
                         (case os_WriteAt (bwFile bw2) (MarshalBinary flt') 0 of (file2, _, e) \<Rightarrow>
                            if e \<noteq> None then Some (sk2, Inl (SstIO (the e)))
                            else do {
                              r4 \<leftarrow> loadMetadata stale
                                 \<lparr>tIdx = idx, tFilter = Some flt', tF = file2,
                                  tCache = newDataBlockCache blockCacheEntryLimit, tPath = path,
                                  tSmallest = None, tLargest = None, tSizeBytes = 0\<rparr>;
                              Some (sk2, r4)
                            })))
             })
        })
   }"

definition Flush ::
    "(bytes \<Rightarrow> u64 \<Rightarrow> u64) \<Rightarrow> (int \<Rightarrow> real \<Rightarrow> real) \<Rightarrow> (int \<Rightarrow> int \<Rightarrow> real) \<Rightarrow> bytes \<Rightarrow> device \<Rightarrow> nat \<Rightarrow> fs \<Rightarrow>
      string \<Rightarrow> Skiplist \<Rightarrow> (fs \<times> Skiplist \<times> (sst_error + Table)) option" where
  "Flush xxh3 fbits fhashes stale dev now fs baseDir sk =
     (let path = (baseDir, sstableID now) in
      if devCreate dev then Some (fs, sk, Inl (SstIO EIO))
      else do {
        (sk', r) \<leftarrow> flush_file xxh3 fbits fhashes stale \<lparr>fData = [], fPos = 0, fOpen = True, fDev = dev\<rparr> path sk;
        (case r of
           Inl e \<Rightarrow> Some (fs(path := None), sk', Inl e)
         | Inr t \<Rightarrow> Some (fs(path \<mapsto> fData (tF t)), sk', Inr t))
      })"

definition loadBloomFilter :: "osfile \<Rightarrow> nat \<Rightarrow> sst_error + (Filter \<times> nat)" where
  "loadBloomFilter file fileSize =
     (if fileSize < sstableFooterSize then Inl FileTooSmall
      else case os_ReadAt file (replicate HeaderSize 0) 0 of (header, e) \<Rightarrow>
        if e \<noteq> None then Inl (SstIO (the e))
        else if get_u32 header \<noteq> Magic then Inl (BloomMagic (get_u32 header))
        else if header ! 4 \<noteq> Version then Inl (BloomVersion (header ! 4))
        else
          let bloomBits = get_u64 (drop 5 header) in
          if bloomBits = 0 \<or> bloomBits mod 64 \<noteq> 0 then Inl (BloomBits bloomBits)
          else
            let bloomSize = HeaderSize + unat (bloomBits div 64) * 8 in
            if fileSize < bloomSize + sstableFooterSize then Inl FileTooSmallForBloom
            else case os_ReadAt file (replicate bloomSize 0) 0 of (data, e) \<Rightarrow>
              if e \<noteq> None then Inl (SstIO (the e))
              else case ReadFilter data of
                Inl e \<Rightarrow> Inl (SstBloom e)
              | Inr flt \<Rightarrow> Inr (flt, bloomSize))"

definition readIndexData :: "osfile \<Rightarrow> nat \<Rightarrow> nat \<Rightarrow> sst_error + bytes" where
  "readIndexData file fileSize bloomSize =
     (let footerOffset = fileSize - sstableFooterSize in
      case os_ReadAt file (replicate sstableFooterSize 0) footerOffset of (footer, e) \<Rightarrow>
        if e \<noteq> None then Inl (SstIO (the e))
        else if get_u32 (drop 8 footer) \<noteq> sstableMagic then Inl (SstMagic (get_u32 (drop 8 footer)))
        else if footer ! 12 \<noteq> sstableVersion then Inl (SstVersion (footer ! 12))
        else
          let indexOffset = get_u64 footer in
          if unat indexOffset < bloomSize \<or> footerOffset < unat indexOffset then Inl (SstIndexOffset indexOffset)
          else
            let indexSize = footerOffset - unat indexOffset in
            if indexSize = 0 then Inr []
            else case os_ReadAt file (replicate indexSize 0) (unat indexOffset) of (data, e) \<Rightarrow>
              if e \<noteq> None \<and> e \<noteq> Some EOF then Inl (SstIO (the e)) else Inr data)"

definition Open :: "bytes \<Rightarrow> device \<Rightarrow> fs \<Rightarrow> path \<Rightarrow> (sst_error + Table) option" where
  "Open stale dev fs path =
     (if devCreate dev then Some (Inl (SstIO EIO))
      else case fs path of
        None \<Rightarrow> Some (Inl (SstIO ENoent))
      | Some content \<Rightarrow>
          let file = \<lparr>fData = content, fPos = 0, fOpen = True, fDev = dev\<rparr> in
          (case os_Size file of
             Inl e \<Rightarrow> Some (Inl (SstIO e))
           | Inr sz \<Rightarrow>
               (case loadBloomFilter file sz of
                  Inl e \<Rightarrow> Some (Inl e)
                | Inr (flt, bloomSize) \<Rightarrow>
                    (case readIndexData file sz bloomSize of
                       Inl e \<Rightarrow> Some (Inl e)
                     | Inr indexData \<Rightarrow> do {
                         ranges \<leftarrow> decodeFullRange indexData;
                         loadMetadata stale
                           \<lparr>tIdx = ranges, tFilter = Some flt, tF = file,
                            tCache = newDataBlockCache blockCacheEntryLimit, tPath = path,
                            tSmallest = None, tLargest = None, tSizeBytes = 0\<rparr>
                       }))))"

section \<open>Reading a table\<close>

text \<open>\<open>Get\<close> returns a copy made with \<open>append([]byte(nil), value...)\<close>, which is nil for an empty value.\<close>

definition Table_Get :: "(bytes \<Rightarrow> u64 \<Rightarrow> u64) \<Rightarrow> bytes \<Rightarrow> Table \<Rightarrow> bytes \<Rightarrow> (sst_error + (bytes option \<times> Table)) option" where
  "Table_Get xxh3 stale t key = do {
     may \<leftarrow> (case tFilter t of None \<Rightarrow> Some True | Some f \<Rightarrow> Contains xxh3 key f);
     (if \<not> may then Some (Inr (None, t))
      else case findDataRange (tIdx t) key of
        None \<Rightarrow> Some (Inr (None, t))
      | Some ra \<Rightarrow>
          tryE (getCachedBlock stale t ra) (\<lambda>(block, t'). do {
            val \<leftarrow> block_lookup block key;
            (case val of None \<Rightarrow> Some (Inr (None, t')) | Some v \<Rightarrow> Some (Inr (append_nil v, t')))
          }))
   }"

text \<open>\<open>Scan\<close> with a callback that updates a state and may fail.\<close>

fun scan_block :: "('s \<Rightarrow> bytes \<Rightarrow> bytes \<Rightarrow> 's \<times> 'e option) \<Rightarrow> cachedDataBlock \<Rightarrow> nat list \<Rightarrow> 's \<Rightarrow> ('s \<times> 'e option) option" where
  "scan_block fn block [] s = Some (s, None)"
| "scan_block fn block (i # is) s = do {
     (key, val) \<leftarrow> entryAt block i;
     (case fn s key val of (s', Some e) \<Rightarrow> Some (s', Some e) | (s', None) \<Rightarrow> scan_block fn block is s')
   }"

fun scan_ranges ::
    "bytes \<Rightarrow> ('s \<Rightarrow> bytes \<Rightarrow> bytes \<Rightarrow> 's \<times> 'e option) \<Rightarrow> dataRange list \<Rightarrow> Table \<Rightarrow> 's \<Rightarrow>
      (Table \<times> 's \<times> (sst_error + 'e) option) option" where
  "scan_ranges stale fn [] t s = Some (t, s, None)"
| "scan_ranges stale fn (ra # rs) t s = do {
     r \<leftarrow> getCachedBlock stale t ra;
     (case r of
        Inl e \<Rightarrow> Some (t, s, Some (Inl e))
      | Inr (block, t') \<Rightarrow> do {
          (s', e) \<leftarrow> scan_block fn block [0..<length (entryOffsets block)] s;
          (case e of Some e \<Rightarrow> Some (t', s', Some (Inr e)) | None \<Rightarrow> scan_ranges stale fn rs t' s')
        })
   }"

definition Scan ::
    "bytes \<Rightarrow> Table \<Rightarrow> ('s \<Rightarrow> bytes \<Rightarrow> bytes \<Rightarrow> 's \<times> 'e option) option \<Rightarrow> 's \<Rightarrow>
      (Table \<times> 's \<times> (sst_error + 'e) option) option" where
  "Scan stale t fn s = (case fn of None \<Rightarrow> Some (t, s, None) | Some f \<Rightarrow> scan_ranges stale f (tIdx t) t s)"

definition Table_Metadata :: "Table option \<Rightarrow> Metadata" where
  "Table_Metadata t =
     (case t of
        None \<Rightarrow> \<lparr>mdPath = ('''', ''''), mdSmallest = None, mdLargest = None, mdSizeBytes = 0\<rparr>
      | Some t \<Rightarrow> \<lparr>mdPath = tPath t, mdSmallest = append_nil (go_bytes (tSmallest t)),
                   mdLargest = append_nil (go_bytes (tLargest t)), mdSizeBytes = tSizeBytes t\<rparr>)"

definition Table_Close :: "Table \<Rightarrow> Table \<times> io_error option" where
  "Table_Close t = (case os_Close (tF t) of (f, e) \<Rightarrow> (t\<lparr>tCache := cache_clear (tCache t), tF := f\<rparr>, e))"

section \<open>Table iterator\<close>

record TableIterator =
  tiRange :: int
  tiEntry :: int
  tiBlock :: "cachedDataBlock option"
  tiErr :: "sst_error option"

definition ti_New :: TableIterator where
  "ti_New = \<lparr>tiRange = - 1, tiEntry = - 1, tiBlock = None, tiErr = None\<rparr>"

definition ti_Valid :: "Table \<Rightarrow> TableIterator \<Rightarrow> bool" where
  "ti_Valid t it \<longleftrightarrow> tiErr it = None \<and> 0 \<le> tiRange it \<and> tiRange it < int (length (tIdx t)) \<and> 0 \<le> tiEntry it \<and>
     (case tiBlock it of None \<Rightarrow> False | Some b \<Rightarrow> tiEntry it < int (length (entryOffsets b)))"

text \<open>The loop of \<open>loadCurrent\<close> over the ranges of the index.\<close>

function load_loop :: "bytes \<Rightarrow> dataRange list \<Rightarrow> Table \<Rightarrow> TableIterator \<Rightarrow> (Table \<times> TableIterator) option" where
  "load_loop stale ranges t it =
     (if 0 \<le> tiRange it \<and> tiRange it < int (length ranges) then do {
        r \<leftarrow> (case tiBlock it of
                Some b \<Rightarrow> Some (Inr (b, t))
              | None \<Rightarrow> getCachedBlock stale t (ranges ! nat (tiRange it)));
        (case r of
           Inl e \<Rightarrow> Some (t, it\<lparr>tiErr := Some e, tiBlock := None\<rparr>)
         | Inr (block, t') \<Rightarrow>
             if tiEntry it < int (length (entryOffsets block)) then Some (t', it\<lparr>tiBlock := Some block\<rparr>)
             else load_loop stale ranges t' (it\<lparr>tiRange := tiRange it + 1, tiEntry := 0, tiBlock := None\<rparr>))
      } else Some (t, it\<lparr>tiBlock := None\<rparr>))"
  by pat_completeness auto
termination
  by (relation "measure (\<lambda>(stale, ranges, t, it). nat (int (length ranges) - tiRange it))") auto

declare load_loop.simps [simp del]

definition loadCurrent :: "bytes \<Rightarrow> Table \<Rightarrow> TableIterator \<Rightarrow> (Table \<times> TableIterator) option" where
  "loadCurrent stale t it = (if tiErr it \<noteq> None then Some (t, it) else load_loop stale (tIdx t) t it)"

definition ti_Rewind :: "bytes \<Rightarrow> Table \<Rightarrow> TableIterator \<Rightarrow> (Table \<times> TableIterator) option" where
  "ti_Rewind stale t it = loadCurrent stale t \<lparr>tiRange = 0, tiEntry = 0, tiBlock = None, tiErr = None\<rparr>"

definition ti_Next :: "bytes \<Rightarrow> Table \<Rightarrow> TableIterator \<Rightarrow> (Table \<times> TableIterator) option" where
  "ti_Next stale t it =
     (if \<not> ti_Valid t it then Some (t, it) else loadCurrent stale t (it\<lparr>tiEntry := tiEntry it + 1\<rparr>))"

definition ti_entry :: "Table \<Rightarrow> TableIterator \<Rightarrow> (bytes \<times> bytes) option option" where
  "ti_entry t it =
     (if \<not> ti_Valid t it then Some None
      else do { e \<leftarrow> entryAt (the (tiBlock it)) (nat (tiEntry it)); Some (Some e) })"

definition ti_Key :: "Table \<Rightarrow> TableIterator \<Rightarrow> bytes option option" where
  "ti_Key t it = map_option (map_option fst) (ti_entry t it)"

definition ti_Value :: "Table \<Rightarrow> TableIterator \<Rightarrow> bytes option option" where
  "ti_Value t it = map_option (map_option snd) (ti_entry t it)"

definition ti_Err :: "TableIterator \<Rightarrow> sst_error option" where
  "ti_Err it = tiErr it"


section \<open>Layout of the data section\<close>

definition enc_blocks :: "(bytes \<times> bytes) list list \<Rightarrow> bytes" where
  "enc_blocks ess = concat (map enc_block ess)"

fun ranges_of :: "nat \<Rightarrow> (bytes \<times> bytes) list list \<Rightarrow> dataRange list" where
  "ranges_of off [] = []"
| "ranges_of off (es # ess) =
     \<lparr>firstKey = fst (hd es), drOffset = of_nat off, drLength = of_nat (length (enc_block es))\<rparr>
     # ranges_of (off + length (enc_block es)) ess"

definition block_ok :: "(bytes \<times> bytes) list \<Rightarrow> bool" where
  "block_ok es \<longleftrightarrow> es \<noteq> [] \<and> list_all entry_ok es \<and> length (enc_block es) \<le> sstableBlockSize"

lemma enc_blocks_simps [simp]:
  "enc_blocks [] = []" "enc_blocks (es # ess) = enc_block es @ enc_blocks ess"
  "enc_blocks (xs @ ys) = enc_blocks xs @ enc_blocks ys"
  by (simp_all add: enc_blocks_def)

lemma length_ranges_of [simp]: "length (ranges_of off ess) = length ess"
  by (induction ess arbitrary: off) auto

lemma ranges_of_append [simp]:
  "ranges_of off (xs @ ys) = ranges_of off xs @ ranges_of (off + length (enc_blocks xs)) ys"
  by (induction xs arbitrary: off) (simp_all add: add.assoc)

lemma ranges_of_nth:
  "i < length ess \<Longrightarrow> ranges_of off ess ! i =
     \<lparr>firstKey = fst (hd (ess ! i)), drOffset = of_nat (off + length (enc_blocks (take i ess))),
      drLength = of_nat (length (enc_block (ess ! i)))\<rparr>"
proof (induction ess arbitrary: off i)
  case (Cons es ess)
  then show ?case by (cases i) (simp_all add: add.assoc)
qed simp

lemma enc_blocks_split:
  "i < length ess \<Longrightarrow> enc_blocks ess = enc_blocks (take i ess) @ enc_block (ess ! i) @ enc_blocks (drop (Suc i) ess)"
  by (metis enc_blocks_simps(2,3) id_take_nth_drop)

lemma block_start_le: "i < length ess \<Longrightarrow> length (enc_blocks (take i ess)) + length (enc_block (ess ! i)) \<le> length (enc_blocks ess)"
  using enc_blocks_split [of i ess] by simp

lemma enc_block_nonempty: "es \<noteq> [] \<Longrightarrow> enc_block es \<noteq> []"
proof -
  assume "es \<noteq> []"
  then have "0 < length (enc_block es)" by (cases es) (simp_all add: entryMetaSize_def)
  then show "enc_block es \<noteq> []" by auto
qed

lemma block_start_less:
  assumes "i < j" "j < length ess" "\<forall>es \<in> set ess. es \<noteq> []"
  shows "length (enc_blocks (take i ess)) < length (enc_blocks (take j ess))"
proof -
  have "take j ess = take i ess @ ess ! i # drop (Suc i) (take j ess)"
    using id_take_nth_drop [of i "take j ess"] assms(1,2) by simp
  then have "length (enc_blocks (take j ess)) =
      length (enc_blocks (take i ess)) + length (enc_block (ess ! i)) + length (enc_blocks (drop (Suc i) (take j ess)))"
    by (metis enc_blocks_simps(2,3) length_append add.assoc)
  moreover have "0 < length (enc_block (ess ! i))" using assms enc_block_nonempty by auto
  ultimately show ?thesis by simp
qed

lemma range_offset:
  assumes "i < length ess" "off + length (enc_blocks ess) < 2 ^ 64"
  shows "unat (drOffset (ranges_of off ess ! i)) = off + length (enc_blocks (take i ess))"
  using unat_of_nat_bound(3) [of "off + length (enc_blocks (take i ess))"] block_start_le [OF assms(1)] assms
  by (simp add: ranges_of_nth)

section \<open>What a table represents\<close>

definition table_rep :: "(bytes \<Rightarrow> u64 \<Rightarrow> u64) \<Rightarrow> Table \<Rightarrow> (bytes \<times> bytes) list list \<Rightarrow> bool" where
  "table_rep xxh3 t ess \<longleftrightarrow> fOpen (tF t) \<and> good_device (fDev (tF t)) \<and>
     (\<exists>pre post. fData (tF t) = pre @ enc_blocks ess @ post \<and> tIdx t = ranges_of (length pre) ess) \<and>
     length (fData (tF t)) < 2 ^ 63 \<and> list_all block_ok ess \<and> sorted_keys (concat ess) \<and>
     (\<forall>f. tFilter t = Some f \<longrightarrow> wf_filter f \<and> (\<forall>k \<in> fst ` set (concat ess). Contains xxh3 k f = Some True)) \<and>
     cache_ok (tCache t) \<and>
     (\<forall>(off, b) \<in> cached_pairs (tCache t). \<exists>i < length ess. off = drOffset (tIdx t ! i) \<and> b = block_of (ess ! i))"

lemma table_offset_inj:
  assumes "table_rep xxh3 t ess" "i < length ess" "j < length ess" "drOffset (tIdx t ! i) = drOffset (tIdx t ! j)"
  shows "i = j"
proof -
  obtain pre post where p: "fData (tF t) = pre @ enc_blocks ess @ post" "tIdx t = ranges_of (length pre) ess"
    and len: "length (fData (tF t)) < 2 ^ 63" using assms(1) by (auto simp: table_rep_def)
  have ne: "\<forall>es \<in> set ess. es \<noteq> []" using assms(1) by (auto simp: table_rep_def list_all_iff block_ok_def)
  have u: "unat (drOffset (tIdx t ! k)) = length pre + length (enc_blocks (take k ess))" if "k < length ess" for k
    using range_offset [OF that, of "length pre"] p len by simp
  show ?thesis
  proof (cases i j rule: linorder_cases)
    case less
    then show ?thesis using block_start_less [OF less assms(3) ne] u [OF assms(2)] u [OF assms(3)] assms(4) by simp
  next
    case greater
    then show ?thesis using block_start_less [OF greater assms(2) ne] u [OF assms(2)] u [OF assms(3)] assms(4) by simp
  qed
qed

lemma table_rep_cache:
  "table_rep xxh3 t ess \<Longrightarrow> cache_ok c \<Longrightarrow>
    (\<forall>(off, b) \<in> cached_pairs c. \<exists>i < length ess. off = drOffset (tIdx t ! i) \<and> b = block_of (ess ! i)) \<Longrightarrow>
    table_rep xxh3 (t\<lparr>tCache := c\<rparr>) ess"
  unfolding table_rep_def by simp

lemma length_getDataBlock [simp]: "length (getDataBlock stale n) = unat n"
  by (auto simp: getDataBlock_def min_def)

lemma getCachedBlock_spec:
  assumes rep: "table_rep xxh3 t ess" and i: "i < length ess"
  shows "\<exists>c. getCachedBlock stale t (tIdx t ! i) = Some (Inr (block_of (ess ! i), t\<lparr>tCache := c\<rparr>)) \<and>
    table_rep xxh3 (t\<lparr>tCache := c\<rparr>) ess"
proof -
  let ?ra = "tIdx t ! i"
  have cok: "cache_ok (tCache t)" and coh: "\<forall>(off, b) \<in> cached_pairs (tCache t). \<exists>i < length ess. off = drOffset (tIdx t ! i) \<and> b = block_of (ess ! i)"
    using rep by (simp_all add: table_rep_def)
  obtain hit where hit: "cache_get (tCache t) (drOffset ?ra) = Some hit"
    "\<forall>b. hit = Some b \<longrightarrow> (drOffset ?ra, b) \<in> cached_pairs (tCache t)" using cache_get_spec [OF cok] by blast
  show ?thesis
  proof (cases hit)
    case (Some b)
    then obtain j where "j < length ess" "drOffset ?ra = drOffset (tIdx t ! j)" "b = block_of (ess ! j)"
      using hit(2) coh by auto
    then have "b = block_of (ess ! i)" using table_offset_inj [OF rep i] by auto
    then show ?thesis using hit(1) Some rep by (intro exI [of _ "tCache t"]) (simp add: getCachedBlock_def)
  next
    case None
    obtain pre post where p: "fData (tF t) = pre @ enc_blocks ess @ post" "tIdx t = ranges_of (length pre) ess"
      and len: "length (fData (tF t)) < 2 ^ 63" using rep by (auto simp: table_rep_def)
    let ?p = "length pre + length (enc_blocks (take i ess))" and ?n = "length (enc_block (ess ! i))"
    have ok: "block_ok (ess ! i)" using rep i by (simp add: table_rep_def list_all_length)
    have bnd: "?p + ?n \<le> length (fData (tF t))" using p(1) block_start_le [OF i] by simp
    have off: "unat (drOffset ?ra) = ?p" using range_offset [OF i, of "length pre"] p len by simp
    have lenr: "unat (drLength ?ra) = ?n"
      using ok i p(2) by (simp add: ranges_of_nth unat_of_nat block_ok_def sstableBlockSize_def)
    have pos: "\<not> sint (drOffset ?ra) < 0"
    proof -
      have "uint (drOffset ?ra) < 2 ^ 63" using off bnd len by (simp add: uint_nat)
      then show ?thesis by (simp add: sint_uint bit_iff_odd)
    qed
    have "take ?n (drop ?p (fData (tF t))) = enc_block (ess ! i)"
      unfolding p(1) by (subst enc_blocks_split [OF i]) simp
    then have read: "os_ReadAt (tF t) (getDataBlock stale (drLength ?ra)) (unat (drOffset ?ra)) = (enc_block (ess ! i), None)"
      using os_ReadAt_good [of "tF t" ?p "getDataBlock stale (drLength ?ra)"] rep off lenr bnd by (simp add: table_rep_def)
    have parse: "newCachedDataBlock (enc_block (ess ! i)) = Inr (block_of (ess ! i))"
      using ok by (intro newCachedDataBlock_enc) (simp add: block_ok_def)
    obtain c where c: "cache_add (tCache t) (drOffset ?ra) (block_of (ess ! i)) = Some c" "cache_ok c"
      "cached_pairs c \<subseteq> insert (drOffset ?ra, block_of (ess ! i)) (cached_pairs (tCache t))"
      using cache_add_spec [OF cok] by blast
    have "table_rep xxh3 (t\<lparr>tCache := c\<rparr>) ess"
      using table_rep_cache [OF rep c(2)] c(3) coh i by blast
    then show ?thesis using hit(1) None pos read parse c(1)
      by (intro exI [of _ c]) (simp add: getCachedBlock_def)
  qed
qed

section \<open>Point lookups\<close>

lemma map_of_concat_sorted:
  fixes key :: bytes and ess :: "(bytes \<times> bytes) list list"
  assumes "sorted_keys (concat ess)" "\<forall>es \<in> set ess. es \<noteq> []"
  defines "n \<equiv> length (takeWhile (\<lambda>es. fst (hd es) \<le> key) ess)"
  shows "map_of (concat ess) key = (if n = 0 then None else map_of (ess ! (n - 1)) key)"
proof -
  have low: "map_of (concat xss) key = None" if "sorted_keys (concat (xss @ yss))" "xss = [] \<or> yss \<noteq> []"
    "\<forall>es \<in> set yss. es \<noteq> []" "yss \<noteq> [] \<Longrightarrow> fst (hd (hd yss)) \<le> key" for xss yss :: "(bytes \<times> bytes) list list"
  proof (cases yss)
    case (Cons ys yss')
    then have ne: "ys \<noteq> []" "fst (hd ys) \<le> key" using that(3,4) by simp_all
    then obtain e where "hd ys = e" "e \<in> set ys" by simp
    then have "\<forall>x \<in> set (concat xss). fst x < fst e"
      using that(1) Cons by (auto simp: sorted_wrt_append)
    then show ?thesis using ne \<open>hd ys = e\<close> by (force simp: map_of_eq_None_iff)
  qed (use that in simp)
  have high: "map_of (concat yss) key = None" if y: "sorted_keys (concat yss)" "\<forall>es \<in> set yss. es \<noteq> []"
    "yss = [] \<or> key < fst (hd (hd yss))" for yss :: "(bytes \<times> bytes) list list"
  proof (cases yss)
    case (Cons ys yss')
    then obtain e r where ys: "ys = e # r" using y(2) by (cases ys) auto
    then have "key < fst e" using y(3) Cons by simp
    moreover have "sorted_keys (e # r @ concat yss')" using y(1) Cons ys by simp
    then have "\<forall>x \<in> set (r @ concat yss'). fst e < fst x" by auto
    then have "\<forall>x \<in> set (concat yss). fst e \<le> fst x" using Cons ys by (auto intro: less_imp_le)
    ultimately show ?thesis by (force simp: map_of_eq_None_iff)
  qed simp
  let ?P = "\<lambda>es. fst (hd es) \<le> key"
  have rest: "drop n ess = dropWhile ?P ess" unfolding n_def by (simp add: dropWhile_eq_drop)
  have tail: "map_of (concat (drop n ess)) key = None"
  proof (rule high)
    show "sorted_keys (concat (drop n ess))"
      using assms(1) by (metis append_take_drop_id concat_append map_append sorted_wrt_append)
    show "\<forall>es \<in> set (drop n ess). es \<noteq> []" using assms(2) in_set_dropD by metis
    show "drop n ess = [] \<or> key < fst (hd (hd (drop n ess)))"
      unfolding rest using hd_dropWhile [of ?P ess] not_le by blast
  qed
  show ?thesis
  proof (cases "n = 0")
    case True
    then show ?thesis using tail by simp
  next
    case False
    then obtain m where m: "n = Suc m" by (cases n) auto
    then have ml: "m < length ess" unfolding n_def using length_takeWhile_le [of ?P ess] by simp
    have split: "ess = take m ess @ ess ! m # drop n ess" using ml m by (simp add: id_take_nth_drop)
    have "fst (hd (ess ! m)) \<le> key"
      using m nth_mem [of m "takeWhile ?P ess"] set_takeWhileD takeWhile_nth [of m ?P ess] unfolding n_def by fastforce
    then have "map_of (concat (take m ess)) key = None"
    proof (intro low [of _ "ess ! m # drop n ess"])
      show "sorted_keys (concat (take m ess @ ess ! m # drop n ess))" using assms(1) by (simp only: split [symmetric])
      show "\<forall>es \<in> set (ess ! m # drop n ess). es \<noteq> []" using assms(2) ml by (auto dest: in_set_dropD)
    qed simp_all
    moreover have "map_of (concat ess) key = (map_of (concat (drop n ess)) ++ map_of (ess ! m) ++ map_of (concat (take m ess))) key"
      by (subst split) simp
    ultimately show ?thesis using tail m by (simp add: map_add_def split: option.splits)
  qed
qed

lemma table_first_keys:
  assumes "table_rep xxh3 t ess"
  shows "sorted_wrt (\<lambda>a b. firstKey a < firstKey b) (tIdx t)"
    "length (takeWhile (\<lambda>r. firstKey r \<le> key) (tIdx t)) = length (takeWhile (\<lambda>es. fst (hd es) \<le> key) ess)"
proof -
  obtain off where idx: "tIdx t = ranges_of off ess" using assms by (auto simp: table_rep_def)
  have keys: "map firstKey (ranges_of off ess) = map (\<lambda>es. fst (hd es)) ess" for off
    by (induction ess arbitrary: off) auto
  have "sorted_wrt (\<lambda>a b. fst (hd a) < fst (hd b)) ess"
    if "sorted_keys (concat ess)" "\<forall>es \<in> set ess. es \<noteq> []" for ess :: "(bytes \<times> bytes) list list"
    using that
  proof (induction ess)
    case (Cons es ess)
    have "fst (hd es) < fst (hd xs)" if "xs \<in> set ess" for xs
    proof -
      have "hd es \<in> set es" "hd xs \<in> set xs" using Cons.prems(2) that by auto
      then show ?thesis using Cons.prems(1) that by (auto simp: sorted_wrt_append)
    qed
    then show ?case using Cons by (auto simp: sorted_wrt_append)
  qed simp
  then have "sorted_wrt (\<lambda>a b. fst (hd a) < fst (hd b)) ess"
    using assms by (auto simp: table_rep_def list_all_iff block_ok_def)
  then have "sorted_wrt (<) (map firstKey (tIdx t))" unfolding idx keys by (simp add: sorted_wrt_map)
  then show "sorted_wrt (\<lambda>a b. firstKey a < firstKey b) (tIdx t)" by (simp add: sorted_wrt_map)
  have "length (takeWhile (\<lambda>r. firstKey r \<le> key) (tIdx t)) = length (takeWhile (\<lambda>k. k \<le> key) (map firstKey (tIdx t)))"
    by (simp add: takeWhile_map comp_def)
  also have "\<dots> = length (takeWhile (\<lambda>es. fst (hd es) \<le> key) ess)"
    unfolding idx keys by (simp add: takeWhile_map comp_def)
  finally show "length (takeWhile (\<lambda>r. firstKey r \<le> key) (tIdx t)) = length (takeWhile (\<lambda>es. fst (hd es) \<le> key) ess)" .
qed

lemma Table_Get_spec:
  assumes rep: "table_rep xxh3 t ess"
  shows "\<exists>c. Table_Get xxh3 stale t key = Some (Inr (Option.bind (map_of (concat ess) key) append_nil, t\<lparr>tCache := c\<rparr>)) \<and>
    table_rep xxh3 (t\<lparr>tCache := c\<rparr>) ess"
proof -
  define kvs where "kvs = concat ess"
  define n where "n = length (takeWhile (\<lambda>es. fst (hd es) \<le> key) ess)"
  have ne: "\<forall>es \<in> set ess. es \<noteq> []" and srt: "sorted_keys kvs"
    using rep by (auto simp: table_rep_def list_all_iff block_ok_def kvs_def)
  note look = map_of_concat_sorted [OF srt [unfolded kvs_def] ne, of key, folded n_def kvs_def]
  have same: "t\<lparr>tCache := tCache t\<rparr> = t" by simp
  obtain may where may: "(case tFilter t of None \<Rightarrow> Some True | Some f \<Rightarrow> Contains xxh3 key f) = Some may"
    and neg: "\<not> may \<Longrightarrow> map_of kvs key = None"
  proof (cases "tFilter t")
    case (Some f)
    then have "wf_filter f" "\<forall>k \<in> fst ` set kvs. Contains xxh3 k f = Some True"
      using rep by (auto simp: table_rep_def kvs_def)
    moreover then obtain b where "Contains xxh3 key f = Some b" using bloom.contains_total by blast
    moreover have "\<not> b \<Longrightarrow> map_of kvs key = None" using calculation by (force simp: map_of_eq_None_iff)
    ultimately show ?thesis using that [of b] Some by simp
  qed (use that [of True] in simp)
  have find: "findDataRange (tIdx t) key = (if n = 0 then None else Some (tIdx t ! (n - 1)))"
    unfolding findDataRange_spec [OF table_first_keys(1) [OF rep]] table_first_keys(2) [OF rep] n_def by simp
  consider "\<not> may" | "may" "n = 0" | "may" "0 < n" by blast
  then show ?thesis
  proof cases
    case 3
    have n: "n - 1 < length ess" using 3(2) length_takeWhile_le [of "\<lambda>es. fst (hd es) \<le> key" ess] unfolding n_def by linarith
    obtain c where c: "getCachedBlock stale t (tIdx t ! (n - 1)) = Some (Inr (block_of (ess ! (n - 1)), t\<lparr>tCache := c\<rparr>))"
      "table_rep xxh3 (t\<lparr>tCache := c\<rparr>) ess" using getCachedBlock_spec [OF rep n] by blast
    have "block_ok (ess ! (n - 1))" using rep n by (simp add: table_rep_def list_all_length)
    moreover have "sorted_keys (ess ! (n - 1))"
    proof -
      have "concat ess = concat (take (n - 1) ess) @ ess ! (n - 1) @ concat (drop (Suc (n - 1)) ess)"
        by (subst id_take_nth_drop [OF n]) simp
      then have "sorted_keys (concat (take (n - 1) ess) @ ess ! (n - 1) @ concat (drop (Suc (n - 1)) ess))"
        using srt by (simp add: kvs_def)
      then show ?thesis by (simp add: sorted_wrt_append)
    qed
    ultimately have "block_lookup (block_of (ess ! (n - 1))) key = Some (map_of (ess ! (n - 1)) key)"
      by (intro block_lookup_spec) (auto simp: block_ok_def sstableBlockSize_def)
    then have "block_lookup (block_of (ess ! (n - 1))) key = Some (map_of kvs key)" using look 3(2) by simp
    then show ?thesis using may 3 find c
      by (intro exI [of _ c]) (auto simp: Table_Get_def kvs_def split: option.splits)
  next
    case 1
    then show ?thesis using may neg rep by (intro exI [of _ "tCache t"]) (simp add: Table_Get_def kvs_def)
  next
    case 2
    then show ?thesis using may look find rep by (intro exI [of _ "tCache t"]) (simp add: Table_Get_def kvs_def)
  qed
qed

end
