(* ===== verification/Sstable_Flush.thy ===== *)
theory Sstable_Flush
  imports Sstable
begin

text \<open>
  Correctness of whole sstables: \<open>Flush\<close> of a memtable gives a table that represents its entries,
  \<open>Open\<close> of the written file gives an equal table, and lookups, scans and the iterator agree with the
  represented list.
\<close>

section \<open>Walking the memtable\<close>

lemma decr_incr_ref: "0 < slRef sk \<Longrightarrow> decrRef (incrRef sk) = sk"
  by (simp add: decrRef_def incrRef_def)

lemma count_loop_spec:
  "it_at sk kvs it i \<Longrightarrow> \<exists>it'. count_loop sk it c = Some (it', c + int (length kvs - i)) \<and> itOpen it'"
proof (induction "length kvs - i" arbitrary: it i c)
  case 0
  then have "\<not> it_Valid it" "itOpen it" using it_read_cursor(1) [OF 0(2)] by (auto simp: it_at_def)
  then show ?case using 0(1) by (subst count_loop.simps) simp
next
  case (Suc d)
  then have i: "i < length kvs" by simp
  obtain it1 where n: "it_Next sk it = Some it1" "it_at sk kvs it1 (Suc i)"
    using it_Next_cursor [OF Suc.prems] i by (auto simp: cursor_next_def)
  have "\<exists>it'. count_loop sk it1 (c + 1) = Some (it', c + 1 + int (length kvs - Suc i)) \<and> itOpen it'"
    using Suc.hyps(2) by (intro Suc.hyps(1) [OF _ n(2)]) simp
  moreover have "it_Valid it" using it_read_cursor(1) [OF Suc.prems] i by simp
  moreover have "c + 1 + int (length kvs - Suc i) = c + int (length kvs - i)" using i by simp
  ultimately show ?case using n(1) by (subst count_loop.simps) simp
qed

lemma fresh_iterator:
  assumes "sl_rel sk kvs"
  shows "\<exists>it. it_Rewind (incrRef sk) \<lparr>itOpen = True, itNode = 0\<rparr> = Some it \<and> it_at (incrRef sk) kvs it 0"
  using it_seeks_cursor(1) [of "incrRef sk" kvs "\<lparr>itOpen = True, itNode = 0\<rparr>"] assms by (simp add: it_Rewind_def)

lemma countEntries_spec:
  assumes "sl_rel sk kvs" "0 < slRef sk"
  shows "countEntries sk = Some (int (length kvs), sk)"
proof -
  obtain it where it: "it_Rewind (incrRef sk) \<lparr>itOpen = True, itNode = 0\<rparr> = Some it" "it_at (incrRef sk) kvs it 0"
    using fresh_iterator [OF assms(1)] by blast
  obtain it' where "count_loop (incrRef sk) it 0 = Some (it', int (length kvs))" "itOpen it'"
    using count_loop_spec [OF it(2), of 0] by auto
  then show ?thesis using it(1) decr_incr_ref [OF assms(2)]
    by (simp add: countEntries_def NewIterator_def it_Close_def)
qed

section \<open>The block writer\<close>

definition writer_inv :: "nat \<Rightarrow> device \<Rightarrow> blockWriter \<Rightarrow> (bytes \<times> bytes) list list \<Rightarrow> (bytes \<times> bytes) list \<Rightarrow> bool" where
  "writer_inv start dev w blocks cur \<longleftrightarrow>
     bkIdx w = ranges_of start blocks \<and> bkOffset w = of_nat (start + length (enc_blocks blocks)) \<and>
     bkBlock w = enc_block cur \<and> length (enc_block cur) \<le> sstableBlockSize \<and> list_all entry_ok cur \<and>
     (cur \<noteq> [] \<longrightarrow> firstKey (bkRange w) = fst (hd cur) \<and> drOffset (bkRange w) = bkOffset w) \<and>
     bw_good (bkBw w) \<and> fDev (bwFile (bkBw w)) = dev \<and> bw_image (bkBw w) = write_at [] start (enc_blocks blocks) \<and>
     bw_end (bkBw w) = start + length (enc_blocks blocks) \<and> list_all block_ok blocks"

lemma enc_entry_not_Nil [simp]: "enc_entry e \<noteq> []"
  using length_enc_entry [of e] unfolding entryMetaSize_def by force

lemma enc_block_Nil_iff [simp]: "enc_block es = [] \<longleftrightarrow> es = []"
  using enc_block_nonempty by auto

lemma flushBlock_spec:
  assumes "writer_inv start dev w blocks cur" "cur \<noteq> []"
  shows "\<exists>w'. flushBlock w = Inr w' \<and> writer_inv start dev w' (blocks @ [cur]) []"
proof -
  note inv = assms(1) [unfolded writer_inv_def]
  let ?bw = "bw_Write (bkBw w) (bkBlock w)"
  note g = bw_Write_good [of "bkBw w" "bkBlock w"]
  have good: "bw_good ?bw" "bwErr ?bw = None" using g(1) inv by (auto simp: bw_good_def)
  have img: "bw_image ?bw = write_at [] start (enc_blocks (blocks @ [cur]))"
    using g(2) inv write_at_write_at [of "[]" start "enc_blocks blocks" "enc_block cur"] by simp
  have ok: "block_ok cur" using inv assms(2) by (simp add: block_ok_def)
  have rng: "(bkRange w)\<lparr>drLength := of_nat (length (enc_block cur))\<rparr> =
      \<lparr>firstKey = fst (hd cur), drOffset = of_nat (start + length (enc_blocks blocks)), drLength = of_nat (length (enc_block cur))\<rparr>"
    using inv assms(2) by (cases "bkRange w") simp
  define w' where "w' = \<lparr>bkIdx = bkIdx w @ [(bkRange w)\<lparr>drLength := of_nat (length (bkBlock w))\<rparr>], bkBw = ?bw,
    bkOffset = bkOffset w + of_nat (length (bkBlock w)), bkBlock = [], bkRange = emptyRange\<rparr>"
  have "flushBlock w = Inr w'" using good inv assms(2) by (simp add: flushBlock_def Let_def w'_def)
  moreover have "writer_inv start dev w' (blocks @ [cur]) []"
    unfolding writer_inv_def w'_def using inv good img ok rng g(3,4)
    by (simp add: list_all_iff add.assoc)
  ultimately show ?thesis by blast
qed

lemma append_entry_spec:
  assumes inv: "writer_inv start dev w blocks cur" and ok: "entry_ok e" "length (enc_block cur) + length (enc_entry e) \<le> sstableBlockSize"
  defines "w2 \<equiv> (if bkBlock w = [] then w\<lparr>bkRange := (bkRange w)\<lparr>firstKey := fst e, drOffset := bkOffset w\<rparr>\<rparr> else w)"
  shows "\<exists>block. appendBlockEntry (bkBlock w2) (fst e) (snd e) = Some block \<and>
    writer_inv start dev (w2\<lparr>bkBlock := block\<rparr>) blocks (cur @ [e])"
proof -
  have b: "bkBlock w2 = enc_block cur" using inv by (simp add: w2_def writer_inv_def)
  have "appendBlockEntry (bkBlock w2) (fst e) (snd e) = Some (enc_block cur @ enc_entry e)"
    unfolding b using appendBlockEntry_enc [of "enc_block cur" "fst e" "snd e"] ok(2) by simp
  moreover have "writer_inv start dev (w2\<lparr>bkBlock := enc_block cur @ enc_entry e\<rparr>) blocks (cur @ [e])"
    using inv ok by (cases cur) (simp_all add: writer_inv_def w2_def)
  ultimately show ?thesis by blast
qed

definition fits :: "bytes \<times> bytes \<Rightarrow> bool" where
  "fits e \<longleftrightarrow> entryMetaSize + length (fst e) + length (snd e) \<le> sstableBlockSize"

lemma fits_entry_ok: "fits e \<Longrightarrow> entry_ok e \<and> length (enc_entry e) \<le> sstableBlockSize"
  by (simp add: fits_def entry_ok_def sst_consts)

text \<open>One turn of the entry loop, for an entry that fits in a block.\<close>

lemma blocks_turn:
  fixes xxh3 :: "bytes \<Rightarrow> u64 \<Rightarrow> u64"
  assumes it: "it_at sk kvs it i" "i < length kvs" and f: "wf_filter flt" and fit: "fits (kvs ! i)"
    and inv: "writer_inv start dev w blocks cur"
  obtains it' flt' w' blocks' cur' b where
    "blocks_loop xxh3 sk it flt w = blocks_loop xxh3 sk it' flt' w'" "it_at sk kvs it' (Suc i)"
    "Add xxh3 (fst (kvs ! i)) flt = Some (flt', b)" "wf_filter flt'" "writer_inv start dev w' blocks' cur'"
    "concat blocks' @ cur' = concat blocks @ cur @ [kvs ! i]"
proof -
  let ?e = "kvs ! i"
  obtain flt' b where add: "Add xxh3 (fst ?e) flt = Some (flt', b)" "wf_filter flt'" using bloom.add_total [OF f] by blast
  obtain it' where nxt: "it_Next sk it = Some it'" "it_at sk kvs it' (Suc i)"
    using it_Next_cursor [OF it(1)] it(2) by (auto simp: cursor_next_def)
  note cur = it_read_cursor [OF it(1)]
  note ok = fits_entry_ok [OF fit]
  have size: "\<not> sstableBlockSize < entryMetaSize + length (fst ?e) + length (snd ?e)" using fit by (simp add: fits_def)
  define full where "full \<longleftrightarrow> bkBlock w \<noteq> [] \<and> sstableBlockSize < length (bkBlock w) + (entryMetaSize + length (fst ?e) + length (snd ?e))"
  have blk: "bkBlock w = enc_block cur" using inv by (simp add: writer_inv_def)
  obtain w1 blocks' cur1 where w1: "(if full then flushBlock w else Inr w) = Inr w1" "writer_inv start dev w1 blocks' cur1"
    "concat blocks' @ cur1 = concat blocks @ cur" "length (enc_block cur1) + length (enc_entry ?e) \<le> sstableBlockSize"
  proof (cases full)
    case True
    then obtain w1 where "flushBlock w = Inr w1" "writer_inv start dev w1 (blocks @ [cur]) []"
      using flushBlock_spec [OF inv] blk by (auto simp: full_def)
    then show ?thesis using that [of w1 "blocks @ [cur]" "[]"] True ok by simp
  next
    case False
    then show ?thesis using that [of w blocks cur] inv ok blk by (auto simp: full_def)
  qed
  define w2 where "w2 = (if bkBlock w1 = [] then w1\<lparr>bkRange := (bkRange w1)\<lparr>firstKey := fst ?e, drOffset := bkOffset w1\<rparr>\<rparr> else w1)"
  obtain block where bl: "appendBlockEntry (bkBlock w2) (fst ?e) (snd ?e) = Some block"
    "writer_inv start dev (w2\<lparr>bkBlock := block\<rparr>) blocks' (cur1 @ [?e])"
    using append_entry_spec [OF w1(2) _ w1(4)] ok unfolding w2_def by blast
  have "blocks_loop xxh3 sk it flt w = blocks_loop xxh3 sk it' flt' (w2\<lparr>bkBlock := block\<rparr>)"
    by (subst blocks_loop.simps)
      (simp only: cur it(2) simp_thms if_True if_False Option.bind.simps option.case prod.case add(1) Let_def size
        full_def [symmetric] w1(1) tryE_simps w2_def [symmetric] bl(1) nxt(1))
  then show ?thesis using that [OF _ nxt(2) add bl(2)] w1(3) by simp
qed

lemma blocks_loop_spec:
  assumes "it_at sk kvs it i" "wf_filter flt" "\<forall>e \<in> set (drop i kvs). fits e" "writer_inv start dev w blocks cur"
    "concat blocks @ cur = take i kvs"
  shows "\<exists>it' flt' w' blocks' cur'. blocks_loop xxh3 sk it flt w = Some (Inr (it', flt', w')) \<and>
    writer_inv start dev w' blocks' cur' \<and> concat blocks' @ cur' = kvs \<and>
    add_all (Add xxh3) (map fst (drop i kvs)) flt = Some flt' \<and> wf_filter flt'"
  using assms
proof (induction "length kvs - i" arbitrary: it i flt w blocks cur)
  case 0
  then have "\<not> it_Valid it" "i = length kvs" using it_read_cursor(1) [OF 0(2)] by (auto simp: it_at_def)
  then show ?case using 0 by (subst blocks_loop.simps) auto
next
  case (Suc d)
  have i: "i < length kvs" using Suc.hyps(2) by simp
  have d: "drop i kvs = kvs ! i # drop (Suc i) kvs" using i by (simp add: Cons_nth_drop_Suc)
  have fit: "fits (kvs ! i)" using Suc.prems(3) d by simp
  obtain it1 flt1 w1 blocks1 cur1 b where s: "blocks_loop xxh3 sk it flt w = blocks_loop xxh3 sk it1 flt1 w1"
    "it_at sk kvs it1 (Suc i)" "Add xxh3 (fst (kvs ! i)) flt = Some (flt1, b)" "wf_filter flt1"
    "writer_inv start dev w1 blocks1 cur1" "concat blocks1 @ cur1 = concat blocks @ cur @ [kvs ! i]"
    by (rule blocks_turn [where ?xxh3.0 = xxh3, OF Suc.prems(1) i Suc.prems(2) fit Suc.prems(4)]) metis
  have "concat blocks1 @ cur1 = take (Suc i) kvs" using s(6) Suc.prems(5) i by (simp add: take_Suc_conv_app_nth flip: append_assoc)
  moreover have "\<forall>e \<in> set (drop (Suc i) kvs). fits e" using Suc.prems(3) d by simp
  ultimately obtain it' flt' w' blocks' cur' where "blocks_loop xxh3 sk it1 flt1 w1 = Some (Inr (it', flt', w'))"
    "writer_inv start dev w' blocks' cur'" "concat blocks' @ cur' = kvs"
    "add_all (Add xxh3) (map fst (drop (Suc i) kvs)) flt1 = Some flt'" "wf_filter flt'"
    using Suc.hyps(1) [OF _ s(2,4) _ s(5)] Suc.hyps(2) by fastforce
  then show ?case using s(1,3) d by auto
qed

text \<open>An entry that does not fit in a block stops the loop with its key.\<close>

lemma blocks_loop_too_large:
  assumes "it_at sk kvs it i" "wf_filter flt" "\<forall>e \<in> set (take (j - i) (drop i kvs)). fits e" "i \<le> j" "j < length kvs"
    "\<not> fits (kvs ! j)" "writer_inv start dev w blocks cur"
  shows "blocks_loop xxh3 sk it flt w = Some (Inl (EntryExceedsBlockSize (fst (kvs ! j))))"
  using assms
proof (induction "j - i" arbitrary: it i flt w blocks cur)
  case 0
  then have j: "j = i" by simp
  obtain flt' b where "Add xxh3 (fst (kvs ! i)) flt = Some (flt', b)" using bloom.add_total [OF "0.prems"(2)] by blast
  then show ?case using it_read_cursor [OF "0.prems"(1)] "0.prems"(5,6) j
    by (subst blocks_loop.simps) (simp add: Let_def fits_def)
next
  case (Suc d)
  have i: "i < length kvs" "i < j" using Suc.hyps(2) Suc.prems(5) by simp_all
  have d: "drop i kvs = kvs ! i # drop (Suc i) kvs" using i by (simp add: Cons_nth_drop_Suc)
  have t: "take (j - i) (drop i kvs) = kvs ! i # take (j - Suc i) (drop (Suc i) kvs)"
    using d by (simp add: Suc_diff_Suc [OF i(2), symmetric])
  have fit: "fits (kvs ! i)" using Suc.prems(3) t by simp
  obtain it1 flt1 w1 blocks1 cur1 b where s: "blocks_loop xxh3 sk it flt w = blocks_loop xxh3 sk it1 flt1 w1"
    "it_at sk kvs it1 (Suc i)" "wf_filter flt1" "writer_inv start dev w1 blocks1 cur1"
    by (rule blocks_turn [where ?xxh3.0 = xxh3, OF Suc.prems(1) i(1) Suc.prems(2) fit Suc.prems(7)]) metis
  have "blocks_loop xxh3 sk it1 flt1 w1 = Some (Inl (EntryExceedsBlockSize (fst (kvs ! j))))"
    using Suc.hyps(2) Suc.prems(3,5,6) t i by (intro Suc.hyps(1) [OF _ s(2,3) _ _ _ _ s(4)]) auto
  then show ?case using s(1) by simp
qed

lemma writeDataBlocks_spec:
  assumes rel: "sl_rel sk kvs" "0 < slRef sk" and f: "wf_filter flt" and fit: "\<forall>e \<in> set kvs. fits e"
    and bw: "bw_good bw" "bw_image bw = []" "bw_end bw = start"
  obtains flt' bw' ess where
    "writeDataBlocks xxh3 bw sk flt (of_nat start) =
       Some (sk, Inr (flt', bw', ranges_of start ess, of_nat (start + length (enc_blocks ess))))"
    "concat ess = kvs" "list_all block_ok ess" "add_all (Add xxh3) (map fst kvs) flt = Some flt'" "wf_filter flt'"
    "bw_good bw'" "bw_image bw' = write_at [] start (enc_blocks ess)" "bw_end bw' = start + length (enc_blocks ess)"
    "fDev (bwFile bw') = fDev (bwFile bw)"
proof -
  define w0 where "w0 = \<lparr>bkIdx = [], bkBw = bw, bkOffset = of_nat start, bkBlock = [], bkRange = emptyRange\<rparr>"
  let ?dev = "fDev (bwFile bw)"
  obtain it where it: "it_Rewind (incrRef sk) \<lparr>itOpen = True, itNode = 0\<rparr> = Some it" "it_at (incrRef sk) kvs it 0"
    using fresh_iterator [OF rel(1)] by blast
  have inv0: "writer_inv start ?dev w0 [] []" using bw by (simp add: writer_inv_def w0_def)
  have fit0: "\<forall>e \<in> set (drop 0 kvs). fits e" using fit by simp
  obtain it' flt' w blocks cur where l: "blocks_loop xxh3 (incrRef sk) it flt w0 = Some (Inr (it', flt', w))"
    "writer_inv start ?dev w blocks cur" "concat blocks @ cur = kvs"
    "add_all (Add xxh3) (map fst kvs) flt = Some flt'" "wf_filter flt'"
    using blocks_loop_spec [OF it(2) f fit0 inv0, where ?xxh3.0 = xxh3] by auto
  obtain w' ess where w': "flushBlock w = Inr w'" "writer_inv start ?dev w' ess []" "concat ess = kvs"
  proof (cases "cur = []")
    case True
    then have "bkBlock w = []" using l(2) by (simp add: writer_inv_def)
    then show ?thesis using that [of w blocks] True l(2,3) by (simp add: flushBlock_def)
  next
    case False
    then obtain w' where "flushBlock w = Inr w'" "writer_inv start ?dev w' (blocks @ [cur]) []"
      using flushBlock_spec [OF l(2)] by blast
    then show ?thesis using that [of w' "blocks @ [cur]"] l(3) by simp
  qed
  note inv = w'(2) [unfolded writer_inv_def]
  have "writeDataBlocks xxh3 bw sk flt (of_nat start) =
       Some (sk, Inr (flt', bkBw w', ranges_of start ess, of_nat (start + length (enc_blocks ess))))"
    using it(1) l(1) w'(1) inv decr_incr_ref [OF rel(2)]
    by (simp add: writeDataBlocks_def NewIterator_def it_Close_def w0_def)
  then show ?thesis using that [of flt' "bkBw w'" ess] l(4,5) w'(3) inv by simp
qed

section \<open>The file of a table\<close>

definition index_bytes :: "nat \<Rightarrow> (bytes \<times> bytes) list list \<Rightarrow> bytes" where
  "index_bytes start ess = concat (map enc_range (ranges_of start ess))"

definition table_file :: "Filter \<Rightarrow> (bytes \<times> bytes) list list \<Rightarrow> bytes" where
  "table_file flt ess =
     (let start = length (MarshalBinary flt) in
      MarshalBinary flt @ enc_blocks ess @ index_bytes start ess @
      footer_bytes (of_nat (start + length (enc_blocks ess))))"

lemma length_footer [simp]: "length (footer_bytes x) = sstableFooterSize"
  by (simp add: footer_bytes_def sstableFooterSize_def)

lemma block_first_key:
  assumes "block_ok es"
  shows "length (fst (hd es)) + 10 < 2 ^ 16" "length (fst (hd es)) + dataRangeMetaSize \<le> 3 * length (enc_block es)"
proof -
  obtain e r where es: "es = e # r" using assms by (cases es) (auto simp: block_ok_def)
  then show "length (fst (hd es)) + 10 < 2 ^ 16" "length (fst (hd es)) + dataRangeMetaSize \<le> 3 * length (enc_block es)"
    using assms by (simp_all add: block_ok_def sst_consts)
qed

lemma ranges_keys_ok:
  "list_all block_ok ess \<Longrightarrow> ra \<in> set (ranges_of off ess) \<Longrightarrow> length (firstKey ra) + 10 < 2 ^ 16"
  using block_first_key(1) by (induction ess arbitrary: off) auto

lemma length_index_bytes: "list_all block_ok ess \<Longrightarrow> length (index_bytes off ess) \<le> 3 * length (enc_blocks ess)"
proof (induction ess arbitrary: off)
  case (Cons es ess)
  have "length (index_bytes (off + length (enc_block es)) ess) \<le> 3 * length (enc_blocks ess)" using Cons by simp
  then show ?case using block_first_key(2) [of es] Cons.prems by (simp add: index_bytes_def)
qed (simp add: index_bytes_def)

lemma writeIndexAndFooter_spec:
  assumes "bw_good bw" "list_all block_ok ess" and data_def: "data = index_bytes start ess @ footer_bytes off"
  shows "\<exists>bw'. writeIndexAndFooter bw (ranges_of start ess) off = Some (Inr bw') \<and> bw_good bw' \<and>
    bw_image bw' = write_at (bw_image bw) (bw_end bw) data \<and> fDev (bwFile bw') = fDev (bwFile bw)"
proof -
  let ?bw1 = "bw_Write bw (index_bytes start ess)"
  note g1 = bw_Write_good [OF assms(1), of "index_bytes start ess"]
  note g2 = bw_Write_good [OF g1(1), of "footer_bytes off"]
  have enc: "encodeFullRange (ranges_of start ess) = Some (index_bytes start ess)"
    unfolding index_bytes_def using ranges_keys_ok [OF assms(2)] by (intro encodeFullRange_fit) blast
  have "bwErr ?bw1 = None" "bwErr (bw_Write ?bw1 (footer_bytes off)) = None" using g1(1) g2(1) by (simp_all add: bw_good_def)
  then have "writeIndexAndFooter bw (ranges_of start ess) off = Some (Inr (bw_Write ?bw1 (footer_bytes off)))"
    using enc by (simp add: writeIndexAndFooter_def Let_def)
  moreover have "bw_image (bw_Write ?bw1 (footer_bytes off)) = write_at (bw_image bw) (bw_end bw) data"
    unfolding data_def g2(2) g1(2,3) by (rule write_at_write_at)
  ultimately show ?thesis using g2(1,4) g1(4) by simp
qed

section \<open>Metadata\<close>

lemma concat_blocks_ends:
  assumes "list_all block_ok ess"
  shows "(concat ess = []) = (ess = [])" "ess \<noteq> [] \<Longrightarrow> hd (concat ess) = hd (hd ess)"
    "ess \<noteq> [] \<Longrightarrow> last (concat ess) = last (last ess)"
proof -
  have ne: "\<forall>es \<in> set ess. es \<noteq> []" using assms by (auto simp: list_all_iff block_ok_def)
  show "(concat ess = []) = (ess = [])" using ne by (cases ess) auto
  show "ess \<noteq> [] \<Longrightarrow> hd (concat ess) = hd (hd ess)" using ne by (cases ess) auto
  show "last (concat ess) = last (last ess)" if "ess \<noteq> []"
    using ne that by (cases ess rule: rev_cases) (auto simp: last_append)
qed

definition key_bound :: "((bytes \<times> bytes) list \<Rightarrow> bytes \<times> bytes) \<Rightarrow> (bytes \<times> bytes) list \<Rightarrow> bytes option" where
  "key_bound pick kvs = (if kvs = [] then None else append_nil (fst (pick kvs)))"

lemma loadMetadata_spec:
  assumes rep: "table_rep xxh3 t ess"
  shows "\<exists>c. loadMetadata stale t = Some (Inr (t\<lparr>tSizeBytes := length (fData (tF t)), tSmallest := key_bound hd (concat ess),
      tLargest := key_bound last (concat ess), tCache := c\<rparr>)) \<and> table_rep xxh3 (t\<lparr>tCache := c\<rparr>) ess"
proof -
  have sz: "os_Size (tF t) = Inr (length (fData (tF t)))" using rep by (simp add: table_rep_def os_Size_def good_device_def)
  have ok: "list_all block_ok ess" using rep by (simp add: table_rep_def)
  obtain off where idx: "tIdx t = ranges_of off ess" using rep by (auto simp: table_rep_def)
  show ?thesis
  proof (cases "ess = []")
    case True
    then show ?thesis using sz idx rep by (intro exI [of _ "tCache t"]) (simp add: loadMetadata_def Let_def key_bound_def)
  next
    case False
    let ?n = "length ess - 1" and ?t2 = "t\<lparr>tSizeBytes := length (fData (tF t)), tSmallest := append_nil (firstKey (hd (tIdx t)))\<rparr>"
    have n: "?n < length ess" using False by (cases ess) auto
    have ne: "tIdx t \<noteq> []" using idx False by (cases ess) auto
    have last: "last (tIdx t) = tIdx t ! ?n" "ess ! ?n = last ess"
      using last_conv_nth [OF ne] last_conv_nth [OF False] idx by simp_all
    have "table_rep xxh3 ?t2 ess" using rep by (simp add: table_rep_def)
    from getCachedBlock_spec [OF this n, of stale] obtain c where
      c: "getCachedBlock stale ?t2 (last (tIdx t)) = Some (Inr (block_of (last ess), ?t2\<lparr>tCache := c\<rparr>))"
      "table_rep xxh3 (?t2\<lparr>tCache := c\<rparr>) ess" using last by auto
    have lok: "block_ok (last ess)" using ok False by (simp add: list_all_iff)
    then have "last ess \<noteq> []" by (simp add: block_ok_def)
    then have le: "entryAt (block_of (last ess)) (length (last ess) - 1) = Some (last (last ess))"
      using lok entryAt_block_of [of "last ess" "length (last ess) - 1"]
      by (auto simp: block_ok_def sstableBlockSize_def last_conv_nth)
    have offs: "length (entryOffsets (block_of (last ess))) = length (last ess)" by (simp add: block_of_def)
    have neo: "entryOffsets (block_of (last ess)) \<noteq> []" using offs \<open>last ess \<noteq> []\<close> by (metis length_0_conv)
    have "firstKey (hd (tIdx t)) = fst (hd (hd ess))" using idx False by (cases ess) auto
    then have small: "append_nil (firstKey (hd (tIdx t))) = key_bound hd (concat ess)"
      using concat_blocks_ends [OF ok] False by (simp add: key_bound_def del: concat_eq_Nil_conv)
    have large: "append_nil (fst (last (last ess))) = key_bound last (concat ess)"
      using concat_blocks_ends [OF ok] False by (simp add: key_bound_def del: concat_eq_Nil_conv)
    have "loadMetadata stale t = Some (Inr (?t2\<lparr>tCache := c, tLargest := key_bound last (concat ess)\<rparr>))"
      using ne sz c(1) le offs neo large by (simp add: loadMetadata_def Let_def split_beta)
    moreover have "table_rep xxh3 (t\<lparr>tCache := c\<rparr>) ess" using c(2) by (simp add: table_rep_def)
    ultimately show ?thesis using small by (intro exI [of _ c]) simp
  qed
qed

section \<open>Flush\<close>

definition table_holds :: "(bytes \<Rightarrow> u64 \<Rightarrow> u64) \<Rightarrow> Table \<Rightarrow> (bytes \<times> bytes) list \<Rightarrow> bool" where
  "table_holds xxh3 t kvs \<longleftrightarrow> (\<exists>ess flt. concat ess = kvs \<and> table_rep xxh3 t ess \<and> tFilter t = Some flt \<and>
     fData (tF t) = table_file flt ess \<and> tIdx t = ranges_of (length (MarshalBinary flt)) ess \<and>
     tSizeBytes t = length (fData (tF t)) \<and> tSmallest t = key_bound hd kvs \<and> tLargest t = key_bound last kvs)"

lemma add_all_shape:
  "wf_filter f \<Longrightarrow> add_all (Add xxh3) ks f = Some g \<Longrightarrow> length (words g) = length (words f)"
proof (induction ks arbitrary: f)
  case (Cons k ks)
  then obtain h b where h: "Add xxh3 k f = Some (h, b)" "add_all (Add xxh3) ks h = Some g" by (auto split: option.splits)
  have "same_shape f h" using Add_spec(1) [OF Cons.prems(1) h(1)] .
  then show ?case using Cons.IH [OF _ h(2)] bloom.add_wf [OF Cons.prems(1) h(1)] by (simp add: same_shape_def)
qed simp

definition fresh_table :: "dataRange list \<Rightarrow> Filter \<Rightarrow> osfile \<Rightarrow> path \<Rightarrow> Table" where
  "fresh_table idx flt f path =
     \<lparr>tIdx = idx, tFilter = Some flt, tF = f, tCache = newDataBlockCache blockCacheEntryLimit, tPath = path,
      tSmallest = None, tLargest = None, tSizeBytes = 0\<rparr>"

lemma length_table_file:
  assumes "list_all block_ok ess" "wf_filter flt" "length (enc_blocks ess) < 2 ^ 60"
  shows "length (table_file flt ess) < 2 ^ 63"
proof -
  have "64 * length (words flt) < 2 ^ 64"
    using assms(2) unsigned_less [of "numBits flt", where ?'a = nat] by (simp add: wf_filter_def)
  then show ?thesis using length_index_bytes [OF assms(1), of "length (MarshalBinary flt)"] assms(3)
    by (simp add: table_file_def Let_def HeaderSize_def sstableFooterSize_def)
qed

lemma fresh_table_rep:
  assumes ok: "list_all block_ok ess" "sorted_keys (concat ess)" and f: "wf_filter flt" "\<forall>k \<in> fst ` set (concat ess). Contains xxh3 k flt = Some True"
    and fil: "fOpen file" "good_device (fDev file)" "fData file = table_file flt ess" and len: "length (enc_blocks ess) < 2 ^ 60"
  shows "table_rep xxh3 (fresh_table (ranges_of (length (MarshalBinary flt)) ess) flt file path) ess"
proof -
  have "\<exists>pre post. fData file = pre @ enc_blocks ess @ post \<and> ranges_of (length (MarshalBinary flt)) ess = ranges_of (length pre) ess"
    unfolding fil(3) table_file_def Let_def by blast
  moreover have "cache_ok (newDataBlockCache blockCacheEntryLimit)" "cached_pairs (newDataBlockCache blockCacheEntryLimit) = {}"
    using newDataBlockCache_ok [of 256] by (simp_all add: blockCacheEntryLimit_def)
  ultimately show ?thesis using assms length_table_file [OF ok(1) f(1) len] by (simp add: table_rep_def fresh_table_def)
qed

lemma fresh_table_holds:
  assumes "list_all block_ok ess" "sorted_keys (concat ess)" "wf_filter flt" "\<forall>k \<in> fst ` set (concat ess). Contains xxh3 k flt = Some True"
    "fOpen file" "good_device (fDev file)" "fData file = table_file flt ess" "length (enc_blocks ess) < 2 ^ 60"
  shows "\<exists>t. loadMetadata stale (fresh_table (ranges_of (length (MarshalBinary flt)) ess) flt file path) = Some (Inr t) \<and>
    table_holds xxh3 t (concat ess) \<and> fData (tF t) = table_file flt ess \<and> tPath t = path \<and> tFilter t = Some flt \<and>
    tIdx t = ranges_of (length (MarshalBinary flt)) ess"
proof -
  let ?t = "fresh_table (ranges_of (length (MarshalBinary flt)) ess) flt file path"
  obtain c where c: "loadMetadata stale ?t = Some (Inr (?t\<lparr>tSizeBytes := length (fData (tF ?t)), tSmallest := key_bound hd (concat ess),
      tLargest := key_bound last (concat ess), tCache := c\<rparr>))" "table_rep xxh3 (?t\<lparr>tCache := c\<rparr>) ess"
    using loadMetadata_spec [OF fresh_table_rep [OF assms]] by blast
  define t where "t = ?t\<lparr>tSizeBytes := length (fData (tF ?t)), tSmallest := key_bound hd (concat ess),
      tLargest := key_bound last (concat ess), tCache := c\<rparr>"
  have "table_rep xxh3 t ess" using c(2) by (simp add: table_rep_def t_def)
  then have "table_holds xxh3 t (concat ess)"
    unfolding table_holds_def using assms(7) by (intro exI [of _ ess] exI [of _ flt]) (simp add: t_def fresh_table_def)
  then show ?thesis using c(1) assms(7) by (simp add: t_def fresh_table_def)
qed

lemma length_enc_blocks: "length (enc_blocks ess) = (\<Sum>e \<leftarrow> concat ess. length (enc_entry e))"
proof -
  have "length (enc_block es) = (\<Sum>e \<leftarrow> es. length (enc_entry e))" for es by (induction es) (simp_all del: length_enc_entry)
  then show ?thesis by (induction ess) (simp_all del: length_enc_entry)
qed

lemma backfill: "length a = n \<Longrightarrow> rest \<noteq> [] \<Longrightarrow> write_at (write_at [] n rest) 0 a = a @ rest"
  by (cases "a = []") (simp_all add: write_at_def)

lemma flush_file_spec:
  assumes rel: "sl_rel sk kvs" "0 < slRef sk" and fit: "\<forall>e \<in> set kvs. fits e"
    and flt: "NewFor fbits fhashes (int (length kvs)) bloomFalsePositiveRate = Some flt" "wf_filter flt"
    and dev: "good_device dev" and len: "(\<Sum>e \<leftarrow> kvs. length (enc_entry e)) < 2 ^ 60"
  shows "\<exists>t. flush_file xxh3 fbits fhashes stale \<lparr>fData = [], fPos = 0, fOpen = True, fDev = dev\<rparr> path sk = Some (sk, Inr t) \<and>
    table_holds xxh3 t kvs \<and> tPath t = path"
proof -
  let ?start = "length (MarshalBinary flt)"
  define f1 where "f1 = \<lparr>fData = [], fPos = ?start, fOpen = True, fDev = dev\<rparr>"
  have prep: "prepareBloomFilter fbits fhashes \<lparr>fData = [], fPos = 0, fOpen = True, fDev = dev\<rparr> sk = Some (Inr (flt, ?start, f1, sk))"
    using countEntries_spec [OF rel] flt(1) dev by (simp add: prepareBloomFilter_def os_Seek_def good_device_def f1_def)
  have new: "bw_good (bw_New f1 4096)" "bw_image (bw_New f1 4096) = []" "bw_end (bw_New f1 4096) = ?start"
    "fDev (bwFile (bw_New f1 4096)) = dev"
    using bw_New_good [of f1 4096] dev by (simp_all add: f1_def)
  obtain flt' bw ess where wr: "writeDataBlocks xxh3 (bw_New f1 4096) sk flt (of_nat ?start) =
       Some (sk, Inr (flt', bw, ranges_of ?start ess, of_nat (?start + length (enc_blocks ess))))"
    "concat ess = kvs" "list_all block_ok ess" "add_all (Add xxh3) (map fst kvs) flt = Some flt'" "wf_filter flt'"
    "bw_good bw" "bw_image bw = write_at [] ?start (enc_blocks ess)" "bw_end bw = ?start + length (enc_blocks ess)" "fDev (bwFile bw) = dev"
    by (rule writeDataBlocks_spec [OF rel flt(2) fit new(1-3), where ?xxh3.0 = xxh3]) (use new(4) in metis)
  have start: "?start = length (MarshalBinary flt')" using add_all_shape [OF flt(2) wr(4)] by simp
  define off where "off = (of_nat (?start + length (enc_blocks ess)) :: u64)"
  obtain bw1 where ix: "writeIndexAndFooter bw (ranges_of ?start ess) off = Some (Inr bw1)" "bw_good bw1"
    "bw_image bw1 = write_at (bw_image bw) (bw_end bw) (index_bytes ?start ess @ footer_bytes off)" "fDev (bwFile bw1) = dev"
    using writeIndexAndFooter_spec [OF wr(6,3) refl, of ?start off] wr(9) by auto
  let ?bw2 = "bw_Flush bw1"
  note fl = bw_Flush_good [OF ix(2)]
  let ?rest = "enc_blocks ess @ index_bytes ?start ess @ footer_bytes off"
  have data: "fData (bwFile ?bw2) = write_at [] ?start ?rest"
    unfolding fl(6) ix(3) wr(7,8) write_at_write_at by simp
  have rest: "?rest \<noteq> []" by (simp add: footer_bytes_def)
  define f2 where "f2 = (bwFile ?bw2)\<lparr>fData := table_file flt' ess\<rparr>"
  have good2: "fOpen (bwFile ?bw2)" "good_device (fDev (bwFile ?bw2))" "bwErr ?bw2 = None" using fl(1) by (auto simp: bw_good_def)
  have "write_at (fData (bwFile ?bw2)) 0 (MarshalBinary flt') = table_file flt' ess"
    unfolding data backfill [OF start [symmetric] rest] by (simp only: table_file_def Let_def off_def start)
  then have wa: "os_WriteAt (bwFile ?bw2) (MarshalBinary flt') 0 = (f2, length (MarshalBinary flt'), None)"
    using good2(1,2) by (simp add: os_WriteAt_def good_device_def f2_def)
  have "length (enc_blocks ess) < 2 ^ 60" using length_enc_blocks [of ess] wr(2) len by simp
  moreover have "sorted_keys (concat ess)" using wr(2) skl.rel_sorted [OF rel(1)] by simp
  moreover have "\<forall>k \<in> fst ` set (concat ess). Contains xxh3 k flt' = Some True"
    using bloom.no_false_negative [OF flt(2) wr(4)] wr(2) by simp
  ultimately obtain t where t: "loadMetadata stale (fresh_table (ranges_of (length (MarshalBinary flt')) ess) flt' f2 path) = Some (Inr t)"
    "table_holds xxh3 t (concat ess)" "tPath t = path"
    using fresh_table_holds [OF wr(3) _ wr(5), of xxh3 f2 stale path] good2 by (auto simp: f2_def)
  have "flush_file xxh3 fbits fhashes stale \<lparr>fData = [], fPos = 0, fOpen = True, fDev = dev\<rparr> path sk = Some (sk, Inr t)"
    unfolding flush_file_def prep Option.bind.simps sum.case prod.case wr(1) off_def [symmetric] ix(1) Let_def good2(3)
      option.case wa
    using t(1) by (simp only: fresh_table_def start) simp
  then show ?thesis using t(2,3) wr(2) by blast
qed

section \<open>Open\<close>

lemma bloom_header: "take HeaderSize (MarshalBinary f) = put_u32 Magic @ [Version] @ put_u64 (numBits f) @ put_u32 (numHashes f) @ put_u64 (seed f)"
  by (simp add: MarshalBinary_def HeaderSize_def)

lemma loadBloomFilter_spec:
  assumes f: "wf_filter flt" and fil: "fOpen file" "good_device (fDev file)" "fData file = MarshalBinary flt @ rest"
    and len: "sstableFooterSize \<le> length rest"
  shows "loadBloomFilter file (length (fData file)) = Inr (flt, length (MarshalBinary flt))"
proof -
  let ?hdr = "take HeaderSize (MarshalBinary flt)"
  have r1: "os_ReadAt file (replicate HeaderSize 0) 0 = (?hdr, None)"
    using os_ReadAt_good [OF fil(1,2), of 0 "replicate HeaderSize 0"] fil(3) by simp
  have r2: "os_ReadAt file (replicate (HeaderSize + unat (numBits flt div 64) * 8) 0) 0 = (MarshalBinary flt, None)"
    using os_ReadAt_good [OF fil(1,2), of 0 "replicate (length (MarshalBinary flt)) 0"] fil(3) wf_numBits_div [OF f]
    by (simp add: mult.commute)
  have flds: "get_u32 ?hdr = Magic" "?hdr ! 4 = Version" "get_u64 (drop 5 ?hdr) = numBits flt"
    unfolding bloom_header by (simp_all add: nth_append)
  have "numBits flt \<noteq> 0" "numBits flt mod 64 = 0" using wf_filter_numBits_pos [OF f] wf_numBits_mod [OF f] by simp_all
  moreover have "\<not> length (fData file) < HeaderSize + unat (numBits flt div 64) * 8 + sstableFooterSize"
    "\<not> length (fData file) < sstableFooterSize"
    using fil(3) len wf_numBits_div [OF f] by simp_all
  ultimately show ?thesis
    using r1 r2 flds Unmarshal_Marshal [OF f] wf_numBits_div [OF f]
    by (simp add: loadBloomFilter_def Let_def ReadFilter_def mult.commute)
qed

lemma readIndexData_spec:
  assumes fil: "fOpen file" "good_device (fDev file)" "fData file = pre @ blocks @ index @ footer_bytes (of_nat (length pre + length blocks))"
    and len: "length (fData file) < 2 ^ 63"
  shows "readIndexData file (length (fData file)) (length pre) = Inr index"
proof -
  let ?off = "length pre + length blocks" and ?fo = "length (fData file) - sstableFooterSize"
  have fo: "?fo = ?off + length index" using fil(3) by simp
  have d: "drop ?fo (fData file) = footer_bytes (of_nat ?off)" unfolding fo using fil(3) by simp
  then have "take sstableFooterSize (drop ?fo (fData file)) = footer_bytes (of_nat ?off)" by simp
  moreover have "?fo + sstableFooterSize \<le> length (fData file)" using fil(3) by simp
  ultimately have r1: "os_ReadAt file (replicate sstableFooterSize 0) ?fo = (footer_bytes (of_nat ?off), None)"
    using os_ReadAt_good [OF fil(1,2), of ?fo "replicate sstableFooterSize 0"] by simp
  have u: "unat (of_nat ?off :: u64) = ?off" using len fil(3) unat_of_nat_bound(3) [of ?off] by simp
  have flds: "get_u32 (drop 8 (footer_bytes (of_nat ?off))) = sstableMagic" "footer_bytes (of_nat ?off) ! 12 = sstableVersion"
    "get_u64 (footer_bytes (of_nat ?off)) = of_nat ?off"
    by (simp_all add: footer_bytes_def nth_append)
  have r2: "os_ReadAt file (replicate (length index) 0) ?off = (index, None)"
    using os_ReadAt_good [OF fil(1,2), of ?off "replicate (length index) 0"] fil(3) by simp
  show ?thesis
    unfolding readIndexData_def Let_def fo r1 [unfolded fo] prod.case flds u using r2 by simp
qed

lemma Open_spec:
  assumes "list_all block_ok ess" "sorted_keys (concat ess)" "wf_filter flt" "\<forall>k \<in> fst ` set (concat ess). Contains xxh3 k flt = Some True"
    and dev: "good_device dev" and fs: "fs path = Some (table_file flt ess)" and len: "length (enc_blocks ess) < 2 ^ 60"
  shows "\<exists>t. Open stale dev fs path = Some (Inr t) \<and> table_holds xxh3 t (concat ess) \<and> tPath t = path \<and> tFilter t = Some flt \<and>
    tIdx t = ranges_of (length (MarshalBinary flt)) ess \<and> fData (tF t) = table_file flt ess"
proof -
  let ?start = "length (MarshalBinary flt)"
  define f where "f = \<lparr>fData = table_file flt ess, fPos = 0, fOpen = True, fDev = dev\<rparr>"
  have f: "fOpen f" "good_device (fDev f)" "fData f = table_file flt ess" using dev by (simp_all add: f_def)
  obtain t where t: "loadMetadata stale (fresh_table (ranges_of ?start ess) flt f path) = Some (Inr t)"
    "table_holds xxh3 t (concat ess)" "fData (tF t) = table_file flt ess" "tPath t = path" "tFilter t = Some flt" "tIdx t = ranges_of ?start ess"
    using fresh_table_holds [OF assms(1-4) f len] by blast
  have ld: "loadBloomFilter f (length (table_file flt ess)) = Inr (flt, ?start)"
    using loadBloomFilter_spec [OF assms(3) f(1,2), of "enc_blocks ess @ index_bytes ?start ess @ footer_bytes (of_nat (?start + length (enc_blocks ess)))"] f(3)
    by (simp add: table_file_def Let_def)
  have rd: "readIndexData f (length (table_file flt ess)) ?start = Inr (index_bytes ?start ess)"
    using readIndexData_spec [OF f(1,2), of "MarshalBinary flt" "enc_blocks ess" "index_bytes ?start ess"] f(3)
      length_table_file [OF assms(1,3) len]
    by (simp add: table_file_def Let_def)
  have dec: "decodeFullRange (index_bytes ?start ess) = Some (ranges_of ?start ess)"
    unfolding index_bytes_def using ranges_keys_ok [OF assms(1)] by (intro decode_encoded_index) blast
  have sz: "os_Size f = Inr (length (table_file flt ess))" using f dev by (simp add: os_Size_def good_device_def)
  have "Open stale dev fs path = loadMetadata stale (fresh_table (ranges_of ?start ess) flt f path)"
    using fs dev by (simp only: Open_def Let_def option.case f_def [symmetric] sz sum.case ld prod.case rd dec Option.bind.simps fresh_table_def)
      (simp add: good_device_def)
  then show ?thesis using t by simp
qed

section \<open>Lookups, scans and iteration\<close>

lemma table_holds_cache: "table_holds xxh3 t kvs \<Longrightarrow> \<exists>ess. concat ess = kvs \<and> table_rep xxh3 t ess \<and>
    (\<forall>c. table_rep xxh3 (t\<lparr>tCache := c\<rparr>) ess \<longrightarrow> table_holds xxh3 (t\<lparr>tCache := c\<rparr>) kvs)"
  by (auto simp: table_holds_def)

lemma Table_Get_holds:
  assumes "table_holds xxh3 t kvs"
  shows "\<exists>t'. Table_Get xxh3 stale t key = Some (Inr (Option.bind (map_of kvs key) append_nil, t')) \<and> table_holds xxh3 t' kvs"
proof -
  obtain ess where ess: "concat ess = kvs" "table_rep xxh3 t ess"
    "\<forall>c. table_rep xxh3 (t\<lparr>tCache := c\<rparr>) ess \<longrightarrow> table_holds xxh3 (t\<lparr>tCache := c\<rparr>) kvs"
    using table_holds_cache [OF assms] by blast
  then show ?thesis using Table_Get_spec [OF ess(2), of stale key] by blast
qed

text \<open>What a scan with a callback computes: the callback over the entries until it fails.\<close>

fun scan_list :: "('s \<Rightarrow> bytes \<Rightarrow> bytes \<Rightarrow> 's \<times> 'e option) \<Rightarrow> (bytes \<times> bytes) list \<Rightarrow> 's \<Rightarrow> 's \<times> 'e option" where
  "scan_list fn [] s = (s, None)"
| "scan_list fn (e # es) s = (case fn s (fst e) (snd e) of (s', None) \<Rightarrow> scan_list fn es s' | (s', Some err) \<Rightarrow> (s', Some err))"

lemma scan_list_append:
  "scan_list fn (xs @ ys) s = (case scan_list fn xs s of (s', None) \<Rightarrow> scan_list fn ys s' | (s', Some err) \<Rightarrow> (s', Some err))"
  by (induction xs arbitrary: s) (auto split: prod.splits option.splits)

lemma scan_block_spec:
  assumes "block_ok es"
  shows "scan_block fn (block_of es) [0..<length es] s = Some (scan_list fn es s)"
proof -
  have e: "entryAt (block_of es) i = Some (es ! i)" if "i < length es" for i
    using assms that by (intro entryAt_block_of) (auto simp: block_ok_def sstableBlockSize_def)
  have "scan_block fn (block_of es) [i..<length es] s = Some (scan_list fn (drop i es) s)" if "i \<le> length es" for i
    using that
  proof (induction "length es - i" arbitrary: i s)
    case (Suc d)
    then have i: "i < length es" by simp
    then have "[i..<length es] = i # [Suc i..<length es]" "drop i es = es ! i # drop (Suc i) es"
      by (simp_all add: upt_conv_Cons Cons_nth_drop_Suc)
    then show ?case using e [OF i] Suc.hyps(1) [of "Suc i"] Suc.hyps(2) i
      by (auto simp: split_beta split: option.split prod.split)
  qed simp
  from this [of 0] show ?thesis by simp
qed

lemma scan_ranges_spec:
  assumes "table_rep xxh3 t ess" "i \<le> length ess"
  shows "\<exists>c. scan_ranges stale fn (drop i (tIdx t)) t s =
      Some (t\<lparr>tCache := c\<rparr>, fst (scan_list fn (concat (drop i ess)) s), map_option Inr (snd (scan_list fn (concat (drop i ess)) s))) \<and>
    table_rep xxh3 (t\<lparr>tCache := c\<rparr>) ess"
  using assms
proof (induction "length ess - i" arbitrary: i t s)
  case 0
  have "length (tIdx t) = length ess" using "0.prems"(1) by (auto simp: table_rep_def)
  then show ?case using 0 by (intro exI [of _ "tCache t"]) simp
next
  case (Suc d)
  have i: "i < length ess" using Suc.hyps(2) by simp
  have "length (tIdx t) = length ess" using Suc.prems(1) by (auto simp: table_rep_def)
  then have d: "drop i (tIdx t) = tIdx t ! i # drop (Suc i) (tIdx t)" "drop i ess = ess ! i # drop (Suc i) ess"
    using i by (simp_all add: Cons_nth_drop_Suc)
  obtain c where c: "getCachedBlock stale t (tIdx t ! i) = Some (Inr (block_of (ess ! i), t\<lparr>tCache := c\<rparr>))"
    "table_rep xxh3 (t\<lparr>tCache := c\<rparr>) ess" using getCachedBlock_spec [OF Suc.prems(1) i] by blast
  have ok: "block_ok (ess ! i)" using Suc.prems(1) i by (simp add: table_rep_def list_all_length)
  have len: "length (entryOffsets (block_of (ess ! i))) = length (ess ! i)" by (simp add: block_of_def)
  obtain s1 e1 where sc: "scan_list fn (ess ! i) s = (s1, e1)" by fastforce
  show ?case
  proof (cases e1)
    case None
    have "\<exists>c'. scan_ranges stale fn (drop (Suc i) (tIdx t)) (t\<lparr>tCache := c\<rparr>) s1 =
        Some (t\<lparr>tCache := c'\<rparr>, fst (scan_list fn (concat (drop (Suc i) ess)) s1), map_option Inr (snd (scan_list fn (concat (drop (Suc i) ess)) s1))) \<and>
      table_rep xxh3 (t\<lparr>tCache := c'\<rparr>) ess"
      using Suc.hyps(1) [OF _ c(2), of "Suc i" s1] Suc.hyps(2) i by simp
    then obtain c' where
      "scan_ranges stale fn (drop (Suc i) (tIdx t)) (t\<lparr>tCache := c\<rparr>) s1 =
        Some (t\<lparr>tCache := c'\<rparr>, fst (scan_list fn (concat (drop (Suc i) ess)) s1), map_option Inr (snd (scan_list fn (concat (drop (Suc i) ess)) s1)))"
      "table_rep xxh3 (t\<lparr>tCache := c'\<rparr>) ess" by blast
    then show ?thesis using c(1) d scan_block_spec [OF ok, of fn s] len sc None
      by (intro exI [of _ c']) (simp add: scan_list_append)
  next
    case (Some err)
    then show ?thesis using c d scan_block_spec [OF ok, of fn s] len sc
      by (intro exI [of _ c]) (simp add: scan_list_append)
  qed
qed

lemma Scan_holds:
  assumes "table_holds xxh3 t kvs"
  shows "\<exists>t'. Scan stale t (Some fn) s = Some (t', fst (scan_list fn kvs s), map_option Inr (snd (scan_list fn kvs s))) \<and> table_holds xxh3 t' kvs"
proof -
  obtain ess where ess: "concat ess = kvs" "table_rep xxh3 t ess"
    "\<forall>c. table_rep xxh3 (t\<lparr>tCache := c\<rparr>) ess \<longrightarrow> table_holds xxh3 (t\<lparr>tCache := c\<rparr>) kvs"
    using table_holds_cache [OF assms] by blast
  then show ?thesis using scan_ranges_spec [OF ess(2), of 0 stale fn s] by (auto simp: Scan_def)
qed

definition ti_pos :: "(bytes \<times> bytes) list list \<Rightarrow> TableIterator \<Rightarrow> nat \<Rightarrow> bool" where
  "ti_pos ess it n \<longleftrightarrow> tiErr it = None \<and>
     (n = length (concat ess) \<and> tiBlock it = None \<or>
      (\<exists>r j. r < length ess \<and> j < length (ess ! r) \<and> n = length (concat (take r ess)) + j \<and>
         tiRange it = int r \<and> tiEntry it = int j \<and> tiBlock it = Some (block_of (ess ! r))))"

lemma ti_posI:
  "tiErr it = None \<Longrightarrow> r < length ess \<Longrightarrow> j < length (ess ! r) \<Longrightarrow> tiRange it = int r \<Longrightarrow> tiEntry it = int j \<Longrightarrow>
    tiBlock it = Some (block_of (ess ! r)) \<Longrightarrow> ti_pos ess it (length (concat (take r ess)) + j)"
  unfolding ti_pos_def by blast

definition ti_at :: "(bytes \<Rightarrow> u64 \<Rightarrow> u64) \<Rightarrow> Table \<Rightarrow> (bytes \<times> bytes) list \<Rightarrow> TableIterator \<Rightarrow> nat \<Rightarrow> bool" where
  "ti_at xxh3 t kvs it n \<longleftrightarrow> (\<exists>ess. concat ess = kvs \<and> table_rep xxh3 t ess \<and> ti_pos ess it n)"

lemma block_of_offsets [simp]: "length (entryOffsets (block_of es)) = length es"
  by (simp add: block_of_def)

lemma block_of_offsets_Nil [simp]: "entryOffsets (block_of es) = [] \<longleftrightarrow> es = []"
  by (metis block_of_offsets length_0_conv)

lemma concat_pos:
  assumes "r < length ess" "j < length (ess ! r)"
  shows "length (concat (take r ess)) + j < length (concat ess)" "concat ess ! (length (concat (take r ess)) + j) = ess ! r ! j"
proof -
  have "concat ess = concat (take r ess) @ ess ! r @ concat (drop (Suc r) ess)"
    by (subst id_take_nth_drop [OF assms(1)]) simp
  then show "length (concat (take r ess)) + j < length (concat ess)" "concat ess ! (length (concat (take r ess)) + j) = ess ! r ! j"
    using assms(2) by (simp_all add: nth_append)
qed

lemma load_start:
  assumes rep: "table_rep xxh3 t ess" and r: "r \<le> length ess"
  shows "\<exists>c it'. load_loop stale (tIdx t) t \<lparr>tiRange = int r, tiEntry = 0, tiBlock = None, tiErr = None\<rparr> = Some (t\<lparr>tCache := c\<rparr>, it') \<and>
    table_rep xxh3 (t\<lparr>tCache := c\<rparr>) ess \<and> ti_pos ess it' (length (concat (take r ess)))"
proof -
  have len: "length (tIdx t) = length ess" using rep by (auto simp: table_rep_def)
  show ?thesis
  proof (cases "r < length ess")
    case True
    obtain c where c: "getCachedBlock stale t (tIdx t ! r) = Some (Inr (block_of (ess ! r), t\<lparr>tCache := c\<rparr>))"
      "table_rep xxh3 (t\<lparr>tCache := c\<rparr>) ess" using getCachedBlock_spec [OF rep True] by blast
    have "block_ok (ess ! r)" using rep True by (simp add: table_rep_def list_all_length)
    then have ne: "0 < length (ess ! r)" by (simp add: block_ok_def)
    then have "load_loop stale (tIdx t) t \<lparr>tiRange = int r, tiEntry = 0, tiBlock = None, tiErr = None\<rparr> =
        Some (t\<lparr>tCache := c\<rparr>, \<lparr>tiRange = int r, tiEntry = 0, tiBlock = Some (block_of (ess ! r)), tiErr = None\<rparr>)"
      using c(1) True len by (subst load_loop.simps) simp
    moreover have "ti_pos ess \<lparr>tiRange = int r, tiEntry = 0, tiBlock = Some (block_of (ess ! r)), tiErr = None\<rparr> (length (concat (take r ess)))"
      using ti_posI [of _ r ess 0] True ne by simp
    ultimately show ?thesis using c(2) by blast
  next
    case False
    then have "load_loop stale (tIdx t) t \<lparr>tiRange = int r, tiEntry = 0, tiBlock = None, tiErr = None\<rparr> =
        Some (t, \<lparr>tiRange = int r, tiEntry = 0, tiBlock = None, tiErr = None\<rparr>)"
      using len by (subst load_loop.simps) simp
    then show ?thesis using False r rep
      by (intro exI [of _ "tCache t"] exI conjI) (auto simp: ti_pos_def)
  qed
qed

lemma ti_read:
  assumes rep: "table_rep xxh3 t ess" and pos: "ti_pos ess it n"
  shows "ti_Valid t it = (n < length (concat ess))"
    "ti_entry t it = Some (if n < length (concat ess) then Some (concat ess ! n) else None)"
proof -
  have len: "length (tIdx t) = length ess" using rep by (auto simp: table_rep_def)
  consider (past) "n = length (concat ess)" "tiBlock it = None"
    | (on) r j where "r < length ess" "j < length (ess ! r)" "n = length (concat (take r ess)) + j"
        "tiRange it = int r" "tiEntry it = int j" "tiBlock it = Some (block_of (ess ! r))" "tiErr it = None"
    using pos by (auto simp: ti_pos_def)
  then have "ti_Valid t it = (n < length (concat ess)) \<and>
    ti_entry t it = Some (if n < length (concat ess) then Some (concat ess ! n) else None)"
  proof cases
    case past
    then show ?thesis by (simp add: ti_Valid_def ti_entry_def)
  next
    case on
    note p = concat_pos [OF on(1,2)]
    have "block_ok (ess ! r)" using rep on(1) by (simp add: table_rep_def list_all_length)
    then have "entryAt (block_of (ess ! r)) j = Some (ess ! r ! j)"
      using on(2) by (intro entryAt_block_of) (auto simp: block_ok_def sstableBlockSize_def)
    then show ?thesis using on p len by (simp add: ti_Valid_def ti_entry_def)
  qed
  then show "ti_Valid t it = (n < length (concat ess))"
    "ti_entry t it = Some (if n < length (concat ess) then Some (concat ess ! n) else None)" by simp_all
qed

lemma ti_Next_step:
  assumes rep: "table_rep xxh3 t ess" and pos: "ti_pos ess it n" and n: "n < length (concat ess)"
  shows "\<exists>c it'. ti_Next stale t it = Some (t\<lparr>tCache := c\<rparr>, it') \<and> table_rep xxh3 (t\<lparr>tCache := c\<rparr>) ess \<and> ti_pos ess it' (Suc n)"
proof -
  have len: "length (tIdx t) = length ess" using rep by (auto simp: table_rep_def)
  obtain r j where on: "r < length ess" "j < length (ess ! r)" "n = length (concat (take r ess)) + j"
    "tiRange it = int r" "tiEntry it = int j" "tiBlock it = Some (block_of (ess ! r))" "tiErr it = None"
    using pos n by (auto simp: ti_pos_def)
  have v: "ti_Valid t it" using ti_read(1) [OF rep pos] n by simp
  have nx: "ti_Next stale t it = load_loop stale (tIdx t) t (it\<lparr>tiEntry := int (Suc j)\<rparr>)"
    using v on by (simp add: ti_Next_def loadCurrent_def add.commute)
  show ?thesis
  proof (cases "Suc j < length (ess ! r)")
    case True
    then have "load_loop stale (tIdx t) t (it\<lparr>tiEntry := int (Suc j)\<rparr>) = Some (t, it\<lparr>tiEntry := int (Suc j)\<rparr>)"
      using on len by (subst load_loop.simps) simp
    moreover have "ti_pos ess (it\<lparr>tiEntry := int (Suc j)\<rparr>) (Suc n)"
      using ti_posI [of "it\<lparr>tiEntry := int (Suc j)\<rparr>" r ess "Suc j"] on True by simp
    ultimately show ?thesis using nx rep by (intro exI [of _ "tCache t"]) simp
  next
    case False
    have it': "it\<lparr>tiRange := int r + 1, tiEntry := 0, tiBlock := None\<rparr> =
        \<lparr>tiRange = 1 + int r, tiEntry = 0, tiBlock = None, tiErr = None\<rparr>" using on(7) by (cases it) simp
    have "load_loop stale (tIdx t) t (it\<lparr>tiEntry := int (Suc j)\<rparr>) =
        load_loop stale (tIdx t) t \<lparr>tiRange = int (Suc r), tiEntry = 0, tiBlock = None, tiErr = None\<rparr>"
      using on len False by (subst load_loop.simps) (simp add: it')
    moreover have "Suc n = length (concat (take (Suc r) ess))"
      using on(1-3) False by (simp add: take_Suc_conv_app_nth)
    ultimately show ?thesis using load_start [OF rep, of "Suc r" stale] on(1) nx by auto
  qed
qed

lemma ti_cursor:
  assumes "ti_at xxh3 t kvs it n"
  shows "ti_Valid t it = (n < length kvs)"
    "ti_Key t it = Some (if n < length kvs then Some (fst (kvs ! n)) else None)"
    "ti_Value t it = Some (if n < length kvs then Some (snd (kvs ! n)) else None)"
    "ti_Err it = None"
    "\<exists>t' it'. ti_Next stale t it = Some (t', it') \<and> ti_at xxh3 t' kvs it' (cursor_next kvs n)"
    "\<exists>t' it'. ti_Rewind stale t it = Some (t', it') \<and> ti_at xxh3 t' kvs it' 0"
proof -
  obtain ess where ess: "concat ess = kvs" "table_rep xxh3 t ess" "ti_pos ess it n" using assms by (auto simp: ti_at_def)
  note rd = ti_read [OF ess(2,3), unfolded ess(1)]
  show v: "ti_Valid t it = (n < length kvs)" using rd(1) .
  show "ti_Key t it = Some (if n < length kvs then Some (fst (kvs ! n)) else None)"
    "ti_Value t it = Some (if n < length kvs then Some (snd (kvs ! n)) else None)"
    using rd(2) by (simp_all add: ti_Key_def ti_Value_def)
  show "ti_Err it = None" using ess(3) by (simp add: ti_Err_def ti_pos_def)
  show "\<exists>t' it'. ti_Next stale t it = Some (t', it') \<and> ti_at xxh3 t' kvs it' (cursor_next kvs n)"
  proof (cases "n < length kvs")
    case True
    then have "n < length (concat ess)" using ess(1) by simp
    from ti_Next_step [OF ess(2,3) this, of stale] show ?thesis
      using ess(1) True unfolding ti_at_def cursor_next_def by auto
  next
    case False
    then show ?thesis using v assms by (simp add: ti_Next_def cursor_next_def)
  qed
  show "\<exists>t' it'. ti_Rewind stale t it = Some (t', it') \<and> ti_at xxh3 t' kvs it' 0"
    using load_start [OF ess(2), of 0 stale] ess(1) unfolding ti_at_def ti_Rewind_def loadCurrent_def by fastforce
qed

section \<open>Properties of sstables\<close>

definition flushable :: "(bytes \<times> bytes) list \<Rightarrow> bool" where
  "flushable kvs \<longleftrightarrow> (\<forall>e \<in> set kvs. fits e) \<and> (\<Sum>e \<leftarrow> kvs. length (enc_entry e)) < 2 ^ 60"

text \<open>The bloom filter the floating-point sizing gives for this many entries is well-formed.\<close>

definition sizing_ok :: "(int \<Rightarrow> real \<Rightarrow> real) \<Rightarrow> (int \<Rightarrow> int \<Rightarrow> real) \<Rightarrow> nat \<Rightarrow> bool" where
  "sizing_ok fbits fhashes n \<longleftrightarrow>
     (case NewFor fbits fhashes (int n) bloomFalsePositiveRate of None \<Rightarrow> False | Some f \<Rightarrow> wf_filter f)"

lemma Flush_spec:
  assumes "sl_rel sk kvs" "0 < slRef sk" "flushable kvs" "sizing_ok fbits fhashes (length kvs)" "good_device dev"
  shows "\<exists>t. Flush xxh3 fbits fhashes stale dev now fs dir sk = Some (fs((dir, sstableID now) \<mapsto> fData (tF t)), sk, Inr t) \<and>
    table_holds xxh3 t kvs \<and> tPath t = (dir, sstableID now)"
proof -
  obtain flt where f: "NewFor fbits fhashes (int (length kvs)) bloomFalsePositiveRate = Some flt" "wf_filter flt"
    using assms(4) by (auto simp: sizing_ok_def split: option.splits)
  obtain t where t: "flush_file xxh3 fbits fhashes stale \<lparr>fData = [], fPos = 0, fOpen = True, fDev = dev\<rparr> (dir, sstableID now) sk = Some (sk, Inr t)"
    "table_holds xxh3 t kvs" "tPath t = (dir, sstableID now)"
    using flush_file_spec [OF assms(1,2) _ f assms(5)] assms(3) unfolding flushable_def by blast
  then show ?thesis using assms(5) by (simp add: Flush_def Let_def good_device_def)
qed

lemma table_holds_reopen:
  assumes "table_holds xxh3 t kvs" "flushable kvs" "good_device dev" "fs path = Some (fData (tF t))"
  shows "\<exists>u. Open stale dev fs path = Some (Inr u) \<and> table_holds xxh3 u kvs \<and> tPath u = path \<and> fData (tF u) = fData (tF t) \<and> tIdx u = tIdx t \<and>
    tFilter u = tFilter t \<and> tSmallest u = tSmallest t \<and> tLargest u = tLargest t \<and> tSizeBytes u = tSizeBytes t"
proof -
  obtain ess flt where e: "concat ess = kvs" "table_rep xxh3 t ess" "tFilter t = Some flt" "fData (tF t) = table_file flt ess"
    "tIdx t = ranges_of (length (MarshalBinary flt)) ess" "tSizeBytes t = length (fData (tF t))"
    "tSmallest t = key_bound hd kvs" "tLargest t = key_bound last kvs"
    using assms(1) by (auto simp: table_holds_def)
  have ok: "list_all block_ok ess" "sorted_keys (concat ess)" "wf_filter flt" "\<forall>k \<in> fst ` set (concat ess). Contains xxh3 k flt = Some True"
    using e(2,3) by (auto simp: table_rep_def)
  have "length (enc_blocks ess) < 2 ^ 60"
    using assms(2) e(1) length_enc_blocks [of ess] by (simp add: flushable_def)
  from Open_spec [OF ok assms(3) _ this, of fs path stale] assms(4) e(4) obtain u where
    u: "Open stale dev fs path = Some (Inr u)" "table_holds xxh3 u kvs" "tPath u = path" "tFilter u = Some flt"
    "tIdx u = ranges_of (length (MarshalBinary flt)) ess" "fData (tF u) = table_file flt ess"
    using e(1) by auto
  moreover have "tSmallest u = key_bound hd kvs" "tLargest u = key_bound last kvs" "tSizeBytes u = length (fData (tF u))"
    using u(2) by (auto simp: table_holds_def)
  ultimately show ?thesis using e by auto
qed

lemma Flush_too_large:
  assumes rel: "sl_rel sk kvs" "0 < slRef sk" and big: "j < length kvs" "\<not> fits (kvs ! j)" "\<forall>e \<in> set (take j kvs). fits e"
    and siz: "sizing_ok fbits fhashes (length kvs)" and dev: "good_device dev"
  shows "Flush xxh3 fbits fhashes stale dev now fs dir sk =
    Some (fs((dir, sstableID now) := None), sk, Inl (EntryExceedsBlockSize (fst (kvs ! j))))"
proof -
  obtain flt where f: "NewFor fbits fhashes (int (length kvs)) bloomFalsePositiveRate = Some flt" "wf_filter flt"
    using siz by (auto simp: sizing_ok_def split: option.splits)
  let ?start = "length (MarshalBinary flt)"
  define f1 where "f1 = \<lparr>fData = [], fPos = ?start, fOpen = True, fDev = dev\<rparr>"
  have prep: "prepareBloomFilter fbits fhashes \<lparr>fData = [], fPos = 0, fOpen = True, fDev = dev\<rparr> sk = Some (Inr (flt, ?start, f1, sk))"
    using countEntries_spec [OF rel] f(1) dev by (simp add: prepareBloomFilter_def os_Seek_def good_device_def f1_def)
  have new: "bw_good (bw_New f1 4096)" "bw_image (bw_New f1 4096) = []" "bw_end (bw_New f1 4096) = ?start"
    using bw_New_good [of f1 4096] dev by (simp_all add: f1_def)
  define w0 where "w0 = \<lparr>bkIdx = [], bkBw = bw_New f1 4096, bkOffset = of_nat ?start, bkBlock = [], bkRange = emptyRange\<rparr>"
  have inv0: "writer_inv ?start (fDev (bwFile (bw_New f1 4096))) w0 [] []" using new by (simp add: writer_inv_def w0_def)
  obtain it where it: "it_Rewind (incrRef sk) \<lparr>itOpen = True, itNode = 0\<rparr> = Some it" "it_at (incrRef sk) kvs it 0"
    using fresh_iterator [OF rel(1)] by blast
  have "blocks_loop xxh3 (incrRef sk) it flt w0 = Some (Inl (EntryExceedsBlockSize (fst (kvs ! j))))"
    using big by (intro blocks_loop_too_large [OF it(2) f(2) _ _ _ _ inv0]) simp_all
  then have "writeDataBlocks xxh3 (bw_New f1 4096) sk flt (of_nat ?start) = Some (sk, Inl (EntryExceedsBlockSize (fst (kvs ! j))))"
    using it(1) decr_incr_ref [OF rel(2)] by (simp add: writeDataBlocks_def NewIterator_def it_Close_def w0_def)
  then have "flush_file xxh3 fbits fhashes stale \<lparr>fData = [], fPos = 0, fOpen = True, fDev = dev\<rparr> (dir, sstableID now) sk =
      Some (sk, Inl (EntryExceedsBlockSize (fst (kvs ! j))))"
    by (simp only: flush_file_def prep Option.bind.simps sum.case prod.case)
  then show ?thesis using dev by (simp add: Flush_def Let_def good_device_def)
qed

text \<open>A small memtable the witnesses share.\<close>

lemma witness_sizing: "sizing_ok (\<lambda>_ _. 20) (\<lambda>_ _. 2) n"
  by (simp add: sizing_ok_def NewFor_def NewForSeeded_def optimalBits_def optimalHashes_def go_round_def bloomFalsePositiveRate_def
      wordCount_def WordBits_def Let_def wf_filter_def)

lemma witness_memtable: "\<exists>sk. sl_rel sk [([5], [2, 3]), ([7], [])] \<and> 0 < slRef sk"
proof -
  obtain s where s: "sl_rel s []" "sl_cap s = 330" "sl_used s = 104" using New_refines [of 330] by auto
  obtain t where t: "sl_rel t [([5], [2, 3])]" "sl_cap t = 330" "sl_used t \<le> 210"
    using skl.put_rel [OF s(1), of "[5]" "[2, 3]"] s by (auto simp: worst_cost_def node_cost_def maxHeight_def)
  obtain u where u: "sl_rel u [([5], [2, 3]), ([7], [])]"
    using skl.put_rel [OF t(1), of "[7]" "[]"] t by (auto simp: worst_cost_def node_cost_def maxHeight_def)
  then show ?thesis by (intro exI [of _ "u\<lparr>slRef := 1\<rparr>"]) simp
qed

lemma witness_flushable: "flushable [([5], [2, 3]), ([7], [])]"
  by (simp add: flushable_def fits_def sst_consts)

lemma witness_table: "\<exists>t. table_holds (\<lambda>b s. 0) t [([5], [2, 3]), ([7], [])]"
proof -
  obtain sk where sk: "sl_rel sk [([5], [2, 3]), ([7], [])]" "0 < slRef sk" using witness_memtable by blast
  show ?thesis using Flush_spec [OF sk witness_flushable witness_sizing good_perfect, of "\<lambda>b s. 0"] by blast
qed

interpretation tbl_cursor: cursor "\<lambda>(t, it) kvs n. ti_at xxh3 t kvs it n" "\<lambda>(t, it). ti_Valid t it" "\<lambda>(t, it). ti_Key t it"
  "\<lambda>(t, it). ti_Value t it" "\<lambda>(t, it). ti_Next stale t it" for xxh3 stale
proof unfold_locales
  fix st kvs n
  assume "(\<lambda>(t, it) kvs n. ti_at xxh3 t kvs it n) st kvs n" "n < length kvs"
  moreover obtain t it where "st = (t, it)" by fastforce
  ultimately show "\<exists>st'. (\<lambda>(t, it). ti_Next stale t it) st = Some st' \<and> (\<lambda>(t, it) kvs n. ti_at xxh3 t kvs it n) st' kvs (Suc n)"
    using ti_cursor(5) [of xxh3 t kvs it n stale] by (auto simp: cursor_next_def)
next
  fix st kvs n
  assume "(\<lambda>(t, it) kvs n. ti_at xxh3 t kvs it n) st kvs n"
  then show "n \<le> length kvs"
    using concat_pos(1) by (cases st) (fastforce simp: ti_at_def ti_pos_def)
qed (auto simp: ti_cursor)

lemma ti_start:
  assumes "table_holds xxh3 t kvs"
  shows "\<exists>t' it. ti_Rewind stale t ti_New = Some (t', it) \<and> ti_at xxh3 t' kvs it 0"
proof -
  obtain ess where "concat ess = kvs" "table_rep xxh3 t ess" using assms by (auto simp: table_holds_def)
  then show ?thesis using load_start [of xxh3 t ess 0 stale] unfolding ti_at_def ti_Rewind_def loadCurrent_def by fastforce
qed

text \<open>
  C4: a flushed memtable can be read back. When every entry of the memtable fits in a block, the
  filter sizing is sane and the device has no fault, \<open>Flush\<close> succeeds, leaves the memtable as it was and
  registers the file under the new name only; and every \<open>Get\<close> on the returned table, with any contents
  of the pooled read buffer, returns the value of the key in the memtable without an error or a panic and
  keeps the table readable in the same way. The one exception is spelled out: a value that is empty
  comes back as nil.
\<close>

theorem flush_then_get:
  assumes "sl_rel sk kvs" "0 < slRef sk" "flushable kvs" "sizing_ok fbits fhashes (length kvs)" "good_device dev"
  shows "\<exists>t. Flush xxh3 fbits fhashes stale dev now fs dir sk = Some (fs((dir, sstableID now) \<mapsto> fData (tF t)), sk, Inr t) \<and>
    table_holds xxh3 t kvs \<and>
    (\<forall>u key stale'. table_holds xxh3 u kvs \<longrightarrow>
       (\<exists>u'. Table_Get xxh3 stale' u key = Some (Inr (Option.bind (map_of kvs key) append_nil, u')) \<and> table_holds xxh3 u' kvs))"
  using Flush_spec [OF assms, of xxh3 stale now fs dir] Table_Get_holds by blast

theorem flush_then_get_witness:
  "\<exists>sk t u. Flush (\<lambda>b s. 0) (\<lambda>_ _. 20) (\<lambda>_ _. 2) [] perfect_device 9 (\<lambda>_. None) ''d'' sk =
      Some ((\<lambda>_. None)((''d'', sstableID 9) \<mapsto> fData (tF t)), sk, Inr t) \<and>
    Table_Get (\<lambda>b s. 0) [1] t [5] = Some (Inr (Some [2, 3], u))"
proof -
  obtain sk where sk: "sl_rel sk [([5], [2, 3]), ([7], [])]" "0 < slRef sk" using witness_memtable by blast
  obtain t where t: "Flush (\<lambda>b s. 0) (\<lambda>_ _. 20) (\<lambda>_ _. 2) [] perfect_device 9 (\<lambda>_. None) ''d'' sk =
      Some ((\<lambda>_. None)((''d'', sstableID 9) \<mapsto> fData (tF t)), sk, Inr t)"
    "\<exists>u. Table_Get (\<lambda>b s. 0) [1] t [5] = Some (Inr (Option.bind (map_of [([5 :: byte], [2, 3]), ([7], [])] [5]) append_nil, u))"
    using flush_then_get [OF sk witness_flushable witness_sizing good_perfect, of "\<lambda>b s. 0" "[]" 9 "\<lambda>_. None" "''d''"] by blast
  then show ?thesis by (auto simp: append_nil_def)
qed

text \<open>
  C21: reopening. \<open>Open\<close> of the file a table was flushed to, on a device without faults, succeeds and
  gives a table with the same contents, index, filter, key range and size that represents the same entries.
\<close>

theorem reopen_same_table:
  assumes "table_holds xxh3 t kvs" "flushable kvs" "good_device dev" "fs path = Some (fData (tF t))"
  shows "\<exists>u. Open stale dev fs path = Some (Inr u) \<and> table_holds xxh3 u kvs \<and> tPath u = path \<and> fData (tF u) = fData (tF t) \<and> tIdx u = tIdx t \<and>
    tFilter u = tFilter t \<and> tSmallest u = tSmallest t \<and> tLargest u = tLargest t \<and> tSizeBytes u = tSizeBytes t"
  using assms by (rule table_holds_reopen)

theorem reopen_same_table_witness:
  "\<exists>t u. table_holds (\<lambda>b s. 0) t [([5], [2, 3]), ([7], [])] \<and>
    Open [] perfect_device (\<lambda>_. Some (fData (tF t))) (''d'', ''x'') = Some (Inr u) \<and> tIdx u = tIdx t"
proof -
  obtain t where t: "table_holds (\<lambda>b s. 0) t [([5], [2, 3]), ([7], [])]" using witness_table by blast
  then show ?thesis
    using reopen_same_table [OF t witness_flushable, of perfect_device "\<lambda>_. Some (fData (tF t))" "(''d'', ''x'')" "[]"] by auto
qed

text \<open>
  \<open>Scan\<close> visits exactly the entries of the table in key order, each once with its key and
  value (empty values included), stopping at the first error of the callback and returning that error.
\<close>

theorem scan_visits_entries:
  assumes "table_holds xxh3 t kvs"
  shows "\<exists>t'. Scan stale t (Some fn) s = Some (t', fst (scan_list fn kvs s), map_option Inr (snd (scan_list fn kvs s))) \<and>
    table_holds xxh3 t' kvs \<and> sorted_keys kvs"
proof -
  have "sorted_keys kvs" using assms by (auto simp: table_holds_def table_rep_def)
  then show ?thesis using Scan_holds [OF assms, of stale fn s] by blast
qed

theorem scan_visits_entries_witness:
  "\<exists>t t'. Scan [] t (Some (\<lambda>s k v. (s @ [k], None :: nat option))) [] = Some (t', [[5], [7]], None)"
proof -
  obtain t where t: "table_holds (\<lambda>b s. 0) t [([5], [2, 3]), ([7], [])]" using witness_table by blast
  then show ?thesis
    using scan_visits_entries [OF t, of "[]" "\<lambda>s k v. (s @ [k], None :: nat option)" "[]"] by auto
qed

text \<open>
  C24: the table iterator. After \<open>Rewind\<close>, looping while \<open>Valid\<close> and calling \<open>Next\<close> yields exactly the
  entries of the table in order and ends, after at most as many steps as there are entries, with an
  iterator that is not valid and carries no error; the table stays readable.
\<close>

theorem table_iterator_yields_entries:
  assumes "table_holds xxh3 t kvs" "length kvs \<le> k"
  shows "\<exists>t1 it1 t2 it2. ti_Rewind stale t ti_New = Some (t1, it1) \<and>
    drain (\<lambda>(t, it). ti_Valid t it) (\<lambda>(t, it). ti_Key t it) (\<lambda>(t, it). ti_Value t it) (\<lambda>(t, it). ti_Next stale t it) k (t1, it1) =
      Some (kvs, (t2, it2)) \<and> \<not> ti_Valid t2 it2 \<and> ti_Err it2 = None \<and> ti_at xxh3 t2 kvs it2 (length kvs)"
proof -
  obtain t1 it1 where s: "ti_Rewind stale t ti_New = Some (t1, it1)" "ti_at xxh3 t1 kvs it1 0" using ti_start [OF assms(1)] by blast
  from tbl_cursor.drain_all [of xxh3 "(t1, it1)" kvs 0 k stale] s(2) assms(2) obtain t2 it2 where
    "drain (\<lambda>(t, it). ti_Valid t it) (\<lambda>(t, it). ti_Key t it) (\<lambda>(t, it). ti_Value t it) (\<lambda>(t, it). ti_Next stale t it) k (t1, it1) =
      Some (kvs, (t2, it2))" "\<not> ti_Valid t2 it2" "ti_at xxh3 t2 kvs it2 (length kvs)" by auto
  then show ?thesis using s(1) ti_cursor(4) by blast
qed

theorem table_iterator_yields_entries_witness:
  "\<exists>t t1 it1 st. ti_Rewind [] t ti_New = Some (t1, it1) \<and>
    drain (\<lambda>(t, it). ti_Valid t it) (\<lambda>(t, it). ti_Key t it) (\<lambda>(t, it). ti_Value t it) (\<lambda>(t, it). ti_Next [] t it) 5 (t1, it1) =
      Some ([([5], [2, 3]), ([7], [])], st)"
proof -
  obtain t where t: "table_holds (\<lambda>b s. 0) t [([5], [2, 3]), ([7], [])]" using witness_table by blast
  have "length [([5 :: byte], [2, 3 :: byte]), ([7], [])] \<le> 5" by simp
  from table_iterator_yields_entries [OF t this, of "[]"] show ?thesis by blast
qed

text \<open>
  C26: \<open>Flush\<close> of a memtable that holds an entry larger than one block fails, whatever else the memtable
  holds: the result is the block-size error for the first such key in key order, the partly written file
  is removed and no other file is touched.
\<close>

theorem flush_rejects_oversized:
  assumes "sl_rel sk kvs" "0 < slRef sk" "j < length kvs" "\<not> fits (kvs ! j)" "\<forall>e \<in> set (take j kvs). fits e"
    and "sizing_ok fbits fhashes (length kvs)" "good_device dev"
  shows "Flush xxh3 fbits fhashes stale dev now fs dir sk =
    Some (fs((dir, sstableID now) := None), sk, Inl (EntryExceedsBlockSize (fst (kvs ! j))))"
  using assms by (rule Flush_too_large)

theorem flush_rejects_oversized_witness:
  "\<exists>sk. sl_rel sk [([1], replicate 4090 0)] \<and>
    Flush (\<lambda>b s. 0) (\<lambda>_ _. 20) (\<lambda>_ _. 2) [] perfect_device 9 (\<lambda>_. None) ''d'' sk =
      Some ((\<lambda>_. None)((''d'', sstableID 9) := None), sk, Inl (EntryExceedsBlockSize [1]))"
proof -
  obtain s where s: "sl_rel s []" "sl_cap s = 5000" "sl_used s = 104" using New_refines [of 5000] by auto
  obtain t where t: "sl_rel t [([1], replicate 4090 0)]"
    using skl.put_rel [OF s(1), of "[1]" "replicate 4090 0"] s by (auto simp: worst_cost_def node_cost_def maxHeight_def)
  let ?sk = "t\<lparr>slRef := 1\<rparr>" and ?kvs = "[([1 :: byte], replicate 4090 (0 :: byte))]"
  have "\<not> fits (?kvs ! 0)" by (simp add: fits_def sst_consts)
  then show ?thesis
    using t flush_rejects_oversized [of ?sk ?kvs 0, OF _ _ _ _ _ witness_sizing good_perfect] by (intro exI [of _ ?sk]) simp
qed

text \<open>
  C27: an empty value does not survive a flush. A key whose value in the memtable is the empty byte
  string is present there (\<open>Get\<close> returns an empty, non-nil slice), but \<open>Get\<close> on the flushed table
  returns nil, the answer for an absent key, because the copy is made by appending to a nil slice.
\<close>

theorem empty_value_lost_by_flush:
  assumes "sl_rel sk kvs" "0 < slRef sk" "flushable kvs" "sizing_ok fbits fhashes (length kvs)" "good_device dev"
    and "map_of kvs key = Some []"
  shows "Get sk key = Some (Some []) \<and>
    (\<exists>fs' t t'. Flush xxh3 fbits fhashes stale dev now fs dir sk = Some (fs', sk, Inr t) \<and>
      Table_Get xxh3 stale t key = Some (Inr (None, t')))"
proof -
  obtain t where t: "Flush xxh3 fbits fhashes stale dev now fs dir sk = Some (fs((dir, sstableID now) \<mapsto> fData (tF t)), sk, Inr t)"
    "table_holds xxh3 t kvs" using Flush_spec [OF assms(1-5), of xxh3 stale now fs dir] by blast
  then show ?thesis
    using Table_Get_holds [OF t(2), of stale key] Get_refines [OF assms(1), of key] assms(6) by (auto simp: append_nil_def)
qed

theorem empty_value_lost_by_flush_witness:
  "\<exists>sk fs' t t'. Get sk [7] = Some (Some []) \<and>
    Flush (\<lambda>b s. 0) (\<lambda>_ _. 20) (\<lambda>_ _. 2) [] perfect_device 9 (\<lambda>_. None) ''d'' sk = Some (fs', sk, Inr t) \<and>
    Table_Get (\<lambda>b s. 0) [] t [7] = Some (Inr (None, t'))"
proof -
  obtain sk where sk: "sl_rel sk [([5], [2, 3]), ([7], [])]" "0 < slRef sk" using witness_memtable by blast
  have "map_of [([5 :: byte], [2 :: byte, 3]), ([7], [])] [7] = Some []" by simp
  from empty_value_lost_by_flush [OF sk witness_flushable witness_sizing good_perfect this, of "\<lambda>b s. 0" "[]" 9 "\<lambda>_. None" "''d''"]
  show ?thesis by blast
qed

end
