(* ===== verification/Manifest.thy ===== *)
theory Manifest
  imports Sstable_Flush "HOL-Library.Char_ord"
begin

text \<open>
  The manifest of \<^verbatim>\<open>src/manifest.go\<close>, the file that lists the live tables with their levels and key
  ranges, and the directory scan of \<^verbatim>\<open>src/db.go\<close> it is rebuilt from.

  A \<open>host\<close> bundles what the database takes from outside: the hash, the contents of pooled buffers, the
  device of opened files, the faults of file operations, the sizing formulas of the bloom filter, and the
  codec of the manifest file (\<^verbatim>\<open>encoding/json\<close> on the manifest struct). A fault of an operation is \<open>Some n\<close>;
  for a write, \<open>n\<close> is the number of bytes that still reached the file. A directory listing is the list of
  names with a flag for subdirectories, as \<^verbatim>\<open>os.ReadDir\<close> returns it.

  The lemmas: a manifest that was written is read back, a failed write leaves the old manifest in place,
  and the creation time read from a table name is the time it was made from.
\<close>

section \<open>The directory\<close>

datatype fsop =
    OpRead path
  | OpWrite path
  | OpRename path path
  | OpRemove path
  | OpReadDir string
  | OpMkdirTemp string
  | OpRemoveAll string

record TableMeta =
  tmFilename :: string
  tmLevel :: int
  tmSmallest :: bytes
  tmLargest :: bytes
  tmSizeBytes :: int
  tmCreatedAt :: int

record manifestState =
  msVersion :: int
  msTables :: "TableMeta list"

record host =
  hXxh3 :: "bytes \<Rightarrow> u64 \<Rightarrow> u64"
  hStale :: bytes
  hDev :: device
  hFault :: "fsop \<Rightarrow> nat option"
  hBits :: "int \<Rightarrow> real \<Rightarrow> real"
  hHashes :: "int \<Rightarrow> int \<Rightarrow> real"
  hMarshal :: "manifestState \<Rightarrow> bytes"
  hUnmarshal :: "bytes \<Rightarrow> manifestState option"

definition os_ReadFile :: "host \<Rightarrow> fs \<Rightarrow> path \<Rightarrow> io_error + bytes" where
  "os_ReadFile h fs p =
     (if hFault h (OpRead p) \<noteq> None then Inl EIO else case fs p of None \<Rightarrow> Inl ENoent | Some d \<Rightarrow> Inr d)"

definition os_WriteFile :: "host \<Rightarrow> fs \<Rightarrow> path \<Rightarrow> bytes \<Rightarrow> fs \<times> io_error option" where
  "os_WriteFile h fs p d =
     (case hFault h (OpWrite p) of None \<Rightarrow> (fs(p \<mapsto> d), None) | Some n \<Rightarrow> (fs(p \<mapsto> take n d), Some EIO))"

definition os_Rename :: "host \<Rightarrow> fs \<Rightarrow> path \<Rightarrow> path \<Rightarrow> fs \<times> io_error option" where
  "os_Rename h fs p q =
     (if hFault h (OpRename p q) \<noteq> None then (fs, Some EIO)
      else case fs p of None \<Rightarrow> (fs, Some ENoent) | Some d \<Rightarrow> ((fs(p := None))(q \<mapsto> d), None))"

definition os_Remove :: "host \<Rightarrow> fs \<Rightarrow> path \<Rightarrow> fs \<times> io_error option" where
  "os_Remove h fs p =
     (if hFault h (OpRemove p) \<noteq> None then (fs, Some EIO)
      else case fs p of None \<Rightarrow> (fs, Some ENoent) | Some d \<Rightarrow> (fs(p := None), None))"

type_synonym listing = "(string \<times> bool) list"

definition scanDataFiles :: "host \<Rightarrow> string \<Rightarrow> listing \<Rightarrow> io_error + string list \<times> string list" where
  "scanDataFiles h dir names =
     (if hFault h (OpReadDir dir) \<noteq> None then Inl EIO
      else
        let files = map fst (filter (\<lambda>e. \<not> snd e) names);
            ssts = filter (\<lambda>n. has_suffix n ''.sst'') files;
            wals = filter (\<lambda>n. \<not> has_suffix n ''.sst'' \<and> has_suffix n ''.wal'') files in
        Inr (sort_slice (\<lambda>a b. b < a) ssts, sort_slice (\<lambda>a b. a < b) wals))"

section \<open>The manifest\<close>

definition manifestFilename :: string where "manifestFilename = ''MANIFEST''"
definition manifestVersion :: int where "manifestVersion = 1"

record manifestStore =
  mPath :: path
  mState :: manifestState

datatype manifest_error =
    MfIO io_error
  | MfTable sst_error
  | MfDecode
  | MfVersion int

text \<open>\<open>filepath.Ext\<close>: the suffix from the last dot.\<close>

definition file_ext :: "string \<Rightarrow> string" where
  "file_ext name =
     (let tl = rev (takeWhile (\<lambda>c. c \<noteq> CHR ''.'') (rev name)) in
      if length tl = length name then [] else CHR ''.'' # tl)"

text \<open>\<open>strconv.ParseInt(s, 10, 64)\<close>: an optional sign and decimal digits in the range of \<open>int64\<close>.\<close>

definition parse_int64 :: "string \<Rightarrow> int option" where
  "parse_int64 s =
     (let neg = (case s of c # _ \<Rightarrow> c = CHR ''-'' | [] \<Rightarrow> False);
          ds = (case s of c # cs \<Rightarrow> if c = CHR ''-'' \<or> c = CHR ''+'' then cs else s | [] \<Rightarrow> []) in
      if ds = [] then None
      else case parse_digits ds 0 of
        None \<Rightarrow> None
      | Some n \<Rightarrow> (if neg then if int n \<le> 2 ^ 63 then Some (- int n) else None
                  else if int n < 2 ^ 63 then Some (int n) else None))"

definition tableCreatedAt :: "nat \<Rightarrow> string \<Rightarrow> int" where
  "tableCreatedAt now filename =
     (case parse_int64 (take (length filename - length (file_ext filename)) filename) of Some ts \<Rightarrow> ts | None \<Rightarrow> int now)"

definition tableMetaFromSST :: "nat \<Rightarrow> Metadata \<Rightarrow> int \<Rightarrow> TableMeta" where
  "tableMetaFromSST now meta level =
     \<lparr>tmFilename = snd (mdPath meta), tmLevel = level, tmSmallest = go_bytes (mdSmallest meta), tmLargest = go_bytes (mdLargest meta),
      tmSizeBytes = int (mdSizeBytes meta), tmCreatedAt = tableCreatedAt now (snd (mdPath meta))\<rparr>"

text \<open>A copy of the entries; the byte slices of a list of values are not shared.\<close>

definition cloneTableMeta :: "TableMeta list \<Rightarrow> TableMeta list" where
  "cloneTableMeta src =
     map (\<lambda>t. \<lparr>tmFilename = tmFilename t, tmLevel = tmLevel t, tmSmallest = tmSmallest t, tmLargest = tmLargest t,
               tmSizeBytes = tmSizeBytes t, tmCreatedAt = tmCreatedAt t\<rparr>) src"

definition manifest_write :: "host \<Rightarrow> fs \<Rightarrow> manifestStore \<Rightarrow> fs \<times> io_error option" where
  "manifest_write h fs m =
     (let tmp = (fst (mPath m), snd (mPath m) @ ''.tmp'') in
      case os_WriteFile h fs tmp (hMarshal h (mState m)) of
        (fs1, Some e) \<Rightarrow> (fs1, Some e)
      | (fs1, None) \<Rightarrow> os_Rename h fs1 tmp (mPath m))"

fun rebuild_tables :: "host \<Rightarrow> nat \<Rightarrow> fs \<Rightarrow> string \<Rightarrow> string list \<Rightarrow> (manifest_error + TableMeta list) option" where
  "rebuild_tables h now fs dir [] = Some (Inr [])"
| "rebuild_tables h now fs dir (name # names) =
     (case Open (hStale h) (hDev h) fs (dir, name) of
        None \<Rightarrow> None
      | Some (Inl e) \<Rightarrow> Some (Inl (MfTable e))
      | Some (Inr t) \<Rightarrow>
          (case Table_Close t of
             (_, Some e) \<Rightarrow> Some (Inl (MfIO e))
           | (_, None) \<Rightarrow>
               tryE (rebuild_tables h now fs dir names)
                 (\<lambda>ms. Some (Inr (tableMetaFromSST now (Table_Metadata (Some t)) 0 # ms)))))"

definition rebuildManifestStateFromDisk :: "host \<Rightarrow> nat \<Rightarrow> fs \<Rightarrow> string \<Rightarrow> listing \<Rightarrow> (manifest_error + manifestState) option" where
  "rebuildManifestStateFromDisk h now fs dir names =
     (case scanDataFiles h dir names of
        Inl e \<Rightarrow> Some (Inl (MfIO e))
      | Inr (ssts, _) \<Rightarrow> tryE (rebuild_tables h now fs dir ssts) (\<lambda>ts. Some (Inr \<lparr>msVersion = manifestVersion, msTables = ts\<rparr>)))"

definition openManifest :: "host \<Rightarrow> nat \<Rightarrow> fs \<Rightarrow> string \<Rightarrow> listing \<Rightarrow> (fs \<times> (manifest_error + manifestStore)) option" where
  "openManifest h now fs dir names =
     (let path = (dir, manifestFilename) in
      case os_ReadFile h fs path of
        Inl e \<Rightarrow>
          if e \<noteq> ENoent then Some (fs, Inl (MfIO e))
          else (case rebuildManifestStateFromDisk h now fs dir names of
                  None \<Rightarrow> None
                | Some (Inl e) \<Rightarrow> Some (fs, Inl e)
                | Some (Inr state) \<Rightarrow>
                    let store = \<lparr>mPath = path, mState = state\<rparr> in
                    (case manifest_write h fs store of
                       (fs1, Some e) \<Rightarrow> Some (fs1, Inl (MfIO e))
                     | (fs1, None) \<Rightarrow> Some (fs1, Inr store)))
      | Inr data \<Rightarrow>
          (case hUnmarshal h data of
             None \<Rightarrow> Some (fs, Inl MfDecode)
           | Some state \<Rightarrow>
               if msVersion state \<noteq> manifestVersion then Some (fs, Inl (MfVersion (msVersion state)))
               else Some (fs, Inr \<lparr>mPath = path, mState = state\<lparr>msTables := cloneTableMeta (msTables state)\<rparr>\<rparr>)))"

definition rebuildManifestFromDisk :: "host \<Rightarrow> nat \<Rightarrow> fs \<Rightarrow> string \<Rightarrow> listing \<Rightarrow> (fs \<times> manifest_error option) option" where
  "rebuildManifestFromDisk h now fs dir names =
     (case rebuildManifestStateFromDisk h now fs dir names of
        None \<Rightarrow> None
      | Some (Inl e) \<Rightarrow> Some (fs, Some e)
      | Some (Inr state) \<Rightarrow>
          (case manifest_write h fs \<lparr>mPath = (dir, manifestFilename), mState = state\<rparr> of (fs1, e) \<Rightarrow> Some (fs1, map_option MfIO e)))"

definition manifest_Tables :: "manifestStore \<Rightarrow> TableMeta list" where
  "manifest_Tables m = cloneTableMeta (msTables (mState m))"

definition ReplaceTables :: "host \<Rightarrow> fs \<Rightarrow> manifestStore \<Rightarrow> TableMeta list \<Rightarrow> fs \<times> manifestStore \<times> io_error option" where
  "ReplaceTables h fs m tables =
     (let m' = m\<lparr>mState := (mState m)\<lparr>msTables := cloneTableMeta tables\<rparr>\<rparr> in
      case manifest_write h fs m' of (fs', e) \<Rightarrow> (fs', m', e))"

section \<open>Properties\<close>

lemma cloneTableMeta_id [simp]: "cloneTableMeta ts = ts"
  unfolding cloneTableMeta_def by (rule map_idI) simp

text \<open>What is relied on of the codec for a given manifest: it decodes to what was encoded.\<close>

definition codec_ok :: "host \<Rightarrow> TableMeta list \<Rightarrow> bool" where
  "codec_ok h ts \<longleftrightarrow> hUnmarshal h (hMarshal h \<lparr>msVersion = manifestVersion, msTables = ts\<rparr>) = Some \<lparr>msVersion = manifestVersion, msTables = ts\<rparr>"

lemma sstableID_parts:
  assumes "n < 2 ^ 63"
  shows "file_ext (sstableID n) = ''.sst''" "parse_int64 (dec_digits n) = Some (int n)"
proof -
  show "file_ext (sstableID n) = ''.sst''" by (simp add: file_ext_def sstableID_def Let_def)
  have d: "dec_digits n \<noteq> []" "parse_digits (dec_digits n) 0 = Some n" by (simp_all add: parse_dec_digits)
  have "hd (dec_digits n) \<noteq> CHR ''-'' \<and> hd (dec_digits n) \<noteq> CHR ''+''"
    using d by (cases "dec_digits n") (auto simp: digit_of_def Let_def split: option.splits if_splits)
  then show "parse_int64 (dec_digits n) = Some (int n)" using d assms
    by (cases "dec_digits n") (auto simp: parse_int64_def Let_def)
qed

lemma tableCreatedAt_sstableID: "n < 2 ^ 63 \<Longrightarrow> tableCreatedAt now (sstableID n) = int n"
  using sstableID_parts [of n] by (simp add: tableCreatedAt_def) (simp add: sstableID_def)

lemma manifest_write_cases:
  assumes "manifest_write h fs m = (fs', e)"
  shows "fs' (mPath m) = (if e = None then Some (hMarshal h (mState m)) else fs (mPath m))"
    "p \<noteq> mPath m \<Longrightarrow> p \<noteq> (fst (mPath m), snd (mPath m) @ ''.tmp'') \<Longrightarrow> fs' p = fs p"
proof -
  have ne: "(fst (mPath m), snd (mPath m) @ ''.tmp'') \<noteq> mPath m" by (cases "mPath m") simp
  show "fs' (mPath m) = (if e = None then Some (hMarshal h (mState m)) else fs (mPath m))"
    "p \<noteq> mPath m \<Longrightarrow> p \<noteq> (fst (mPath m), snd (mPath m) @ ''.tmp'') \<Longrightarrow> fs' p = fs p"
    using assms ne by (auto simp: manifest_write_def os_WriteFile_def os_Rename_def Let_def split: option.splits if_splits)
qed

lemma manifest_write_ok:
  assumes "hFault h (OpWrite (fst (mPath m), snd (mPath m) @ ''.tmp'')) = None"
    "hFault h (OpRename (fst (mPath m), snd (mPath m) @ ''.tmp'') (mPath m)) = None"
  shows "\<exists>fs'. manifest_write h fs m = (fs', None)"
  using assms by (simp add: manifest_write_def os_WriteFile_def os_Rename_def Let_def)

text \<open>
  C19: Replacing the tables of the manifest is all or nothing, whatever fails on the way: either the call
  succeeds and the next \<open>openManifest\<close> reads back exactly the new list of tables, or it reports an error
  and the file still has its old contents. No other file changes, apart from the temporary one.
\<close>
theorem manifest_replace_atomic:
  assumes codec: "codec_ok h tables"
    and m: "mPath m = (dir, manifestFilename)" "msVersion (mState m) = manifestVersion"
    and r: "ReplaceTables h fs m tables = (fs', m', e)"
  shows "(e = None \<longrightarrow> manifest_Tables m' = tables \<and>
      (hFault h (OpRead (dir, manifestFilename)) = None \<longrightarrow> openManifest h now fs' dir names = Some (fs', Inr m'))) \<and>
    (e \<noteq> None \<longrightarrow> fs' (dir, manifestFilename) = fs (dir, manifestFilename)) \<and>
    (\<forall>p. p \<noteq> (dir, manifestFilename) \<and> p \<noteq> (dir, manifestFilename @ ''.tmp'') \<longrightarrow> fs' p = fs p)"
proof -
  define m1 where "m1 = \<lparr>mPath = (dir, manifestFilename), mState = \<lparr>msVersion = manifestVersion, msTables = tables\<rparr>\<rparr>"
  have m1: "m\<lparr>mState := (mState m)\<lparr>msTables := tables\<rparr>\<rparr> = m1" using m by (simp add: m1_def)
  have w: "manifest_write h fs m1 = (fs', e)" "m' = m1" using r by (auto simp: ReplaceTables_def m1 Let_def split: prod.splits)
  have p: "mPath m1 = (dir, manifestFilename)" "msVersion (mState m1) = manifestVersion" "msTables (mState m1) = tables" using m by (simp_all add: m1_def)
  note c = manifest_write_cases [OF w(1)]
  have "manifest_Tables m' = tables" using w(2) p by (simp add: manifest_Tables_def)
  moreover have "openManifest h now fs' dir names = Some (fs', Inr m')" if "e = None" "hFault h (OpRead (dir, manifestFilename)) = None"
    using that c(1) codec w(2) by (simp add: openManifest_def os_ReadFile_def Let_def codec_ok_def m1_def)
  ultimately show ?thesis using c p by auto
qed

text \<open>A host without faults whose codec knows the given manifest.\<close>

definition calm_host :: "TableMeta list \<Rightarrow> host" where
  "calm_host ts = \<lparr>hXxh3 = (\<lambda>b s. 0), hStale = [], hDev = perfect_device, hFault = (\<lambda>_. None), hBits = (\<lambda>_ _. 20), hHashes = (\<lambda>_ _. 2),
     hMarshal = (\<lambda>_. [1]), hUnmarshal = (\<lambda>_. Some \<lparr>msVersion = manifestVersion, msTables = ts\<rparr>)\<rparr>"

lemma calm_codec: "codec_ok (calm_host ts) ts"
  by (simp add: codec_ok_def calm_host_def)

lemma manifest_replace_atomic_witness:
  "\<exists>fs' m'. ReplaceTables (calm_host []) (\<lambda>_. None) \<lparr>mPath = (''d'', manifestFilename), mState = \<lparr>msVersion = manifestVersion, msTables = []\<rparr>\<rparr> [] = (fs', m', None) \<and>
    openManifest (calm_host []) 0 fs' ''d'' [] = Some (fs', Inr m')"
proof -
  let ?m = "\<lparr>mPath = (''d'', manifestFilename), mState = \<lparr>msVersion = manifestVersion, msTables = []\<rparr>\<rparr>"
  obtain fs' m' e where r: "ReplaceTables (calm_host []) (\<lambda>_. None) ?m [] = (fs', m', e)" by (cases "ReplaceTables (calm_host []) (\<lambda>_. None) ?m []")
  then have "e = None"
    by (auto simp: ReplaceTables_def manifest_write_def os_WriteFile_def os_Rename_def calm_host_def Let_def)
  with manifest_replace_atomic [OF calm_codec _ _ r, of "''d''" 0 "[]"] r show ?thesis by (simp add: calm_host_def)
qed

end
