(* ===== verification/Record_Format.thy ===== *)
theory Record_Format
  imports Go_IO
begin

text \<open>
  The record framing shared by the write-ahead log (\<^verbatim>\<open>src/wal.go\<close>) and the value log
  (\<^verbatim>\<open>src/vlog/vlog.go\<close>): a CRC-32 of the rest, the two 32-bit lengths, the key and the value.

  \<open>parse_rec\<close> is what a reader can tell about the front of a byte string: it is too short for the
  record its header announces, the checksum is wrong, or it is a record. The lemmas: a written record
  is recognised, nothing else is, and a strict prefix of a record is always too short.
\<close>

definition rec_payload :: "bytes \<Rightarrow> bytes \<Rightarrow> bytes" where
  "rec_payload key val = put_u32 (of_nat (length key)) @ put_u32 (of_nat (length val)) @ key @ val"

definition enc_rec :: "bytes \<times> bytes \<Rightarrow> bytes" where
  "enc_rec r = put_u32 (crc32_checksum (rec_payload (fst r) (snd r))) @ rec_payload (fst r) (snd r)"

definition rec_ok :: "bytes \<times> bytes \<Rightarrow> bool" where
  "rec_ok r \<longleftrightarrow> length (fst r) < 2 ^ 32 \<and> length (snd r) < 2 ^ 32"

datatype frame = Torn | BadSum | Rec bytes bytes

definition frame_len :: "bytes \<Rightarrow> nat" where
  "frame_len data = 12 + unat (get_u32 (drop 4 data)) + unat (get_u32 (drop 8 data))"

definition parse_rec :: "bytes \<Rightarrow> frame" where
  "parse_rec data =
     (if length data < 12 then Torn
      else
        let klen = unat (get_u32 (drop 4 data)); vlen = unat (get_u32 (drop 8 data)) in
        if length data < 12 + klen + vlen then Torn
        else if crc32_checksum (subslice data 4 (12 + klen + vlen)) \<noteq> get_u32 data then BadSum
        else Rec (subslice data 12 (12 + klen)) (subslice data (12 + klen) (12 + klen + vlen)))"

lemma length_rec_payload [simp]: "length (rec_payload key val) = 8 + length key + length val"
  by (simp add: rec_payload_def)

lemma length_enc_rec [simp]: "length (enc_rec r) = 12 + length (fst r) + length (snd r)"
  by (simp add: enc_rec_def)

lemma enc_rec_not_Nil [simp]: "enc_rec r \<noteq> []"
  using length_enc_rec [of r] by force

lemma enc_rec_lengths:
  assumes "rec_ok r"
  shows "unat (get_u32 (drop 4 (enc_rec r @ rest))) = length (fst r)" "unat (get_u32 (drop 8 (enc_rec r @ rest))) = length (snd r)"
  using assms by (simp_all add: enc_rec_def rec_payload_def rec_ok_def unat_of_nat)

lemma parse_enc_rec:
  assumes "rec_ok r"
  shows "parse_rec (enc_rec r @ rest) = Rec (fst r) (snd r)" "frame_len (enc_rec r @ rest) = length (enc_rec r)"
proof -
  let ?n = "12 + length (fst r) + length (snd r)" and ?d = "enc_rec r @ rest"
  note l = enc_rec_lengths [OF assms, of rest]
  have d: "drop 4 ?d = rec_payload (fst r) (snd r) @ rest" "drop 12 ?d = fst r @ snd r @ rest" "get_u32 ?d = crc32_checksum (rec_payload (fst r) (snd r))"
    by (simp_all add: enc_rec_def rec_payload_def)
  have "subslice ?d 4 ?n = rec_payload (fst r) (snd r)" unfolding subslice_def d(1) by simp
  moreover have "subslice ?d 12 (12 + length (fst r)) = fst r" unfolding subslice_def d(2) by simp
  moreover have "subslice ?d (12 + length (fst r)) ?n = snd r"
  proof -
    have "drop (12 + length (fst r)) ?d = drop (length (fst r)) (drop 12 ?d)" by (simp only: drop_drop add.commute)
    then show ?thesis unfolding subslice_def d(2) by simp
  qed
  ultimately show "parse_rec ?d = Rec (fst r) (snd r)" using l d(3) by (simp only: parse_rec_def Let_def) simp
  show "frame_len ?d = length (enc_rec r)" using l by (simp only: frame_len_def) simp
qed

lemma parse_rec_inv:
  assumes "parse_rec data = Rec key val"
  shows "rec_ok (key, val)" "frame_len data = length (enc_rec (key, val))" "frame_len data \<le> length data"
    "data = enc_rec (key, val) @ drop (frame_len data) data"
proof -
  define k v where kv: "k = unat (get_u32 (drop 4 data))" "v = unat (get_u32 (drop 8 data))"
  have len: "12 + k + v \<le> length data" and crc: "crc32_checksum (subslice data 4 (12 + k + v)) = get_u32 data"
    and key: "key = subslice data 12 (12 + k)" and val: "val = subslice data (12 + k) (12 + k + v)"
    using assms by (auto simp: parse_rec_def Let_def kv split: if_splits)
  have fl: "frame_len data = 12 + k + v" by (simp add: frame_len_def kv)
  have l: "length key = k" "length val = v" using len key val by simp_all
  show "rec_ok (key, val)" using l unsigned_less [of "get_u32 (drop 4 data)", where ?'a = nat] unsigned_less [of "get_u32 (drop 8 data)", where ?'a = nat]
    by (simp add: rec_ok_def kv)
  show "frame_len data = length (enc_rec (key, val))" "frame_len data \<le> length data" using fl l len by simp_all
  have h: "put_u32 (get_u32 data) = take 4 data" "put_u32 (of_nat k) = take 4 (drop 4 data)" "put_u32 (of_nat v) = take 4 (drop 8 data)"
    using put_get_int(2) [of "take 4 data"] put_get_int(2) [of "take 4 (drop 4 data)"] put_get_int(2) [of "take 4 (drop 8 data)"] len
    by (simp_all add: kv get_u32_def)
  have "rec_payload key val = take 4 (drop 4 data) @ take 4 (drop 8 data) @ take k (drop 12 data) @ take v (drop (12 + k) data)"
    using h(2,3) l key val by (simp add: rec_payload_def subslice_def)
  then have p: "rec_payload key val = subslice data 4 (12 + k + v)"
  proof -
    assume a: "rec_payload key val = take 4 (drop 4 data) @ take 4 (drop 8 data) @ take k (drop 12 data) @ take v (drop (12 + k) data)"
    have "rec_payload key val @ drop (12 + k + v) data = subslice data 4 (12 + k + v) @ drop (12 + k + v) data"
      unfolding a by (simp add: subslice_def take_drop_glue)
    then show ?thesis by simp
  qed
  then have "enc_rec (key, val) = take 4 data @ subslice data 4 (12 + k + v)" using crc h(1) by (simp add: enc_rec_def)
  then show "data = enc_rec (key, val) @ drop (frame_len data) data" unfolding fl by (simp add: subslice_def take_drop_glue)
qed

lemma parse_torn_prefix:
  assumes "rec_ok r" "m < length (enc_rec r)"
  shows "parse_rec (take m (enc_rec r)) = Torn"
proof (cases "m < 12")
  case False
  have "get_u32 (drop 4 (take m (enc_rec r))) = get_u32 (drop 4 (enc_rec r))" "get_u32 (drop 8 (take m (enc_rec r))) = get_u32 (drop 8 (enc_rec r))"
    using False by (simp_all add: get_u32_def drop_take min_def)
  then show ?thesis using enc_rec_lengths [OF assms(1), of "[]"] assms(2) False by (simp add: parse_rec_def Let_def)
qed (simp add: parse_rec_def)

text \<open>The records at the front of a byte string, and what is left where the first non-record begins.\<close>

function split_records :: "bytes \<Rightarrow> (bytes \<times> bytes) list \<times> bytes" where
  "split_records data =
     (case parse_rec data of
        Rec key val \<Rightarrow> (case split_records (drop (frame_len data) data) of (rs, rest) \<Rightarrow> ((key, val) # rs, rest))
      | _ \<Rightarrow> ([], data))"
  by pat_completeness auto
termination
proof (relation "measure length")
  fix data key val
  assume "parse_rec data = Rec key val"
  then show "(drop (frame_len data) data, data) \<in> measure length" using parse_rec_inv(2,3) [of data key val] by simp
qed simp

declare split_records.simps [simp del]

definition all_records :: "bytes \<Rightarrow> (bytes \<times> bytes) list option" where
  "all_records data = (case split_records data of (rs, rest) \<Rightarrow> if rest = [] then Some rs else None)"

definition dec_rec :: "bytes \<Rightarrow> ((bytes \<times> bytes) \<times> nat) option" where
  "dec_rec data = (case parse_rec data of Rec key val \<Rightarrow> Some ((key, val), frame_len data) | _ \<Rightarrow> None)"

lemma split_records_Rec:
  "parse_rec data = Rec key val \<Longrightarrow>
    split_records data = (case split_records (drop (frame_len data) data) of (rs, rest) \<Rightarrow> ((key, val) # rs, rest))"
  by (simp add: split_records.simps [of data])

lemma split_records_stop: "(\<And>k v. parse_rec data \<noteq> Rec k v) \<Longrightarrow> split_records data = ([], data)"
  by (auto simp: split_records.simps [of data] split: frame.split)

lemma parse_rec_Nil [simp]: "parse_rec [] = Torn"
  by (simp add: parse_rec_def)

interpretation record_log: record_stream rec_ok enc_rec dec_rec all_records
proof unfold_locales
  fix r rest
  assume "rec_ok r"
  then show "dec_rec (enc_rec r @ rest) = Some (r, length (enc_rec r))" using parse_enc_rec [of r rest] by (simp add: dec_rec_def)
next
  show "all_records [] = Some []" using split_records_stop [of "[]"] by (simp add: all_records_def)
next
  fix data r n
  assume "dec_rec data = Some (r, n)"
  then obtain k v where "parse_rec data = Rec k v" "r = (k, v)" "n = frame_len data"
    by (auto simp: dec_rec_def split: frame.splits)
  then show "all_records data = map_option ((#) r) (all_records (drop n data))"
    by (auto simp: all_records_def split_records_Rec split: prod.splits)
qed simp

lemma split_records_enc:
  "list_all rec_ok rs \<Longrightarrow> split_records (concat (map enc_rec rs) @ tail) = (case split_records tail of (rs', rest) \<Rightarrow> (rs @ rs', rest))"
proof (induction rs)
  case (Cons r rs)
  let ?d = "enc_rec r @ concat (map enc_rec rs) @ tail"
  have "parse_rec ?d = Rec (fst r) (snd r)" "frame_len ?d = length (enc_rec r)"
    using parse_enc_rec [of r] Cons.prems by simp_all
  then show ?case using Cons by (simp add: split_records_Rec split: prod.split)
qed (simp split: prod.split)

lemma split_records_inv:
  "split_records data = (rs, rest) \<Longrightarrow> list_all rec_ok rs \<and> data = concat (map enc_rec rs) @ rest \<and> (\<forall>k v. parse_rec rest \<noteq> Rec k v)"
proof (induction data arbitrary: rs rule: split_records.induct)
  case (1 data)
  show ?case
  proof (cases "\<exists>k v. parse_rec data = Rec k v")
    case True
    then obtain k v where p: "parse_rec data = Rec k v" by blast
    obtain rs' where rs: "split_records (drop (frame_len data) data) = (rs', rest)" "rs = (k, v) # rs'"
      using 1(2) by (auto simp: split_records_Rec [OF p] split: prod.splits)
    have "list_all rec_ok rs' \<and> drop (frame_len data) data = concat (map enc_rec rs') @ rest \<and> (\<forall>k v. parse_rec rest \<noteq> Rec k v)"
      using 1(1) [OF p rs(1)] .
    then show ?thesis using rs(2) parse_rec_inv [OF p] by simp
  next
    case False
    then show ?thesis using 1(2) split_records_stop [of data] by simp
  qed
qed

end
