(* ===== verification/Vlog.thy ===== *)
theory Vlog
  imports Record_Format
begin

text \<open>
  The value log of \<^verbatim>\<open>src/vlog/vlog.go\<close>: append-only segment files of checksummed records,
  addressed by \<open>ValueRef\<close>.

  A log keeps its open segment files by id; \<open>active.f\<close> of the code is the file registered under the
  active id, so a segment whose file is nil has no entry. The clock, the outcome of the exclusive
  create and the device of a new segment are the environment of a call. \<open>Open\<close> gets the directory as
  the list of its entries (\<open>None\<close> for a subdirectory).

  The lemmas: the scan of a segment finds exactly its whole records; an append keeps the log's invariant,
  stores its record under the returned reference and keeps every earlier one; a stored record is read back.
  \<open>Vlog_Recovery\<close> has runs of appends, reopening after a crash and the properties.
\<close>

section \<open>Value references\<close>

definition defaultSegmentMaxBytes :: int where "defaultSegmentMaxBytes = 64 * 2 ^ 20"
definition recordHeaderSize :: nat where "recordHeaderSize = 4 + 4 + 4"
definition EncodedValueRefSize :: nat where "EncodedValueRefSize = 8 + 8 + 4 + 4"

record ValueRef =
  SegmentID :: u64
  refOffset :: u64
  ValueLen :: u32
  Checksum :: u32

datatype vlog_error =
    VlIO io_error
  | VlClosed
  | VlMissingActive
  | VlRecordTooLarge
  | VlUnknownSegment u64
  | VlLengthMismatch u64 u64
  | VlChecksum u64 u64
  | VlValueChecksum u64 u64
  | VlInvalidName string
  | VlInvalidTail string
  | VlInvalidRefSize nat

definition ref_MarshalBinary :: "ValueRef \<Rightarrow> bytes" where
  "ref_MarshalBinary ref =
     put_u64 (SegmentID ref) @ put_u64 (refOffset ref) @ put_u32 (ValueLen ref) @ put_u32 (Checksum ref)"

definition ref_UnmarshalBinary :: "bytes \<Rightarrow> vlog_error + ValueRef" where
  "ref_UnmarshalBinary data =
     (if length data \<noteq> EncodedValueRefSize then Inl (VlInvalidRefSize (length data))
      else Inr \<lparr>SegmentID = get_u64 data, refOffset = get_u64 (drop 8 data), ValueLen = get_u32 (drop 16 data),
                Checksum = get_u32 (drop 20 data)\<rparr>)"

section \<open>State\<close>

record segment =
  sgId :: u64
  sgName :: string
  sgSize :: u64

record Log =
  lgDir :: string
  lgMax :: int
  lgActive :: "segment option"
  lgFiles :: "(u64 \<times> osfile) list"
  lgClosed :: bool

section \<open>Segment names\<close>

definition segmentName :: "u64 \<Rightarrow> string" where
  "segmentName sid =
     (let d = dec_digits (unat sid) in replicate (20 - length d) (char_of (48 :: nat)) @ d @ ''.vlog'')"

definition parseSegmentID :: "string \<Rightarrow> u64 option" where
  "parseSegmentID name =
     (if \<not> has_suffix name ''.vlog'' then None
      else parse_uint64 (take (length name - length ''.vlog'') name))"

definition nextSegmentID :: "nat \<Rightarrow> u64 \<Rightarrow> u64" where
  "nextSegmentID now lastID = (let sid = of_nat now in if sid \<le> lastID then lastID + 1 else sid)"

section \<open>Scanning a segment\<close>

text \<open>The loop of \<open>scanSegment\<close>: the valid size, and whether an invalid tail follows it.\<close>

function scan_loop :: "osfile \<Rightarrow> nat \<Rightarrow> nat \<Rightarrow> vlog_error + (nat \<times> bool)" where
  "scan_loop f sz offset =
     (if offset < sz then
        if sz - offset < recordHeaderSize then Inr (offset, True)
        else
          (case os_ReadAt f (replicate recordHeaderSize 0) offset of (header, e) \<Rightarrow>
             if e = Some EOF then Inr (offset, True)
             else if e \<noteq> None then Inl (VlIO (the e))
             else
               let klen = unat (get_u32 (drop 4 header)); vlen = unat (get_u32 (drop 8 header));
                   recordSize = recordHeaderSize + klen + vlen in
               if sz < offset + recordSize then Inr (offset, True)
               else
                 (case os_ReadAt f (replicate (klen + vlen) 0) (offset + recordHeaderSize) of (payload, e) \<Rightarrow>
                    if e = Some EOF then Inr (offset, True)
                    else if e \<noteq> None then Inl (VlIO (the e))
                    else if crc32_update (crc32_update 0 (drop 4 header)) payload \<noteq> get_u32 header then Inr (offset, True)
                    else scan_loop f sz (offset + recordSize)))
      else Inr (offset, False))"
  by pat_completeness auto
termination
  by (relation "measure (\<lambda>(f, sz, offset). sz - offset)") (auto simp: recordHeaderSize_def)

declare scan_loop.simps [simp del]

definition scanSegment :: "osfile \<Rightarrow> vlog_error + (nat \<times> bool)" where
  "scanSegment f = (case os_Size f of Inl e \<Rightarrow> Inl (VlIO e) | Inr sz \<Rightarrow> scan_loop f sz 0)"

section \<open>Rotation, append and close\<close>

definition activeFile :: "Log \<Rightarrow> osfile option" where
  "activeFile l = (case lgActive l of None \<Rightarrow> None | Some sg \<Rightarrow> map_of (lgFiles l) (sgId sg))"

definition rotateSegmentLocked :: "env \<Rightarrow> Log \<Rightarrow> u64 \<Rightarrow> vlog_error + Log" where
  "rotateSegmentLocked ev l lastID =
     (case (case activeFile l of None \<Rightarrow> None | Some f \<Rightarrow> os_Sync f) of
        Some e \<Rightarrow> Inl (VlIO e)
      | None \<Rightarrow>
          let sid = nextSegmentID (envNow ev) lastID in
          if envExists ev \<or> map_of (lgFiles l) sid \<noteq> None then Inl (VlIO EExist)
          else if devCreate (envDev ev) then Inl (VlIO EIO)
          else Inr (l\<lparr>lgFiles := AList.update sid \<lparr>fData = [], fPos = 0, fOpen = True, fDev = envDev ev\<rparr> (lgFiles l),
                      lgActive := Some \<lparr>sgId = sid, sgName = segmentName sid, sgSize = 0\<rparr>\<rparr>))"

definition closeFiles :: "Log \<Rightarrow> Log \<times> io_error option" where
  "closeFiles l = (l\<lparr>lgFiles := []\<rparr>, if list_all (\<lambda>(_, f). fOpen f) (lgFiles l) then None else Some EClosed)"

text \<open>File offsets are signed: \<open>WriteAt\<close> refuses one that is negative as an \<open>int64\<close>.\<close>

definition os_WriteAt64 :: "osfile \<Rightarrow> bytes \<Rightarrow> nat \<Rightarrow> osfile \<times> nat \<times> io_error option" where
  "os_WriteAt64 f p off = (if 2 ^ 63 \<le> off then (f, 0, Some EInval) else os_WriteAt f p off)"

text \<open>The body of \<open>Append\<close> once the active segment has room: write, account, build the reference.\<close>

definition append_record :: "Log \<Rightarrow> segment \<Rightarrow> osfile \<Rightarrow> bytes \<Rightarrow> bytes \<Rightarrow> Log \<times> (vlog_error + ValueRef)" where
  "append_record l sg f key val =
     (let rec = enc_rec (key, val) in
      case os_WriteAt64 f rec (unat (sgSize sg)) of (f', n, e) \<Rightarrow>
        let l' = l\<lparr>lgFiles := AList.update (sgId sg) f' (lgFiles l), lgActive := Some (sg\<lparr>sgSize := sgSize sg + of_nat n\<rparr>)\<rparr> in
        if e \<noteq> None then (l', Inl (VlIO (the e)))
        else if n \<noteq> length rec then (l', Inl (VlIO ErrShortWrite))
        else (l', Inr \<lparr>SegmentID = sgId sg, refOffset = sgSize sg, ValueLen = of_nat (length val),
                       Checksum = crc32_checksum val\<rparr>))"

definition Append :: "env \<Rightarrow> Log \<Rightarrow> bytes \<Rightarrow> bytes \<Rightarrow> Log \<times> (vlog_error + ValueRef)" where
  "Append ev l key val =
     (let recordSize = (of_nat (recordHeaderSize + length key + length val) :: u64) in
      if recordSize < of_nat (length key) + of_nat (length val) then (l, Inl VlRecordTooLarge)
      else if lgClosed l then (l, Inl VlClosed)
      else case (lgActive l, activeFile l) of
        (Some sg, Some f) \<Rightarrow>
          (if 0 < sgSize sg \<and> word_of_int (lgMax l) < sgSize sg + recordSize
           then (case rotateSegmentLocked ev l (sgId sg) of
                   Inl e \<Rightarrow> (l, Inl e)
                 | Inr l' \<Rightarrow> append_record l' (the (lgActive l')) (the (activeFile l')) key val)
           else append_record l sg f key val)
      | _ \<Rightarrow> (l, Inl VlMissingActive))"

definition vlog_Sync :: "Log \<Rightarrow> vlog_error option" where
  "vlog_Sync l =
     (if lgClosed l then Some VlClosed
      else case activeFile l of None \<Rightarrow> Some VlMissingActive | Some f \<Rightarrow> map_option VlIO (os_Sync f))"

definition vlog_Close :: "Log \<Rightarrow> Log \<times> io_error option" where
  "vlog_Close l =
     (if lgClosed l then (l, None)
      else
        let e1 = (case activeFile l of None \<Rightarrow> None | Some f \<Rightarrow> os_Sync f) in
        case closeFiles (l\<lparr>lgClosed := True\<rparr>) of (l', e2) \<Rightarrow> (l', if e1 = None then e2 else e1))"

section \<open>Opening a log\<close>

definition openEmpty :: "env \<Rightarrow> string \<Rightarrow> int \<Rightarrow> vlog_error + Log" where
  "openEmpty ev dir maxBytes =
     rotateSegmentLocked ev \<lparr>lgDir = dir, lgMax = maxBytes, lgActive = None, lgFiles = [], lgClosed = False\<rparr> 0"

type_synonym dirent = "string \<times> (bytes \<times> device) option"

fun collect_segments :: "dirent list \<Rightarrow> vlog_error + (u64 \<times> string \<times> bytes \<times> device) list" where
  "collect_segments [] = Inr []"
| "collect_segments ((name, content) # es) =
     (case content of
        None \<Rightarrow> collect_segments es
      | Some (data, dev) \<Rightarrow>
          if \<not> has_suffix name ''.vlog'' then collect_segments es
          else (case parseSegmentID name of
                  None \<Rightarrow> Inl (VlInvalidName name)
                | Some sid \<Rightarrow> (case collect_segments es of Inl e \<Rightarrow> Inl e | Inr ss \<Rightarrow> Inr ((sid, name, data, dev) # ss))))"

text \<open>The loop over the sorted segments; the last one becomes the active segment and may be truncated.\<close>

fun open_segments :: "(u64 \<times> string \<times> bytes \<times> device) list \<Rightarrow> Log \<Rightarrow> vlog_error + Log" where
  "open_segments [] l = Inr l"
| "open_segments ((sid, name, data, dev) # ss) l =
     (if devCreate dev then Inl (VlIO EIO)
      else
        let f = \<lparr>fData = data, fPos = 0, fOpen = True, fDev = dev\<rparr> in
        (case scanSegment f of
           Inl e \<Rightarrow> Inl e
         | Inr (validSize, invalidTail) \<Rightarrow>
             if invalidTail \<and> ss \<noteq> [] then Inl (VlInvalidTail name)
             else
               (case (if invalidTail then os_Truncate f validSize else Inr f) of
                  Inl e \<Rightarrow> Inl (VlIO e)
                | Inr f' \<Rightarrow>
                    open_segments ss
                      (l\<lparr>lgFiles := AList.update sid f' (lgFiles l),
                         lgActive := (if ss = [] then Some \<lparr>sgId = sid, sgName = name, sgSize = of_nat validSize\<rparr> else lgActive l)\<rparr>))))"

definition vlog_Open :: "env \<Rightarrow> string \<Rightarrow> int \<Rightarrow> dirent list \<Rightarrow> vlog_error + Log" where
  "vlog_Open ev dir maxBytes es =
     (let maxB = (if maxBytes \<le> 0 then defaultSegmentMaxBytes else maxBytes) in
      case collect_segments es of
        Inl e \<Rightarrow> Inl e
      | Inr ss \<Rightarrow>
          if ss = [] then openEmpty ev dir maxB
          else case open_segments (sort_slice (\<lambda>a b. fst a < fst b) ss)
                 \<lparr>lgDir = dir, lgMax = maxB, lgActive = None, lgFiles = [], lgClosed = False\<rparr> of
            Inl e \<Rightarrow> Inl e
          | Inr l \<Rightarrow> if lgActive l = None then Inl VlMissingActive else Inr l)"

section \<open>Reading values\<close>

text \<open>The checksum over the key, read in chunks of 256 bytes.\<close>

function key_crc :: "osfile \<Rightarrow> nat \<Rightarrow> nat \<Rightarrow> u32 \<Rightarrow> vlog_error + (nat \<times> u32)" where
  "key_crc f remaining offset chk =
     (if 0 < remaining then
        let chunk = min 256 remaining in
        (case os_ReadAt64 f (replicate chunk 0) offset of (scratch, e) \<Rightarrow>
           if e \<noteq> None then Inl (VlIO (the e))
           else key_crc f (remaining - chunk) (offset + chunk) (crc32_update chk scratch))
      else Inr (offset, chk))"
  by pat_completeness auto
termination
  by (relation "measure (\<lambda>(f, remaining, offset, s). remaining)") auto

declare key_crc.simps [simp del]

definition ReadValue :: "Log \<Rightarrow> ValueRef \<Rightarrow> vlog_error + bytes" where
  "ReadValue l ref =
     (if lgClosed l then Inl VlClosed
      else case map_of (lgFiles l) (SegmentID ref) of
        None \<Rightarrow> Inl (VlUnknownSegment (SegmentID ref))
      | Some f \<Rightarrow>
          (case os_ReadAt64 f (replicate recordHeaderSize 0) (unat (refOffset ref)) of (header, e) \<Rightarrow>
             if e \<noteq> None then Inl (VlIO (the e))
             else
               let keyLen = unat (get_u32 (drop 4 header)); valueLen = get_u32 (drop 8 header) in
               if valueLen \<noteq> ValueLen ref then Inl (VlLengthMismatch (SegmentID ref) (refOffset ref))
               else
                 (case key_crc f keyLen (unat (refOffset ref) + recordHeaderSize) (crc32_update 0 (drop 4 header)) of
                    Inl e \<Rightarrow> Inl e
                  | Inr (offset, chk) \<Rightarrow>
                      (case os_ReadAt64 f (replicate (unat valueLen) 0) offset of (val, e) \<Rightarrow>
                         if e \<noteq> None then Inl (VlIO (the e))
                         else if crc32_update chk val \<noteq> get_u32 header then Inl (VlChecksum (SegmentID ref) (refOffset ref))
                         else if crc32_checksum val \<noteq> Checksum ref then Inl (VlValueChecksum (SegmentID ref) (refOffset ref))
                         else Inr val))))"

definition vlog_Read :: "Log \<Rightarrow> ValueRef \<Rightarrow> vlog_error + bytes" where
  "vlog_Read l ref = ReadValue l ref"

definition ReadRecord :: "Log \<Rightarrow> ValueRef \<Rightarrow> vlog_error + (bytes \<times> bytes)" where
  "ReadRecord l ref =
     (if lgClosed l then Inl VlClosed
      else case map_of (lgFiles l) (SegmentID ref) of
        None \<Rightarrow> Inl (VlUnknownSegment (SegmentID ref))
      | Some f \<Rightarrow>
          (case os_ReadAt64 f (replicate recordHeaderSize 0) (unat (refOffset ref)) of (header, e) \<Rightarrow>
             if e \<noteq> None then Inl (VlIO (the e))
             else
               let keyLen = unat (get_u32 (drop 4 header)); valueLen = get_u32 (drop 8 header) in
               if valueLen \<noteq> ValueLen ref then Inl (VlLengthMismatch (SegmentID ref) (refOffset ref))
               else
                 (case os_ReadAt64 f (replicate (keyLen + unat valueLen) 0) (unat (refOffset ref) + recordHeaderSize) of (payload, e) \<Rightarrow>
                    if e \<noteq> None then Inl (VlIO (the e))
                    else if crc32_update (crc32_update 0 (drop 4 header)) payload \<noteq> get_u32 header
                    then Inl (VlChecksum (SegmentID ref) (refOffset ref))
                    else
                      let val = drop keyLen payload in
                      if crc32_checksum val \<noteq> Checksum ref then Inl (VlValueChecksum (SegmentID ref) (refOffset ref))
                      else Inr (take keyLen payload, val))))"

section \<open>Segment names and references\<close>

lemma dec_digits_length: "n < 10 ^ k \<Longrightarrow> 0 < k \<Longrightarrow> length (dec_digits n) \<le> k"
proof (induction n arbitrary: k rule: dec_digits.induct)
  case (1 n)
  show ?case
  proof (cases "n < 10")
    case False
    obtain j where k: "k = Suc j" using 1(3) by (cases k) auto
    have "n div 10 < 10 ^ j" using 1(2) k by (simp add: less_mult_imp_div_less mult.commute)
    moreover have "0 < j" using calculation False by (cases j) auto
    ultimately have "length (dec_digits (n div 10)) \<le> j" using 1(1) [OF False] by blast
    then show ?thesis using False k by (simp add: dec_digits.simps [of n])
  qed (use 1(3) in \<open>simp add: dec_digits.simps [of n]\<close>)
qed

lemma parse_segmentName: "parseSegmentID (segmentName sid) = Some sid" "has_suffix (segmentName sid) ''.vlog''"
proof -
  let ?d = "replicate (20 - length (dec_digits (unat sid))) (char_of (48 :: nat)) @ dec_digits (unat sid)"
  have n: "segmentName sid = ?d @ ''.vlog''" by (simp add: segmentName_def Let_def)
  show "has_suffix (segmentName sid) ''.vlog''" unfolding n by (rule has_suffix_append)
  moreover have "unat sid < 2 ^ 64" using unsigned_less [of sid, where ?'a = nat] by simp
  ultimately show "parseSegmentID (segmentName sid) = Some sid"
    using parse_uint64_padded [of "unat sid" "20 - length (dec_digits (unat sid))"]
    by (simp add: parseSegmentID_def n)
qed

lemma ref_round_trip: "ref_UnmarshalBinary (ref_MarshalBinary ref) = Inr ref"
  by (simp add: ref_UnmarshalBinary_def ref_MarshalBinary_def EncodedValueRefSize_def)

section \<open>Scanning\<close>

definition good_file :: "osfile \<Rightarrow> bool" where
  "good_file f \<longleftrightarrow> fOpen f \<and> good_device (fDev f) \<and> length (fData f) < 2 ^ 63"

lemma good_file_read:
  assumes "good_file f" "off + n \<le> length (fData f)"
  shows "os_ReadAt f (replicate n 0) off = (take n (drop off (fData f)), None)"
    "os_ReadAt64 f (replicate n 0) off = (take n (drop off (fData f)), None)"
  using assms os_ReadAt_good [of f off "replicate n 0"] os_ReadAt64_good [of f off "replicate n 0"]
  by (simp_all add: good_file_def)

lemma header_fields:
  "get_u32 (take 12 d) = get_u32 d" "get_u32 (drop 4 (take 12 d)) = get_u32 (drop 4 d)" "get_u32 (drop 8 (take 12 d)) = get_u32 (drop 8 d)"
  by (simp_all add: get_u32_def drop_take min_def)

text \<open>One step of the scan, against what the bytes at the offset parse as.\<close>

lemma scan_step:
  assumes f: "good_file f" and off: "offset < length (fData f)"
  shows "scan_loop f (length (fData f)) offset =
    (case parse_rec (drop offset (fData f)) of
       Rec k v \<Rightarrow> scan_loop f (length (fData f)) (offset + frame_len (drop offset (fData f)))
     | _ \<Rightarrow> Inr (offset, True))"
proof -
  let ?d = "drop offset (fData f)" and ?n = "length (fData f)"
  define k v where kv: "k = unat (get_u32 (drop 4 ?d))" "v = unat (get_u32 (drop 8 ?d))"
  have len: "length ?d = ?n - offset" by simp
  have rh: "recordHeaderSize = 12" by (simp add: recordHeaderSize_def)
  show ?thesis
  proof (cases "?n - offset < 12")
    case True
    then show ?thesis using off by (simp add: scan_loop.simps [of f ?n offset] parse_rec_def recordHeaderSize_def)
  next
    case False
    have r1: "os_ReadAt f (replicate 12 0) offset = (take 12 ?d, None)" using good_file_read(1) [OF f] False off by simp
    have hd: "get_u32 (drop 4 (take 12 ?d)) = get_u32 (drop 4 ?d)" "get_u32 (drop 8 (take 12 ?d)) = get_u32 (drop 8 ?d)"
      "get_u32 (take 12 ?d) = get_u32 ?d" by (rule header_fields)+
    show ?thesis
    proof (cases "?n < offset + (12 + k + v)")
      case True
      then have "length ?d < 12 + k + v" using len off by linarith
      then have "parse_rec ?d = Torn" by (simp add: parse_rec_def Let_def kv [symmetric] del: drop_drop length_drop)
      then show ?thesis using True False off r1 hd kv
        by (simp only: scan_loop.simps [of f ?n offset] recordHeaderSize_def) (simp add: Let_def)
    next
      case fits: False
      have r2: "os_ReadAt f (replicate (k + v) 0) (offset + 12) = (take (k + v) (drop 12 ?d), None)"
        using good_file_read(1) [OF f, of "offset + 12" "k + v"] fits by (simp add: add.commute)
      have "drop 4 (take 12 ?d) @ take (k + v) (drop 12 ?d) = subslice ?d 4 (12 + k + v)"
      proof -
        have "take (8 + (k + v)) (drop 4 ?d) = take 8 (drop 4 ?d) @ take (k + v) (drop 8 (drop 4 ?d))" by (rule take_add)
        then show ?thesis by (simp add: subslice_def drop_take add.commute add.left_commute)
      qed
      then have crc: "crc32_update (crc32_update 0 (drop 4 (take 12 ?d))) (take (k + v) (drop 12 ?d)) = crc32_checksum (subslice ?d 4 (12 + k + v))"
        by (simp add: crc32_checksum_def)
      have fl: "frame_len ?d = 12 + k + v" by (simp add: frame_len_def kv)
      have p: "parse_rec ?d = (if crc32_checksum (subslice ?d 4 (12 + k + v)) \<noteq> get_u32 ?d then BadSum
          else Rec (subslice ?d 12 (12 + k)) (subslice ?d (12 + k) (12 + k + v)))"
        using False fits kv by (simp add: parse_rec_def Let_def)
      have "scan_loop f ?n offset = (if crc32_checksum (subslice ?d 4 (12 + k + v)) \<noteq> get_u32 ?d then Inr (offset, True)
          else scan_loop f ?n (offset + (12 + k + v)))"
        by (subst scan_loop.simps)
          (simp only: rh off False fits r1 r2 hd kv [symmetric] crc if_True if_False prod.case Let_def option.distinct simp_thms)
      then show ?thesis using p fl by simp
    qed
  qed
qed

lemma scan_loop_spec:
  assumes f: "good_file f" and off: "offset \<le> length (fData f)" and s: "split_records (drop offset (fData f)) = (rs, rest)"
  shows "scan_loop f (length (fData f)) offset = Inr (length (fData f) - length rest, rest \<noteq> [])"
  using off s
proof (induction "length (fData f) - offset" arbitrary: offset rs rule: less_induct)
  case less
  let ?d = "drop offset (fData f)" and ?n = "length (fData f)"
  show ?case
  proof (cases "offset < ?n")
    case False
    then have "?d = []" by simp
    then have "rest = []" using less.prems(2) split_records_stop [of "[]"] by simp
    then show ?thesis using False less.prems(1) by (simp add: scan_loop.simps [of f ?n ?n])
  next
    case True
    show ?thesis
    proof (cases "\<exists>k v. parse_rec ?d = Rec k v")
      case rc: True
      then obtain k v where p: "parse_rec ?d = Rec k v" by blast
      note i = parse_rec_inv [OF p]
      have pos: "0 < frame_len ?d" using i(2) by simp
      obtain rs' where r: "split_records (drop (frame_len ?d) ?d) = (rs', rest)"
        using less.prems(2) by (auto simp: split_records_Rec [OF p] split: prod.splits)
      have "scan_loop f ?n (offset + frame_len ?d) = Inr (?n - length rest, rest \<noteq> [])"
        using less.hyps [of "offset + frame_len ?d" rs'] r i(3) pos True by (simp add: add.commute)
      then show ?thesis using scan_step [OF f True] p by simp
    next
      case False
      then have "split_records ?d = ([], ?d)" by (intro split_records_stop) blast
      then have rest: "rest = ?d" using less.prems(2) by simp
      have "scan_loop f ?n offset = Inr (offset, True)"
        using scan_step [OF f True] False by (auto split: frame.splits)
      then show ?thesis using rest True by auto
    qed
  qed
qed

lemma scanSegment_spec:
  assumes "good_file f" "split_records (fData f) = (rs, rest)"
  shows "scanSegment f = Inr (length (concat (map enc_rec rs)), rest \<noteq> [])"
proof -
  have "os_Size f = Inr (length (fData f))" using assms(1) by (simp add: good_file_def os_Size_def good_device_def)
  moreover have "length (fData f) - length rest = length (concat (map enc_rec rs))" using split_records_inv [OF assms(2)] by simp
  ultimately show ?thesis using scan_loop_spec [OF assms(1), of 0] assms(2) by (simp add: scanSegment_def)
qed

section \<open>Stored values\<close>

text \<open>A reference is stored in the log when a whole record lies at its place with the value's length and checksum.\<close>

definition stored :: "Log \<Rightarrow> ValueRef \<Rightarrow> bytes \<times> bytes \<Rightarrow> bool" where
  "stored l ref r \<longleftrightarrow> rec_ok r \<and> ValueLen ref = of_nat (length (snd r)) \<and> Checksum ref = crc32_checksum (snd r) \<and>
     (\<exists>f pre post. map_of (lgFiles l) (SegmentID ref) = Some f \<and> fData f = pre @ enc_rec r @ post \<and> unat (refOffset ref) = length pre)"

definition file_ok :: "int \<Rightarrow> osfile \<Rightarrow> bool" where
  "file_ok m f \<longleftrightarrow> good_file f \<and> length (fData f) \<le> max (nat m) (2 ^ 34) \<and> (\<exists>rs. list_all rec_ok rs \<and> fData f = concat (map enc_rec rs))"

definition log_ok :: "Log \<Rightarrow> bool" where
  "log_ok l \<longleftrightarrow> \<not> lgClosed l \<and> 0 < lgMax l \<and> lgMax l < 2 ^ 62 \<and> distinct (map fst (lgFiles l)) \<and>
     (\<forall>f \<in> snd ` set (lgFiles l). file_ok (lgMax l) f) \<and>
     (\<exists>sg f. lgActive l = Some sg \<and> map_of (lgFiles l) (sgId sg) = Some f \<and> unat (sgSize sg) = length (fData f) \<and>
        (\<forall>sid \<in> fst ` set (lgFiles l). sid \<le> sgId sg))"

lemma log_file:
  assumes "log_ok l" "map_of (lgFiles l) sid = Some f"
  shows "file_ok (lgMax l) f" "good_file f"
  using assms map_of_SomeD [OF assms(2)] by (force simp: log_ok_def file_ok_def)+

lemma log_ok_update:
  assumes ok: "log_ok l" and f: "file_ok (lgMax l) f" and sg: "unat (sgSize sg) = length (fData f)"
    and top: "\<forall>sid \<in> fst ` set (lgFiles l). sid \<le> sgId sg"
  shows "log_ok (l\<lparr>lgFiles := AList.update (sgId sg) f (lgFiles l), lgActive := Some sg\<rparr>)"
proof -
  have "\<forall>g \<in> snd ` set (AList.update (sgId sg) f (lgFiles l)). file_ok (lgMax l) g"
    using alist_update_subset [of "sgId sg" f "lgFiles l"] ok f by (auto simp: log_ok_def dest!: subsetD)
  moreover have "\<forall>sid \<in> fst ` set (AList.update (sgId sg) f (lgFiles l)). sid \<le> sgId sg"
    unfolding alist_update_keys using top by simp
  ultimately show ?thesis using ok sg by (simp add: log_ok_def distinct_update update_conv')
qed

lemma key_crc_spec:
  assumes f: "good_file f"
  shows "offset + remaining \<le> length (fData f) \<Longrightarrow>
    key_crc f remaining offset s = Inr (offset + remaining, crc32_update s (take remaining (drop offset (fData f))))"
proof (induction remaining arbitrary: offset s rule: less_induct)
  case (less remaining)
  show ?case
  proof (cases "0 < remaining")
    case True
    let ?c = "min 256 remaining"
    have r: "os_ReadAt64 f (replicate ?c 0) offset = (take ?c (drop offset (fData f)), None)"
      using good_file_read(2) [OF f, of offset ?c] less.prems by simp
    have "key_crc f (remaining - ?c) (offset + ?c) (crc32_update s (take ?c (drop offset (fData f)))) =
        Inr (offset + ?c + (remaining - ?c), crc32_update (crc32_update s (take ?c (drop offset (fData f)))) (take (remaining - ?c) (drop (offset + ?c) (fData f))))"
      using True less.prems by (intro less.IH) auto
    moreover have "take ?c (drop offset (fData f)) @ take (remaining - ?c) (drop (offset + ?c) (fData f)) = take remaining (drop offset (fData f))"
      using take_add [of ?c "remaining - ?c" "drop offset (fData f)"] by (simp add: add.commute)
    ultimately show ?thesis using True r by (simp add: key_crc.simps [of f remaining] Let_def)
  qed (simp add: key_crc.simps [of f 0])
qed

lemma stored_layout:
  assumes ok: "good_file f" and d: "fData f = pre @ enc_rec r @ post" and r: "rec_ok r"
  shows "os_ReadAt64 f (replicate recordHeaderSize 0) (length pre) = (take 12 (enc_rec r), None)"
    "unat (get_u32 (drop 4 (take 12 (enc_rec r)))) = length (fst r)" "get_u32 (drop 8 (take 12 (enc_rec r))) = of_nat (length (snd r))"
    "get_u32 (take 12 (enc_rec r)) = crc32_checksum (rec_payload (fst r) (snd r))"
    "drop 4 (take 12 (enc_rec r)) @ fst r @ snd r = rec_payload (fst r) (snd r)"
    "drop (length pre + 12) (fData f) = fst r @ snd r @ post" "drop (length pre + 12 + length (fst r)) (fData f) = snd r @ post"
    "unat (of_nat (length (snd r)) :: u32) = length (snd r)"
proof -
  show "os_ReadAt64 f (replicate recordHeaderSize 0) (length pre) = (take 12 (enc_rec r), None)"
    using good_file_read(2) [OF ok, of "length pre" 12] d by (simp add: recordHeaderSize_def)
  note h = header_fields [of "enc_rec r"]
  show "unat (get_u32 (drop 4 (take 12 (enc_rec r)))) = length (fst r)" using h(2) enc_rec_lengths(1) [OF r, of "[]"] by simp
  show "get_u32 (drop 8 (take 12 (enc_rec r))) = of_nat (length (snd r))" unfolding h(3) by (simp add: enc_rec_def rec_payload_def)
  show "get_u32 (take 12 (enc_rec r)) = crc32_checksum (rec_payload (fst r) (snd r))" unfolding h(1) by (simp add: enc_rec_def)
  show "drop 4 (take 12 (enc_rec r)) @ fst r @ snd r = rec_payload (fst r) (snd r)" by (simp add: enc_rec_def rec_payload_def)
  have e: "drop (length pre + n) (fData f) = drop n (enc_rec r @ post)" for n unfolding d by simp
  have e12: "drop 12 (enc_rec r @ post) = fst r @ snd r @ post" by (simp add: enc_rec_def rec_payload_def)
  show "drop (length pre + 12) (fData f) = fst r @ snd r @ post" unfolding e e12 ..
  have "drop (length pre + 12 + length (fst r)) (fData f) = drop (length (fst r)) (drop (length pre + 12) (fData f))"
    by (simp add: add.commute)
  then show "drop (length pre + 12 + length (fst r)) (fData f) = snd r @ post" unfolding e e12 by simp
  show "unat (of_nat (length (snd r)) :: u32) = length (snd r)" using r by (simp add: rec_ok_def unat_of_nat)
qed

lemma read_stored:
  assumes "log_ok l" "stored l ref r"
  shows "ReadValue l ref = Inr (snd r)" "ReadRecord l ref = Inr r"
proof -
  obtain f pre post where f: "map_of (lgFiles l) (SegmentID ref) = Some f" "fData f = pre @ enc_rec r @ post" "unat (refOffset ref) = length pre"
    and r: "rec_ok r" "ValueLen ref = of_nat (length (snd r))" "Checksum ref = crc32_checksum (snd r)"
    using assms(2) by (auto simp: stored_def)
  have ok: "good_file f" using log_file(2) [OF assms(1) f(1)] .
  note L = stored_layout [OF ok f(2) r(1)]
  have cl: "\<not> lgClosed l" using assms(1) by (simp add: log_ok_def)
  have len: "length (fData f) = length pre + 12 + length (fst r) + length (snd r) + length post" using f(2) by simp
  have key: "key_crc f (length (fst r)) (length pre + recordHeaderSize) (crc32_update 0 (drop 4 (take 12 (enc_rec r)))) =
      Inr (length pre + 12 + length (fst r), crc32_update 0 (drop 4 (take 12 (enc_rec r)) @ fst r))"
    using key_crc_spec [OF ok, of "length pre + 12" "length (fst r)"] len L(6) by (simp add: recordHeaderSize_def)
  have val: "os_ReadAt64 f (replicate (length (snd r)) 0) (length pre + 12 + length (fst r)) = (snd r, None)"
    using good_file_read(2) [OF ok, of "length pre + 12 + length (fst r)" "length (snd r)"] len L(7) by simp
  have crc: "crc32_update (crc32_update 0 (drop 4 (take 12 (enc_rec r)) @ fst r)) (snd r) = crc32_checksum (rec_payload (fst r) (snd r))"
    using L(5) by (simp add: crc32_checksum_def)
  show "ReadValue l ref = Inr (snd r)"
    by (simp only: ReadValue_def cl f(1,3) option.case L(1-4,8) key val crc r(2,3) prod.case sum.case Let_def if_False simp_thms)
  have pay: "os_ReadAt64 f (replicate (length (fst r) + length (snd r)) 0) (length pre + recordHeaderSize) = (fst r @ snd r, None)"
    using good_file_read(2) [OF ok, of "length pre + 12" "length (fst r) + length (snd r)"] len L(6) by (simp add: recordHeaderSize_def)
  have crc2: "crc32_update (crc32_update 0 (drop 4 (take 12 (enc_rec r)))) (fst r @ snd r) = crc32_checksum (rec_payload (fst r) (snd r))"
    using L(5) by (simp add: crc32_checksum_def)
  have "ReadRecord l ref = Inr (take (length (fst r)) (fst r @ snd r), drop (length (fst r)) (fst r @ snd r))"
    by (simp only: ReadRecord_def cl f(1,3) option.case L(1-4,8) pay crc2 r(2,3) prod.case Let_def if_False simp_thms) simp
  then show "ReadRecord l ref = Inr r" by simp
qed

section \<open>Appending\<close>

text \<open>A run of \<open>n\<close> appends has ids left, and the environment of a call lets it create a segment.\<close>

definition env_ok :: "env \<Rightarrow> bool" where
  "env_ok ev \<longleftrightarrow> \<not> envExists ev \<and> good_device (envDev ev) \<and> envNow ev < 2 ^ 63"

definition room :: "nat \<Rightarrow> Log \<Rightarrow> bool" where
  "room n l \<longleftrightarrow> n \<le> 2 ^ 63 \<and> (\<forall>sg. lgActive l = Some sg \<longrightarrow> unat (sgId sg) + n < 2 ^ 64)"

lemma room_next:
  assumes "room (Suc n) l" "lgActive l = Some sg" "now < 2 ^ 63"
  shows "sgId sg < nextSegmentID now (sgId sg)" "unat (nextSegmentID now (sgId sg)) + n < 2 ^ 64"
proof -
  have b: "unat (sgId sg) + Suc n < 2 ^ 64" "n < 2 ^ 63" using assms(1,2) by (simp_all add: room_def)
  have u: "unat (sgId sg + 1) = unat (sgId sg) + 1" using b by (simp add: unat_word_ariths)
  have "unat (of_nat now :: u64) = now" using assms(3) by (simp add: unat_of_nat)
  then show "sgId sg < nextSegmentID now (sgId sg)" "unat (nextSegmentID now (sgId sg)) + n < 2 ^ 64"
    using u b assms(3) by (auto simp: nextSegmentID_def Let_def word_less_nat_alt word_le_nat_alt)
qed

lemma rotate_spec:
  assumes ok: "log_ok l" and ev: "env_ok ev" and sg: "lgActive l = Some sg" and rm: "room (Suc n) l"
  shows "\<exists>l' sg'. rotateSegmentLocked ev l (sgId sg) = Inr l' \<and> log_ok l' \<and> lgActive l' = Some sg' \<and> sgSize sg' = 0 \<and>
    sgId sg < sgId sg' \<and> map_of (lgFiles l') (sgId sg') = Some \<lparr>fData = [], fPos = 0, fOpen = True, fDev = envDev ev\<rparr> \<and>
    lgMax l' = lgMax l \<and> room n l' \<and> (\<forall>ref r. stored l ref r \<longrightarrow> stored l' ref r)"
proof -
  let ?sid = "nextSegmentID (envNow ev) (sgId sg)" and ?f = "\<lparr>fData = [], fPos = 0, fOpen = True, fDev = envDev ev\<rparr>"
  obtain f where f: "map_of (lgFiles l) (sgId sg) = Some f" and top: "\<forall>sid \<in> fst ` set (lgFiles l). sid \<le> sgId sg"
    using ok sg by (auto simp: log_ok_def)
  have gt: "sgId sg < ?sid" and rm': "unat ?sid + n < 2 ^ 64" using room_next [OF rm sg] ev by (simp_all add: env_ok_def)
  then have fresh: "map_of (lgFiles l) ?sid = None" using top by (force simp: map_of_eq_None_iff)
  have sync: "os_Sync f = None" using log_file(2) [OF ok f] by (simp add: good_file_def os_Sync_def good_device_def)
  define l' where "l' = l\<lparr>lgFiles := AList.update ?sid ?f (lgFiles l), lgActive := Some \<lparr>sgId = ?sid, sgName = segmentName ?sid, sgSize = 0\<rparr>\<rparr>"
  have "rotateSegmentLocked ev l (sgId sg) = Inr l'"
    using sync f sg fresh ev by (simp add: rotateSegmentLocked_def activeFile_def Let_def env_ok_def good_device_def l'_def)
  moreover have "log_ok l'"
  proof -
    have "file_ok (lgMax l) ?f"
      using ev exI [of "\<lambda>rs. list_all rec_ok rs \<and> [] = concat (map enc_rec rs)" "[]"] by (simp add: file_ok_def good_file_def env_ok_def)
    moreover have "\<forall>sid \<in> fst ` set (lgFiles l). sid \<le> ?sid" using top gt by (meson less_imp_le order.trans)
    ultimately show ?thesis
      using log_ok_update [OF ok, of ?f "\<lparr>sgId = ?sid, sgName = segmentName ?sid, sgSize = 0\<rparr>"] by (simp add: l'_def)
  qed
  moreover have "stored l ref r \<longrightarrow> stored l' ref r" for ref r
    using fresh by (auto simp: stored_def l'_def update_conv')
  ultimately show ?thesis using gt rm' rm
    by (intro exI [of _ l'] exI [of _ "\<lparr>sgId = ?sid, sgName = segmentName ?sid, sgSize = 0\<rparr>"]) (simp add: l'_def update_conv' room_def)
qed

lemma append_record_spec:
  assumes ok: "log_ok l" and sg: "lgActive l = Some sg" "map_of (lgFiles l) (sgId sg) = Some f" and r: "rec_ok (key, val)"
    and room: "sgSize sg = 0 \<or> length (fData f) + length (enc_rec (key, val)) \<le> nat (lgMax l)"
  shows "\<exists>l' ref. append_record l sg f key val = (l', Inr ref) \<and> log_ok l' \<and> (\<forall>n. room n l \<longrightarrow> room n l') \<and> stored l' ref (key, val) \<and>
    (\<forall>ref' r'. stored l ref' r' \<longrightarrow> stored l' ref' r')"
proof -
  let ?rec = "enc_rec (key, val)"
  have sz: "unat (sgSize sg) = length (fData f)" and top: "\<forall>sid \<in> fst ` set (lgFiles l). sid \<le> sgId sg"
    and mx: "0 < lgMax l" "lgMax l < 2 ^ 62" using ok sg by (auto simp: log_ok_def)
  note fok = log_file [OF ok sg(2)]
  have len: "length (fData f @ ?rec) \<le> max (nat (lgMax l)) (2 ^ 34)"
    using room sz r by (auto simp: rec_ok_def)
  define f' where "f' = f\<lparr>fData := fData f @ ?rec\<rparr>"
  have small: "length (fData f @ ?rec) < 2 ^ 63" using len mx by (auto simp: max_def split: if_splits)
  then have wr: "os_WriteAt64 f ?rec (unat (sgSize sg)) = (f', length ?rec, None)"
    using fok(2) sz by (simp add: os_WriteAt64_def os_WriteAt_def good_file_def good_device_def f'_def)
  have "file_ok (lgMax l) f'"
  proof -
    obtain rs where rs: "list_all rec_ok rs" "fData f = concat (map enc_rec rs)" using fok(1) by (auto simp: file_ok_def)
    then have "list_all rec_ok (rs @ [(key, val)]) \<and> fData f' = concat (map enc_rec (rs @ [(key, val)]))" using r by (simp add: f'_def)
    then have "\<exists>rs. list_all rec_ok rs \<and> fData f' = concat (map enc_rec rs)" by blast
    moreover have "good_file f'" "length (fData f') \<le> max (nat (lgMax l)) (2 ^ 34)"
      using fok(2) len small unfolding good_file_def by (auto simp: f'_def)
    ultimately show ?thesis unfolding file_ok_def by blast
  qed
  define sg' where "sg' = sg\<lparr>sgSize := sgSize sg + of_nat (length ?rec)\<rparr>"
  have sz': "unat (sgSize sg') = length (fData f')"
    using sz small unat_word_ariths(1) [of "sgSize sg" "of_nat (length ?rec)"]
    by (simp add: sg'_def f'_def unat_of_nat del: length_enc_rec of_nat_add)
  define l' where "l' = l\<lparr>lgFiles := AList.update (sgId sg) f' (lgFiles l), lgActive := Some sg'\<rparr>"
  define ref where "ref = \<lparr>SegmentID = sgId sg, refOffset = sgSize sg, ValueLen = of_nat (length val), Checksum = crc32_checksum val\<rparr>"
  have "append_record l sg f key val = (l', Inr ref)"
    using wr by (simp add: append_record_def Let_def l'_def sg'_def ref_def del: length_enc_rec)
  moreover have "log_ok l'"
    using log_ok_update [OF ok \<open>file_ok (lgMax l) f'\<close> sz'] top by (simp add: l'_def sg'_def)
  moreover have "room n l \<longrightarrow> room n l'" for n
    using sg(1) by (simp add: l'_def room_def sg'_def)
  moreover have "stored l' ref (key, val)"
    unfolding stored_def using r sz
    by (intro conjI exI [of _ f'] exI [of _ "fData f"] exI [of _ "[]"]) (simp_all add: ref_def l'_def update_conv' f'_def)
  moreover have "stored l' ref' r'" if "stored l ref' r'" for ref' r'
    using that sg(2) unfolding stored_def l'_def by (auto simp: update_conv' f'_def) (metis append.assoc)+
  ultimately show ?thesis by blast
qed

lemma Append_spec:
  assumes ok: "log_ok l" and rm: "room (Suc n) l" and ev: "env_ok ev" and r: "rec_ok (key, val)"
  shows "\<exists>l' ref. Append ev l key val = (l', Inr ref) \<and> log_ok l' \<and> room n l' \<and> stored l' ref (key, val) \<and>
    (\<forall>ref' r'. stored l ref' r' \<longrightarrow> stored l' ref' r')"
proof -
  obtain sg f where sg: "lgActive l = Some sg" "map_of (lgFiles l) (sgId sg) = Some f" "unat (sgSize sg) = length (fData f)"
    and cl: "\<not> lgClosed l" and mx: "0 < lgMax l" "lgMax l < 2 ^ 62" using ok by (auto simp: log_ok_def)
  have fl: "length (fData f) \<le> max (nat (lgMax l)) (2 ^ 34)" using log_file(1) [OF ok sg(2)] by (simp add: file_ok_def)
  let ?n = "recordHeaderSize + length key + length val"
  have n: "?n < 2 ^ 34" using r by (simp add: rec_ok_def recordHeaderSize_def)
  have u: "unat (of_nat ?n :: u64) = ?n" using n by (intro unat_of_nat_bound) simp
  have big: "\<not> (of_nat ?n :: u64) < of_nat (length key) + of_nat (length val)"
  proof -
    have "unat (of_nat (length key) + of_nat (length val) :: u64) = length key + length val"
      using n unat_of_nat_bound(3) [of "length key + length val"] by simp
    then show ?thesis using u by (simp add: word_less_nat_alt recordHeaderSize_def del: of_nat_add)
  qed
  have rm': "room n l" using rm by (auto simp: room_def)
  have act: "activeFile l = Some f" using sg by (simp add: activeFile_def)
  show ?thesis
  proof (cases "0 < sgSize sg \<and> word_of_int (lgMax l) < sgSize sg + of_nat ?n")
    case True
    obtain l1 sg1 where l1: "rotateSegmentLocked ev l (sgId sg) = Inr l1" "log_ok l1" "lgActive l1 = Some sg1" "sgSize sg1 = 0"
      "map_of (lgFiles l1) (sgId sg1) = Some \<lparr>fData = [], fPos = 0, fOpen = True, fDev = envDev ev\<rparr>" "\<forall>ref r. stored l ref r \<longrightarrow> stored l1 ref r"
      "room n l1"
      using rotate_spec [OF ok ev sg(1) rm] by blast
    have "Append ev l key val = append_record l1 sg1 \<lparr>fData = [], fPos = 0, fOpen = True, fDev = envDev ev\<rparr> key val"
      using big cl sg(1) act True l1(1,3,5) by (simp add: Append_def Let_def activeFile_def)
    then show ?thesis using append_record_spec [OF l1(2,3,5) r] l1(4,6,7) by metis
  next
    case False
    have "sgSize sg = 0 \<or> length (fData f) + length (enc_rec (key, val)) \<le> nat (lgMax l)"
    proof (cases "sgSize sg = 0")
      case nz: False
      then have "\<not> word_of_int (lgMax l) < sgSize sg + of_nat ?n" using False by (simp add: word_neq_0_conv)
      moreover have "unat (sgSize sg + of_nat ?n) = length (fData f) + ?n"
      proof -
        have "length (fData f) + ?n < 2 ^ 64" using fl n mx by (auto simp: max_def split: if_splits)
        then show ?thesis using sg(3) u unat_word_ariths(1) [of "sgSize sg" "of_nat ?n"] by (simp del: of_nat_add)
      qed
      moreover have "unat (word_of_int (lgMax l) :: u64) = nat (lgMax l)"
        using mx by (simp add: unat_eq_nat_uint uint_word_of_int)
      ultimately show ?thesis by (simp add: word_less_nat_alt recordHeaderSize_def)
    qed simp
    moreover have "Append ev l key val = append_record l sg f key val"
      by (simp only: Append_def Let_def big cl if_False option.case prod.case sg(1) act if_not_P [OF False])
    ultimately show ?thesis using append_record_spec [OF ok sg(1,2) r] rm' by metis
  qed
qed

end
