(* ===== verification/Vlog_Recovery.thy ===== *)
theory Vlog_Recovery
  imports Vlog
begin

text \<open>
  The value log as the database uses it: the contract \<open>value_store\<close>, runs of appends, and reopening
  the directory a running or crashed process left behind.
\<close>

section \<open>The contract of a value store\<close>

fun run_appends :: "('e \<Rightarrow> 's \<Rightarrow> bytes \<Rightarrow> bytes \<Rightarrow> 's \<times> ('x + 'r)) \<Rightarrow> ('e \<times> bytes \<times> bytes) list \<Rightarrow> 's \<Rightarrow> 'x + ('s \<times> 'r list)" where
  "run_appends app [] s = Inr (s, [])"
| "run_appends app ((e, k, v) # ops) s =
     (case app e s k v of
        (_, Inl x) \<Rightarrow> Inl x
      | (s', Inr r) \<Rightarrow> (case run_appends app ops s' of Inl x \<Rightarrow> Inl x | Inr (t, rs) \<Rightarrow> Inr (t, r # rs)))"

locale value_store =
  fixes inv :: "'s \<Rightarrow> bool" and budget :: "nat \<Rightarrow> 's \<Rightarrow> bool" and env_good :: "'e \<Rightarrow> bool" and fits :: "bytes \<times> bytes \<Rightarrow> bool"
    and app :: "'e \<Rightarrow> 's \<Rightarrow> bytes \<Rightarrow> bytes \<Rightarrow> 's \<times> ('x + 'r)" and get :: "'s \<Rightarrow> 'r \<Rightarrow> 'x + bytes"
    and holds :: "'s \<Rightarrow> 'r \<Rightarrow> bytes \<times> bytes \<Rightarrow> bool"
  assumes app_stores: "\<lbrakk>inv s; budget (Suc n) s; env_good e; fits (k, v)\<rbrakk> \<Longrightarrow>
      \<exists>s' r. app e s k v = (s', Inr r) \<and> inv s' \<and> budget n s' \<and> holds s' r (k, v) \<and> (\<forall>r' kv. holds s r' kv \<longrightarrow> holds s' r' kv)"
    and get_held: "\<lbrakk>inv s; holds s r kv\<rbrakk> \<Longrightarrow> get s r = Inr (snd kv)"
begin

lemma run_holds:
  assumes "inv s" "budget (length ops) s" "list_all (\<lambda>(e, kv). env_good e \<and> fits kv) ops"
  shows "\<exists>t rs. run_appends app ops s = Inr (t, rs) \<and> inv t \<and> list_all2 (holds t) rs (map snd ops) \<and>
    (\<forall>r kv. holds s r kv \<longrightarrow> holds t r kv)"
  using assms
proof (induction ops arbitrary: s)
  case (Cons op ops)
  obtain e k v where op: "op = (e, k, v)" by (cases op) auto
  obtain s' r where s': "app e s k v = (s', Inr r)" "inv s'" "budget (length ops) s'" "holds s' r (k, v)"
    "\<forall>r' kv. holds s r' kv \<longrightarrow> holds s' r' kv"
    using app_stores [of s "length ops" e k v] Cons.prems op by auto
  obtain t rs where t: "run_appends app ops s' = Inr (t, rs)" "inv t" "list_all2 (holds t) rs (map snd ops)"
    "\<forall>r kv. holds s' r kv \<longrightarrow> holds t r kv"
    using Cons.IH [OF s'(2,3)] Cons.prems(3) by auto
  then show ?case using s' op by auto
qed simp

lemma run_readable:
  assumes "inv s" "budget (length ops) s" "list_all (\<lambda>(e, kv). env_good e \<and> fits kv) ops"
  shows "\<exists>t rs. run_appends app ops s = Inr (t, rs) \<and> inv t \<and> map (get t) rs = map (\<lambda>(e, k, v). Inr v) ops \<and>
    (\<forall>r kv. holds s r kv \<longrightarrow> get t r = Inr (snd kv))"
proof -
  obtain t rs where t: "run_appends app ops s = Inr (t, rs)" "inv t" "list_all2 (holds t) rs (map snd ops)"
    "\<forall>r kv. holds s r kv \<longrightarrow> holds t r kv" using run_holds [OF assms] by blast
  have "map (get t) rs = map (\<lambda>kv. Inr (snd kv)) (map snd ops)"
    using t(3) by (induction rs "map snd ops" arbitrary: ops rule: list_all2_induct) (auto simp: get_held [OF t(2)])
  moreover have "\<forall>r kv. holds s r kv \<longrightarrow> get t r = Inr (snd kv)" using t(4) get_held [OF t(2)] by blast
  ultimately show ?thesis using t(1,2) by (auto simp: case_prod_unfold)
qed

end

interpretation value_log: value_store log_ok room env_ok rec_ok Append ReadValue stored
proof unfold_locales
  fix l n ev k v
  assume "log_ok l" "room (Suc n) l" "env_ok ev" "rec_ok (k, v)"
  then show "\<exists>l' ref. Append ev l k v = (l', Inr ref) \<and> log_ok l' \<and> room n l' \<and> stored l' ref (k, v) \<and>
    (\<forall>ref' kv. stored l ref' kv \<longrightarrow> stored l' ref' kv)" by (rule Append_spec)
qed (rule read_stored(1))

section \<open>Reopening a directory\<close>

lemma sorted_insort_by: "sorted (map f xs) \<Longrightarrow> sorted (map f (insort_by (\<lambda>a b. f a < f b) x xs))"
  by (induction xs) (auto simp: less_imp_le not_less)

lemma sorted_sort_slice: "sorted (map f (sort_slice (\<lambda>a b. f a < f b) xs))" for f :: "'a \<Rightarrow> 'k::linorder"
  by (induction xs) (auto simp: sort_slice_Cons intro: sorted_insort_by)

lemma distinct_insort_by: "distinct (map f xs) \<Longrightarrow> f x \<notin> f ` set xs \<Longrightarrow> distinct (map f (insort_by lt x xs))"
  by (induction xs) auto

lemma distinct_sort_slice: "distinct (map f xs) \<Longrightarrow> distinct (map f (sort_slice lt xs))"
  by (induction xs) (auto simp: sort_slice_Cons intro: distinct_insort_by)

definition is_segment :: "dirent \<Rightarrow> bool" where
  "is_segment e \<longleftrightarrow> snd e \<noteq> None \<and> has_suffix (fst e) ''.vlog''"

definition seg_info :: "dirent \<Rightarrow> u64 \<times> string \<times> bytes \<times> device" where
  "seg_info e = (the (parseSegmentID (fst e)), fst e, the (snd e))"

lemma collect_segments_spec:
  "(\<And>e. e \<in> set es \<Longrightarrow> is_segment e \<Longrightarrow> parseSegmentID (fst e) \<noteq> None) \<Longrightarrow>
    collect_segments es = Inr (map seg_info (filter is_segment es))"
proof (induction es)
  case (Cons e es)
  obtain name content where e: "e = (name, content)" by (cases e)
  have IH: "collect_segments es = Inr (map seg_info (filter is_segment es))" using Cons by simp
  show ?case
  proof (cases "is_segment e")
    case True
    then obtain data dev where c: "content = Some (data, dev)" "has_suffix name ''.vlog''" using e by (auto simp: is_segment_def)
    moreover obtain sid where "parseSegmentID name = Some sid" using Cons.prems [of e] True e by auto
    ultimately show ?thesis using IH True e by (simp add: seg_info_def)
  next
    case False
    then have "content = None \<or> \<not> has_suffix name ''.vlog''" using e by (auto simp: is_segment_def)
    then show ?thesis using IH e False by (auto split: option.split)
  qed
qed simp

definition mk_file :: "bytes \<Rightarrow> device \<Rightarrow> osfile" where
  "mk_file data dev = \<lparr>fData = data, fPos = 0, fOpen = True, fDev = dev\<rparr>"

definition sealed :: "u64 \<times> string \<times> bytes \<times> device \<Rightarrow> bool" where
  "sealed s = (case s of (sid, name, data, dev) \<Rightarrow> good_file (mk_file data dev) \<and> snd (split_records data) = [])"

lemma alist_update_fresh: "k \<notin> fst ` set al \<Longrightarrow> AList.update k v al = al @ [(k, v)]"
  by (induction al) auto

lemma open_segments_spec:
  assumes "list_all sealed ss" "good_file (mk_file data dev)" "split_records data = (rs, rest)"
    "distinct (map fst (lgFiles l) @ map fst ss @ [sid])"
  shows "open_segments (ss @ [(sid, name, data, dev)]) l =
    Inr (l\<lparr>lgFiles := lgFiles l @ map (\<lambda>(sid, name, data, dev). (sid, mk_file data dev)) ss @ [(sid, mk_file (concat (map enc_rec rs)) dev)],
          lgActive := Some \<lparr>sgId = sid, sgName = name, sgSize = of_nat (length (concat (map enc_rec rs)))\<rparr>\<rparr>)"
  using assms
proof (induction ss arbitrary: l)
  case Nil
  have sc: "scanSegment (mk_file data dev) = Inr (length (concat (map enc_rec rs)), rest \<noteq> [])"
    using scanSegment_spec [OF Nil(2)] Nil(3) by (simp add: mk_file_def)
  have d: "data = concat (map enc_rec rs) @ rest" using split_records_inv [OF Nil(3)] by simp
  have dev: "\<not> devCreate dev" "\<not> devTrunc dev" using Nil(2) by (simp_all add: good_file_def mk_file_def good_device_def)
  have fresh: "sid \<notin> fst ` set (lgFiles l)" using Nil(4) by auto
  have "(if rest \<noteq> [] then os_Truncate (mk_file data dev) (length (concat (map enc_rec rs))) else Inr (mk_file data dev)) = Inr (mk_file (concat (map enc_rec rs)) dev)"
    using d dev by (auto simp: os_Truncate_def mk_file_def)
  then show ?case using sc dev alist_update_fresh [OF fresh] by (simp add: Let_def mk_file_def [symmetric] del: length_concat)
next
  case (Cons s ss)
  obtain sid' name' data' dev' where s: "s = (sid', name', data', dev')" by (cases s) auto
  obtain rs' where sp: "split_records data' = (rs', [])" and g: "good_file (mk_file data' dev')"
    using Cons.prems(1) s by (auto simp: sealed_def prod_eq_iff)
  have sc: "scanSegment (mk_file data' dev') = Inr (length (concat (map enc_rec rs')), False)"
    using scanSegment_spec [OF g] sp by (simp add: mk_file_def)
  have dev: "\<not> devCreate dev'" using g by (simp add: good_file_def mk_file_def good_device_def)
  have fresh: "sid' \<notin> fst ` set (lgFiles l)" using Cons.prems(4) s by auto
  let ?l = "l\<lparr>lgFiles := lgFiles l @ [(sid', mk_file data' dev')]\<rparr>"
  have "open_segments ((s # ss) @ [(sid, name, data, dev)]) l = open_segments (ss @ [(sid, name, data, dev)]) ?l"
    using sc dev alist_update_fresh [OF fresh] s by (simp add: Let_def mk_file_def [symmetric] del: length_concat)
  also have "\<dots> = Inr (?l\<lparr>lgFiles := lgFiles ?l @ map (\<lambda>(sid, name, data, dev). (sid, mk_file data dev)) ss @ [(sid, mk_file (concat (map enc_rec rs)) dev)],
          lgActive := Some \<lparr>sgId = sid, sgName = name, sgSize = of_nat (length (concat (map enc_rec rs)))\<rparr>\<rparr>)"
    using Cons.prems s by (intro Cons.IH) auto
  finally show ?case using s by simp
qed

text \<open>
  The directory a process leaves behind: one entry per open segment, and in the active segment the
  bytes of an append that was cut short.
\<close>

definition seg_entry :: "u64 \<Rightarrow> bytes \<Rightarrow> device \<Rightarrow> dirent" where
  "seg_entry sid data dev = (segmentName sid, Some (data, dev))"

definition crash_data :: "Log \<Rightarrow> bytes \<Rightarrow> u64 \<Rightarrow> osfile \<Rightarrow> bytes" where
  "crash_data l tail sid f = (if map_option sgId (lgActive l) = Some sid then fData f @ tail else fData f)"

definition crash_image :: "Log \<Rightarrow> bytes \<Rightarrow> dirent list" where
  "crash_image l tail = map (\<lambda>(sid, f). seg_entry sid (crash_data l tail sid f) (fDev f)) (lgFiles l)"

lemma seg_info_entry: "is_segment (seg_entry sid data dev)" "seg_info (seg_entry sid data dev) = (sid, segmentName sid, data, dev)"
  by (simp_all add: is_segment_def seg_info_def seg_entry_def parse_segmentName)

lemma image_infos:
  assumes "distinct es" "set (filter is_segment es) = set (crash_image l tail)"
  shows "collect_segments es = Inr (map seg_info (filter is_segment es))"
    "set (map seg_info (filter is_segment es)) =
      (\<lambda>(sid, f). (sid, segmentName sid, crash_data l tail sid f, fDev f)) ` set (lgFiles l)"
    "distinct (map fst (lgFiles l)) \<Longrightarrow> distinct (map fst (map seg_info (filter is_segment es)))"
proof -
  have ent: "\<exists>sid f. (sid, f) \<in> set (lgFiles l) \<and>
      e = seg_entry sid (crash_data l tail sid f) (fDev f)" if "e \<in> set (filter is_segment es)" for e
    using that unfolding assms(2) by (auto simp: crash_image_def)
  show "collect_segments es = Inr (map seg_info (filter is_segment es))"
  proof (rule collect_segments_spec)
    fix e assume "e \<in> set es" "is_segment e"
    then show "parseSegmentID (fst e) \<noteq> None" using ent [of e] by (auto simp: seg_entry_def parse_segmentName)
  qed
  show "set (map seg_info (filter is_segment es)) =
      (\<lambda>(sid, f). (sid, segmentName sid, crash_data l tail sid f, fDev f)) ` set (lgFiles l)"
    unfolding set_map assms(2) by (auto simp: crash_image_def seg_info_entry image_iff split: prod.splits) force+
  assume d: "distinct (map fst (lgFiles l))"
  have "inj_on (\<lambda>e. fst (seg_info e)) (set (filter is_segment es))"
  proof (rule inj_onI)
    fix a b assume ab: "a \<in> set (filter is_segment es)" "b \<in> set (filter is_segment es)" "fst (seg_info a) = fst (seg_info b)"
    then show "a = b" using ent [OF ab(1)] ent [OF ab(2)] d by (auto simp: seg_info_entry dest: eq_key_imp_eq_value)
  qed
  then show "distinct (map fst (map seg_info (filter is_segment es)))"
    using assms(1) by (simp add: distinct_map comp_def)
qed

text \<open>The segments in the order they are opened: the active one is last.\<close>

lemma sorted_last:
  assumes "sorted (map fst xs)" "distinct (map fst xs)" "x \<in> set xs" "\<forall>y \<in> set xs. fst y \<le> fst x"
  shows "\<exists>ys. xs = ys @ [x] \<and> x \<notin> set ys"
proof -
  have ne: "xs \<noteq> []" using assms(3) by auto
  obtain ys y where xs: "xs = ys @ [y]" using ne by (metis append_butlast_last_id)
  have "fst x \<le> fst y" using assms(1,3) xs by (auto simp: sorted_append)
  moreover have "fst y \<le> fst x" using assms(4) xs by simp
  ultimately have "fst x = fst y" by simp
  then have "x = y" using assms(2,3) xs by (metis eq_key_imp_eq_value in_set_conv_decomp prod.collapse)
  then show ?thesis using xs assms(2) by auto
qed

lemma log_ok_data:
  assumes "log_ok l" "(sid, f) \<in> set (lgFiles l)"
  shows "file_ok (lgMax l) f" "map_of (lgFiles l) sid = Some f"
  using assms by (force simp: log_ok_def)+

lemma file_ok_split:
  assumes "file_ok m f"
  shows "\<exists>rs. list_all rec_ok rs \<and> fData f = concat (map enc_rec rs) \<and> split_records (fData f) = (rs, [])"
proof -
  obtain rs where rs: "list_all rec_ok rs" "fData f = concat (map enc_rec rs)" using assms by (auto simp: file_ok_def)
  moreover have "split_records (concat (map enc_rec rs) @ []) = (rs, [])"
    using split_records_enc [OF rs(1), of "[]"] split_records_stop [of "[]"] by simp
  ultimately show ?thesis by auto
qed

lemma mk_file_ok: "file_ok m f \<Longrightarrow> file_ok m (mk_file (fData f) (fDev f))"
  by (simp add: file_ok_def good_file_def mk_file_def)

lemma crash_sealed:
  assumes "log_ok l" "(sid, f) \<in> set (lgFiles l)" "map_option sgId (lgActive l) \<noteq> Some sid"
  shows "sealed (sid, segmentName sid, crash_data l tail sid f, fDev f)"
proof -
  have "file_ok (lgMax l) f" by (rule log_ok_data [OF assms(1,2)])
  then show ?thesis using file_ok_split [of "lgMax l" f] assms(3)
    by (auto simp: sealed_def crash_data_def file_ok_def good_file_def mk_file_def)
qed

lemma crash_active:
  assumes "log_ok l" "(sid, f) \<in> set (lgFiles l)" "map_option sgId (lgActive l) = Some sid" "rec_ok r" "m < length (enc_rec r)"
  shows "good_file (mk_file (crash_data l (take m (enc_rec r)) sid f) (fDev f))"
    "\<exists>rs. split_records (crash_data l (take m (enc_rec r)) sid f) = (rs, take m (enc_rec r)) \<and> concat (map enc_rec rs) = fData f"
proof -
  have f: "file_ok (lgMax l) f" by (rule log_ok_data [OF assms(1,2)])
  have "length (fData f) < 2 ^ 62 + 2 ^ 35" using f assms(1) by (auto simp: file_ok_def log_ok_def max_def split: if_splits)
  moreover have "m < 2 ^ 34" using assms(4,5) by (simp add: rec_ok_def)
  ultimately show "good_file (mk_file (crash_data l (take m (enc_rec r)) sid f) (fDev f))"
    using f assms(3) by (simp add: crash_data_def file_ok_def good_file_def mk_file_def min_def)
  obtain rs where rs: "list_all rec_ok rs" "fData f = concat (map enc_rec rs)" using file_ok_split [OF f] by blast
  have "split_records (take m (enc_rec r)) = ([], take m (enc_rec r))"
    using parse_torn_prefix [OF assms(4,5)] by (intro split_records_stop) simp
  then show "\<exists>rs. split_records (crash_data l (take m (enc_rec r)) sid f) = (rs, take m (enc_rec r)) \<and> concat (map enc_rec rs) = fData f"
    using split_records_enc [OF rs(1)] rs(2) assms(3) by (auto simp: crash_data_def)
qed

lemma open_order:
  assumes ok: "log_ok l" and es: "distinct es" "set (filter is_segment es) = set (crash_image l tail)"
    and a: "lgActive l = Some sg" "map_of (lgFiles l) (sgId sg) = Some f"
  shows "\<exists>ss. sort_slice (\<lambda>a b. fst a < fst b) (map seg_info (filter is_segment es)) =
      ss @ [(sgId sg, segmentName (sgId sg), crash_data l tail (sgId sg) f, fDev f)] \<and>
    set ss = (\<lambda>(sid, f). (sid, segmentName sid, crash_data l tail sid f, fDev f)) ` {(sid, f) \<in> set (lgFiles l). sid \<noteq> sgId sg} \<and>
    distinct (map fst ss @ [sgId sg])"
proof -
  let ?xs = "sort_slice (\<lambda>a b. fst a < fst b) (map seg_info (filter is_segment es))"
  let ?e = "\<lambda>(sid, f). (sid, segmentName sid, crash_data l tail sid f, fDev f)"
  let ?x = "(sgId sg, segmentName (sgId sg), crash_data l tail (sgId sg) f, fDev f)"
  have d: "distinct (map fst (lgFiles l))" and top: "\<forall>sid \<in> fst ` set (lgFiles l). sid \<le> sgId sg"
    using ok a(1) by (auto simp: log_ok_def)
  have st: "set ?xs = ?e ` set (lgFiles l)" using image_infos(2) [OF es] by simp
  have ds: "distinct (map fst ?xs)" by (rule distinct_sort_slice [OF image_infos(3) [OF es d]])
  have x: "?x \<in> set ?xs" unfolding st using map_of_SomeD [OF a(2)] by force
  have "\<forall>y \<in> set ?xs. fst y \<le> fst ?x" unfolding st using top by force
  then obtain ss where ss: "?xs = ss @ [?x]" "?x \<notin> set ss" using sorted_last [OF sorted_sort_slice ds x] by blast
  have "distinct (map fst (ss @ [?x]))" using ds unfolding ss(1) .
  then have dss: "distinct (map fst ss @ [sgId sg])" by simp
  have "set ss = set ?xs - {?x}" using ss by auto
  also have "\<dots> = ?e ` {(sid, f) \<in> set (lgFiles l). sid \<noteq> sgId sg}"
  proof -
    have uniq: "g = h" if "(sid, g) \<in> set (lgFiles l)" "(sid, h) \<in> set (lgFiles l)" for sid g h
      using that d by (rule eq_key_imp_eq_value [rotated 1])
    have "inj_on ?e (set (lgFiles l))" by (auto simp: inj_on_def dest: uniq)
    then have "?e ` (set (lgFiles l) - {(sgId sg, f)}) = ?e ` set (lgFiles l) - ?e ` {(sgId sg, f)}"
      using map_of_SomeD [OF a(2)] by (intro inj_on_image_set_diff) auto
    moreover have "set (lgFiles l) - {(sgId sg, f)} = {(sid, f) \<in> set (lgFiles l). sid \<noteq> sgId sg}"
      using map_of_SomeD [OF a(2)] by (auto dest: uniq)
    ultimately show ?thesis unfolding st by simp
  qed
  finally show ?thesis using ss(1) dss by blast
qed


lemma reopened_files:
  assumes ok: "log_ok l" and a: "lgActive l = Some sg" "map_of (lgFiles l) (sgId sg) = Some f"
    and ss: "set ss = (\<lambda>(sid, f). (sid, segmentName sid, crash_data l tail sid f, fDev f)) ` {(sid, f) \<in> set (lgFiles l). sid \<noteq> sgId sg}"
      "distinct (map fst ss @ [sgId sg])"
  defines "files \<equiv> map (\<lambda>(sid, name, data, dev). (sid, mk_file data dev)) ss @ [(sgId sg, mk_file (fData f) (fDev f))]"
  shows "set files = (\<lambda>(sid, f). (sid, mk_file (fData f) (fDev f))) ` set (lgFiles l)" "distinct (map fst files)"
    "map_option fData (map_of files sid) = map_option fData (map_of (lgFiles l) sid)"
proof -
  have d: "distinct (map fst (lgFiles l))" using ok by (simp add: log_ok_def)
  note fin = map_of_SomeD [OF a(2)]
  show set_files: "set files = (\<lambda>(sid, f). (sid, mk_file (fData f) (fDev f))) ` set (lgFiles l)"
  proof -
    have "set (map (\<lambda>(sid, name, data, dev). (sid, mk_file data dev)) ss) =
        (\<lambda>(sid, f). (sid, mk_file (fData f) (fDev f))) ` {(sid, f) \<in> set (lgFiles l). sid \<noteq> sgId sg}"
      unfolding set_map ss(1) image_image using a(1) by (intro image_cong) (auto simp: crash_data_def)
    moreover have "set (lgFiles l) = insert (sgId sg, f) {(sid, f) \<in> set (lgFiles l). sid \<noteq> sgId sg}"
      using fin d by (auto dest: eq_key_imp_eq_value)
    ultimately show ?thesis by (auto simp: files_def)
  qed
  show df: "distinct (map fst files)" using ss(2) by (simp add: files_def case_prod_unfold comp_def)
  show "map_option fData (map_of files sid) = map_option fData (map_of (lgFiles l) sid)"
  proof (cases "map_of (lgFiles l) sid")
    case None
    then have "map_of files sid = None" unfolding map_of_eq_None_iff set_files by (force simp: image_iff)
    then show ?thesis using None by simp
  next
    case (Some g)
    then have "(sid, mk_file (fData g) (fDev g)) \<in> set files" unfolding set_files using map_of_SomeD by force
    then have "map_of files sid = Some (mk_file (fData g) (fDev g))" using df by simp
    then show ?thesis using Some by (simp add: mk_file_def)
  qed
qed

text \<open>Opening the directory of a log that crashed in the middle of an append gives the log before that append.\<close>

lemma vlog_Open_image:
  assumes ok: "log_ok l" and es: "distinct es" "set (filter is_segment es) = set (crash_image l (take m (enc_rec r)))"
    and r: "rec_ok r" "m < length (enc_rec r)"
  shows "\<exists>l'. vlog_Open ev dir (lgMax l) es = Inr l' \<and> log_ok l' \<and>
    map_option sgId (lgActive l') = map_option sgId (lgActive l) \<and>
    (\<forall>sid. map_option fData (map_of (lgFiles l') sid) = map_option fData (map_of (lgFiles l) sid))"
proof -
  let ?t = "take m (enc_rec r)"
  obtain sg f where a: "lgActive l = Some sg" "map_of (lgFiles l) (sgId sg) = Some f" and mx: "0 < lgMax l" "lgMax l < 2 ^ 62"
    and d: "distinct (map fst (lgFiles l))" and top: "\<forall>sid \<in> fst ` set (lgFiles l). sid \<le> sgId sg"
    using ok by (auto simp: log_ok_def)
  note fin = map_of_SomeD [OF a(2)]
  obtain ss where ss: "sort_slice (\<lambda>a b. fst a < fst b) (map seg_info (filter is_segment es)) =
      ss @ [(sgId sg, segmentName (sgId sg), crash_data l ?t (sgId sg) f, fDev f)]"
    "set ss = (\<lambda>(sid, f). (sid, segmentName sid, crash_data l ?t sid f, fDev f)) ` {(sid, f) \<in> set (lgFiles l). sid \<noteq> sgId sg}"
    "distinct (map fst ss @ [sgId sg])"
    using open_order [OF ok es a] by blast
  have act: "map_option sgId (lgActive l) = Some (sgId sg)" using a(1) by simp
  obtain rs where rs: "split_records (crash_data l ?t (sgId sg) f) = (rs, ?t)" "concat (map enc_rec rs) = fData f"
    using crash_active(2) [OF ok fin act r] by blast
  have "list_all sealed ss" unfolding list_all_iff ss(2) using crash_sealed [OF ok] a(1) by auto
  then have opened: "open_segments (ss @ [(sgId sg, segmentName (sgId sg), crash_data l ?t (sgId sg) f, fDev f)]) l0 =
      Inr (l0\<lparr>lgFiles := map (\<lambda>(sid, name, data, dev). (sid, mk_file data dev)) ss @ [(sgId sg, mk_file (fData f) (fDev f))],
          lgActive := Some \<lparr>sgId = sgId sg, sgName = segmentName (sgId sg), sgSize = of_nat (length (fData f))\<rparr>\<rparr>)"
    if "lgFiles l0 = []" for l0
    using open_segments_spec [OF _ crash_active(1) [OF ok fin act r] rs(1), of ss l0 "sgId sg" "segmentName (sgId sg)"] ss(3) rs(2) that by simp
  define files where "files = map (\<lambda>(sid, name, data, dev). (sid, mk_file data dev)) ss @ [(sgId sg, mk_file (fData f) (fDev f))]"
  have set_files: "set files = (\<lambda>(sid, f). (sid, mk_file (fData f) (fDev f))) ` set (lgFiles l)" and df: "distinct (map fst files)"
    and lookup: "\<And>sid. map_option fData (map_of files sid) = map_option fData (map_of (lgFiles l) sid)"
    using reopened_files [OF ok a ss(2,3)] unfolding files_def by blast+
  define l' where "l' = \<lparr>lgDir = dir, lgMax = lgMax l, lgActive = Some \<lparr>sgId = sgId sg, sgName = segmentName (sgId sg), sgSize = of_nat (length (fData f))\<rparr>,
    lgFiles = files, lgClosed = False\<rparr>"
  have "vlog_Open ev dir (lgMax l) es = Inr l'"
    using image_infos(1) [OF es] ss(1) opened mx sort_slice_Nil
    by (auto simp: vlog_Open_def Let_def l'_def files_def)
  moreover have "log_ok l'"
  proof -
    have fok: "file_ok (lgMax l) f" using log_file [OF ok a(2)] by simp
    then have "unat (of_nat (length (fData f)) :: u64) = length (fData f)"
      by (intro unat_of_nat_bound) (simp add: file_ok_def good_file_def)
    moreover have "map_of files (sgId sg) = Some (mk_file (fData f) (fDev f))" using df set_files fin by force
    moreover have "\<forall>g \<in> snd ` set files. file_ok (lgMax l) g" unfolding set_files using log_ok_data(1) [OF ok] by (auto intro!: mk_file_ok)
    moreover have "\<forall>sid \<in> fst ` set files. sid \<le> sgId sg" unfolding set_files using top by force
    ultimately show ?thesis using mx df by (force simp: log_ok_def l'_def mk_file_def)
  qed
  ultimately show ?thesis using lookup a(1) by (simp add: l'_def)
qed

section \<open>What a read can return\<close>

lemma read_short:
  assumes "good_file f" "length (fData f) < off + n" "0 < n"
  shows "snd (os_ReadAt64 f (replicate n 0) off) \<noteq> None"
  using assms by (auto simp: os_ReadAt64_def os_ReadAt_def good_file_def good_device_def)

lemma read_header:
  assumes "good_file f" "12 \<le> length (drop off (fData f))"
  shows "os_ReadAt64 f (replicate recordHeaderSize 0) off = (take 12 (drop off (fData f)), None)"
  using good_file_read(2) [OF assms(1), of off 12] assms(2) by (simp add: recordHeaderSize_def)

lemma key_crc_short:
  assumes f: "good_file f"
  shows "length (fData f) < offset + remaining \<Longrightarrow> 0 < remaining \<Longrightarrow> \<exists>e. key_crc f remaining offset s = Inl e"
proof (induction remaining arbitrary: offset s rule: less_induct)
  case (less remaining)
  let ?c = "min 256 remaining"
  obtain d e where r: "os_ReadAt64 f (replicate ?c 0) offset = (d, e)" by fastforce
  show ?case
  proof (cases "length (fData f) < offset + ?c")
    case True
    then have "e \<noteq> None" using read_short [OF f, of offset ?c] r less.prems by simp
    then show ?thesis using r less.prems by (simp add: key_crc.simps [of f remaining] Let_def)
  next
    case False
    then have "\<exists>x. key_crc f (remaining - ?c) (offset + ?c) (crc32_update s d) = Inl x"
      using less.prems by (intro less.IH) auto
    then show ?thesis using r less.prems by (cases e) (simp_all add: key_crc.simps [of f remaining] Let_def)
  qed
qed

text \<open>The record a reference points at, as its reader should see it.\<close>

definition ref_record :: "Log \<Rightarrow> ValueRef \<Rightarrow> (bytes \<times> bytes) option" where
  "ref_record l ref =
     (if lgClosed l then None
      else case map_of (lgFiles l) (SegmentID ref) of
        None \<Rightarrow> None
      | Some f \<Rightarrow>
          (case parse_rec (drop (unat (refOffset ref)) (fData f)) of
             Rec k v \<Rightarrow> if of_nat (length v) = ValueLen ref \<and> crc32_checksum v = Checksum ref then Some (k, v) else None
           | _ \<Rightarrow> None))"

definition to_option :: "'e + 'a \<Rightarrow> 'a option" where
  "to_option x = (case x of Inl _ \<Rightarrow> None | Inr v \<Rightarrow> Some v)"

lemma to_option_simps [simp]: "to_option (Inl e) = None" "to_option (Inr v) = Some v"
  by (simp_all add: to_option_def)

lemma frame_bytes:
  assumes "12 + k + v \<le> length d"
  shows "drop 4 (take 12 d) @ take (k + v) (drop 12 d) = subslice d 4 (12 + k + v)"
    "take k (drop 12 d) @ take v (drop (12 + k) d) = take (k + v) (drop 12 d)"
    "take k (take (k + v) (drop 12 d)) = subslice d 12 (12 + k)" "drop k (take (k + v) (drop 12 d)) = subslice d (12 + k) (12 + k + v)"
    "take v (drop (12 + k) d) = subslice d (12 + k) (12 + k + v)"
proof -
  have "take (8 + (k + v)) (drop 4 d) = take 8 (drop 4 d) @ take (k + v) (drop 8 (drop 4 d))" by (rule take_add)
  then show "drop 4 (take 12 d) @ take (k + v) (drop 12 d) = subslice d 4 (12 + k + v)"
    by (simp add: subslice_def drop_take add.commute add.left_commute)
  show "take k (drop 12 d) @ take v (drop (12 + k) d) = take (k + v) (drop 12 d)" by (simp add: take_add add.commute)
qed (simp_all add: subslice_def drop_take min_def add.commute)

text \<open>Both readers after the header: the checks that are left, in the order the code makes them.\<close>

definition finish_value :: "ValueRef \<Rightarrow> bytes \<Rightarrow> u32 \<Rightarrow> bytes \<Rightarrow> vlog_error + bytes" where
  "finish_value ref d chk val =
     (if crc32_update chk val \<noteq> get_u32 d then Inl (VlChecksum (SegmentID ref) (refOffset ref))
      else if crc32_checksum val \<noteq> Checksum ref then Inl (VlValueChecksum (SegmentID ref) (refOffset ref))
      else Inr val)"

lemma reads_header:
  assumes l: "\<not> lgClosed l" "map_of (lgFiles l) (SegmentID ref) = Some f" and f: "good_file f"
    and o: "off = unat (refOffset ref)" "d = drop off (fData f)" "k = unat (get_u32 (drop 4 d))" "v = unat (get_u32 (drop 8 d))"
    and len: "12 \<le> length d"
  shows "ReadRecord l ref = (if get_u32 (drop 8 d) \<noteq> ValueLen ref then Inl (VlLengthMismatch (SegmentID ref) (refOffset ref))
        else (case os_ReadAt64 f (replicate (k + v) 0) (off + 12) of (payload, e) \<Rightarrow>
           if e \<noteq> None then Inl (VlIO (the e))
           else if crc32_update (crc32_update 0 (drop 4 (take 12 d))) payload \<noteq> get_u32 d then Inl (VlChecksum (SegmentID ref) (refOffset ref))
           else if crc32_checksum (drop k payload) \<noteq> Checksum ref then Inl (VlValueChecksum (SegmentID ref) (refOffset ref))
           else Inr (take k payload, drop k payload)))"
    "ReadValue l ref = (if get_u32 (drop 8 d) \<noteq> ValueLen ref then Inl (VlLengthMismatch (SegmentID ref) (refOffset ref))
        else (case key_crc f k (off + 12) (crc32_update 0 (drop 4 (take 12 d))) of Inl e \<Rightarrow> Inl e | Inr (offset, chk) \<Rightarrow>
          (case os_ReadAt64 f (replicate v 0) offset of (val, e) \<Rightarrow>
             if e \<noteq> None then Inl (VlIO (the e)) else finish_value ref d chk val)))"
proof -
  have rh: "recordHeaderSize = 12" by (simp add: recordHeaderSize_def)
  note h = read_header [OF f len [unfolded o(2)], folded o(2), unfolded rh] and hf = header_fields [of d]
  show "ReadRecord l ref = (if get_u32 (drop 8 d) \<noteq> ValueLen ref then Inl (VlLengthMismatch (SegmentID ref) (refOffset ref))
        else (case os_ReadAt64 f (replicate (k + v) 0) (off + 12) of (payload, e) \<Rightarrow>
           if e \<noteq> None then Inl (VlIO (the e))
           else if crc32_update (crc32_update 0 (drop 4 (take 12 d))) payload \<noteq> get_u32 d then Inl (VlChecksum (SegmentID ref) (refOffset ref))
           else if crc32_checksum (drop k payload) \<noteq> Checksum ref then Inl (VlValueChecksum (SegmentID ref) (refOffset ref))
           else Inr (take k payload, drop k payload)))"
    by (simp only: ReadRecord_def o(1) [symmetric] l rh h hf o(3,4) [symmetric] Let_def option.case prod.case if_False simp_thms)
  show "ReadValue l ref = (if get_u32 (drop 8 d) \<noteq> ValueLen ref then Inl (VlLengthMismatch (SegmentID ref) (refOffset ref))
        else (case key_crc f k (off + 12) (crc32_update 0 (drop 4 (take 12 d))) of Inl e \<Rightarrow> Inl e | Inr (offset, chk) \<Rightarrow>
          (case os_ReadAt64 f (replicate v 0) offset of (val, e) \<Rightarrow>
             if e \<noteq> None then Inl (VlIO (the e)) else finish_value ref d chk val)))"
    by (simp only: ReadValue_def finish_value_def o(1) [symmetric] l rh h hf o(3,4) [symmetric] Let_def option.case prod.case if_False simp_thms)
qed

lemma reads_torn:
  assumes f: "good_file f" and d: "12 \<le> length (drop off (fData f))" "\<not> 12 + k + v \<le> length (drop off (fData f))"
  shows "snd (os_ReadAt64 f (replicate (k + v) 0) (off + 12)) \<noteq> None"
    "(\<exists>x. key_crc f k (off + 12) c = Inl x) \<or> (\<exists>chk. key_crc f k (off + 12) c = Inr (off + 12 + k, chk) \<and> snd (os_ReadAt64 f (replicate v 0) (off + 12 + k)) \<noteq> None)"
proof -
  have kv: "0 < k + v" "length (fData f) < off + 12 + (k + v)" using d by auto
  then show "snd (os_ReadAt64 f (replicate (k + v) 0) (off + 12)) \<noteq> None" by (intro read_short [OF f])
  show "(\<exists>x. key_crc f k (off + 12) c = Inl x) \<or> (\<exists>chk. key_crc f k (off + 12) c = Inr (off + 12 + k, chk) \<and> snd (os_ReadAt64 f (replicate v 0) (off + 12 + k)) \<noteq> None)"
  proof (cases "length (fData f) < off + 12 + k")
    case True
    moreover from this have "0 < k" using d by (auto intro: Suc_leI)
    ultimately show ?thesis using key_crc_short [OF f, of "off + 12" k c] by auto
  next
    case False
    moreover from this have "0 < v" using kv(2) by simp
    ultimately show ?thesis using key_crc_spec [OF f, of "off + 12" k c] read_short [OF f, of "off + 12 + k" v] kv(2) by auto
  qed
qed

lemma reads_exact:
  assumes l: "\<not> lgClosed l" "map_of (lgFiles l) (SegmentID ref) = Some f" and f: "good_file f"
  shows "to_option (ReadRecord l ref) = ref_record l ref \<and> to_option (ReadValue l ref) = map_option snd (ref_record l ref)"
proof -
  define off d where o: "off = unat (refOffset ref)" "d = drop off (fData f)"
  define k v where kv: "k = unat (get_u32 (drop 4 d))" "v = unat (get_u32 (drop 8 d))"
  have rr: "ref_record l ref = (case parse_rec d of
      Rec k v \<Rightarrow> if of_nat (length v) = ValueLen ref \<and> crc32_checksum v = Checksum ref then Some (k, v) else None | _ \<Rightarrow> None)"
    using l by (simp add: ref_record_def o)
  consider "length d < 12" | "12 \<le> length d" "\<not> 12 + k + v \<le> length d" | "12 \<le> length d" "12 + k + v \<le> length d" by linarith
  then show ?thesis
  proof cases
    case 1
    obtain h e where h: "os_ReadAt64 f (replicate recordHeaderSize 0) off = (h, e)" by fastforce
    moreover have "e \<noteq> None" using read_short [OF f, of off 12] h 1 by (auto simp: recordHeaderSize_def o)
    moreover have "parse_rec d = Torn" using 1 by (simp add: parse_rec_def)
    ultimately show ?thesis using l rr by (auto simp: ReadRecord_def ReadValue_def o(1))
  next
    case 2
    have "parse_rec d = Torn" using 2 by (simp add: parse_rec_def Let_def kv)
    then have "ref_record l ref = None" using rr by simp
    moreover note t = reads_torn [OF f 2 [unfolded o(2)]]
    have "to_option (ReadRecord l ref) = None" "to_option (ReadValue l ref) = None"
      unfolding reads_header [OF l f o kv 2(1)] using t(1) t(2) [of "crc32_update 0 (drop 4 (take 12 d))"]
      by (auto split: prod.splits)
    ultimately show ?thesis by simp
  next
    case 3
    note fb = frame_bytes [OF 3(2)]
    have e: "drop (off + n) (fData f) = drop n d" for n by (simp add: o add.commute)
    have r1: "os_ReadAt64 f (replicate (k + v) 0) (off + 12) = (take (k + v) (drop 12 d), None)"
      using good_file_read(2) [OF f, of "off + 12" "k + v"] 3 e [of 12] by (simp add: o)
    have r2: "key_crc f k (off + 12) (crc32_update 0 (drop 4 (take 12 d))) = Inr (off + 12 + k, crc32_update 0 (drop 4 (take 12 d) @ take k (drop 12 d)))"
      using key_crc_spec [OF f, of "off + 12" k] 3 e [of 12] by (simp add: o)
    have r3: "os_ReadAt64 f (replicate v 0) (off + 12 + k) = (take v (drop (12 + k) d), None)"
      using good_file_read(2) [OF f, of "off + 12 + k" v] 3 e [of "12 + k"] by (simp add: o add.assoc)
    have p: "parse_rec d = (if crc32_checksum (subslice d 4 (12 + k + v)) \<noteq> get_u32 d then BadSum
        else Rec (subslice d 12 (12 + k)) (subslice d (12 + k) (12 + k + v)))"
      using 3 kv by (simp add: parse_rec_def Let_def)
    have len: "length (subslice d (12 + k) (12 + k + v)) = v" using 3 by simp
    have wv: "of_nat v = get_u32 (drop 8 d)" by (simp add: kv)
    have crc: "crc32_update (crc32_update 0 (drop 4 (take 12 d))) (take (k + v) (drop 12 d)) = crc32_checksum (subslice d 4 (12 + k + v))"
      "crc32_update (crc32_update 0 (drop 4 (take 12 d) @ take k (drop 12 d))) (subslice d (12 + k) (12 + k + v)) = crc32_checksum (subslice d 4 (12 + k + v))"
      using fb(1,2) by (simp_all add: crc32_checksum_def fb(5) [symmetric])
    show ?thesis
      by (simp only: rr p reads_header [OF l f o kv 3(1)] r1 r2 r3 finish_value_def crc fb(3-5) prod.case sum.case if_False simp_thms)
        (simp add: len wv del: length_subslice)
  qed
qed

section \<open>Properties\<close>

lemma stored_cong:
  assumes "\<And>sid. map_option fData (map_of (lgFiles l') sid) = map_option fData (map_of (lgFiles l) sid)" "stored l ref r"
  shows "stored l' ref r"
proof -
  obtain f where f: "map_of (lgFiles l) (SegmentID ref) = Some f" using assms(2) by (auto simp: stored_def)
  then obtain f' where "map_of (lgFiles l') (SegmentID ref) = Some f'" "fData f' = fData f"
    using assms(1) [of "SegmentID ref"] by (cases "map_of (lgFiles l') (SegmentID ref)") auto
  then show ?thesis using assms(2) f by (auto simp: stored_def)
qed

lemma openEmpty_ok:
  assumes ev: "env_ok ev" and m: "0 < m" "m < 2 ^ 62"
  shows "\<exists>l. openEmpty ev dir m = Inr l \<and> log_ok l \<and> room (2 ^ 63 - 1) l"
proof -
  let ?sid = "nextSegmentID (envNow ev) 0" and ?f = "\<lparr>fData = [], fPos = 0, fOpen = True, fDev = envDev ev\<rparr>"
  define l where "l = \<lparr>lgDir = dir, lgMax = m, lgActive = Some \<lparr>sgId = ?sid, sgName = segmentName ?sid, sgSize = 0\<rparr>, lgFiles = [(?sid, ?f)], lgClosed = False\<rparr>"
  have "openEmpty ev dir m = Inr l"
    using ev by (simp add: openEmpty_def rotateSegmentLocked_def activeFile_def Let_def env_ok_def good_device_def l_def)
  moreover have "file_ok m ?f"
    using ev exI [of "\<lambda>rs. list_all rec_ok rs \<and> [] = concat (map enc_rec rs)" "[]"] by (simp add: file_ok_def good_file_def env_ok_def)
  then have "log_ok l" using m by (simp add: log_ok_def l_def)
  moreover have "unat ?sid < 2 ^ 63 + 1" using ev by (auto simp: nextSegmentID_def Let_def env_ok_def unat_of_nat)
  then have "room (2 ^ 63 - 1) l" by (simp add: room_def l_def)
  ultimately show ?thesis by blast
qed

lemma room_le: "room n l \<Longrightarrow> m \<le> n \<Longrightarrow> room m l"
  by (auto simp: room_def)

lemma distinct_crash_image:
  assumes "log_ok l"
  shows "distinct (crash_image l tail)"
proof -
  have "map (fst \<circ> seg_info) (crash_image l tail) = map fst (lgFiles l)" by (auto simp: crash_image_def seg_info_entry)
  then have "distinct (map (fst \<circ> seg_info) (crash_image l tail))" using assms by (simp add: log_ok_def)
  then show ?thesis unfolding distinct_map by simp
qed

text \<open>The witness log: opened empty, then two values that do not fit in one segment.\<close>

abbreviation calm :: env where "calm \<equiv> \<lparr>envNow = 7, envExists = False, envDev = perfect_device\<rparr>"

lemma calm_ok: "env_ok calm"
  by (simp add: env_ok_def)

text \<open>
  C17: Values appended to an open log are all read back by the references \<open>Append\<close> returned, whatever the
  sequence of appends and the rotations it causes; every append succeeds, and the references handed out
  earlier stay readable.
\<close>
theorem vlog_appends_readable:
  assumes "log_ok l" "room (length ops) l" "list_all (\<lambda>(ev, kv). env_ok ev \<and> rec_ok kv) ops"
  shows "\<exists>l' refs. run_appends Append ops l = Inr (l', refs) \<and> log_ok l' \<and>
    map (ReadValue l') refs = map (\<lambda>(ev, k, v). Inr v) ops \<and> (\<forall>ref kv. stored l ref kv \<longrightarrow> ReadValue l' ref = Inr (snd kv))"
  using assms by (rule value_log.run_readable)

lemma vlog_appends_readable_witness:
  "\<exists>l l' refs. openEmpty calm ''vlog'' 20 = Inr l \<and> run_appends Append [(calm, [1], [2, 3]), (calm, [4], [5])] l = Inr (l', refs) \<and>
    map (ReadValue l') refs = [Inr [2, 3], Inr [5]]"
proof -
  obtain l where l: "openEmpty calm ''vlog'' 20 = Inr l" "log_ok l" "room (2 ^ 63 - 1) l"
    using openEmpty_ok [OF calm_ok, of 20 "''vlog''"] by auto
  have "room (length [(calm, [1 :: byte], [2 :: byte, 3]), (calm, [4], [5])]) l" using l(3) by (rule room_le) simp
  from vlog_appends_readable [OF l(2) this] show ?thesis using l(1) calm_ok by (auto simp: rec_ok_def)
qed

text \<open>
  C7: After a crash in the middle of an append, that is with any strict prefix of a record behind the
  active segment, \<open>Open\<close> succeeds on the directory (in any order, among any other files), gives back a
  log with exactly the segment contents before that append, and every record stored before is read back.
\<close>
theorem vlog_crash_recovery:
  assumes "log_ok l" "distinct es" "set (filter is_segment es) = set (crash_image l (take m (enc_rec r)))"
    "rec_ok r" "m < length (enc_rec r)"
  shows "\<exists>l'. vlog_Open ev dir (lgMax l) es = Inr l' \<and> log_ok l' \<and>
    (\<forall>sid. map_option fData (map_of (lgFiles l') sid) = map_option fData (map_of (lgFiles l) sid)) \<and>
    (\<forall>ref kv. stored l ref kv \<longrightarrow> ReadRecord l' ref = Inr kv \<and> ReadValue l' ref = Inr (snd kv))"
proof -
  obtain l' where l': "vlog_Open ev dir (lgMax l) es = Inr l'" "log_ok l'"
    "\<forall>sid. map_option fData (map_of (lgFiles l') sid) = map_option fData (map_of (lgFiles l) sid)"
    using vlog_Open_image [OF assms] by blast
  moreover have "stored l' ref kv" if "stored l ref kv" for ref kv using stored_cong [OF _ that] l'(3) by blast
  ultimately show ?thesis using read_stored [OF l'(2)] by blast
qed

lemma vlog_crash_recovery_witness:
  "\<exists>l l' refs l2. openEmpty calm ''vlog'' 20 = Inr l \<and> run_appends Append [(calm, [1], [2, 3])] l = Inr (l', refs) \<and>
    vlog_Open calm ''vlog'' (lgMax l') ((''notes'', None) # crash_image l' (take 13 (enc_rec ([4], [5])))) = Inr l2 \<and>
    map (ReadRecord l2) refs = [Inr ([1], [2, 3])]"
proof -
  obtain l where l: "openEmpty calm ''vlog'' 20 = Inr l" "log_ok l" "room (2 ^ 63 - 1) l"
    using openEmpty_ok [OF calm_ok, of 20 "''vlog''"] by auto
  have "room (length [(calm, [1 :: byte], [2 :: byte, 3])]) l" using l(3) by (rule room_le) simp
  then obtain l' refs where t: "run_appends Append [(calm, [1], [2, 3])] l = Inr (l', refs)" "log_ok l'"
    "list_all2 (stored l') refs [([1], [2, 3])]"
    using value_log.run_holds [OF l(2), of "[(calm, [1], [2, 3])]"] calm_ok by (auto simp: rec_ok_def)
  let ?es = "(''notes'', None) # crash_image l' (take 13 (enc_rec ([4], [5])))"
  have n: "\<not> is_segment (''notes'', None)" "\<forall>e \<in> set (crash_image l' tail). is_segment e" for tail
    by (auto simp: is_segment_def [of "(''notes'', None)"] crash_image_def seg_info_entry)
  then have "distinct ?es" "set (filter is_segment ?es) = set (crash_image l' (take 13 (enc_rec ([4], [5]))))"
    using distinct_crash_image [OF t(2)] by auto
  from vlog_crash_recovery [OF t(2) this] obtain l2 where
    "vlog_Open calm ''vlog'' (lgMax l') ?es = Inr l2" "\<forall>ref kv. stored l' ref kv \<longrightarrow> ReadRecord l2 ref = Inr kv"
    by (force simp: rec_ok_def)
  then show ?thesis using l(1) t(1,3) by (auto simp: list_all2_Cons2)
qed

section \<open>A partial write\<close>

text \<open>A device that stores only the first five bytes of a write at offset 14, and reports the failure.\<close>

definition short_device :: device where
  "short_device = perfect_device\<lparr>devShort := (\<lambda>at. if at = 14 then Some 5 else None)\<rparr>"

definition short_log :: "bytes \<Rightarrow> Log" where
  "short_log data = \<lparr>lgDir = ''vlog'', lgMax = 1000, lgActive = Some \<lparr>sgId = 7, sgName = segmentName 7, sgSize = of_nat (length data)\<rparr>,
     lgFiles = [(7, \<lparr>fData = data, fPos = 0, fOpen = True, fDev = short_device\<rparr>)], lgClosed = False\<rparr>"

abbreviation rec1 :: bytes where "rec1 \<equiv> enc_rec ([1], [2])"
abbreviation rec2 :: bytes where "rec2 \<equiv> enc_rec ([3], [4])"
abbreviation rec3 :: bytes where "rec3 \<equiv> enc_rec ([5], [6])"

lemma short_run:
  "openEmpty \<lparr>envNow = 7, envExists = False, envDev = short_device\<rparr> ''vlog'' 1000 = Inr (short_log [])"
  "Append ev (short_log []) [1] [2] = (short_log rec1, Inr \<lparr>SegmentID = 7, refOffset = 0, ValueLen = 1, Checksum = crc32_checksum [2]\<rparr>)"
  "Append ev (short_log rec1) [3] [4] = (short_log (rec1 @ take 5 rec2), Inl (VlIO EIO))"
  "Append ev (short_log (rec1 @ take 5 rec2)) [5] [6] =
    (short_log (rec1 @ take 5 rec2 @ rec3), Inr \<lparr>SegmentID = 7, refOffset = 19, ValueLen = 1, Checksum = crc32_checksum [6]\<rparr>)"
  by (simp_all add: openEmpty_def rotateSegmentLocked_def activeFile_def nextSegmentID_def short_log_def short_device_def
      Append_def append_record_def recordHeaderSize_def os_WriteAt64_def os_WriteAt_def write_at_def Let_def min_def)

lemma short_tail_torn: "parse_rec (take 5 rec2 @ rec3) = Torn"
proof -
  let ?d = "take 5 rec2 @ rec3"
  define w where "w = crc32_checksum (rec_payload [5] [6])"
  obtain a b c d where w: "put_u32 w = [a, b, c, d]" by (simp add: put_u32_def numeral_eq_Suc)
  have "rec_payload [5] [6] = [1, 0, 0, 0, 1, 0, 0, 0, 5, 6]" by (simp add: rec_payload_def put_u32_def numeral_eq_Suc)
  then have "rec3 = [a, b, c, d, 1, 0, 0, 0, 1, 0, 0, 0, 5, 6]"
    unfolding enc_rec_def fst_conv snd_conv w_def [symmetric] w by simp
  moreover have "drop 8 ?d = drop 3 rec3" by simp
  ultimately have "drop 8 ?d = [d, 1, 0, 0, 0, 1, 0, 0, 0, 5, 6]" by (simp add: drop_Cons')
  then have "get_u32 (drop 8 ?d) = ucast d OR 256" by (simp add: get_u32_def numeral_eq_Suc)
  moreover have "(256 :: u32) \<le> 256 OR ucast d" by (rule le_word_or2)
  ultimately have "256 \<le> unat (get_u32 (drop 8 ?d))" by (simp add: word_le_nat_alt or.commute)
  then show ?thesis by (simp add: parse_rec_def Let_def)
qed

lemma short_reopen:
  "vlog_Open ev ''vlog'' 1000 [seg_entry 7 (rec1 @ take 5 rec2 @ rec3) perfect_device] =
    Inr \<lparr>lgDir = ''vlog'', lgMax = 1000, lgActive = Some \<lparr>sgId = 7, sgName = segmentName 7, sgSize = 14\<rparr>,
      lgFiles = [(7, mk_file rec1 perfect_device)], lgClosed = False\<rparr>"
proof -
  have "split_records (concat (map enc_rec [([1], [2])]) @ take 5 rec2 @ rec3) = ([([1], [2])], take 5 rec2 @ rec3)"
    using split_records_enc [of "[([1], [2])]" "take 5 rec2 @ rec3"] split_records_stop [of "take 5 rec2 @ rec3"] short_tail_torn
    by (simp add: rec_ok_def)
  then have "open_segments ([] @ [(7, segmentName 7, rec1 @ take 5 rec2 @ rec3, perfect_device)]) l =
      Inr (l\<lparr>lgFiles := [(7, mk_file rec1 perfect_device)], lgActive := Some \<lparr>sgId = 7, sgName = segmentName 7, sgSize = 14\<rparr>\<rparr>)"
    if "lgFiles l = []" for l
    using open_segments_spec [of "[]" "rec1 @ take 5 rec2 @ rec3" perfect_device _ _ l] that by (simp add: good_file_def mk_file_def)
  then show ?thesis
    by (simp add: vlog_Open_def seg_entry_def parse_segmentName sort_slice_Cons)
qed


section \<open>Reads, scans and names\<close>

lemma vlog_reads_log_ok:
  assumes "log_ok l"
  shows "to_option (ReadRecord l ref) = ref_record l ref \<and> to_option (ReadValue l ref) = map_option snd (ref_record l ref)"
proof (cases "map_of (lgFiles l) (SegmentID ref)")
  case None
  then show ?thesis using assms by (simp add: ReadRecord_def ReadValue_def ref_record_def log_ok_def)
next
  case (Some f)
  then show ?thesis using reads_exact [OF _ Some log_file(2) [OF assms Some]] assms by (simp add: log_ok_def)
qed

text \<open>
  C31: Whatever reference it is given, even one that was never handed out, a read returns exactly the
  record that starts at that place with the right record checksum and whose value has the reference's
  length and checksum, and fails otherwise. \<open>ReadValue\<close>, which checks the key in chunks of 256 bytes,
  returns the value of the record \<open>ReadRecord\<close> returns.
\<close>
theorem vlog_reads_exact:
  assumes "log_ok l"
  shows "to_option (ReadRecord l ref) = ref_record l ref \<and> to_option (ReadValue l ref) = map_option snd (ref_record l ref)"
  using assms by (rule vlog_reads_log_ok)

definition one_log :: Log where
  "one_log = \<lparr>lgDir = ''vlog'', lgMax = 1000, lgActive = Some \<lparr>sgId = 7, sgName = segmentName 7, sgSize = 14\<rparr>,
      lgFiles = [(7, mk_file rec1 perfect_device)], lgClosed = False\<rparr>"

lemma one_record_log: "log_ok one_log"
proof -
  have "\<exists>rs. list_all rec_ok rs \<and> rec1 = concat (map enc_rec rs)"
    by (intro exI [of _ "[([1], [2])]"]) (simp add: rec_ok_def)
  then show ?thesis by (simp add: one_log_def log_ok_def file_ok_def good_file_def mk_file_def)
qed

lemma vlog_reads_exact_witness:
  "to_option (ReadRecord one_log \<lparr>SegmentID = 7, refOffset = 0, ValueLen = 1, Checksum = crc32_checksum [2]\<rparr>) = Some ([1], [2]) \<and>
    to_option (ReadValue one_log \<lparr>SegmentID = 7, refOffset = 0, ValueLen = 2, Checksum = crc32_checksum [2]\<rparr>) = None"
proof -
  have "parse_rec (enc_rec ([1], [2]) @ []) = Rec [1] [2]" using parse_enc_rec [of "([1], [2])" "[]"] by (simp add: rec_ok_def)
  then show ?thesis using vlog_reads_exact [OF one_record_log] by (simp add: one_log_def ref_record_def mk_file_def)
qed

text \<open>
  C33: The scan of a segment returns the length of its longest front of whole records with correct
  checksums, and reports an invalid tail exactly when bytes are left behind them; it never reports an
  error on a readable file.
\<close>
theorem scanSegment_exact:
  assumes "good_file f"
  shows "\<exists>rs rest. list_all rec_ok rs \<and> fData f = concat (map enc_rec rs) @ rest \<and> (\<forall>k v. parse_rec rest \<noteq> Rec k v) \<and>
    scanSegment f = Inr (length (concat (map enc_rec rs)), rest \<noteq> [])"
  using scanSegment_spec [OF assms] split_records_inv [of "fData f"] by (cases "split_records (fData f)") blast

lemma scanSegment_exact_witness:
  "\<exists>n tail. scanSegment (mk_file (rec1 @ take 5 rec2) perfect_device) = Inr (n, tail) \<and> n \<le> 19"
proof -
  have "good_file (mk_file (rec1 @ take 5 rec2) perfect_device)" by (simp add: good_file_def mk_file_def)
  from scanSegment_exact [OF this] obtain rs rest where "rec1 @ take 5 rec2 = concat (map enc_rec rs) @ rest"
    and s: "scanSegment (mk_file (rec1 @ take 5 rec2) perfect_device) = Inr (length (concat (map enc_rec rs)), rest \<noteq> [])"
    by (auto simp: mk_file_def)
  then have "length (rec1 @ take 5 rec2) = length (concat (map enc_rec rs)) + length rest" by (metis length_append)
  then show ?thesis using s by simp
qed

text \<open>
  Segment names and encoded references are read back as the id and the reference they were made
  from, for every 64-bit id and every reference.
\<close>
theorem vlog_names_round_trip:
  "parseSegmentID (segmentName sid) = Some sid \<and> ref_UnmarshalBinary (ref_MarshalBinary ref) = Inr ref"
  by (simp add: parse_segmentName ref_round_trip)

text \<open>
  A closed log refuses every operation and changes no more: reads and syncs return the closed
  error, an append fails and leaves the log as it is, and closing it again does nothing.
\<close>
theorem vlog_closed_refuses:
  "lgClosed (fst (vlog_Close l)) \<and> ReadValue (fst (vlog_Close l)) ref = Inl VlClosed \<and> ReadRecord (fst (vlog_Close l)) ref = Inl VlClosed \<and>
    vlog_Sync (fst (vlog_Close l)) = Some VlClosed \<and> vlog_Close (fst (vlog_Close l)) = (fst (vlog_Close l), None) \<and>
    (\<exists>e. Append ev (fst (vlog_Close l)) key val = (fst (vlog_Close l), Inl e))"
proof -
  have "lgClosed (fst (vlog_Close l))" by (simp add: vlog_Close_def closeFiles_def Let_def)
  then show ?thesis by (simp add: ReadValue_def ReadRecord_def vlog_Sync_def vlog_Close_def [of "fst (vlog_Close l)"] Append_def Let_def)
qed

end
