(* ===== verification/Value_Ref.thy ===== *)
theory Value_Ref
  imports Vlog_Recovery
begin

text \<open>
  Stored values, \<^verbatim>\<open>src/value_ref.go\<close>: what the LSM tree keeps under a key is a tombstone, the value
  itself, or an encoded reference into the value log. \<open>represents\<close> is the contract: a stored byte string
  stands for a value in a given log. The lemmas: storing a value makes a representation of it, resolving
  one gives the value, and representations survive everything the log keeps.
\<close>

section \<open>Model\<close>

definition valueRefPrefix :: bytes where "valueRefPrefix = [0, 115, 101, 111, 108, 118, 114, 1]"
definition tombstoneValue :: bytes where "tombstoneValue = [0, 115, 101, 111, 108, 116, 111, 109, 98, 1]"
definition compactEncodedValueRefSize :: nat where "compactEncodedValueRefSize = 8 + 4 + 4 + 4"
definition maxCompactValueRefOffset :: u64 where "maxCompactValueRefOffset = ucast (NOT 0 :: u32)"

datatype db_error =
    DbNilValueLog
  | DbAppendValueLog vlog_error
  | DbReadValueLog vlog_error

definition encodeValueRef :: "ValueRef \<Rightarrow> bytes" where
  "encodeValueRef ref =
     (if refOffset ref \<le> maxCompactValueRefOffset
      then valueRefPrefix @ put_u64 (SegmentID ref) @ put_u32 (ucast (refOffset ref)) @ put_u32 (ValueLen ref) @ put_u32 (Checksum ref)
      else valueRefPrefix @ put_u64 (SegmentID ref) @ put_u64 (refOffset ref) @ put_u32 (ValueLen ref) @ put_u32 (Checksum ref))"

text \<open>The Go function also returns an error, which is always nil.\<close>

definition decodeValueRef :: "bytes \<Rightarrow> ValueRef option" where
  "decodeValueRef data =
     (if length data \<noteq> length valueRefPrefix + compactEncodedValueRefSize \<and> length data \<noteq> length valueRefPrefix + EncodedValueRefSize
      then None
      else if take (length valueRefPrefix) data \<noteq> valueRefPrefix then None
      else
        let payload = drop (length valueRefPrefix) data in
        if length payload = compactEncodedValueRefSize
        then Some \<lparr>SegmentID = get_u64 payload, refOffset = ucast (get_u32 (drop 8 payload)),
                   ValueLen = get_u32 (drop 12 payload), Checksum = get_u32 (drop 16 payload)\<rparr>
        else if length payload = EncodedValueRefSize
        then Some \<lparr>SegmentID = get_u64 payload, refOffset = get_u64 (drop 8 payload),
                   ValueLen = get_u32 (drop 16 payload), Checksum = get_u32 (drop 20 payload)\<rparr>
        else None)"

definition memtableEntrySize :: "bytes \<Rightarrow> bytes \<Rightarrow> int" where
  "memtableEntrySize key val = int (length key + length val)"

definition encodeTombstone :: bytes where "encodeTombstone = tombstoneValue"

definition isTombstoneValue :: "bytes \<Rightarrow> bool" where
  "isTombstoneValue data \<longleftrightarrow> data = tombstoneValue"

definition storeValueForLSM :: "env \<Rightarrow> Log option \<Rightarrow> int \<Rightarrow> bytes \<Rightarrow> bytes \<Rightarrow> Log option \<times> (db_error + bytes)" where
  "storeValueForLSM ev valueLog valueThreshold key val =
     (if isTombstoneValue val then (valueLog, Inr encodeTombstone)
      else if int (length val) \<le> valueThreshold then (valueLog, Inr val)
      else case valueLog of
        None \<Rightarrow> (None, Inl DbNilValueLog)
      | Some l \<Rightarrow>
          (case Append ev l key val of
             (l', Inl e) \<Rightarrow> (Some l', Inl (DbAppendValueLog e))
           | (l', Inr ref) \<Rightarrow> (Some l', Inr (encodeValueRef ref))))"

text \<open>The value (\<open>None\<close> for nil) and whether the key is deleted.\<close>

definition resolveStoredValue :: "Log option \<Rightarrow> bytes \<Rightarrow> db_error + (bytes option \<times> bool)" where
  "resolveStoredValue valueLog stv =
     (if isTombstoneValue stv then Inr (None, True)
      else case decodeValueRef stv of
        None \<Rightarrow> Inr (Some stv, False)
      | Some ref \<Rightarrow>
          (case valueLog of
             None \<Rightarrow> Inl DbNilValueLog
           | Some l \<Rightarrow> (case vlog_Read l ref of Inl e \<Rightarrow> Inl (DbReadValueLog e) | Inr v \<Rightarrow> Inr (Some v, False))))"

text \<open>\<open>readStoredValue\<close> of \<^verbatim>\<open>src/db.go\<close>: a deleted key reads as nil.\<close>

definition readStoredValue :: "Log option \<Rightarrow> bytes \<Rightarrow> db_error + bytes option" where
  "readStoredValue valueLog stv =
     (case resolveStoredValue valueLog stv of
        Inl e \<Rightarrow> Inl e
      | Inr (val, deleted) \<Rightarrow> if deleted then Inr None else Inr val)"

section \<open>The encoding of references\<close>

lemmas ref_size_simps = compactEncodedValueRefSize_def EncodedValueRefSize_def

lemma length_prefix [simp]: "length valueRefPrefix = 8"
  by (simp add: valueRefPrefix_def)

lemma compact_offset: "x \<le> maxCompactValueRefOffset \<Longrightarrow> (ucast (ucast x :: u32) :: u64) = x"
proof -
  assume "x \<le> maxCompactValueRefOffset"
  then have "x \<le> mask 32" by (simp add: maxCompactValueRefOffset_def unsigned_minus_1_eq_mask)
  then have "unat x < 2 ^ 32" by (simp add: word_le_nat_alt mask_eq_exp_minus_1)
  then have "unat (ucast (ucast x :: u32) :: u64) = unat x" by (simp add: unsigned_ucast_eq unsigned_take_bit_eq take_bit_nat_eq_self)
  then show ?thesis by (simp add: word_unat_eq_iff)
qed

lemma decode_encode: "decodeValueRef (encodeValueRef ref) = Some ref"
  by (cases "refOffset ref \<le> maxCompactValueRefOffset")
    (simp_all add: decodeValueRef_def encodeValueRef_def ref_size_simps Let_def compact_offset)

lemma encode_not_tombstone: "\<not> isTombstoneValue (encodeValueRef ref)"
proof -
  have "length (encodeValueRef ref) \<noteq> length tombstoneValue" by (simp add: encodeValueRef_def tombstoneValue_def)
  then show ?thesis by (auto simp: isTombstoneValue_def)
qed

section \<open>Storing and resolving\<close>

text \<open>A stored byte string stands for a value: the value itself when it cannot be mistaken, or a reference to it.\<close>

definition plain :: "bytes \<Rightarrow> bool" where
  "plain v \<longleftrightarrow> \<not> isTombstoneValue v \<and> decodeValueRef v = None"

definition represents :: "Log \<Rightarrow> bytes \<Rightarrow> bytes \<Rightarrow> bool" where
  "represents l s v \<longleftrightarrow> s = v \<and> plain v \<or> (\<exists>ref k. s = encodeValueRef ref \<and> stored l ref (k, v))"

lemma resolve_represents:
  assumes "log_ok l" "represents l s v"
  shows "resolveStoredValue (Some l) s = Inr (Some v, False)"
proof -
  consider "s = v" "plain v" | ref k where "s = encodeValueRef ref" "stored l ref (k, v)"
    using assms(2) by (auto simp: represents_def)
  then show ?thesis
  proof cases
    case 2
    then show ?thesis using read_stored(1) [OF assms(1) 2(2)]
      by (simp add: resolveStoredValue_def decode_encode encode_not_tombstone vlog_Read_def)
  qed (simp add: resolveStoredValue_def plain_def)
qed

lemma represents_mono:
  "represents l s v \<Longrightarrow> (\<And>ref kv. stored l ref kv \<Longrightarrow> stored l' ref kv) \<Longrightarrow> represents l' s v"
  unfolding represents_def by blast

lemma store_represents:
  assumes "log_ok l" "room (Suc n) l" "env_ok ev" "rec_ok (key, val)" "\<not> isTombstoneValue val"
    and "decodeValueRef val = None \<or> thr < int (length val)"
  shows "\<exists>l' s. storeValueForLSM ev (Some l) thr key val = (Some l', Inr s) \<and> log_ok l' \<and> room n l' \<and> represents l' s val \<and>
    (\<forall>ref kv. stored l ref kv \<longrightarrow> stored l' ref kv)"
proof (cases "int (length val) \<le> thr")
  case True
  then have "storeValueForLSM ev (Some l) thr key val = (Some l, Inr val)" using assms(5) by (simp add: storeValueForLSM_def)
  moreover have "room n l" using room_le [OF assms(2)] by simp
  moreover have "represents l val val" using True assms(5,6) by (auto simp: represents_def plain_def)
  ultimately show ?thesis using assms(1) by blast
next
  case False
  obtain l' ref where "Append ev l key val = (l', Inr ref)" "log_ok l'" "room n l'" "stored l' ref (key, val)"
    "\<forall>ref' kv. stored l ref' kv \<longrightarrow> stored l' ref' kv" using Append_spec [OF assms(1-4)] by blast
  moreover from this have "represents l' (encodeValueRef ref) val" by (auto simp: represents_def)
  ultimately show ?thesis using False assms(5) by (auto simp: storeValueForLSM_def)
qed



lemma put_get_parts:
  "8 \<le> length p \<Longrightarrow> put_u64 (get_u64 p) = take 8 p" "4 \<le> length p \<Longrightarrow> put_u32 (get_u32 p) = take 4 p"
  using put_get_int(2) [of "take 4 p"] put_get_int(3) [of "take 8 p"] by (simp_all add: get_u32_def get_u64_def)

lemma compact_bound: "(ucast (w :: u32) :: u64) \<le> maxCompactValueRefOffset"
proof -
  have "unat w < 2 ^ 32" using unsigned_less [of w, where ?'a = nat] by simp
  then have "(ucast w :: u64) \<le> mask 32" by (simp add: word_le_nat_alt unsigned_ucast_eq unsigned_take_bit_eq take_bit_nat_eq_self mask_eq_exp_minus_1)
  then show ?thesis by (simp add: maxCompactValueRefOffset_def unsigned_minus_1_eq_mask)
qed

lemma ucast_back: "(ucast (ucast w :: u64) :: u32) = w"
  by (rule bit_word_eqI) (simp add: bit_ucast_iff)

lemma chop_parts: "take a p @ take b (drop a p) @ take c (drop (a + b) p) @ take d (drop (a + b + c) p) = take (a + b + c + d) p"
proof -
  have "take (a + b + c + d) p = take (a + (b + (c + d))) p" by (simp add: add.assoc)
  then show ?thesis by (simp only: take_add drop_drop add.commute add.left_commute add.assoc)
qed

lemma decode_inverse:
  assumes "decodeValueRef data = Some ref"
  shows "data = encodeValueRef ref \<or> data = valueRefPrefix @ ref_MarshalBinary ref"
proof -
  define p where "p = drop 8 data"
  have "take 8 data = valueRefPrefix" "length data = 28 \<or> length data = 32"
    using assms by (auto simp: decodeValueRef_def ref_size_simps split: if_splits)
  then have pre: "data = valueRefPrefix @ p" "length p = 20 \<or> length p = 24"
    unfolding p_def by (metis append_take_drop_id, auto)
  have dec: "decodeValueRef data = (if length p = 20
      then Some \<lparr>SegmentID = get_u64 p, refOffset = ucast (get_u32 (drop 8 p)), ValueLen = get_u32 (drop 12 p), Checksum = get_u32 (drop 16 p)\<rparr>
      else Some \<lparr>SegmentID = get_u64 p, refOffset = get_u64 (drop 8 p), ValueLen = get_u32 (drop 16 p), Checksum = get_u32 (drop 20 p)\<rparr>)"
    unfolding pre(1) using pre(2) by (auto simp: decodeValueRef_def ref_size_simps Let_def)
  show ?thesis
  proof (cases "length p = 20")
    case True
    then have "encodeValueRef ref = valueRefPrefix @ take 8 p @ take 4 (drop 8 p) @ take 4 (drop 12 p) @ take 4 (drop 16 p)"
      using assms dec compact_bound by (auto simp: encodeValueRef_def put_get_parts ucast_back)
    then show ?thesis using chop_parts [of 8 p 4 4 4] True pre(1) by simp
  next
    case False
    then have "ref_MarshalBinary ref = take 8 p @ take 8 (drop 8 p) @ take 4 (drop 16 p) @ take 4 (drop 20 p)"
      using assms dec pre(2) by (auto simp: ref_MarshalBinary_def put_get_parts)
    then show ?thesis using chop_parts [of 8 p 8 4 4] False pre by simp
  qed
qed

text \<open>
  Encoded references decode to the reference they were made from, compact or not, and are never
  taken for a tombstone; and what decodes is one of the two encodings of its reference.
\<close>
theorem value_ref_round_trip:
  "decodeValueRef (encodeValueRef ref) = Some ref \<and> \<not> isTombstoneValue (encodeValueRef ref) \<and>
    {data. decodeValueRef data = Some ref} \<subseteq> {encodeValueRef ref, valueRefPrefix @ ref_MarshalBinary ref}"
  using decode_encode encode_not_tombstone decode_inverse by blast

text \<open>
  C34: A user value of at most the threshold that has the bytes of an encoded reference is stored inline
  and then read as that reference: the read fails when no record is there, and returns the other
  value when one is.
\<close>
theorem inline_value_taken_for_reference:
  assumes "int (length (encodeValueRef ref)) \<le> thr" "log_ok l"
  shows "storeValueForLSM ev (Some l) thr key (encodeValueRef ref) = (Some l, Inr (encodeValueRef ref)) \<and>
    to_option (resolveStoredValue (Some l) (encodeValueRef ref)) = map_option (\<lambda>kv. (Some (snd kv), False)) (ref_record l ref)"
proof -
  have "to_option (ReadValue l ref) = map_option snd (ref_record l ref)" using vlog_reads_log_ok [OF assms(2)] by blast
  then have "to_option (resolveStoredValue (Some l) (encodeValueRef ref)) = map_option (\<lambda>kv. (Some (snd kv), False)) (ref_record l ref)"
    by (cases "ReadValue l ref"; cases "ref_record l ref")
      (simp_all add: resolveStoredValue_def encode_not_tombstone decode_encode vlog_Read_def)
  then show ?thesis using assms(1) by (simp add: storeValueForLSM_def encode_not_tombstone)
qed

lemma inline_value_taken_for_reference_witness:
  "storeValueForLSM calm (Some one_log) 2048 [9] (encodeValueRef \<lparr>SegmentID = 8, refOffset = 0, ValueLen = 1, Checksum = 0\<rparr>) =
     (Some one_log, Inr (encodeValueRef \<lparr>SegmentID = 8, refOffset = 0, ValueLen = 1, Checksum = 0\<rparr>)) \<and>
   to_option (resolveStoredValue (Some one_log) (encodeValueRef \<lparr>SegmentID = 8, refOffset = 0, ValueLen = 1, Checksum = 0\<rparr>)) = None"
proof -
  let ?ref = "\<lparr>SegmentID = 8, refOffset = 0, ValueLen = 1, Checksum = 0\<rparr>"
  have "int (length (encodeValueRef ?ref)) \<le> 2048" by (simp add: encodeValueRef_def)
  from inline_value_taken_for_reference [OF this one_record_log] show ?thesis by (simp add: ref_record_def one_log_def)
qed

end
