(* ===== verification/Levels.thy ===== *)
theory Levels
  imports Manifest Value_Ref "HOL-Library.Multiset"
begin

text \<open>
  The levels of the tree, \<^verbatim>\<open>src/compaction.go\<close>: grouping and ordering the tables of the manifest,
  choosing what to compact, and looking a key up through the levels.

  Level 0 has the flushed tables, newest first, and they may overlap; the tables of every other level are
  sorted by their keys and disjoint. A lookup changes the block caches of the tables it reads, so it returns
  the levels as well.
\<close>

section \<open>Model\<close>

record tableLevelState =
  lsLevel :: int
  lsMeta :: "TableMeta list"
  lsTables :: "Table list"

record compactionPlan =
  sourceLevel :: int
  targetLevel :: int
  sourceTables :: "TableMeta list"
  targetTables :: "TableMeta list"
  targetOutputBytes :: int
  dropTombstones :: bool

text \<open>The order of a level; ties of the creation time are broken by the file name.\<close>

definition level_less :: "int \<Rightarrow> TableMeta \<Rightarrow> TableMeta \<Rightarrow> bool" where
  "level_less level a b =
     (if level = 0 then
        (if tmCreatedAt a = tmCreatedAt b then tmFilename b < tmFilename a else tmCreatedAt b < tmCreatedAt a)
      else
        let cmp = bytes_compare (tmSmallest a) (tmSmallest b) in
        if cmp \<noteq> 0 then cmp < 0
        else if tmCreatedAt a = tmCreatedAt b then tmFilename a < tmFilename b
        else tmCreatedAt a < tmCreatedAt b)"

definition sortTableMetaForLevel :: "int \<Rightarrow> TableMeta list \<Rightarrow> TableMeta list" where
  "sortTableMetaForLevel level tables = sort_slice (level_less level) tables"

text \<open>The levels that occur, in the order of their first table.\<close>

fun levels_seen :: "TableMeta list \<Rightarrow> int list \<Rightarrow> int list" where
  "levels_seen [] seen = seen"
| "levels_seen (t # ts) seen = levels_seen ts (if tmLevel t \<in> set seen then seen else seen @ [tmLevel t])"

definition groupTableMetaByLevel :: "TableMeta list \<Rightarrow> tableLevelState list" where
  "groupTableMetaByLevel tables =
     (if tables = [] then []
      else map (\<lambda>level. \<lparr>lsLevel = level, lsMeta = sortTableMetaForLevel level (cloneTableMeta (filter (\<lambda>t. tmLevel t = level) tables)), lsTables = []\<rparr>)
             (sort (levels_seen tables [])))"

definition widen :: "bytes \<times> bytes \<Rightarrow> TableMeta \<Rightarrow> bytes \<times> bytes" where
  "widen b t =
     (if bytes_compare (tmSmallest t) (fst b) < 0 then tmSmallest t else fst b,
      if bytes_compare (tmLargest t) (snd b) > 0 then tmLargest t else snd b)"

definition tableMetaBounds :: "TableMeta list \<Rightarrow> bytes \<times> bytes" where
  "tableMetaBounds tables =
     (case tables of [] \<Rightarrow> ([], []) | t # ts \<Rightarrow> foldl widen (tmSmallest t, tmLargest t) ts)"

definition apart :: "TableMeta \<Rightarrow> bytes \<times> bytes \<Rightarrow> bool" where
  "apart t b \<longleftrightarrow> bytes_compare (tmLargest t) (fst b) < 0 \<or> bytes_compare (tmSmallest t) (snd b) > 0"

fun overlappingTableMeta :: "tableLevelState list \<Rightarrow> int \<Rightarrow> bytes \<times> bytes \<Rightarrow> TableMeta list" where
  "overlappingTableMeta [] level b = []"
| "overlappingTableMeta (c # cs) level b =
     (if lsLevel c \<noteq> level then overlappingTableMeta cs level b else filter (\<lambda>t. \<not> apart t b) (lsMeta c))"

definition maxTableLevel :: "tableLevelState list \<Rightarrow> int" where
  "maxTableLevel levels = (if levels = [] then 0 else lsLevel (last levels))"

text \<open>One pass of the selection over the tables of level 0: the names selected, the range, whether it grew.\<close>

fun select_pass :: "TableMeta list \<Rightarrow> string list \<times> (bytes \<times> bytes) \<times> bool \<Rightarrow> string list \<times> (bytes \<times> bytes) \<times> bool" where
  "select_pass [] st = st"
| "select_pass (t # ts) (sel, b, changed) =
     (if tmFilename t \<in> set sel \<or> apart t b then select_pass ts (sel, b, changed)
      else select_pass ts (tmFilename t # sel, widen b t, True))"

lemma select_pass_grows:
  "select_pass ts (sel, b, c) = (sel', b', c') \<Longrightarrow>
    set sel \<subseteq> set sel' \<and> set sel' \<subseteq> set sel \<union> tmFilename ` set ts \<and> (c' \<longrightarrow> c \<or> (\<exists>t \<in> set ts. tmFilename t \<in> set sel' - set sel)) \<and> (c \<longrightarrow> c')"
proof (induction ts arbitrary: sel b c)
  case (Cons t ts)
  show ?case
  proof (cases "tmFilename t \<in> set sel \<or> apart t b")
    case True
    then show ?thesis using Cons.prems Cons.IH [of sel b c] by auto
  next
    case False
    then show ?thesis using Cons.prems Cons.IH [of "tmFilename t # sel" "widen b t" True] by auto
  qed
qed simp

lemma select_shrinks:
  assumes "(sel', b', True) = select_pass l0 (sel, b, False)"
  shows "card (tmFilename ` set l0 - set sel') < card (tmFilename ` set l0 - set sel)"
proof -
  have "tmFilename ` set l0 - set sel' \<subset> tmFilename ` set l0 - set sel" using select_pass_grows [OF assms [symmetric]] by auto
  then show ?thesis by (intro psubset_card_mono) auto
qed

function select_loop :: "TableMeta list \<Rightarrow> string list \<Rightarrow> bytes \<times> bytes \<Rightarrow> string list" where
  "select_loop l0 sel b =
     (case select_pass l0 (sel, b, False) of (sel', b', changed) \<Rightarrow> if changed then select_loop l0 sel' b' else sel')"
  by pat_completeness auto
termination
  by (relation "measure (\<lambda>(l0, sel, b). card (tmFilename ` set l0 - set sel))") (auto dest!: select_shrinks)

declare select_loop.simps [simp del]

definition selectL0CompactionSource :: "TableMeta list \<Rightarrow> TableMeta list" where
  "selectL0CompactionSource l0 =
     (if l0 = [] then []
      else
        let oldest = last l0; selected = select_loop l0 [tmFilename oldest] (tmSmallest oldest, tmLargest oldest) in
        filter (\<lambda>t. tmFilename t \<in> set selected) l0)"

text \<open>The loop over the levels writes back into the slice, which has as many entries as before.\<close>

definition orderTableMetaForManifest :: "TableMeta list \<Rightarrow> TableMeta list" where
  "orderTableMetaForManifest tables =
     (if tables = [] then []
      else let flattened = concat (map lsMeta (groupTableMetaByLevel tables)) in
        take (length tables) flattened @ drop (length flattened) tables)"

datatype level_error = MissingTable string

fun level_tables :: "(string \<Rightarrow> Table option) \<Rightarrow> TableMeta list \<Rightarrow> level_error + Table list" where
  "level_tables byName [] = Inr []"
| "level_tables byName (m # ms) =
     (case byName (tmFilename m) of
        None \<Rightarrow> Inl (MissingTable (tmFilename m))
      | Some t \<Rightarrow> (case level_tables byName ms of Inl e \<Rightarrow> Inl e | Inr ts \<Rightarrow> Inr (t # ts)))"

fun build_levels :: "(string \<Rightarrow> Table option) \<Rightarrow> tableLevelState list \<Rightarrow> level_error + tableLevelState list" where
  "build_levels byName [] = Inr []"
| "build_levels byName (s # ss) =
     (case level_tables byName (lsMeta s) of
        Inl e \<Rightarrow> Inl e
      | Inr ts \<Rightarrow> (case build_levels byName ss of Inl e \<Rightarrow> Inl e | Inr rs \<Rightarrow> Inr (s\<lparr>lsTables := ts\<rparr> # rs)))"

definition table_by_name :: "Table list \<Rightarrow> string \<Rightarrow> Table option" where
  "table_by_name tables = map_of (rev (map (\<lambda>t. (snd (tPath t), t)) tables))"

definition buildLevelState :: "TableMeta list \<Rightarrow> Table list \<Rightarrow> level_error + tableLevelState list \<times> TableMeta list \<times> Table list" where
  "buildLevelState meta tables =
     (if meta = [] then Inr ([], [], [])
      else case build_levels (table_by_name tables) (groupTableMetaByLevel meta) of
        Inl e \<Rightarrow> Inl e
      | Inr levels \<Rightarrow> Inr (levels, concat (map lsMeta levels), concat (map lsTables levels)))"

definition cloneTableLevels :: "tableLevelState list \<Rightarrow> tableLevelState list" where
  "cloneTableLevels src = map (\<lambda>s. \<lparr>lsLevel = lsLevel s, lsMeta = cloneTableMeta (lsMeta s), lsTables = lsTables s\<rparr>) src"

section \<open>Lookup\<close>

definition findLevelTable :: "TableMeta list \<Rightarrow> bytes \<Rightarrow> nat option" where
  "findLevelTable meta key =
     (if meta = [] then None
      else
        let idx = sort_search (length meta) (\<lambda>i. bytes_compare (tmLargest (meta ! i)) key \<ge> 0) in
        if idx = length meta then None
        else if bytes_compare key (tmSmallest (meta ! idx)) < 0 then None
        else Some idx)"

datatype get_error = GetTable sst_error | GetStored db_error

fun lookup_level0 :: "(bytes \<Rightarrow> u64 \<Rightarrow> u64) \<Rightarrow> bytes \<Rightarrow> Table list \<Rightarrow> bytes \<Rightarrow> (sst_error + (bytes option \<times> Table list)) option" where
  "lookup_level0 xxh3 stale [] key = Some (Inr (None, []))"
| "lookup_level0 xxh3 stale (t # ts) key =
     tryE (Table_Get xxh3 stale t key) (\<lambda>(stv, t').
       case stv of
         Some v \<Rightarrow> Some (Inr (Some v, t' # ts))
       | None \<Rightarrow> tryE (lookup_level0 xxh3 stale ts key) (\<lambda>(r, ts'). Some (Inr (r, t' # ts'))))"

text \<open>The table of a sorted level that may hold the key; an index outside the tables panics.\<close>

definition lookup_sorted :: "(bytes \<Rightarrow> u64 \<Rightarrow> u64) \<Rightarrow> bytes \<Rightarrow> tableLevelState \<Rightarrow> bytes \<Rightarrow> (sst_error + (bytes option \<times> Table list)) option" where
  "lookup_sorted xxh3 stale level key =
     (case findLevelTable (lsMeta level) key of
        None \<Rightarrow> Some (Inr (None, lsTables level))
      | Some idx \<Rightarrow>
          if length (lsTables level) \<le> idx then None
          else tryE (Table_Get xxh3 stale (lsTables level ! idx) key) (\<lambda>(stv, t'). Some (Inr (stv, (lsTables level)[idx := t']))))"

fun lookupLevels :: "(bytes \<Rightarrow> u64 \<Rightarrow> u64) \<Rightarrow> bytes \<Rightarrow> tableLevelState list \<Rightarrow> Log option \<Rightarrow> bytes \<Rightarrow>
    (get_error + (bytes option \<times> tableLevelState list)) option" where
  "lookupLevels xxh3 stale [] valueLog key = Some (Inr (None, []))"
| "lookupLevels xxh3 stale (level # levels) valueLog key =
     (case (if lsLevel level = 0 then lookup_level0 xxh3 stale (lsTables level) key else lookup_sorted xxh3 stale level key) of
        None \<Rightarrow> None
      | Some (Inl e) \<Rightarrow> Some (Inl (GetTable e))
      | Some (Inr (Some stv, ts)) \<Rightarrow>
          (case readStoredValue valueLog stv of
             Inl e \<Rightarrow> Some (Inl (GetStored e))
           | Inr v \<Rightarrow> Some (Inr (v, level\<lparr>lsTables := ts\<rparr> # levels)))
      | Some (Inr (None, ts)) \<Rightarrow>
          tryE (lookupLevels xxh3 stale levels valueLog key) (\<lambda>(v, levels'). Some (Inr (v, level\<lparr>lsTables := ts\<rparr> # levels'))))"

section \<open>Planning\<close>

definition defaultMemtableMaxBytes :: int where "defaultMemtableMaxBytes = 4 * 2 ^ 20"
definition minMemtableArenaSize :: int where "minMemtableArenaSize = 2 ^ 20"

definition memtableArenaSize :: "int \<Rightarrow> int" where
  "memtableArenaSize maxBytes = (let sz = maxBytes * 2 in if sz < minMemtableArenaSize then minMemtableArenaSize else sz)"

text \<open>The output size from the memtable size of the options.\<close>

definition compactionOutputBytes :: "int \<Rightarrow> int" where
  "compactionOutputBytes memtableMaxBytes = (if memtableMaxBytes > defaultMemtableMaxBytes then memtableMaxBytes else defaultMemtableMaxBytes)"

text \<open>The plan for the tables of the manifest.\<close>

definition plan_tables :: "int \<Rightarrow> TableMeta list \<Rightarrow> compactionPlan option" where
  "plan_tables memtableMaxBytes tables =
     (let levels = groupTableMetaByLevel tables in
      if levels = [] \<or> lsMeta (hd levels) = [] then None
      else
        let source = selectL0CompactionSource (lsMeta (hd levels)) in
        Some \<lparr>sourceLevel = 0, targetLevel = 1, sourceTables = source,
              targetTables = overlappingTableMeta levels 1 (tableMetaBounds source),
              targetOutputBytes = compactionOutputBytes memtableMaxBytes, dropTombstones = maxTableLevel levels \<le> 1\<rparr>)"

definition Plan :: "host \<Rightarrow> nat \<Rightarrow> fs \<Rightarrow> string \<Rightarrow> listing \<Rightarrow> int \<Rightarrow> (fs \<times> (manifest_error + compactionPlan option)) option" where
  "Plan h now fs dir names memtableMaxBytes =
     (case openManifest h now fs dir names of
        None \<Rightarrow> None
      | Some (fs', Inl e) \<Rightarrow> Some (fs', Inl e)
      | Some (fs', Inr m) \<Rightarrow> Some (fs', Inr (plan_tables memtableMaxBytes (manifest_Tables m))))"

definition planInputTables :: "compactionPlan \<Rightarrow> TableMeta list" where
  "planInputTables plan = cloneTableMeta (sourceTables plan) @ cloneTableMeta (targetTables plan)"

section \<open>The selection\<close>

text \<open>A range is the hull of a set of tables when it is exactly as wide as they need.\<close>

definition spans :: "bytes \<times> bytes \<Rightarrow> TableMeta set \<Rightarrow> bool" where
  "spans b T \<longleftrightarrow> fst b \<in> tmSmallest ` T \<and> (\<forall>t \<in> T. fst b \<le> tmSmallest t) \<and> snd b \<in> tmLargest ` T \<and> (\<forall>t \<in> T. tmLargest t \<le> snd b)"

lemma spans_single: "spans (tmSmallest t, tmLargest t) {t}"
  by (simp add: spans_def)

lemma spans_widen: "spans b T \<Longrightarrow> spans (widen b t) (insert t T)"
  unfolding spans_def widen_def by (auto simp: not_less)

lemma spans_unique: "spans b T \<Longrightarrow> spans c T \<Longrightarrow> b = c"
  unfolding spans_def by (intro prod_eqI order_antisym) auto

lemma spans_foldl: "spans b T \<Longrightarrow> spans (foldl widen b ts) (T \<union> set ts)"
proof (induction ts arbitrary: b T)
  case (Cons t ts)
  then show ?case using Cons.IH [OF spans_widen [OF Cons.prems, of t]] by simp
qed simp

lemma spans_bounds: "ts \<noteq> [] \<Longrightarrow> spans (tableMetaBounds ts) (set ts)"
  using spans_foldl [OF spans_single] by (cases ts) (auto simp: tableMetaBounds_def)

definition chosen :: "TableMeta list \<Rightarrow> string list \<Rightarrow> TableMeta set" where
  "chosen l0 sel = {t \<in> set l0. tmFilename t \<in> set sel}"

lemma select_pass_spans:
  assumes "distinct (map tmFilename l0)" "set ts \<subseteq> set l0"
  shows "spans b (chosen l0 sel) \<Longrightarrow> select_pass ts (sel, b, c) = (sel', b', c') \<Longrightarrow> spans b' (chosen l0 sel')"
  using assms(2)
proof (induction ts arbitrary: sel b c)
  case (Cons t ts)
  show ?case
  proof (cases "tmFilename t \<in> set sel \<or> apart t b")
    case True
    then show ?thesis using Cons by auto
  next
    case False
    have "chosen l0 (tmFilename t # sel) = insert t (chosen l0 sel)"
      using assms(1) Cons.prems(3) by (auto simp: chosen_def distinct_map inj_on_def)
    then have "spans (widen b t) (chosen l0 (tmFilename t # sel))" using spans_widen [OF Cons.prems(1)] by simp
    then show ?thesis using Cons False by auto
  qed
qed simp

lemma select_pass_stable:
  "select_pass ts (sel, b, c) = (sel', b', False) \<Longrightarrow> sel' = sel \<and> b' = b \<and> (\<forall>t \<in> set ts. tmFilename t \<in> set sel \<or> apart t b)"
proof (induction ts arbitrary: sel b c)
  case (Cons t ts)
  show ?case
  proof (cases "tmFilename t \<in> set sel \<or> apart t b")
    case True
    then show ?thesis using Cons by auto
  next
    case False
    then show ?thesis using Cons.prems select_pass_grows [of ts "tmFilename t # sel" "widen b t" True sel' b' False] by auto
  qed
qed simp

lemma select_loop_spec:
  "distinct (map tmFilename l0) \<Longrightarrow> spans b (chosen l0 sel) \<Longrightarrow>
    \<exists>b'. spans b' (chosen l0 (select_loop l0 sel b)) \<and> set sel \<subseteq> set (select_loop l0 sel b) \<and>
      (\<forall>t \<in> set l0. t \<in> chosen l0 (select_loop l0 sel b) \<or> apart t b')"
proof (induction l0 sel b rule: select_loop.induct)
  case (1 l0 sel b)
  obtain sel' b' c where p: "select_pass l0 (sel, b, False) = (sel', b', c)" by (cases "select_pass l0 (sel, b, False)")
  have h: "spans b' (chosen l0 sel')" by (rule select_pass_spans [OF 1(2) _ 1(3) p]) simp
  have sub: "set sel \<subseteq> set sel'" using select_pass_grows [OF p] by blast
  show ?case
  proof (cases c)
    case True
    then have "select_loop l0 sel b = select_loop l0 sel' b'" using p by (simp add: select_loop.simps [of l0 sel b])
    then show ?thesis using 1(1) [OF p [symmetric] refl True 1(2) h] sub by auto
  next
    case False
    then have e: "select_loop l0 sel b = sel'" using p by (simp add: select_loop.simps [of l0 sel b])
    have "sel' = sel \<and> b' = b \<and> (\<forall>t \<in> set l0. tmFilename t \<in> set sel \<or> apart t b)" using p False by (intro select_pass_stable) simp
    then show ?thesis using e h by (intro exI [of _ b']) (auto simp: chosen_def)
  qed
qed

lemma filename_inj: "distinct (map tmFilename l0) \<Longrightarrow> t \<in> set l0 \<Longrightarrow> u \<in> set l0 \<Longrightarrow> tmFilename t = tmFilename u \<Longrightarrow> t = u"
  unfolding distinct_map by (blast dest: inj_onD)

lemma selection_spec:
  assumes "l0 \<noteq> []" "distinct (map tmFilename l0)"
  shows "last l0 \<in> set (selectL0CompactionSource l0) \<and> subseq (selectL0CompactionSource l0) l0 \<and>
    (\<forall>t \<in> set l0 - set (selectL0CompactionSource l0). apart t (tableMetaBounds (selectL0CompactionSource l0)))"
proof -
  let ?t = "last l0" and ?src = "selectL0CompactionSource l0"
  let ?sel = "select_loop l0 [tmFilename ?t] (tmSmallest ?t, tmLargest ?t)"
  have "chosen l0 [tmFilename ?t] = {?t}"
    using filename_inj [OF assms(2), of _ ?t] last_in_set [OF assms(1)] by (fastforce simp: chosen_def)
  then obtain b where b: "spans b (chosen l0 ?sel)" "tmFilename ?t \<in> set ?sel" "\<forall>t \<in> set l0. t \<in> chosen l0 ?sel \<or> apart t b"
    using select_loop_spec [OF assms(2), of "(tmSmallest ?t, tmLargest ?t)" "[tmFilename ?t]"] spans_single by auto
  have src: "?src = filter (\<lambda>t. tmFilename t \<in> set ?sel) l0" using assms(1) by (simp add: selectL0CompactionSource_def Let_def)
  then have set: "set ?src = chosen l0 ?sel" by (auto simp: chosen_def)
  have last: "?t \<in> set ?src" using src assms(1) b(2) by simp
  then have "spans (tableMetaBounds ?src) (chosen l0 ?sel)" unfolding set [symmetric] by (intro spans_bounds) auto
  then have eq: "tableMetaBounds ?src = b" using b(1) by (rule spans_unique)
  have sub: "subseq ?src l0" unfolding src by (rule subseq_filter_left)
  have "\<forall>t \<in> set l0 - set ?src. apart t b" unfolding set using b(3) by blast
  then show ?thesis unfolding eq using last sub by (intro conjI)
qed

section \<open>Lookup through the levels\<close>

text \<open>What a list of sorted runs holds under a key, the first run that has it winning; an empty value counts as absent.\<close>

fun first_hit :: "(bytes \<times> bytes) list list \<Rightarrow> bytes \<Rightarrow> bytes option" where
  "first_hit [] key = None"
| "first_hit (r # rs) key = (case Option.bind (map_of r key) append_nil of Some v \<Rightarrow> Some v | None \<Rightarrow> first_hit rs key)"

lemma first_hit_append: "first_hit (rs @ ss) key = (case first_hit rs key of Some v \<Rightarrow> Some v | None \<Rightarrow> first_hit ss key)"
  by (induction rs) (auto split: option.split)

lemma first_hit_absent: "(\<And>r. r \<in> set rs \<Longrightarrow> map_of r key = None) \<Longrightarrow> first_hit rs key = None"
  by (induction rs) auto

text \<open>A run with its entry in the manifest: not empty, with its first and last keys as the bounds.\<close>

definition run_meta :: "TableMeta \<Rightarrow> (bytes \<times> bytes) list \<Rightarrow> bool" where
  "run_meta m r \<longleftrightarrow> r \<noteq> [] \<and> sorted_keys r \<and> tmSmallest m = fst (hd r) \<and> tmLargest m = fst (last r)"

definition level_rep :: "(bytes \<Rightarrow> u64 \<Rightarrow> u64) \<Rightarrow> tableLevelState \<Rightarrow> (bytes \<times> bytes) list list \<Rightarrow> bool" where
  "level_rep xxh3 level rs \<longleftrightarrow> list_all2 (table_holds xxh3) (lsTables level) rs \<and> list_all2 run_meta (lsMeta level) rs \<and>
     (lsLevel level \<noteq> 0 \<longrightarrow> sorted_wrt (\<lambda>a b. tmLargest a < tmSmallest b) (lsMeta level))"

lemma run_meta_range:
  assumes "run_meta m r" "map_of r key = Some v"
  shows "tmSmallest m \<le> key" "key \<le> tmLargest m"
proof -
  have s: "sorted_wrt (<) (map fst r)" "r \<noteq> []" and m: "tmSmallest m = fst (hd r)" "tmLargest m = fst (last r)" using assms(1) by (auto simp: run_meta_def)
  have k: "key \<in> set (map fst r)" using map_of_SomeD [OF assms(2)] by force
  have so: "sorted (map fst r)" using s(1) by (rule strict_sorted_imp_sorted)
  obtain a as where r: "map fst r = a # as" using s(2) by (cases r) auto
  have "fst (hd r) = a" using r s(2) by (cases r) auto
  then show "tmSmallest m \<le> key" using m k so r by auto
  obtain bs b where rb: "map fst r = bs @ [b]" using s(2) by (metis append_butlast_last_id map_is_Nil_conv)
  have "fst (last r) = b" using rb s(2) by (metis last_map last_snoc)
  then show "key \<le> tmLargest m" using m k so rb by (auto simp: sorted_append)
qed

lemma run_meta_order: "run_meta m r \<Longrightarrow> tmSmallest m \<le> tmLargest m"
proof -
  assume a: "run_meta m r"
  then have "map_of r (fst (hd r)) = Some (snd (hd r))" by (cases r) (auto simp: run_meta_def)
  from run_meta_range [OF a this] show ?thesis by (rule order.trans)
qed

lemma lookup_level0_spec:
  "list_all2 (table_holds xxh3) ts rs \<Longrightarrow>
    \<exists>ts'. lookup_level0 xxh3 stale ts key = Some (Inr (first_hit rs key, ts')) \<and> list_all2 (table_holds xxh3) ts' rs"
proof (induction ts rs rule: list_all2_induct)
  case (Cons t ts r rs)
  obtain t' where t': "Table_Get xxh3 stale t key = Some (Inr (Option.bind (map_of r key) append_nil, t'))" "table_holds xxh3 t' r"
    using Table_Get_holds [OF Cons(1)] by blast
  obtain ts' where ts': "lookup_level0 xxh3 stale ts key = Some (Inr (first_hit rs key, ts'))" "list_all2 (table_holds xxh3) ts' rs"
    using Cons.IH by blast
  show ?case
  proof (cases "Option.bind (map_of r key) append_nil")
    case None
    then show ?thesis using t' ts' by auto
  next
    case (Some v)
    then show ?thesis using t' Cons(2) by auto
  qed
qed simp

lemma sorted_wrt_nth_mono:
  assumes "sorted_wrt (\<lambda>a b. tmLargest a < tmSmallest b) ms" "i < j" "j < length ms"
  shows "tmLargest (ms ! i) < tmSmallest (ms ! j)"
  using assms by (simp add: sorted_wrt_iff_nth_less)

text \<open>The binary search finds the only table of a sorted level that can hold the key.\<close>

lemma findLevelTable_spec:
  assumes rep: "list_all2 run_meta ms rs" and s: "sorted_wrt (\<lambda>a b. tmLargest a < tmSmallest b) ms"
  shows "case findLevelTable ms key of
      None \<Rightarrow> \<forall>r \<in> set rs. map_of r key = None
    | Some i \<Rightarrow> i < length ms \<and> (\<forall>j < length ms. j \<noteq> i \<longrightarrow> map_of (rs ! j) key = None)"
proof -
  have len: "length ms = length rs" using rep by (rule list_all2_lengthD)
  have rm: "run_meta (ms ! i) (rs ! i)" if "i < length ms" for i using rep that by (rule list_all2_nthD)
  let ?f = "\<lambda>i. bytes_compare (tmLargest (ms ! i)) key \<ge> 0"
  have mono: "?f b" if "a \<le> b" "b < length ms" "?f a" for a b
  proof (cases "a = b")
    case False
    then have "tmLargest (ms ! a) < tmSmallest (ms ! b)" using sorted_wrt_nth_mono [OF s, of a b] that by simp
    also have "\<dots> \<le> tmLargest (ms ! b)" by (rule run_meta_order [OF rm [OF that(2)]])
    finally show ?thesis using that(3) by simp
  qed (use that in simp)
  define i where "i = sort_search (length ms) ?f"
  have lh: "least_hit ?f (length ms) i" unfolding i_def by (rule sort_search_least) (rule mono)
  have absent: "map_of (rs ! j) key = None" if "j < length ms" "j < i \<or> (i < length ms \<and> i < j)" for j
  proof (rule ccontr)
    assume "map_of (rs ! j) key \<noteq> None"
    then obtain v where "map_of (rs ! j) key = Some v" by blast
    note r = run_meta_range [OF rm [OF that(1)] this]
    show False
    proof (cases "j < i")
      case True
      then show False using lh r(2) by (auto simp: least_hit_def)
    next
      case False
      then have "key \<le> tmLargest (ms ! i)" "tmLargest (ms ! i) < tmSmallest (ms ! j)"
        using that lh sorted_wrt_nth_mono [OF s, of i j] by (auto simp: least_hit_def)
      then show False using r(1) by simp
    qed
  qed
  show ?thesis
  proof (cases "i = length ms \<or> key < tmSmallest (ms ! i)")
    case True
    then have "findLevelTable ms key = None" unfolding findLevelTable_def i_def [symmetric] Let_def by auto
    moreover have "map_of (rs ! j) key = None" if "j < length ms" for j
    proof (cases "j = i")
      case eq: True
      then have "key < tmSmallest (ms ! j)" using True that by simp
      then show ?thesis using run_meta_range(1) [OF rm [OF that]] by (cases "map_of (rs ! j) key") force+
    next
      case False
      then have "j < i \<or> (i < length ms \<and> i < j)" using that by linarith
      then show ?thesis by (rule absent [OF that])
    qed
    ultimately show ?thesis using len by (auto simp: in_set_conv_nth)
  next
    case False
    then have "i < length ms" using lh by (auto simp: least_hit_def)
    moreover from this have "ms \<noteq> []" by auto
    ultimately have "findLevelTable ms key = Some i" using False unfolding findLevelTable_def i_def [symmetric] Let_def by simp
    then show ?thesis using absent \<open>i < length ms\<close> by (auto simp: nat_neq_iff)
  qed
qed

lemma first_hit_at:
  assumes "i < length rs" "\<forall>j < length rs. j \<noteq> i \<longrightarrow> map_of (rs ! j) key = None"
  shows "first_hit rs key = Option.bind (map_of (rs ! i) key) append_nil"
proof -
  have "rs = take i rs @ rs ! i # drop (Suc i) rs" using assms(1) by (rule id_take_nth_drop)
  moreover have "first_hit (take i rs) key = None" using assms by (intro first_hit_absent) (auto simp: in_set_conv_nth)
  moreover have "first_hit (drop (Suc i) rs) key = None" using assms by (intro first_hit_absent) (auto simp: in_set_conv_nth)
  ultimately show ?thesis by (metis (no_types, lifting) first_hit.simps(2) first_hit_append option.case_eq_if option.exhaust_sel)
qed

lemma lookup_sorted_spec:
  assumes "level_rep xxh3 level rs" "lsLevel level \<noteq> 0"
  shows "\<exists>ts'. lookup_sorted xxh3 stale level key = Some (Inr (first_hit rs key, ts')) \<and> list_all2 (table_holds xxh3) ts' rs"
proof -
  have t: "list_all2 (table_holds xxh3) (lsTables level) rs" and m: "list_all2 run_meta (lsMeta level) rs"
    and s: "sorted_wrt (\<lambda>a b. tmLargest a < tmSmallest b) (lsMeta level)" using assms by (auto simp: level_rep_def)
  note f = findLevelTable_spec [OF m s, of key]
  have len: "length (lsMeta level) = length rs" "length (lsTables level) = length rs" using t m by (auto dest: list_all2_lengthD)
  show ?thesis
  proof (cases "findLevelTable (lsMeta level) key")
    case None
    then have "first_hit rs key = None" using f by (intro first_hit_absent) auto
    then show ?thesis using None t by (simp add: lookup_sorted_def)
  next
    case (Some i)
    then have i: "i < length rs" "\<forall>j < length rs. j \<noteq> i \<longrightarrow> map_of (rs ! j) key = None" using f len by auto
    obtain t' where t': "Table_Get xxh3 stale (lsTables level ! i) key = Some (Inr (Option.bind (map_of (rs ! i) key) append_nil, t'))" "table_holds xxh3 t' (rs ! i)"
      using Table_Get_holds [OF list_all2_nthD [OF t, of i], of stale key] i(1) len by (auto simp del: not_None_eq)
    have "list_all2 (table_holds xxh3) ((lsTables level)[i := t']) (rs[i := rs ! i])" using t t'(2) by (rule list_all2_update_cong)
    then show ?thesis using Some t'(1) first_hit_at [OF i] i(1) len by (simp add: lookup_sorted_def)
  qed
qed

definition read_result :: "Log option \<Rightarrow> bytes option \<Rightarrow> 's \<Rightarrow> get_error + (bytes option \<times> 's)" where
  "read_result valueLog stv s =
     (case stv of
        None \<Rightarrow> Inr (None, s)
      | Some v \<Rightarrow> (case readStoredValue valueLog v of Inl e \<Rightarrow> Inl (GetStored e) | Inr x \<Rightarrow> Inr (x, s)))"

lemma lookupLevels_spec:
  "list_all2 (level_rep xxh3) levels rss \<Longrightarrow>
    \<exists>levels'. lookupLevels xxh3 stale levels valueLog key = Some (read_result valueLog (first_hit (concat rss) key) levels') \<and>
      list_all2 (level_rep xxh3) levels' rss"
proof (induction levels rss rule: list_all2_induct)
  case (Cons level levels rs rss)
  have t: "list_all2 (table_holds xxh3) (lsTables level) rs" using Cons(1) by (simp add: level_rep_def)
  obtain ts' where ts': "(if lsLevel level = 0 then lookup_level0 xxh3 stale (lsTables level) key else lookup_sorted xxh3 stale level key) =
      Some (Inr (first_hit rs key, ts'))" "list_all2 (table_holds xxh3) ts' rs"
    using lookup_level0_spec [OF t, of stale key] lookup_sorted_spec [OF Cons(1), of stale key] by (cases "lsLevel level = 0") (simp_all, blast+)
  have rep: "level_rep xxh3 (level\<lparr>lsTables := ts'\<rparr>) rs" using Cons(1) ts'(2) by (simp add: level_rep_def)
  obtain levels' where l': "lookupLevels xxh3 stale levels valueLog key = Some (read_result valueLog (first_hit (concat rss) key) levels')"
    "list_all2 (level_rep xxh3) levels' rss" using Cons.IH by blast
  show ?case
  proof (cases "first_hit rs key")
    case None
    then have "lookupLevels xxh3 stale (level # levels) valueLog key =
        Some (read_result valueLog (first_hit (concat (rs # rss)) key) (level\<lparr>lsTables := ts'\<rparr> # levels'))"
      using ts'(1) l'(1) by (auto simp: first_hit_append read_result_def split: option.split sum.split)
    then show ?thesis using rep l'(2) by blast
  next
    case (Some v)
    then have "lookupLevels xxh3 stale (level # levels) valueLog key =
        Some (read_result valueLog (first_hit (concat (rs # rss)) key) (level\<lparr>lsTables := ts'\<rparr> # levels))"
      using ts'(1) by (auto simp: first_hit_append read_result_def split: sum.split)
    then show ?thesis using rep Cons(2) by blast
  qed
qed (simp add: read_result_def)

section \<open>The state of the levels\<close>

lemma mset_insort_by [simp]: "mset (insort_by lt x xs) = add_mset x (mset xs)"
  by (induction xs) auto

lemma mset_sort_slice [simp]: "mset (sort_slice lt xs) = mset xs"
  by (induction xs) (auto simp: sort_slice_Cons)

lemma sorted_insort_less:
  assumes asym: "\<And>a b. lt a b \<Longrightarrow> \<not> lt b a" and trans: "\<And>a b c. \<not> lt b a \<Longrightarrow> \<not> lt c b \<Longrightarrow> \<not> lt c a"
  shows "sorted_wrt (\<lambda>a b. \<not> lt b a) xs \<Longrightarrow> sorted_wrt (\<lambda>a b. \<not> lt b a) (insort_by lt x xs)"
proof (induction xs)
  case (Cons y ys)
  have "\<not> lt z x" if "\<not> lt y x" "z \<in> set ys" for z using trans [of y x z] Cons.prems that by auto
  then show ?case using Cons by (auto dest: asym)
qed simp

lemma sorted_sort_less:
  assumes "\<And>a b. lt a b \<Longrightarrow> \<not> lt b a" "\<And>a b c. \<not> lt b a \<Longrightarrow> \<not> lt c b \<Longrightarrow> \<not> lt c a"
  shows "sorted_wrt (\<lambda>a b. \<not> lt b a) (sort_slice lt xs)"
proof (induction xs)
  case (Cons x xs)
  then show ?case unfolding sort_slice_Cons using assms by (intro sorted_insort_less)
qed simp

lemma level_less_asym: "level_less l a b \<Longrightarrow> \<not> level_less l b a"
  by (auto simp: level_less_def Let_def split: if_splits)

lemma level_less_trans: "\<not> level_less l b a \<Longrightarrow> \<not> level_less l c b \<Longrightarrow> \<not> level_less l c a"
  by (auto simp: level_less_def Let_def not_less split: if_splits)

lemma sorted_level: "sorted_wrt (\<lambda>a b. \<not> level_less l b a) (sortTableMetaForLevel l ts)"
  unfolding sortTableMetaForLevel_def using level_less_asym level_less_trans by (intro sorted_sort_less)

lemma levels_seen_spec: "distinct seen \<Longrightarrow> distinct (levels_seen ts seen) \<and> set (levels_seen ts seen) = set seen \<union> tmLevel ` set ts"
  by (induction ts arbitrary: seen) auto

definition level_ok :: "tableLevelState \<Rightarrow> bool" where
  "level_ok s \<longleftrightarrow> lsMeta s \<noteq> [] \<and> (\<forall>m \<in> set (lsMeta s). tmLevel m = lsLevel s) \<and> sorted_wrt (\<lambda>a b. \<not> level_less (lsLevel s) b a) (lsMeta s)"

lemma mset_by_class:
  "distinct ls \<Longrightarrow> f ` set xs \<subseteq> set ls \<Longrightarrow> (\<Sum>l \<leftarrow> ls. mset (filter (\<lambda>x. f x = l) xs)) = mset xs"
proof (induction ls arbitrary: xs)
  case (Cons l ls)
  let ?ys = "filter (\<lambda>x. f x \<noteq> l) xs"
  have "filter (\<lambda>x. f x = l') xs = filter (\<lambda>x. f x = l') ?ys" if "l' \<in> set ls" for l'
    using that Cons.prems(1) by (auto intro: filter_cong)
  then have "(\<Sum>l' \<leftarrow> ls. mset (filter (\<lambda>x. f x = l') xs)) = (\<Sum>l' \<leftarrow> ls. mset (filter (\<lambda>x. f x = l') ?ys))"
    by (intro arg_cong [of _ _ sum_list] map_cong) auto
  also have "\<dots> = mset ?ys" using Cons.prems by (intro Cons.IH) auto
  finally show ?case using multiset_partition [of "mset xs" "\<lambda>x. f x = l"] by simp
qed simp

lemma group_spec:
  "sorted_wrt (<) (map lsLevel (groupTableMetaByLevel ts)) \<and> list_all level_ok (groupTableMetaByLevel ts) \<and>
    mset (concat (map lsMeta (groupTableMetaByLevel ts))) = mset ts"
proof (cases "ts = []")
  case False
  let ?ls = "sort (levels_seen ts [])"
  have ls: "distinct ?ls" "set ?ls = tmLevel ` set ts" using levels_seen_spec [of "[]" ts] by simp_all
  have g: "groupTableMetaByLevel ts = map (\<lambda>l. \<lparr>lsLevel = l, lsMeta = sortTableMetaForLevel l (filter (\<lambda>t. tmLevel t = l) ts), lsTables = []\<rparr>) ?ls"
    using False by (simp add: groupTableMetaByLevel_def)
  have "sorted_wrt (<) ?ls" using ls(1) by (simp add: strict_sorted_iff)
  then have 1: "sorted_wrt (<) (map lsLevel (groupTableMetaByLevel ts))" unfolding g by (simp add: comp_def)
  have "level_ok \<lparr>lsLevel = l, lsMeta = sortTableMetaForLevel l (filter (\<lambda>t. tmLevel t = l) ts), lsTables = []\<rparr>" if l: "l \<in> set ?ls" for l
  proof -
    have "set (sortTableMetaForLevel l (filter (\<lambda>t. tmLevel t = l) ts)) = {t \<in> set ts. tmLevel t = l}"
      by (auto simp: sortTableMetaForLevel_def)
    moreover obtain t where "t \<in> set ts" "tmLevel t = l" using l ls(2) by auto
    ultimately show ?thesis using sorted_level by (auto simp: level_ok_def)
  qed
  then have 2: "list_all level_ok (groupTableMetaByLevel ts)" unfolding g by (simp add: list_all_iff)
  have "mset (concat (map lsMeta (groupTableMetaByLevel ts))) = (\<Sum>l \<leftarrow> ?ls. mset (filter (\<lambda>x. tmLevel x = l) ts))"
    unfolding g by (simp add: mset_concat comp_def sortTableMetaForLevel_def)
  also have "\<dots> = mset ts" using ls by (intro mset_by_class) auto
  finally show ?thesis using 1 2 by blast
qed (simp add: groupTableMetaByLevel_def)

lemma level_tables_spec:
  "level_tables byName ms = Inr ts \<Longrightarrow> list_all2 (\<lambda>m t. byName (tmFilename m) = Some t) ms ts"
  by (induction ms arbitrary: ts) (auto simp: list_all2_Cons1 split: option.splits sum.splits)

lemma level_tables_total: "(\<And>m. m \<in> set ms \<Longrightarrow> byName (tmFilename m) \<noteq> None) \<Longrightarrow> \<exists>ts. level_tables byName ms = Inr ts"
  by (induction ms) (auto split: option.splits sum.splits)

definition level_filled :: "(string \<Rightarrow> Table option) \<Rightarrow> tableLevelState \<Rightarrow> tableLevelState \<Rightarrow> bool" where
  "level_filled byName s r \<longleftrightarrow> r = s\<lparr>lsTables := lsTables r\<rparr> \<and> list_all2 (\<lambda>m t. byName (tmFilename m) = Some t) (lsMeta s) (lsTables r)"

lemma build_levels_spec:
  "build_levels byName ss = Inr rs \<Longrightarrow> list_all2 (level_filled byName) ss rs"
  by (induction ss arbitrary: rs) (auto simp: level_filled_def level_tables_spec split: sum.splits)

lemma build_levels_total:
  "(\<And>s m. s \<in> set ss \<Longrightarrow> m \<in> set (lsMeta s) \<Longrightarrow> byName (tmFilename m) \<noteq> None) \<Longrightarrow> \<exists>rs. build_levels byName ss = Inr rs"
proof (induction ss)
  case (Cons s ss)
  obtain ts where "level_tables byName (lsMeta s) = Inr ts" using level_tables_total [of "lsMeta s" byName] Cons.prems by auto
  moreover obtain rs where "build_levels byName ss = Inr rs" using Cons by auto
  ultimately show ?case by simp
qed simp

lemma level_filled_keeps:
  "list_all2 (level_filled byName) ss rs \<Longrightarrow> map lsLevel rs = map lsLevel ss \<and> map lsMeta rs = map lsMeta ss \<and> (list_all level_ok ss \<longrightarrow> list_all level_ok rs) \<and>
     (\<forall>r \<in> set rs. list_all2 (\<lambda>m t. byName (tmFilename m) = Some t) (lsMeta r) (lsTables r))"
proof (induction ss rs rule: list_all2_induct)
  case (Cons s ss r rs)
  then have "lsLevel r = lsLevel s" "lsMeta r = lsMeta s" "list_all2 (\<lambda>m t. byName (tmFilename m) = Some t) (lsMeta s) (lsTables r)"
    unfolding level_filled_def by (metis tableLevelState.select_convs(1,2) tableLevelState.surjective tableLevelState.update_convs(3), metis tableLevelState.select_convs(1,2) tableLevelState.surjective tableLevelState.update_convs(3), blast)
  then show ?case using Cons.IH by (auto simp: level_ok_def)
qed simp

lemma table_by_name_None: "table_by_name tables n = None \<longleftrightarrow> n \<notin> (\<lambda>t. snd (tPath t)) ` set tables"
  by (auto simp: table_by_name_def map_of_eq_None_iff image_image)

lemma table_by_name_Some: "table_by_name tables n = Some t \<Longrightarrow> t \<in> set tables \<and> snd (tPath t) = n"
  by (auto simp: table_by_name_def dest!: map_of_SomeD)


lemma buildLevelState_spec:
  assumes "buildLevelState meta tables = Inr (levels, ordered, flat)"
  shows "mset ordered = mset meta \<and> ordered = concat (map lsMeta levels) \<and> flat = concat (map lsTables levels) \<and>
    sorted_wrt (<) (map lsLevel levels) \<and> list_all level_ok levels \<and>
    (\<forall>s \<in> set levels. list_all2 (\<lambda>m t. table_by_name tables (tmFilename m) = Some t) (lsMeta s) (lsTables s))"
proof (cases "meta = []")
  case False
  then obtain b: "build_levels (table_by_name tables) (groupTableMetaByLevel meta) = Inr levels"
    and o: "ordered = concat (map lsMeta levels)" "flat = concat (map lsTables levels)"
    using assms by (auto simp: buildLevelState_def split: sum.splits)
  note k = level_filled_keeps [OF build_levels_spec [OF b]]
  show ?thesis using k o group_spec [of meta] by simp
qed (use assms in \<open>auto simp: buildLevelState_def\<close>)

lemma buildLevelState_total:
  assumes "tmFilename ` set meta \<subseteq> (\<lambda>t. snd (tPath t)) ` set tables"
  shows "\<exists>levels ordered flat. buildLevelState meta tables = Inr (levels, ordered, flat)"
proof -
  have "\<exists>rs. build_levels (table_by_name tables) (groupTableMetaByLevel meta) = Inr rs"
  proof (rule build_levels_total)
    fix s m
    assume "s \<in> set (groupTableMetaByLevel meta)" "m \<in> set (lsMeta s)"
    then have "m \<in> set (concat (map lsMeta (groupTableMetaByLevel meta)))" by auto
    then have "m \<in> set meta" using group_spec [of meta] by (metis set_mset_mset)
    then show "table_by_name tables (tmFilename m) \<noteq> None" using assms by (auto simp: table_by_name_None)
  qed
  then show ?thesis by (auto simp: buildLevelState_def)
qed

lemma order_spec: "orderTableMetaForManifest ts = concat (map lsMeta (groupTableMetaByLevel ts)) \<and> mset (orderTableMetaForManifest ts) = mset ts"
proof (cases "ts = []")
  case False
  have "length (concat (map lsMeta (groupTableMetaByLevel ts))) = length ts" using group_spec [of ts] by (metis size_mset)
  then show ?thesis using False group_spec [of ts] by (simp add: orderTableMetaForManifest_def Let_def)
qed (simp add: orderTableMetaForManifest_def groupTableMetaByLevel_def)

section \<open>Properties of the levels\<close>

text \<open>Small values the witnesses share: entries of the manifest and a level 0 with two tables.\<close>

definition meta_at :: "string \<Rightarrow> int \<Rightarrow> bytes \<Rightarrow> bytes \<Rightarrow> TableMeta" where
  "meta_at name level a b = \<lparr>tmFilename = name, tmLevel = level, tmSmallest = a, tmLargest = b, tmSizeBytes = 9, tmCreatedAt = 0\<rparr>"

definition table_at :: "string \<Rightarrow> Table" where
  "table_at name =
     \<lparr>tIdx = [], tFilter = None, tF = mk_file [] perfect_device, tCache = newDataBlockCache blockCacheEntryLimit, tPath = (''d'', name),
      tSmallest = None, tLargest = None, tSizeBytes = 0\<rparr>"

lemma witness_older: "\<exists>t. table_holds (\<lambda>b s. 0) t [([7], [9])]"
proof -
  obtain s where s: "sl_rel s []" "sl_cap s = 330" "sl_used s = 104" using New_refines [of 330] by auto
  obtain t where t: "sl_rel t [([7], [9])]"
    using skl.put_rel [OF s(1), of "[7]" "[9]"] s by (auto simp: worst_cost_def node_cost_def maxHeight_def)
  have "flushable [([7], [9])]" by (simp add: flushable_def fits_def sst_consts)
  from Flush_spec [OF _ _ this witness_sizing good_perfect, of "t\<lparr>slRef := 1\<rparr>" "\<lambda>b s. 0" "[]" 9 "\<lambda>_. None" "''d''"] t
  show ?thesis by auto
qed

lemma witness_level:
  "\<exists>level. level_rep (\<lambda>b s. 0) level [[([5], [2, 3]), ([7], [])], [([7], [9])]] \<and> lsLevel level = 0"
proof -
  obtain t u where "table_holds (\<lambda>b s. 0) t [([5], [2, 3]), ([7], [])]" "table_holds (\<lambda>b s. 0) u [([7], [9])]"
    using witness_table witness_older by blast
  then show ?thesis
    by (intro exI [of _ "\<lparr>lsLevel = 0, lsMeta = [meta_at ''b'' 0 [5] [7], meta_at ''a'' 0 [7] [7]], lsTables = [t, u]\<rparr>"])
      (simp add: level_rep_def run_meta_def meta_at_def)
qed

text \<open>
  C13: Looking a key up through the levels. When every table of the levels holds a sorted run, the tables of
  the levels above 0 are sorted and disjoint, and the metadata has the true bounds, then the result is that of
  the first run, in the order of the levels, which holds the key with a value that is not empty: binary
  search by the metadata misses nothing. The stored bytes are then resolved through the value log, an
  error of which is returned. There is no panic, and the tables stay readable in the same way.
\<close>
theorem lookup_first_hit_wins:
  assumes "list_all2 (level_rep xxh3) levels rss"
  shows "\<exists>levels'. lookupLevels xxh3 stale levels valueLog key = Some (read_result valueLog (first_hit (concat rss) key) levels') \<and>
    list_all2 (level_rep xxh3) levels' rss"
  using assms by (rule lookupLevels_spec)

lemma lookup_first_hit_wins_witness:
  "\<exists>level level'. level_rep (\<lambda>b s. 0) level [[([5], [2, 3]), ([7], [])], [([7], [9])]] \<and>
    lookupLevels (\<lambda>b s. 0) [] [level] None [5] = Some (Inr (Some [2, 3], [level']))"
proof -
  let ?rs = "[[([5], [2, 3]), ([7], [])], [([7], [9])]]"
  obtain level where l: "level_rep (\<lambda>b s. 0) level ?rs" using witness_level by blast
  then have "list_all2 (level_rep (\<lambda>b s. 0)) [level] [?rs]" by simp
  then obtain levels' where l': "lookupLevels (\<lambda>b s. 0) [] [level] None [5] = Some (read_result None (first_hit (concat [?rs]) [5]) levels')"
    "list_all2 (level_rep (\<lambda>b s. 0)) levels' [?rs]" using lookup_first_hit_wins [of "\<lambda>b s. 0" "[level]" "[?rs]" "[]" None "[5]"] by blast
  moreover obtain level' where "levels' = [level']" using l'(2) by (auto simp: list_all2_Cons2)
  moreover have "readStoredValue None [2, 3] = Inr (Some [2, 3])" by (simp add: readStoredValue_def resolveStoredValue_def isTombstoneValue_def tombstoneValue_def decodeValueRef_def ref_size_simps)
  ultimately show ?thesis using l by (auto simp: read_result_def append_nil_def)
qed

text \<open>
  C38: Overwriting a value by the empty one does not take, once the tables are on disk. When the newest table of level 0
  holds the key with the empty value and the next one holds an older value, the lookup returns the older value.
\<close>
theorem empty_value_uncovers_older:
  assumes "list_all2 (level_rep xxh3) (level # levels) ((newer # older # rs) # rss)" "lsLevel level = 0"
    and "map_of newer key = Some []" "map_of older key = Some v" "v \<noteq> []" "plain v"
  shows "\<exists>levels'. lookupLevels xxh3 stale (level # levels) valueLog key = Some (Inr (Some v, levels'))"
proof -
  have "first_hit (concat ((newer # older # rs) # rss)) key = Some v" using assms(3-5) by (simp add: append_nil_def)
  moreover have "readStoredValue valueLog v = Inr (Some v)" using assms(6) by (simp add: readStoredValue_def resolveStoredValue_def plain_def)
  ultimately show ?thesis using lookupLevels_spec [OF assms(1), of stale valueLog key] by (auto simp: read_result_def)
qed

lemma empty_value_uncovers_older_witness:
  "\<exists>level levels'. level_rep (\<lambda>b s. 0) level [[([5], [2, 3]), ([7], [])], [([7], [9])]] \<and>
    lookupLevels (\<lambda>b s. 0) [] [level] None [7] = Some (Inr (Some [9], levels'))"
proof -
  obtain level where l: "level_rep (\<lambda>b s. 0) level [[([5], [2, 3]), ([7], [])], [([7], [9])]]" "lsLevel level = 0" using witness_level by blast
  have "plain [9]" by (simp add: plain_def isTombstoneValue_def tombstoneValue_def decodeValueRef_def ref_size_simps)
  then have "\<exists>levels'. lookupLevels (\<lambda>b s. 0) [] [level] None [7] = Some (Inr (Some [9], levels'))"
    using l by (intro empty_value_uncovers_older [where rs = "[]" and rss = "[]" and newer = "[([5], [2, 3]), ([7], [])]" and older = "[([7], [9])]"]) simp_all
  then show ?thesis using l by blast
qed

text \<open>
  The source of a compaction. From a level 0 that is not empty, with distinct file names, the selection takes the
  oldest table and, in the order of the level, every table whose range meets the range of the tables taken: a table
  that is left has no key in common with the whole range of the compaction, so compacting the selection to the level
  below cannot bring an old value of a key before a newer one.
\<close>
theorem compaction_source_closed:
  assumes "l0 \<noteq> []" "distinct (map tmFilename l0)"
  shows "last l0 \<in> set (selectL0CompactionSource l0) \<and> subseq (selectL0CompactionSource l0) l0 \<and>
    (\<forall>t \<in> set l0 - set (selectL0CompactionSource l0). apart t (tableMetaBounds (selectL0CompactionSource l0)))"
  using assms by (rule selection_spec)

lemma compaction_source_closed_witness:
  "meta_at ''a'' 0 [7] [8] \<in> set (selectL0CompactionSource [meta_at ''c'' 0 [1] [2], meta_at ''b'' 0 [5] [7], meta_at ''a'' 0 [7] [8]]) \<and>
    subseq (selectL0CompactionSource [meta_at ''c'' 0 [1] [2], meta_at ''b'' 0 [5] [7], meta_at ''a'' 0 [7] [8]])
      [meta_at ''c'' 0 [1] [2], meta_at ''b'' 0 [5] [7], meta_at ''a'' 0 [7] [8]]"
  using compaction_source_closed [of "[meta_at ''c'' 0 [1] [2], meta_at ''b'' 0 [5] [7], meta_at ''a'' 0 [7] [8]]"]
  by (simp add: meta_at_def)

text \<open>
  C36: The state of the levels is well formed: whenever \<open>buildLevelState\<close> succeeds, it has exactly the tables of
  the manifest, grouped into levels in increasing order, none of them empty; each level has its own order (newest first
  on level 0, by the smallest key elsewhere), and beside every entry stands the opened table of that file name.
\<close>
theorem level_state_well_formed:
  assumes "buildLevelState meta tables = Inr (levels, ordered, flat)"
  shows "mset ordered = mset meta \<and> ordered = concat (map lsMeta levels) \<and> flat = concat (map lsTables levels) \<and>
    sorted_wrt (<) (map lsLevel levels) \<and>
    (\<forall>s \<in> set levels. lsMeta s \<noteq> [] \<and> (\<forall>m \<in> set (lsMeta s). tmLevel m = lsLevel s) \<and>
       sorted_wrt (\<lambda>a b. \<not> level_less (lsLevel s) b a) (lsMeta s) \<and>
       list_all2 (\<lambda>m t. t \<in> set tables \<and> snd (tPath t) = tmFilename m) (lsMeta s) (lsTables s))"
proof -
  have "list_all2 (\<lambda>m t. t \<in> set tables \<and> snd (tPath t) = tmFilename m) (lsMeta s) (lsTables s)" if "s \<in> set levels" for s
    using buildLevelState_spec [OF assms] that by (auto elim!: list_all2_mono dest!: table_by_name_Some)
  then show ?thesis using buildLevelState_spec [OF assms] unfolding level_ok_def list_all_iff by blast
qed

lemma level_state_well_formed_witness:
  "\<exists>levels ordered flat. buildLevelState [meta_at ''y'' 1 [5] [7], meta_at ''x'' 0 [5] [7]] [table_at ''x'', table_at ''y''] = Inr (levels, ordered, flat) \<and>
    mset ordered = {#meta_at ''x'' 0 [5] [7], meta_at ''y'' 1 [5] [7]#}"
proof -
  have "\<exists>levels ordered flat. buildLevelState [meta_at ''y'' 1 [5] [7], meta_at ''x'' 0 [5] [7]] [table_at ''x'', table_at ''y''] = Inr (levels, ordered, flat)"
    by (rule buildLevelState_total) (simp add: meta_at_def table_at_def)
  then obtain levels ordered flat where
    b: "buildLevelState [meta_at ''y'' 1 [5] [7], meta_at ''x'' 0 [5] [7]] [table_at ''x'', table_at ''y''] = Inr (levels, ordered, flat)" by blast
  with level_state_well_formed [OF b] show ?thesis by (auto simp: add_mset_commute)
qed

end
