(* ===== verification/Compaction.thy ===== *)
theory Compaction
  imports Levels
begin

text \<open>
  Compaction, \<^verbatim>\<open>src/compaction.go\<close>: the merge of several sorted tables, the loop that writes the merged entries
  to new tables, and the replacement of the input tables by them; with the functions of \<^verbatim>\<open>src/db.go\<close> that open
  and close the tables of a directory.

  A flush function takes the clock, the files, the directory and the memtable; \<open>sst_Flush\<close> is the one the database
  is opened with. The clock and the random numbers are given by the number of the flush and of the insertion. The
  order in which Go iterates over a map is a parameter, a function that permutes the keys. \<open>None\<close> is a panic.
\<close>

section \<open>The merge iterator\<close>

record compactionMergeInput =
  priority :: nat
  inTable :: Table
  inIter :: TableIterator

record compactionMergeIterator =
  miInputs :: "compactionMergeInput list"
  miKey :: "bytes option"
  miValue :: "bytes option"
  miErr :: "sst_error option"
  miValid :: bool

definition in_Valid :: "compactionMergeInput \<Rightarrow> bool" where "in_Valid i = ti_Valid (inTable i) (inIter i)"
definition in_Key :: "compactionMergeInput \<Rightarrow> bytes option option" where "in_Key i = ti_Key (inTable i) (inIter i)"
definition in_Value :: "compactionMergeInput \<Rightarrow> bytes option option" where "in_Value i = ti_Value (inTable i) (inIter i)"

text \<open>The first loop of \<open>advance\<close>, from index \<open>i\<close> on: the chosen input so far, or the error of an input.\<close>

fun choose_loop :: "compactionMergeInput list \<Rightarrow> nat \<Rightarrow> compactionMergeInput list \<Rightarrow> nat option \<Rightarrow> (sst_error + nat option) option" where
  "choose_loop inputs i [] best = Some (Inr best)"
| "choose_loop inputs i (input # rest) best =
     (case ti_Err (inIter input) of
        Some e \<Rightarrow> Some (Inl e)
      | None \<Rightarrow>
          if \<not> in_Valid input then choose_loop inputs (Suc i) rest best
          else case best of
            None \<Rightarrow> choose_loop inputs (Suc i) rest (Some i)
          | Some c \<Rightarrow> do {
              k \<leftarrow> in_Key input;
              kc \<leftarrow> in_Key (inputs ! c);
              let cmp = bytes_compare (go_bytes k) (go_bytes kc) in
                choose_loop inputs (Suc i) rest
                  (if cmp < 0 \<or> (cmp = 0 \<and> priority input < priority (inputs ! c)) then Some i else Some c)
            })"

text \<open>The second loop: every input that stands on the chosen key moves on.\<close>

fun step_loop :: "bytes \<Rightarrow> bytes \<Rightarrow> compactionMergeInput list \<Rightarrow> (compactionMergeInput list \<times> sst_error option) option" where
  "step_loop stale winnerKey [] = Some ([], None)"
| "step_loop stale winnerKey (input # rest) =
     (if \<not> in_Valid input then do { (ins, e) \<leftarrow> step_loop stale winnerKey rest; Some (input # ins, e) }
      else do {
        k \<leftarrow> in_Key input;
        (if go_bytes k \<noteq> winnerKey then do { (ins, e) \<leftarrow> step_loop stale winnerKey rest; Some (input # ins, e) }
         else do {
           (t, it) \<leftarrow> ti_Next stale (inTable input) (inIter input);
           let input' = input\<lparr>inTable := t, inIter := it\<rparr> in
             (case ti_Err it of
                Some e \<Rightarrow> Some (input' # rest, Some e)
              | None \<Rightarrow> do { (ins, e) \<leftarrow> step_loop stale winnerKey rest; Some (input' # ins, e) })
         })
      })"

definition merge_advance :: "bytes \<Rightarrow> compactionMergeIterator \<Rightarrow> compactionMergeIterator option" where
  "merge_advance stale it =
     (if miErr it \<noteq> None then Some it
      else case choose_loop (miInputs it) 0 (miInputs it) None of
        None \<Rightarrow> None
      | Some (Inl e) \<Rightarrow> Some (it\<lparr>miErr := Some e, miValid := False\<rparr>)
      | Some (Inr None) \<Rightarrow> Some (it\<lparr>miKey := None, miValue := None, miValid := False\<rparr>)
      | Some (Inr (Some c)) \<Rightarrow> do {
          winnerKey \<leftarrow> in_Key (miInputs it ! c);
          val \<leftarrow> in_Value (miInputs it ! c);
          (ins, e) \<leftarrow> step_loop stale (go_bytes winnerKey) (miInputs it);
          Some (it\<lparr>miInputs := ins, miKey := winnerKey, miValue := val, miErr := e, miValid := (e = None)\<rparr>)
        })"

fun open_inputs :: "bytes \<Rightarrow> nat \<Rightarrow> Table list \<Rightarrow> compactionMergeInput list option" where
  "open_inputs stale i [] = Some []"
| "open_inputs stale i (t # ts) = do {
     (t', it) \<leftarrow> ti_Rewind stale t ti_New;
     ins \<leftarrow> open_inputs stale (Suc i) ts;
     Some (\<lparr>priority = i, inTable = t', inIter = it\<rparr> # ins)
   }"

definition newCompactionMergeIterator :: "bytes \<Rightarrow> Table list \<Rightarrow> compactionMergeIterator option" where
  "newCompactionMergeIterator stale tables = do {
     ins \<leftarrow> open_inputs stale 0 tables;
     merge_advance stale \<lparr>miInputs = ins, miKey = None, miValue = None, miErr = None, miValid = False\<rparr>
   }"

definition mi_Valid :: "compactionMergeIterator \<Rightarrow> bool" where
  "mi_Valid it \<longleftrightarrow> miValid it \<and> miErr it = None"

definition mi_Key :: "compactionMergeIterator \<Rightarrow> bytes option" where
  "mi_Key it = (if \<not> mi_Valid it then None else miKey it)"

definition mi_Value :: "compactionMergeIterator \<Rightarrow> bytes option" where
  "mi_Value it = (if \<not> mi_Valid it then None else miValue it)"

definition mi_Next :: "bytes \<Rightarrow> compactionMergeIterator \<Rightarrow> compactionMergeIterator option" where
  "mi_Next stale it = (if \<not> mi_Valid it then Some it else merge_advance stale it)"

definition mi_Err :: "compactionMergeIterator \<Rightarrow> sst_error option" where
  "mi_Err it = miErr it"

section \<open>Writing the merged tables\<close>

type_synonym flush_fn = "nat \<Rightarrow> fs \<Rightarrow> string \<Rightarrow> Skiplist \<Rightarrow> (fs \<times> Skiplist \<times> (sst_error + Table)) option"

definition sst_Flush :: "host \<Rightarrow> flush_fn" where
  "sst_Flush h now fs dir sk = Flush (hXxh3 h) (hBits h) (hHashes h) (hStale h) (hDev h) now fs dir sk"

text \<open>The variables of the loop; \<open>cbFlushes\<close> and \<open>cbPuts\<close> count the flushes and the insertions.\<close>

record compactState =
  cbBuilder :: Skiplist
  cbBytes :: int
  cbOutputs :: "Table list"
  cbFs :: fs
  cbFlushes :: nat
  cbPuts :: nat

definition flushBuilder :: "flush_fn \<Rightarrow> (nat \<Rightarrow> nat) \<Rightarrow> string \<Rightarrow> int \<Rightarrow> compactState \<Rightarrow> (compactState \<times> sst_error option) option" where
  "flushBuilder flushFn clock tempDir targetBytes st = do {
     empty \<leftarrow> Empty (cbBuilder st);
     (if empty then Some (st, None)
      else do {
        (fs', sk, r) \<leftarrow> flushFn (clock (cbFlushes st)) (cbFs st) tempDir (cbBuilder st);
        let st' = st\<lparr>cbFs := fs', cbBuilder := sk, cbFlushes := Suc (cbFlushes st)\<rparr> in
        (case r of
           Inl e \<Rightarrow> Some (st', Some e)
         | Inr sst \<Rightarrow> do {
             b \<leftarrow> New (nat (memtableArenaSize targetBytes));
             Some (st'\<lparr>cbOutputs := cbOutputs st @ [sst], cbBuilder := b, cbBytes := 0\<rparr>, None)
           })
      })
   }"

text \<open>The body of the loop for one entry.\<close>

definition compact_entry ::
    "flush_fn \<Rightarrow> (nat \<Rightarrow> nat) \<Rightarrow> (nat \<Rightarrow> nat \<Rightarrow> u32) \<Rightarrow> string \<Rightarrow> int \<Rightarrow> bool \<Rightarrow> bytes \<Rightarrow> bytes \<Rightarrow> compactState \<Rightarrow>
      (compactState \<times> sst_error option) option" where
  "compact_entry flushFn clock rand tempDir targetBytes dropTomb key stv st =
     (if dropTomb \<and> isTombstoneValue stv then Some (st, None)
      else do {
        b \<leftarrow> Put (rand (cbPuts st)) (cbBuilder st) key stv;
        let st' = st\<lparr>cbBuilder := b, cbBytes := cbBytes st + int (length key + length stv), cbPuts := Suc (cbPuts st)\<rparr> in
        if cbBytes st' \<ge> targetBytes then flushBuilder flushFn clock tempDir targetBytes st' else Some (st', None)
      })"

partial_function (option) compact_loop ::
    "flush_fn \<Rightarrow> (nat \<Rightarrow> nat) \<Rightarrow> (nat \<Rightarrow> nat \<Rightarrow> u32) \<Rightarrow> bytes \<Rightarrow> string \<Rightarrow> int \<Rightarrow> bool \<Rightarrow> compactionMergeIterator \<Rightarrow> compactState \<Rightarrow>
      (compactionMergeIterator \<times> compactState \<times> sst_error option) option" where
  "compact_loop flushFn clock rand stale tempDir targetBytes dropTomb it st =
     (if \<not> mi_Valid it then Some (it, st, None)
      else do {
        (st', e) \<leftarrow> compact_entry flushFn clock rand tempDir targetBytes dropTomb (go_bytes (mi_Key it)) (go_bytes (mi_Value it)) st;
        (case e of
           Some err \<Rightarrow> Some (it, st', Some err)
         | None \<Rightarrow> do {
             it' \<leftarrow> mi_Next stale it;
             compact_loop flushFn clock rand stale tempDir targetBytes dropTomb it' st'
           })
      })"

text \<open>The outputs of a failed compaction are closed and their files stay in the temporary directory.\<close>

definition compactTables ::
    "flush_fn \<Rightarrow> (nat \<Rightarrow> nat) \<Rightarrow> (nat \<Rightarrow> nat \<Rightarrow> u32) \<Rightarrow> bytes \<Rightarrow> fs \<Rightarrow> string \<Rightarrow> Table list \<Rightarrow> compactionPlan \<Rightarrow>
      (fs \<times> (sst_error + Table list)) option" where
  "compactTables flushFn clock rand stale fs tempDir tables plan =
     (let targetBytes = (if targetOutputBytes plan \<le> 0 then defaultMemtableMaxBytes else targetOutputBytes plan) in
      do {
        b \<leftarrow> New (nat (memtableArenaSize targetBytes));
        it \<leftarrow> newCompactionMergeIterator stale tables;
        (it', st, e) \<leftarrow> compact_loop flushFn clock rand stale tempDir targetBytes (dropTombstones plan) it
          \<lparr>cbBuilder = b, cbBytes = 0, cbOutputs = [], cbFs = fs, cbFlushes = 0, cbPuts = 0\<rparr>;
        (case e of
           Some err \<Rightarrow> Some (cbFs st, Inl err)
         | None \<Rightarrow>
             (case mi_Err it' of
                Some err \<Rightarrow> Some (cbFs st, Inl err)
              | None \<Rightarrow> do {
                  (st', e') \<leftarrow> flushBuilder flushFn clock tempDir targetBytes st;
                  Some (cbFs st', case e' of Some err \<Rightarrow> Inl err | None \<Rightarrow> Inr (cbOutputs st'))
                }))
      })"

section \<open>Replacing the tables\<close>

datatype compact_error =
    CmTable sst_error
  | CmManifest manifest_error
  | CmIO io_error
  | CmRemove string io_error

fun openSSTables :: "host \<Rightarrow> fs \<Rightarrow> path list \<Rightarrow> (sst_error + Table list) option" where
  "openSSTables h fs [] = Some (Inr [])"
| "openSSTables h fs (p # ps) =
     tryE (Open (hStale h) (hDev h) fs p) (\<lambda>sst. tryE (openSSTables h fs ps) (\<lambda>ssts. Some (Inr (sst # ssts))))"

definition openSSTablesFromMeta :: "host \<Rightarrow> fs \<Rightarrow> string \<Rightarrow> TableMeta list \<Rightarrow> (sst_error + Table list) option" where
  "openSSTablesFromMeta h fs dir tables = openSSTables h fs (map (\<lambda>t. (dir, tmFilename t)) tables)"

text \<open>\<open>os.RemoveAll\<close> of a directory of files; when it fails, this model leaves the files.\<close>

definition os_RemoveAll :: "host \<Rightarrow> fs \<Rightarrow> string \<Rightarrow> fs \<times> io_error option" where
  "os_RemoveAll h fs dir =
     (if hFault h (OpRemoveAll dir) \<noteq> None then (fs, Some EIO) else (\<lambda>p. if fst p = dir then None else fs p, None))"

fun rename_loop :: "host \<Rightarrow> fs \<Rightarrow> string \<Rightarrow> string \<Rightarrow> string list \<Rightarrow> fs \<times> io_error option" where
  "rename_loop h fs tempDir dir [] = (fs, None)"
| "rename_loop h fs tempDir dir (n # ns) =
     (case os_Rename h fs (tempDir, n) (dir, n) of
        (fs', Some e) \<Rightarrow> (fs', Some e)
      | (fs', None) \<Rightarrow> rename_loop h fs' tempDir dir ns)"

fun remove_loop :: "host \<Rightarrow> fs \<Rightarrow> string \<Rightarrow> string list \<Rightarrow> string list \<Rightarrow> fs \<times> compact_error option" where
  "remove_loop h fs dir newNames [] = (fs, None)"
| "remove_loop h fs dir newNames (b # bs) =
     (if b \<in> set newNames then remove_loop h fs dir newNames bs
      else case os_Remove h fs (dir, b) of
        (fs', e) \<Rightarrow>
          if e \<noteq> None \<and> e \<noteq> Some ENoent then (fs', Some (CmRemove b (the e)))
          else remove_loop h fs' dir newNames bs)"

text \<open>The names of the tables to remove, each once; the capacity of the slice of the remaining tables must not be negative.\<close>

definition replaceCompactedTables ::
    "host \<Rightarrow> (string list \<Rightarrow> string list) \<Rightarrow> fs \<Rightarrow> string \<Rightarrow> manifestStore \<Rightarrow> compactionPlan \<Rightarrow> TableMeta list \<Rightarrow> string \<Rightarrow> listing \<Rightarrow>
      (fs \<times> manifestStore \<times> compact_error option) option" where
  "replaceCompactedTables h map_order fs dir manifest plan outputMeta tempDir newEntries =
     (if hFault h (OpReadDir tempDir) \<noteq> None then Some (fs, manifest, Some (CmIO EIO))
      else
        let newNames = map fst (filter (\<lambda>e. \<not> snd e \<and> file_ext (fst e) = ''.sst'') newEntries) in
        case rename_loop h fs tempDir dir newNames of
          (fs1, Some e) \<Rightarrow> Some (fs1, manifest, Some (CmIO e))
        | (fs1, None) \<Rightarrow>
            let removeNames = remdups (map tmFilename (cloneTableMeta (sourceTables plan) @ targetTables plan)) in
            (case remove_loop h fs1 dir newNames (map_order removeNames) of
               (fs2, Some e) \<Rightarrow> Some (fs2, manifest, Some e)
             | (fs2, None) \<Rightarrow>
                 if int (length (msTables (mState manifest))) - int (length removeNames) + int (length outputMeta) < 0 then None
                 else
                   let kept = filter (\<lambda>t. tmFilename t \<notin> set removeNames) (manifest_Tables manifest);
                       updatedTables = orderTableMetaForManifest (kept @ outputMeta) in
                   (case ReplaceTables h fs2 manifest updatedTables of
                      (fs3, m', Some e) \<Rightarrow> Some (fs3, m', Some (CmIO e))
                    | (fs3, m', None) \<Rightarrow>
                        (case os_RemoveAll h fs3 tempDir of (fs4, e) \<Rightarrow> Some (fs4, m', map_option CmIO e)))))"

text \<open>
  The directory listings are those of the database directory when the manifest is opened and of the temporary directory
  after the merge. The deferred removal of the temporary directory happens on every error after its creation, and
  its own error is dropped; closing the tables does not touch their files.
\<close>

definition executeCompactionPlan ::
    "host \<Rightarrow> (string list \<Rightarrow> string list) \<Rightarrow> flush_fn \<Rightarrow> nat \<Rightarrow> (nat \<Rightarrow> nat) \<Rightarrow> (nat \<Rightarrow> nat \<Rightarrow> u32) \<Rightarrow> fs \<Rightarrow> string \<Rightarrow> string \<Rightarrow> listing \<Rightarrow> listing \<Rightarrow>
      compactionPlan option \<Rightarrow> (fs \<times> compact_error option) option" where
  "executeCompactionPlan h map_order flushFn now clock rand fs dir tempDir names newEntries plan =
     (case plan of
        None \<Rightarrow> Some (fs, None)
      | Some plan \<Rightarrow>
          if sourceTables plan = [] then Some (fs, None)
          else
            (case openManifest h now fs dir names of
               None \<Rightarrow> None
             | Some (fs1, Inl e) \<Rightarrow> Some (fs1, Some (CmManifest e))
             | Some (fs1, Inr manifest) \<Rightarrow>
                 (case openSSTablesFromMeta h fs1 dir (planInputTables plan) of
                    None \<Rightarrow> None
                  | Some (Inl e) \<Rightarrow> Some (fs1, Some (CmTable e))
                  | Some (Inr inputs) \<Rightarrow>
                      if hFault h (OpMkdirTemp dir) \<noteq> None then Some (fs1, Some (CmIO EIO))
                      else
                        (case compactTables flushFn clock rand (hStale h) fs1 tempDir inputs plan of
                           None \<Rightarrow> None
                         | Some (fs2, Inl e) \<Rightarrow> Some (fst (os_RemoveAll h fs2 tempDir), Some (CmTable e))
                         | Some (fs2, Inr outputs) \<Rightarrow>
                             let outputMeta = map (\<lambda>t. tableMetaFromSST now (Table_Metadata (Some t)) (targetLevel plan)) outputs in
                             (case replaceCompactedTables h map_order fs2 dir manifest plan outputMeta tempDir newEntries of
                                None \<Rightarrow> None
                              | Some (fs3, _, Some e) \<Rightarrow> Some (fst (os_RemoveAll h fs3 tempDir), Some e)
                              | Some (fs3, _, None) \<Rightarrow> Some (fs3, None))))))"

section \<open>The merge\<close>

text \<open>The reference: the value of the first run that has the key, and the sorted list with these values.\<close>

fun find_run :: "('k \<times> 'v) list list \<Rightarrow> 'k \<Rightarrow> 'v option" where
  "find_run [] k = None"
| "find_run (r # rs) k = (case map_of r k of Some v \<Rightarrow> Some v | None \<Rightarrow> find_run rs k)"

fun merge_runs :: "('k::linorder \<times> 'v) list list \<Rightarrow> ('k \<times> 'v) list" where
  "merge_runs [] = []"
| "merge_runs (r # rs) = foldr (\<lambda>(k, v). assoc_put k v) r (merge_runs rs)"

lemma foldr_assoc_put:
  "map_of (foldr (\<lambda>(k, v). assoc_put k v) r acc) x = (case map_of r x of Some v \<Rightarrow> Some v | None \<Rightarrow> map_of acc x)"
  "sorted_keys acc \<Longrightarrow> sorted_keys (foldr (\<lambda>(k, v). assoc_put k v) r acc)"
  by (induction r) (auto intro: sorted_assoc_put)

lemma merge_runs_lookup: "map_of (merge_runs rs) = find_run rs"
  by (induction rs) (auto simp: fun_eq_iff foldr_assoc_put(1) split: option.split)

lemma merge_runs_sorted: "sorted_keys (merge_runs rs)"
  by (induction rs) (auto intro: foldr_assoc_put(2))

lemma sorted_keys_ext: "sorted_keys a \<Longrightarrow> sorted_keys b \<Longrightarrow> map_of a = map_of b \<Longrightarrow> a = b"
proof (induction a arbitrary: b)
  case Nil
  then show ?case by (cases b) (auto simp: fun_eq_iff split: if_splits)
next
  case (Cons x xs)
  obtain y ys where b: "b = y # ys" using Cons.prems(3) by (cases b) (auto simp: fun_eq_iff split: if_splits)
  have lo: "fst x \<notin> fst ` set xs" "fst y \<notin> fst ` set ys" using Cons.prems(1,2) b by auto
  have "map_of b (fst x) = Some (snd x)" "map_of (x # xs) (fst y) = Some (snd y)" using Cons.prems(3) b by (metis map_of_Cons_code(2) surjective_pairing)+
  then have "fst x \<in> fst ` set b" "fst y \<in> fst ` set (x # xs)" by (metis domI dom_map_of_conv_image_fst)+
  then have "fst x = fst y" using Cons.prems(1,2) b by force
  moreover from this have "snd x = snd y" using Cons.prems(3) b by (metis map_of_Cons_code(2) option.inject prod.collapse)
  moreover have "map_of xs = map_of ys"
  proof
    fix k
    show "map_of xs k = map_of ys k"
    proof (cases "k = fst x")
      case True
      then show ?thesis using lo calculation by (simp add: map_of_eq_None_iff [THEN iffD2])
    next
      case False
      then show ?thesis using fun_cong [OF Cons.prems(3), of k] b calculation by (cases x, cases y) simp
    qed
  qed
  ultimately show ?case using Cons.IH [of ys] Cons.prems(1,2) b by (simp add: prod_eq_iff)
qed

text \<open>Removing the key from the front of a run that starts with it.\<close>

definition pop :: "'k \<Rightarrow> ('k \<times> 'v) list \<Rightarrow> ('k \<times> 'v) list" where
  "pop k r = (case r of [] \<Rightarrow> [] | e # es \<Rightarrow> if fst e = k then es else r)"

lemma pop_lookup: "x \<noteq> k \<Longrightarrow> map_of (pop k r) x = map_of r x"
  by (cases r) (auto simp: pop_def)

lemma find_run_pop: "x \<noteq> k \<Longrightarrow> find_run (map (pop k) rs) x = find_run rs x"
  by (induction rs) (simp_all add: pop_lookup split: option.split)

definition is_best :: "('k::linorder \<times> 'v) list list \<Rightarrow> nat \<Rightarrow> nat option \<Rightarrow> bool" where
  "is_best rem m b \<longleftrightarrow>
     (case b of
        None \<Rightarrow> \<forall>i < m. rem ! i = []
      | Some j \<Rightarrow> j < m \<and> rem ! j \<noteq> [] \<and>
          (\<forall>i < m. rem ! i \<noteq> [] \<longrightarrow> fst (hd (rem ! j)) < fst (hd (rem ! i)) \<or> fst (hd (rem ! j)) = fst (hd (rem ! i)) \<and> j \<le> i))"

lemma find_run_at:
  "j < length rs \<Longrightarrow> map_of (rs ! j) k = Some v \<Longrightarrow> (\<And>i. i < j \<Longrightarrow> map_of (rs ! i) k = None) \<Longrightarrow> find_run rs k = Some v"
proof (induction rs arbitrary: j)
  case (Cons r rs)
  show ?case
  proof (cases j)
    case (Suc j')
    have "map_of r k = None" using Cons.prems(3) [of 0] Suc by simp
    moreover have "map_of (rs ! i) k = None" if "i < j'" for i using Cons.prems(3) [of "Suc i"] Suc that by simp
    ultimately show ?thesis using Cons.IH [of j'] Cons.prems(1,2) Suc by simp
  qed (use Cons.prems in simp)
qed simp

lemma find_run_None: "(\<And>r. r \<in> set rs \<Longrightarrow> map_of r k = None) \<Longrightarrow> find_run rs k = None"
  by (induction rs) auto

lemma before_run: "sorted_keys r \<Longrightarrow> r \<noteq> [] \<Longrightarrow> k < fst (hd r) \<Longrightarrow> map_of r k = None"
  by (cases r) (force simp: map_of_eq_None_iff)+

lemma merge_head:
  assumes best: "is_best rem (length rem) (Some j)" and so: "\<And>r. r \<in> set rem \<Longrightarrow> sorted_keys r"
  shows "merge_runs rem = hd (rem ! j) # merge_runs (map (pop (fst (hd (rem ! j)))) rem)"
proof (rule sorted_keys_ext)
  let ?e = "hd (rem ! j)" and ?rest = "map (pop (fst (hd (rem ! j)))) rem"
  have j: "j < length rem" "rem ! j \<noteq> []" and least: "\<And>i. i < length rem \<Longrightarrow> rem ! i \<noteq> [] \<Longrightarrow>
      fst ?e < fst (hd (rem ! i)) \<or> fst ?e = fst (hd (rem ! i)) \<and> j \<le> i" using best by (auto simp: is_best_def)
  have above: "map_of r k = None" if rk: "r \<in> set ?rest" "k \<le> fst ?e" for r k
  proof -
    obtain r0 where "r0 \<in> set rem" and r: "r = pop (fst ?e) r0" using rk(1) by auto
    then obtain i where "i < length rem" "r0 = rem ! i" by (auto simp: in_set_conv_nth)
    then have i: "i < length rem" "r = pop (fst ?e) (rem ! i)" using r by simp_all
    show ?thesis
    proof (cases "rem ! i")
      case (Cons e es)
      have "sorted_keys (e # es)" using so [OF nth_mem [OF i(1)]] Cons by simp
      then have gt: "fst e < fst x" if "x \<in> set es" for x using that by auto
      have "fst ?e < fst x" if "x \<in> set r" for x
        using least [OF i(1)] i(2) Cons gt [of x] that by (auto simp: pop_def split: if_splits)
      then show ?thesis using rk(2) by (force simp: map_of_eq_None_iff)
    qed (use i(2) in \<open>simp add: pop_def\<close>)
  qed
  show "sorted_keys (?e # merge_runs ?rest)"
  proof -
    have "map_of (merge_runs ?rest) k = None" if "k \<le> fst ?e" for k
      unfolding merge_runs_lookup using above that by (intro find_run_None) auto
    then have "fst ?e < fst x" if "x \<in> set (merge_runs ?rest)" for x
      using that by (metis image_eqI map_of_eq_None_iff not_less)
    then show ?thesis using merge_runs_sorted [of ?rest] by auto
  qed
  show "map_of (merge_runs rem) = map_of (?e # merge_runs ?rest)"
  proof
    fix k
    show "map_of (merge_runs rem) k = map_of (?e # merge_runs ?rest) k"
    proof (cases "k = fst ?e")
      case True
      have "map_of (rem ! i) k = None" if "i < j" for i
        using before_run [of "rem ! i" k] so [of "rem ! i"] least [of i] j(1) that True by (cases "rem ! i = []") auto
      moreover have "map_of (rem ! j) k = Some (snd ?e)" using j(2) True by (cases "rem ! j") auto
      ultimately show ?thesis using find_run_at [OF j(1)] True by (simp add: merge_runs_lookup)
    next
      case False
      then show ?thesis by (cases ?e) (simp add: merge_runs_lookup find_run_pop)
    qed
  qed
qed (rule merge_runs_sorted)

text \<open>What an input still has to give: the entries of its table from the current one on.\<close>

definition in_rem :: "(bytes \<Rightarrow> u64 \<Rightarrow> u64) \<Rightarrow> compactionMergeInput \<Rightarrow> (bytes \<times> bytes) list \<Rightarrow> bool" where
  "in_rem xxh3 i q \<longleftrightarrow> (\<exists>r n. ti_at xxh3 (inTable i) r (inIter i) n \<and> q = drop n r \<and> sorted_keys r)"

lemma in_rem_read:
  assumes "in_rem xxh3 i q"
  shows "ti_Err (inIter i) = None" "in_Valid i = (q \<noteq> [])"
    "in_Key i = Some (if q = [] then None else Some (fst (hd q)))" "in_Value i = Some (if q = [] then None else Some (snd (hd q)))"
    "sorted_keys q"
    "q \<noteq> [] \<Longrightarrow> \<exists>t it. ti_Next stale (inTable i) (inIter i) = Some (t, it) \<and> in_rem xxh3 (i\<lparr>inTable := t, inIter := it\<rparr>) (tl q)"
proof -
  obtain r n where a: "ti_at xxh3 (inTable i) r (inIter i) n" and q: "q = drop n r" and so: "sorted_keys r"
    using assms by (auto simp: in_rem_def)
  note c = ti_cursor [OF a]
  have n: "q = [] \<longleftrightarrow> \<not> n < length r" "n < length r \<Longrightarrow> hd q = r ! n" using q by (auto simp: hd_drop_conv_nth)
  show "ti_Err (inIter i) = None" "in_Valid i = (q \<noteq> [])"
    "in_Key i = Some (if q = [] then None else Some (fst (hd q)))" "in_Value i = Some (if q = [] then None else Some (snd (hd q)))"
    using c(1-4) n by (auto simp: in_Valid_def in_Key_def in_Value_def)
  show "sorted_keys q" unfolding q drop_map [symmetric] using so by (rule sorted_wrt_drop)
  assume "q \<noteq> []"
  then have "n < length r" using n by blast
  moreover obtain t it where "ti_Next stale (inTable i) (inIter i) = Some (t, it)" "ti_at xxh3 t r it (cursor_next r n)" using c(5) by blast
  ultimately show "\<exists>t it. ti_Next stale (inTable i) (inIter i) = Some (t, it) \<and> in_rem xxh3 (i\<lparr>inTable := t, inIter := it\<rparr>) (tl q)"
    using so unfolding in_rem_def q by (auto simp: cursor_next_def drop_Suc tl_drop intro!: exI [of _ r] exI [of _ "Suc n"])
qed

lemma choose_loop_spec:
  assumes rem: "list_all2 (in_rem xxh3) ins rem" and pr: "map priority ins = [0..<length ins]"
  shows "is_best rem m b \<Longrightarrow> m \<le> length ins \<Longrightarrow> \<exists>b'. choose_loop ins m (drop m ins) b = Some (Inr b') \<and> is_best rem (length ins) b'"
proof (induction "length ins - m" arbitrary: m b)
  case (Suc d)
  have m: "m < length ins" using Suc.hyps(2) by simp
  have p: "priority (ins ! i) = i" if "i < length ins" for i using arg_cong [OF pr, of "\<lambda>l. l ! i"] that by simp
  have r: "in_rem xxh3 (ins ! i) (rem ! i)" if "i < length ins" for i using rem that by (rule list_all2_nthD)
  note rd = in_rem_read [OF r]
  have d: "drop m ins = ins ! m # drop (Suc m) ins" using m by (simp add: Cons_nth_drop_Suc)
  have step: "\<exists>b'. choose_loop ins (Suc m) (drop (Suc m) ins) c = Some (Inr b') \<and> is_best rem (length ins) b'" if "is_best rem (Suc m) c" for c
    using Suc.hyps(1) [of "Suc m" c] Suc.hyps(2) that m by simp
  show ?case
  proof (cases "rem ! m = []")
    case True
    then have "is_best rem (Suc m) b" using Suc.prems(1) by (auto simp: is_best_def less_Suc_eq split: option.splits)
    then show ?thesis using d rd(1,2) [OF m] True step [of b] by simp
  next
    case ne: False
    show ?thesis
    proof (cases b)
      case None
      then have "is_best rem (Suc m) (Some m)" using Suc.prems(1) ne by (auto simp: is_best_def less_Suc_eq)
      then show ?thesis using d rd(1,2) [OF m] ne None step [of "Some m"] by simp
    next
      case (Some j)
      then have j: "j < m" "rem ! j \<noteq> []" using Suc.prems(1) by (auto simp: is_best_def)
      have jl: "j < length ins" using j(1) m by simp
      let ?c = "if fst (hd (rem ! m)) < fst (hd (rem ! j)) then Some m else Some j"
      have "is_best rem (Suc m) ?c" using Suc.prems(1) ne Some j by (auto simp: is_best_def less_Suc_eq)
      moreover have "choose_loop ins m (drop m ins) b = choose_loop ins (Suc m) (drop (Suc m) ins) ?c"
        using d rd(1-3) [OF m] rd(3) [OF jl] ne j Some p [OF m] p [OF jl] by (simp add: Let_def)
      ultimately show ?thesis using step by simp
    qed
  qed
qed simp

lemma step_loop_spec:
  "list_all2 (in_rem xxh3) ins rem \<Longrightarrow>
    \<exists>ins'. step_loop stale k ins = Some (ins', None) \<and> list_all2 (in_rem xxh3) ins' (map (pop k) rem) \<and> map priority ins' = map priority ins"
proof (induction ins rem rule: list_all2_induct)
  case (Cons i ins q rem)
  obtain ins' where ins': "step_loop stale k ins = Some (ins', None)" "list_all2 (in_rem xxh3) ins' (map (pop k) rem)" "map priority ins' = map priority ins"
    using Cons.IH by blast
  note rd = in_rem_read [OF Cons(1)]
  show ?case
  proof (cases "q \<noteq> [] \<and> fst (hd q) = k")
    case True
    obtain t it where n: "ti_Next stale (inTable i) (inIter i) = Some (t, it)" "in_rem xxh3 (i\<lparr>inTable := t, inIter := it\<rparr>) (tl q)" using rd(6) True by blast
    have "ti_Err it = None" using in_rem_read(1) [OF n(2)] by simp
    moreover have "pop k q = tl q" using True by (cases q) (auto simp: pop_def)
    ultimately show ?thesis using n rd(2,3) ins' True by simp
  next
    case False
    then have "pop k q = q" by (cases q) (auto simp: pop_def)
    then show ?thesis using Cons(1) rd(2,3) ins' False by auto
  qed
qed simp

text \<open>The merge iterator stands on the first of the remaining merged entries.\<close>

definition mi_rep :: "(bytes \<Rightarrow> u64 \<Rightarrow> u64) \<Rightarrow> compactionMergeIterator \<Rightarrow> (bytes \<times> bytes) list \<Rightarrow> bool" where
  "mi_rep xxh3 it out \<longleftrightarrow> miErr it = None \<and> map priority (miInputs it) = [0..<length (miInputs it)] \<and>
     (\<exists>rem. list_all2 (in_rem xxh3) (miInputs it) rem \<and>
        (case out of [] \<Rightarrow> \<not> miValid it | e # es \<Rightarrow> miValid it \<and> miKey it = Some (fst e) \<and> miValue it = Some (snd e) \<and> es = merge_runs rem))"

lemma merge_advance_spec:
  assumes rem: "list_all2 (in_rem xxh3) (miInputs it) rem" and pr: "map priority (miInputs it) = [0..<length (miInputs it)]" and "miErr it = None"
  shows "\<exists>it'. merge_advance stale it = Some it' \<and> mi_rep xxh3 it' (merge_runs rem)"
proof -
  have len: "length (miInputs it) = length rem" using rem by (rule list_all2_lengthD)
  obtain b where b: "choose_loop (miInputs it) 0 (miInputs it) None = Some (Inr b)" "is_best rem (length rem) b"
    using choose_loop_spec [OF rem pr, of 0 None] len by (auto simp: is_best_def)
  show ?thesis
  proof (cases b)
    case None
    then have "find_run rem k = None" for k using b(2) by (intro find_run_None) (auto simp: is_best_def in_set_conv_nth)
    then have "merge_runs rem = []" using merge_runs_sorted [of rem] by (intro sorted_keys_ext) (auto simp: merge_runs_lookup)
    then show ?thesis using b(1) None assms by (simp add: merge_advance_def mi_rep_def) blast
  next
    case (Some j)
    then have j: "j < length rem" "rem ! j \<noteq> []" using b(2) by (auto simp: is_best_def)
    have so: "sorted_keys r" if "r \<in> set rem" for r using rem that in_rem_read(5) by (metis in_set_conv_nth list_all2_conv_all_nth)
    note h = merge_head [OF b(2) [unfolded Some] so]
    note rd = in_rem_read(3,4) [OF list_all2_nthD [OF rem, of j, unfolded len, OF j(1)]]
    obtain ins' where ins': "step_loop stale (fst (hd (rem ! j))) (miInputs it) = Some (ins', None)"
      "list_all2 (in_rem xxh3) ins' (map (pop (fst (hd (rem ! j)))) rem)" "map priority ins' = map priority (miInputs it)"
      using step_loop_spec [OF rem] by blast
    have "length ins' = length (miInputs it)" using arg_cong [OF ins'(3), of length] by simp
    then show ?thesis using b(1) Some rd j ins' h assms by (auto simp: merge_advance_def mi_rep_def)
  qed
qed

lemma open_inputs_spec:
  "list_all2 (table_holds xxh3) ts rs \<Longrightarrow>
    \<exists>ins. open_inputs stale m ts = Some ins \<and> list_all2 (in_rem xxh3) ins rs \<and> map priority ins = [m..<m + length ts]"
proof (induction ts rs arbitrary: m rule: list_all2_induct)
  case (Cons t ts r rs)
  obtain t' it where t': "ti_Rewind stale t ti_New = Some (t', it)" "ti_at xxh3 t' r it 0" using ti_start [OF Cons(1)] by blast
  have "sorted_keys r" using Cons(1) by (auto simp: table_holds_def table_rep_def)
  then have "in_rem xxh3 \<lparr>priority = m, inTable = t', inIter = it\<rparr> r" using t'(2) by (auto simp: in_rem_def intro!: exI [of _ "0 :: nat"])
  moreover obtain ins where "open_inputs stale (Suc m) ts = Some ins" "list_all2 (in_rem xxh3) ins rs" "map priority ins = [Suc m..<Suc m + length ts]"
    using Cons.IH by blast
  moreover have "[m..<m + length (t # ts)] = m # [Suc m..<Suc m + length ts]" by (simp add: upt_conv_Cons del: upt_Suc)
  ultimately show ?case using t'(1) by (simp del: upt_Suc)
qed simp

lemma newCompactionMergeIterator_spec:
  assumes "list_all2 (table_holds xxh3) ts rs"
  shows "\<exists>it. newCompactionMergeIterator stale ts = Some it \<and> mi_rep xxh3 it (merge_runs rs)"
proof -
  obtain ins where ins: "open_inputs stale 0 ts = Some ins" "list_all2 (in_rem xxh3) ins rs" "map priority ins = [0..<length ts]"
    using open_inputs_spec [OF assms, of stale 0] by auto
  have "length ins = length ts" using arg_cong [OF ins(3), of length] by simp
  then show ?thesis using merge_advance_spec [of xxh3 "\<lparr>miInputs = ins, miKey = None, miValue = None, miErr = None, miValid = False\<rparr>" rs stale] ins
    by (simp add: newCompactionMergeIterator_def)
qed

lemma mi_rep_read:
  assumes "mi_rep xxh3 it out"
  shows "mi_Valid it = (out \<noteq> [])" "mi_Err it = None"
    "out \<noteq> [] \<Longrightarrow> mi_Key it = Some (fst (hd out)) \<and> mi_Value it = Some (snd (hd out))"
    "out \<noteq> [] \<Longrightarrow> \<exists>it'. mi_Next stale it = Some it' \<and> mi_rep xxh3 it' (tl out)"
proof -
  show v: "mi_Valid it = (out \<noteq> [])" "mi_Err it = None" using assms by (cases out; auto simp: mi_rep_def mi_Valid_def mi_Err_def)+
  assume ne: "out \<noteq> []"
  then show "mi_Key it = Some (fst (hd out)) \<and> mi_Value it = Some (snd (hd out))"
    using v(1) assms by (cases out) (auto simp: mi_rep_def mi_Key_def mi_Value_def)
  obtain rem where "list_all2 (in_rem xxh3) (miInputs it) rem" "tl out = merge_runs rem" using assms ne by (cases out) (auto simp: mi_rep_def)
  then show "\<exists>it'. mi_Next stale it = Some it' \<and> mi_rep xxh3 it' (tl out)"
    using merge_advance_spec [of xxh3 it rem stale] v(1) ne assms by (auto simp: mi_Next_def mi_rep_def)
qed

text \<open>So the merge iterator is a cursor over the merged entries, like the iterators it is made of.\<close>

interpretation mi_cursor: cursor "\<lambda>it kvs n. n \<le> length kvs \<and> mi_rep xxh3 it (drop n kvs)" mi_Valid "\<lambda>it. Some (mi_Key it)"
  "\<lambda>it. Some (mi_Value it)" "mi_Next stale" for xxh3 stale
proof unfold_locales
  fix it kvs n
  assume a: "n \<le> length kvs \<and> mi_rep xxh3 it (drop n kvs)"
  note r = mi_rep_read [OF conjunct2 [OF a]]
  show "mi_Valid it = (n < length kvs)" using r(1) by (auto simp: not_le)
  show "n \<le> length kvs" using a by blast
  assume n: "n < length kvs"
  then show "Some (mi_Key it) = Some (Some (fst (kvs ! n)))" "Some (mi_Value it) = Some (Some (snd (kvs ! n)))"
    using r(3) by (simp_all add: hd_drop_conv_nth)
  show "\<exists>it'. mi_Next stale it = Some it' \<and> Suc n \<le> length kvs \<and> mi_rep xxh3 it' (drop (Suc n) kvs)"
    using r(4) [of stale] n by (auto simp: drop_Suc tl_drop)
qed

lemma merge_iterator_yields:
  assumes "list_all2 (table_holds xxh3) ts rs" "length (merge_runs rs) \<le> k"
  shows "\<exists>it it'. newCompactionMergeIterator stale ts = Some it \<and>
    drain mi_Valid (\<lambda>it. Some (mi_Key it)) (\<lambda>it. Some (mi_Value it)) (mi_Next stale) k it = Some (merge_runs rs, it') \<and> \<not> mi_Valid it'"
proof -
  obtain it where "newCompactionMergeIterator stale ts = Some it" "mi_rep xxh3 it (merge_runs rs)"
    using newCompactionMergeIterator_spec [OF assms(1)] by blast
  then show ?thesis using mi_cursor.drain_all [where kvs = "merge_runs rs" and n = 0 and st = it and k = k and stale = stale] assms(2) by auto
qed

section \<open>The merged tables\<close>

text \<open>The entries the merge keeps.\<close>

definition live :: "bool \<Rightarrow> (bytes \<times> bytes) list \<Rightarrow> (bytes \<times> bytes) list" where
  "live dropTomb kvs = filter (\<lambda>e. \<not> (dropTomb \<and> isTombstoneValue (snd e))) kvs"

definition payload :: "(bytes \<times> bytes) list \<Rightarrow> int" where
  "payload kvs = (\<Sum>e \<leftarrow> kvs. int (length (fst e) + length (snd e)))"

definition arena_cost :: "(bytes \<times> bytes) list \<Rightarrow> nat" where
  "arena_cost kvs = 104 + (\<Sum>e \<leftarrow> kvs. worst_cost (fst e) (snd e))"

lemma payload_simps [simp]: "payload [] = 0" "payload (e # es) = int (length (fst e) + length (snd e)) + payload es" "payload (xs @ ys) = payload xs + payload ys"
  by (simp_all add: payload_def)

text \<open>
  What the loop relies on: the device and the sizing of the filters are sane, the clock never repeats, and the arena is
  large enough for every run of entries that can be collected before a flush.
\<close>

definition compact_env :: "host \<Rightarrow> (nat \<Rightarrow> nat) \<Rightarrow> int \<Rightarrow> (bytes \<times> bytes) list \<Rightarrow> bool" where
  "compact_env h clock targetBytes kvs \<longleftrightarrow> good_device (hDev h) \<and> inj clock \<and> 0 < targetBytes \<and> memtableArenaSize targetBytes < 2 ^ 32 \<and>
     (\<forall>n \<le> length kvs. sizing_ok (hBits h) (hHashes h) n) \<and>
     (\<forall>xs ys e zs. kvs = xs @ ys @ e # zs \<and> payload ys < targetBytes \<longrightarrow> int (arena_cost (ys @ [e])) \<le> memtableArenaSize targetBytes)"

definition compact_ok :: "host \<Rightarrow> (nat \<Rightarrow> nat) \<Rightarrow> int \<Rightarrow> (bytes \<times> bytes) list \<Rightarrow> bool" where
  "compact_ok h clock targetBytes kvs \<longleftrightarrow> compact_env h clock targetBytes kvs \<and> sorted_keys kvs \<and> (\<forall>e \<in> set kvs. fits e)"

lemma compact_okD:
  assumes "compact_ok h clock targetBytes kvs"
  shows "good_device (hDev h)" "inj clock" "0 < targetBytes" "memtableArenaSize targetBytes < 2 ^ 32" "sorted_keys kvs"
    "e \<in> set kvs \<Longrightarrow> fits e" "n \<le> length kvs \<Longrightarrow> sizing_ok (hBits h) (hHashes h) n"
    "kvs = xs @ ys @ e # zs \<Longrightarrow> payload ys < targetBytes \<Longrightarrow> int (arena_cost (ys @ [e])) \<le> memtableArenaSize targetBytes"
  using assms unfolding compact_ok_def compact_env_def by blast+

lemma arena_cost_append: "arena_cost (xs @ [e]) = arena_cost xs + worst_cost (fst e) (snd e)"
  by (simp add: arena_cost_def)

lemma arena_cost_enc: "(\<Sum>e \<leftarrow> kvs. length (enc_entry e)) \<le> arena_cost kvs"
proof -
  have "length (enc_entry e) \<le> worst_cost (fst e) (snd e)" for e by (simp add: worst_cost_def enc_entry_def node_cost_def)
  then have "(\<Sum>e \<leftarrow> kvs. length (enc_entry e)) \<le> (\<Sum>e \<leftarrow> kvs. worst_cost (fst e) (snd e))" by (intro sum_list_mono) auto
  then show ?thesis by (simp add: arena_cost_def)
qed

lemma sstableID_inj: "sstableID a = sstableID b \<Longrightarrow> a = b"
proof -
  assume "sstableID a = sstableID b"
  then have "dec_digits a = dec_digits b" by (simp add: sstableID_def)
  then show "a = b" using parse_dec_digits by (metis option.inject)
qed

lemma new_builder:
  assumes "memtableArenaSize targetBytes < 2 ^ 32"
  shows "\<exists>b. New (nat (memtableArenaSize targetBytes)) = Some b \<and> sl_rel b [] \<and> 0 < slRef b \<and>
    sl_cap b = nat (memtableArenaSize targetBytes) \<and> sl_used b = 104"
proof -
  have "104 \<le> memtableArenaSize targetBytes" by (simp add: memtableArenaSize_def minMemtableArenaSize_def Let_def)
  then have "104 \<le> nat (memtableArenaSize targetBytes)" "nat (memtableArenaSize targetBytes) < 2 ^ 32" using assms by (simp_all add: nat_less_iff)
  from New_refines [OF this] obtain b where "New (nat (memtableArenaSize targetBytes)) = Some b" "sl_rel b []" "sl_cap b = nat (memtableArenaSize targetBytes)" "sl_used b = 104"
    by blast
  then show ?thesis using New_slRef by fastforce
qed

text \<open>The builder holds \<open>cur\<close>; the tables \<open>outs\<close> have been written with the runs \<open>css\<close>.\<close>

definition builder_holds :: "int \<Rightarrow> compactState \<Rightarrow> (bytes \<times> bytes) list \<Rightarrow> bool" where
  "builder_holds targetBytes st cur \<longleftrightarrow> sl_rel (cbBuilder st) cur \<and> 0 < slRef (cbBuilder st) \<and>
     sl_cap (cbBuilder st) = nat (memtableArenaSize targetBytes) \<and> sl_used (cbBuilder st) \<le> arena_cost cur \<and> cbBytes st = payload cur"

definition outputs_hold :: "host \<Rightarrow> (nat \<Rightarrow> nat) \<Rightarrow> string \<Rightarrow> fs \<Rightarrow> fs \<Rightarrow> Table list \<Rightarrow> (bytes \<times> bytes) list list \<Rightarrow> bool" where
  "outputs_hold h clock tempDir fs0 fs outs css \<longleftrightarrow> list_all2 (table_holds (hXxh3 h)) outs css \<and> [] \<notin> set css \<and>
     map tPath outs = map (\<lambda>i. (tempDir, sstableID (clock i))) [0..<length outs] \<and>
     (\<forall>t \<in> set outs. fs (tPath t) = Some (fData (tF t))) \<and> (\<forall>p. p \<notin> tPath ` set outs \<longrightarrow> fs p = fs0 p)"

lemma outputs_hold_snoc:
  assumes "outputs_hold h clock tempDir fs0 fs outs css" "table_holds (hXxh3 h) t cur" "cur \<noteq> []" "inj clock"
    "tPath t = (tempDir, sstableID (clock (length outs)))"
  shows "outputs_hold h clock tempDir fs0 (fs(tPath t \<mapsto> fData (tF t))) (outs @ [t]) (css @ [cur])"
proof -
  have fresh: "tPath u \<noteq> tPath t" if "u \<in> set outs" for u
  proof -
    have "tPath u \<in> set (map tPath outs)" using that by simp
    then obtain i where "i < length outs" "tPath u = (tempDir, sstableID (clock i))"
      using assms(1) unfolding outputs_hold_def by (metis (no_types, lifting) atLeast_upt imageE lessThan_iff set_map)
    then show ?thesis using assms(4,5) by (auto dest!: sstableID_inj dest: injD)
  qed
  have "list_all2 (table_holds (hXxh3 h)) (outs @ [t]) (css @ [cur])" using assms(1,2) by (auto simp: outputs_hold_def intro: list_all2_appendI)
  moreover have "map tPath (outs @ [t]) = map (\<lambda>i. (tempDir, sstableID (clock i))) [0..<length (outs @ [t])]" using assms(1,5) by (simp add: outputs_hold_def)
  ultimately show ?thesis using assms(1,3) fresh by (auto simp: outputs_hold_def)
qed

lemma flushBuilder_spec:
  assumes ok: "compact_ok h clock targetBytes kvs" and b: "builder_holds targetBytes st cur"
    and o: "outputs_hold h clock tempDir fs0 (cbFs st) (cbOutputs st) css" "cbFlushes st = length (cbOutputs st)"
    and K: "kvs = concat css @ cur @ rest" and fit: "int (arena_cost cur) \<le> memtableArenaSize targetBytes"
  shows "\<exists>st'. flushBuilder (sst_Flush h) clock tempDir targetBytes st = Some (st', None) \<and> builder_holds targetBytes st' [] \<and>
    outputs_hold h clock tempDir fs0 (cbFs st') (cbOutputs st') (if cur = [] then css else css @ [cur]) \<and> cbFlushes st' = length (cbOutputs st')"
proof (cases "cur = []")
  case True
  then show ?thesis using assms Empty_refines [of "cbBuilder st" cur] by (simp add: flushBuilder_def builder_holds_def)
next
  case False
  note k = compact_okD [OF ok] and bh = b [unfolded builder_holds_def]
  have "int (\<Sum>e \<leftarrow> cur. length (enc_entry e)) < 2 ^ 32" using arena_cost_enc [of cur] fit k(4) by linarith
  then have "(\<Sum>e \<leftarrow> cur. length (enc_entry e)) < 2 ^ 60" by simp
  moreover have "fits e" if "e \<in> set cur" for e using k(6) that K by simp
  ultimately have fl: "flushable cur" by (simp add: flushable_def)
  have sz: "sizing_ok (hBits h) (hHashes h) (length cur)" using k(7) K by simp
  obtain t where t: "sst_Flush h (clock (cbFlushes st)) (cbFs st) tempDir (cbBuilder st) =
      Some ((cbFs st)((tempDir, sstableID (clock (cbFlushes st))) \<mapsto> fData (tF t)), cbBuilder st, Inr t)"
    "table_holds (hXxh3 h) t cur" "tPath t = (tempDir, sstableID (clock (cbFlushes st)))"
    using Flush_spec [OF _ _ fl sz k(1), of "cbBuilder st" "hXxh3 h" "hStale h" "clock (cbFlushes st)" "cbFs st" tempDir] bh unfolding sst_Flush_def by blast
  obtain nb where nb: "New (nat (memtableArenaSize targetBytes)) = Some nb" "sl_rel nb []" "0 < slRef nb"
    "sl_cap nb = nat (memtableArenaSize targetBytes)" "sl_used nb = 104" using new_builder [OF k(4)] by blast
  have "Empty (cbBuilder st) = Some False" using Empty_refines [of "cbBuilder st" cur] bh False by simp
  then show ?thesis using t(1) nb False outputs_hold_snoc [OF o(1) t(2) False k(2) t(3) [unfolded o(2)]] o(2) t(3)
    by (simp add: flushBuilder_def Let_def builder_holds_def arena_cost_def)
qed

text \<open>The state of the loop: what has been written and what is collected, of the entries \<open>kvs\<close> to write.\<close>

definition loop_inv :: "host \<Rightarrow> (nat \<Rightarrow> nat) \<Rightarrow> string \<Rightarrow> fs \<Rightarrow> int \<Rightarrow> compactState \<Rightarrow> (bytes \<times> bytes) list \<Rightarrow> bool" where
  "loop_inv h clock tempDir fs0 targetBytes st written \<longleftrightarrow>
     (\<exists>css cur. written = concat css @ cur \<and> builder_holds targetBytes st cur \<and> payload cur < targetBytes \<and>
        outputs_hold h clock tempDir fs0 (cbFs st) (cbOutputs st) css \<and> cbFlushes st = length (cbOutputs st))"

lemma fits_key: "fits e \<Longrightarrow> length (fst e) < 2 ^ 16"
  using fits_entry_ok by (simp add: entry_ok_def)

lemma sorted_append_put: "sorted_keys (xs @ [(k, v)]) \<Longrightarrow> assoc_put k v xs = xs @ [(k, v)]"
  using assoc_put_split(1) [of xs k "[]" v] by (auto simp: sorted_wrt_append)

lemma compact_entry_spec:
  assumes ok: "compact_ok h clock targetBytes kvs" and inv: "loop_inv h clock tempDir fs0 targetBytes st written"
    and K: "kvs = written @ live d [(key, v)] @ rest"
  shows "\<exists>st'. compact_entry (sst_Flush h) clock rand tempDir targetBytes d key v st = Some (st', None) \<and>
    loop_inv h clock tempDir fs0 targetBytes st' (written @ live d [(key, v)])"
proof (cases "d \<and> isTombstoneValue v")
  case True
  then show ?thesis using inv by (simp add: compact_entry_def live_def)
next
  case False
  note k = compact_okD [OF ok]
  obtain css cur where w: "written = concat css @ cur" and b: "builder_holds targetBytes st cur" and p: "payload cur < targetBytes"
    and o: "outputs_hold h clock tempDir fs0 (cbFs st) (cbOutputs st) css" "cbFlushes st = length (cbOutputs st)"
    using inv by (auto simp: loop_inv_def)
  have lv: "live d [(key, v)] = [(key, v)]" using False by (auto simp: live_def)
  have K': "kvs = concat css @ cur @ (key, v) # rest" using K w lv by simp
  have room: "int (arena_cost (cur @ [(key, v)])) \<le> memtableArenaSize targetBytes" using k(8) [OF K' p] .
  note bh = b [unfolded builder_holds_def]
  have "sl_used (cbBuilder st) + worst_cost key v \<le> sl_cap (cbBuilder st)"
    using bh room arena_cost_append [of cur "(key, v)"] by simp linarith
  moreover have "length key < 2 ^ 16" using fits_key [OF k(6), of "(key, v)"] K' by simp
  ultimately obtain nb where nb: "Put (rand (cbPuts st)) (cbBuilder st) key v = Some nb" "sl_rel nb (assoc_put key v cur)"
    "sl_cap nb = sl_cap (cbBuilder st)" "sl_used nb \<le> sl_used (cbBuilder st) + worst_cost key v"
    using skl.put_rel [of "cbBuilder st" cur key v "rand (cbPuts st)"] bh by blast
  have "sorted_keys (cur @ [(key, v)])" using k(5) K' by (simp add: sorted_wrt_append)
  then have ap: "assoc_put key v cur = cur @ [(key, v)]" by (rule sorted_append_put)
  define st1 where "st1 = st\<lparr>cbBuilder := nb, cbBytes := cbBytes st + int (length key + length v), cbPuts := Suc (cbPuts st)\<rparr>"
  have b1: "builder_holds targetBytes st1 (cur @ [(key, v)])"
    using nb ap bh Put_slRef [OF nb(1)] by (simp add: st1_def builder_holds_def arena_cost_append)
  have o1: "outputs_hold h clock tempDir fs0 (cbFs st1) (cbOutputs st1) css" "cbFlushes st1 = length (cbOutputs st1)" using o by (simp_all add: st1_def)
  have run: "compact_entry (sst_Flush h) clock rand tempDir targetBytes d key v st =
      (if cbBytes st1 \<ge> targetBytes then flushBuilder (sst_Flush h) clock tempDir targetBytes st1 else Some (st1, None))"
    using False nb(1) by (auto simp: compact_entry_def st1_def Let_def)
  show ?thesis
  proof (cases "cbBytes st1 \<ge> targetBytes")
    case True
    have "kvs = concat css @ (cur @ [(key, v)]) @ rest" using K' by simp
    from flushBuilder_spec [OF ok b1 o1 this room] obtain st' where
      "flushBuilder (sst_Flush h) clock tempDir targetBytes st1 = Some (st', None)" "builder_holds targetBytes st' []"
      "outputs_hold h clock tempDir fs0 (cbFs st') (cbOutputs st') (css @ [cur @ [(key, v)]])" "cbFlushes st' = length (cbOutputs st')" by auto
    then show ?thesis using True run k(3) w lv unfolding loop_inv_def
      by (intro exI [of _ st'] conjI exI [of _ "css @ [cur @ [(key, v)]]"] exI [of _ "[]"]) simp_all
  next
    case False
    have "payload (cur @ [(key, v)]) < targetBytes" using False b1 by (simp add: builder_holds_def)
    then show ?thesis using False run b1 o1 w lv unfolding loop_inv_def
      by (intro exI [of _ st1] conjI exI [of _ css] exI [of _ "cur @ [(key, v)]"]) simp_all
  qed
qed

lemma live_Cons: "live d (e # es) = live d [e] @ live d es"
  by (simp add: live_def)

lemma compact_loop_spec:
  assumes ok: "compact_ok h clock targetBytes kvs"
  shows "mi_rep xxh3 it out \<Longrightarrow> loop_inv h clock tempDir fs0 targetBytes st written \<Longrightarrow> kvs = written @ live d out \<Longrightarrow>
    \<exists>it' st'. compact_loop (sst_Flush h) clock rand stale tempDir targetBytes d it st = Some (it', st', None) \<and> mi_rep xxh3 it' [] \<and>
      loop_inv h clock tempDir fs0 targetBytes st' kvs"
proof (induction out arbitrary: it st written)
  case Nil
  then show ?case using mi_rep_read(1) [OF Nil(1)] by (subst compact_loop.simps) (simp add: live_def)
next
  case (Cons e out)
  note r = mi_rep_read [OF Cons.prems(1)]
  have "kvs = written @ live d [(fst e, snd e)] @ live d out" using Cons.prems(3) live_Cons [of d e out] by simp
  from compact_entry_spec [OF ok Cons.prems(2) this] obtain st' where st':
    "compact_entry (sst_Flush h) clock rand tempDir targetBytes d (fst e) (snd e) st = Some (st', None)"
    "loop_inv h clock tempDir fs0 targetBytes st' (written @ live d [(fst e, snd e)])" by blast
  obtain it' where it': "mi_Next stale it = Some it'" "mi_rep xxh3 it' out" using r(4) by auto
  have "kvs = (written @ live d [(fst e, snd e)]) @ live d out" using Cons.prems(3) live_Cons [of d e out] by simp
  from Cons.IH [OF it'(2) st'(2) this] show ?case
    using r(1,3) st'(1) it'(1) by (subst compact_loop.simps) simp
qed

lemma table_entries_fit:
  assumes "table_holds xxh3 t kvs" "e \<in> set kvs"
  shows "fits e"
proof -
  obtain ess where "concat ess = kvs" "list_all block_ok ess" using assms(1) by (auto simp: table_holds_def table_rep_def)
  then obtain es where es: "e \<in> set es" "block_ok es" using assms(2) by (auto simp: list_all_iff)
  then obtain xs ys where "es = xs @ e # ys" by (meson split_list)
  then have "length (enc_entry e) \<le> length (enc_block es)" by (simp add: enc_block_def)
  then show ?thesis using es(2) by (simp add: fits_def block_ok_def enc_entry_def sst_consts)
qed

lemma set_merge_runs: "e \<in> set (merge_runs rs) \<Longrightarrow> \<exists>r \<in> set rs. e \<in> set r"
proof -
  assume "e \<in> set (merge_runs rs)"
  then have "find_run rs (fst e) = Some (snd e)"
    using merge_runs_sorted [of rs] by (simp flip: merge_runs_lookup add: sorted_keys_distinct)
  then show "\<exists>r \<in> set rs. e \<in> set r" by (induction rs) (auto split: option.splits dest!: map_of_SomeD)
qed

lemma sorted_live: "sorted_keys kvs \<Longrightarrow> sorted_keys (live d kvs)"
  unfolding live_def by (induction kvs) auto

definition target_bytes :: "compactionPlan \<Rightarrow> int" where
  "target_bytes plan = (if targetOutputBytes plan \<le> 0 then defaultMemtableMaxBytes else targetOutputBytes plan)"

lemma compactTables_spec:
  assumes t: "list_all2 (table_holds (hXxh3 h)) tables rs"
    and env: "compact_env h clock (target_bytes plan) (live (dropTombstones plan) (merge_runs rs))"
  shows "\<exists>fs' outs css. compactTables (sst_Flush h) clock rand (hStale h) fs tempDir tables plan = Some (fs', Inr outs) \<and>
    concat css = live (dropTombstones plan) (merge_runs rs) \<and> outputs_hold h clock tempDir fs fs' outs css"
proof -
  let ?tb = "target_bytes plan" and ?d = "dropTombstones plan" and ?K = "live (dropTombstones plan) (merge_runs rs)"
  have "fits e" if e: "e \<in> set ?K" for e
  proof -
    obtain r where r: "r \<in> set rs" "e \<in> set r" using set_merge_runs [of e rs] e by (auto simp: live_def)
    then obtain u where "table_holds (hXxh3 h) u r" using t by (metis in_set_conv_nth list_all2_conv_all_nth)
    then show ?thesis using r(2) by (rule table_entries_fit)
  qed
  then have ok: "compact_ok h clock ?tb ?K" using env sorted_live [OF merge_runs_sorted] by (simp add: compact_ok_def)
  note k = compact_okD [OF ok]
  obtain b where b: "New (nat (memtableArenaSize ?tb)) = Some b" "sl_rel b []" "0 < slRef b"
    "sl_cap b = nat (memtableArenaSize ?tb)" "sl_used b = 104" using new_builder [OF k(4)] by blast
  obtain it where it: "newCompactionMergeIterator (hStale h) tables = Some it" "mi_rep (hXxh3 h) it (merge_runs rs)"
    using newCompactionMergeIterator_spec [OF t] by blast
  let ?st = "\<lparr>cbBuilder = b, cbBytes = 0, cbOutputs = [], cbFs = fs, cbFlushes = 0, cbPuts = 0\<rparr>"
  have "loop_inv h clock tempDir fs ?tb ?st []"
    unfolding loop_inv_def using b k(3) by (intro exI [of _ "[]"]) (simp add: builder_holds_def outputs_hold_def arena_cost_def)
  from compact_loop_spec [OF ok it(2) this, of ?d rand "hStale h"] obtain it' st' where
    l: "compact_loop (sst_Flush h) clock rand (hStale h) tempDir ?tb ?d it ?st = Some (it', st', None)" "mi_rep (hXxh3 h) it' []"
    "loop_inv h clock tempDir fs ?tb st' ?K" by auto
  obtain css cur where w: "?K = concat css @ cur" and bh: "builder_holds ?tb st' cur" and p: "payload cur < ?tb"
    and o: "outputs_hold h clock tempDir fs (cbFs st') (cbOutputs st') css" "cbFlushes st' = length (cbOutputs st')"
    using l(3) by (auto simp: loop_inv_def)
  have "int (arena_cost cur) \<le> memtableArenaSize ?tb"
  proof (cases cur rule: rev_exhaust)
    case Nil
    then show ?thesis by (simp add: arena_cost_def memtableArenaSize_def minMemtableArenaSize_def Let_def)
  next
    case (snoc ys e)
    then show ?thesis using k(8) [of "concat css" ys e "[]"] w p by simp
  qed
  from flushBuilder_spec [OF ok bh o _ this, of "[]"] w obtain st2 where f:
    "flushBuilder (sst_Flush h) clock tempDir ?tb st' = Some (st2, None)"
    "outputs_hold h clock tempDir fs (cbFs st2) (cbOutputs st2) (if cur = [] then css else css @ [cur])" by auto
  have "compactTables (sst_Flush h) clock rand (hStale h) fs tempDir tables plan = Some (cbFs st2, Inr (cbOutputs st2))"
    using b(1) it(1) l(1) mi_rep_read(2) [OF l(2)] f(1) by (simp add: compactTables_def target_bytes_def Let_def)
  then show ?thesis using f(2) w by (intro exI [of _ "cbFs st2"] exI [of _ "cbOutputs st2"] exI [of _ "if cur = [] then css else css @ [cur]"]) simp
qed

section \<open>Properties of the merge\<close>

text \<open>
  C10: Compacting tables writes their merge. For readable tables whose entries, as merged, do not overflow the arena of the
  builder, on a device without faults and with a clock that does not repeat, \<open>compactTables\<close> ends without a panic or an
  error. The tables it returns hold, one after the other and in key order, for every key the value of the first input
  that has it, less the tombstones if the plan drops them; none of them is empty; each is on disk in the temporary
  directory under its own name, and no other file changes.
\<close>
theorem compactTables_writes_merge:
  assumes "list_all2 (table_holds (hXxh3 h)) tables rs"
    and "compact_env h clock (target_bytes plan) (live (dropTombstones plan) (merge_runs rs))"
  shows "\<exists>fs' outs css. compactTables (sst_Flush h) clock rand (hStale h) fs tempDir tables plan = Some (fs', Inr outs) \<and>
    concat css = live (dropTombstones plan) (merge_runs rs) \<and> sorted_keys (concat css) \<and> map_of (merge_runs rs) = find_run rs \<and>
    list_all2 (table_holds (hXxh3 h)) outs css \<and> [] \<notin> set css \<and> distinct (map tPath outs) \<and>
    (\<forall>t \<in> set outs. fst (tPath t) = tempDir \<and> fs' (tPath t) = Some (fData (tF t))) \<and> (\<forall>p. p \<notin> tPath ` set outs \<longrightarrow> fs' p = fs p)"
proof -
  obtain fs' outs css where c: "compactTables (sst_Flush h) clock rand (hStale h) fs tempDir tables plan = Some (fs', Inr outs)"
    "concat css = live (dropTombstones plan) (merge_runs rs)" and o: "outputs_hold h clock tempDir fs fs' outs css"
    using compactTables_spec [OF assms] by blast
  have p: "map tPath outs = map (\<lambda>i. (tempDir, sstableID (clock i))) [0..<length outs]" using o by (simp add: outputs_hold_def)
  have "inj clock" using assms(2) by (simp add: compact_env_def)
  then have "distinct (map tPath outs)" unfolding p by (auto simp: distinct_map inj_on_def dest!: sstableID_inj dest: injD)
  moreover have "fst (tPath t) = tempDir" if "t \<in> set outs" for t
  proof -
    have "tPath t \<in> set (map tPath outs)" using that by simp
    then show ?thesis unfolding p by auto
  qed
  moreover have "sorted_keys (concat css)" unfolding c(2) by (rule sorted_live [OF merge_runs_sorted])
  ultimately show ?thesis using c o merge_runs_lookup [of rs] unfolding outputs_hold_def by blast
qed

definition small_plan :: compactionPlan where
  "small_plan = \<lparr>sourceLevel = 0, targetLevel = 1, sourceTables = [], targetTables = [], targetOutputBytes = 0, dropTombstones = True\<rparr>"

lemma small_env:
  assumes "length kvs \<le> 2" "\<forall>e \<in> set kvs. length (fst e) + length (snd e) \<le> 4"
  shows "compact_env (calm_host []) (\<lambda>n. n) (target_bytes small_plan) kvs"
proof -
  have c: "(\<Sum>e \<leftarrow> xs. worst_cost (fst e) (snd e)) \<le> 107 * length xs" if "\<forall>e \<in> set xs. length (fst e) + length (snd e) \<le> 4" for xs
    using that by (induction xs) (auto simp: worst_cost_def node_cost_def maxHeight_def)
  have "int (arena_cost (ys @ [e])) \<le> memtableArenaSize (target_bytes small_plan)" if "kvs = xs @ ys @ e # zs" for xs ys e zs
    using c [of "ys @ [e]"] assms that
    by (simp add: arena_cost_def small_plan_def target_bytes_def memtableArenaSize_def minMemtableArenaSize_def defaultMemtableMaxBytes_def Let_def)
  then show ?thesis using witness_sizing
    by (simp add: compact_env_def calm_host_def small_plan_def target_bytes_def memtableArenaSize_def minMemtableArenaSize_def defaultMemtableMaxBytes_def)
qed

lemma compactTables_writes_merge_witness:
  "\<exists>t u fs' outs css. table_holds (\<lambda>b s. 0) t [([7], [9])] \<and> table_holds (\<lambda>b s. 0) u [([5], [2, 3]), ([7], [])] \<and>
    compactTables (sst_Flush (calm_host [])) (\<lambda>n. n) (\<lambda>_ _. 0) [] (\<lambda>_. None) ''tmp'' [t, u] small_plan = Some (fs', Inr outs) \<and>
    concat css = [([5], [2, 3]), ([7], [9])] \<and> list_all2 (table_holds (\<lambda>b s. 0)) outs css"
proof -
  let ?rs = "[[([7 :: byte], [9 :: byte])], [([5], [2, 3]), ([7], [])]]"
  obtain t u where tu: "table_holds (\<lambda>b s. 0) t [([7], [9])]" "table_holds (\<lambda>b s. 0) u [([5], [2, 3]), ([7], [])]"
    using witness_older witness_table by blast
  have k: "live (dropTombstones small_plan) (merge_runs ?rs) = [([5], [2, 3]), ([7], [9])]"
    by (simp add: live_def isTombstoneValue_def tombstoneValue_def)
  have t: "list_all2 (table_holds (hXxh3 (calm_host []))) [t, u] ?rs" using tu by (simp add: calm_host_def)
  have "compact_env (calm_host []) (\<lambda>n. n) (target_bytes small_plan) (live (dropTombstones small_plan) (merge_runs ?rs))"
    unfolding k by (rule small_env) auto
  from compactTables_writes_merge [OF t this, of "\<lambda>_ _. 0" "\<lambda>_. None" "''tmp''"] obtain fs' outs css where
    "compactTables (sst_Flush (calm_host [])) (\<lambda>n. n) (\<lambda>_ _. 0) (hStale (calm_host [])) (\<lambda>_. None) ''tmp'' [t, u] small_plan = Some (fs', Inr outs)"
    "concat css = [([5], [2, 3]), ([7], [9])]" "list_all2 (table_holds (hXxh3 (calm_host []))) outs css" unfolding k by blast
  moreover have "hStale (calm_host []) = []" "hXxh3 (calm_host []) = (\<lambda>b s. 0)" by (simp_all add: calm_host_def)
  ultimately show ?thesis using tu by metis
qed

end
