(* ===== verification/Compaction_Contents.thy ===== *)
theory Compaction_Contents
  imports Compaction
begin

text \<open>
  What a compaction does to the contents of the database. \<open>contents\<close> is the list of the runs in the order a lookup
  goes through them, for the tables of a manifest; \<open>visible\<close> is the stored value a lookup ends with, none for a
  tombstone. The main result says that replacing the tables of a plan by their merge changes no visible value and
  keeps level 1 sorted and disjoint; the second part follows the files, up to a failure in the middle of the replacement.
\<close>

section \<open>Runs without empty values\<close>

definition visible :: "(bytes \<times> bytes) list list \<Rightarrow> bytes \<Rightarrow> bytes option" where
  "visible rs key = (case first_hit rs key of None \<Rightarrow> None | Some v \<Rightarrow> if isTombstoneValue v then None else Some v)"

definition level_of :: "int \<Rightarrow> TableMeta list \<Rightarrow> TableMeta list" where
  "level_of l tables = sortTableMetaForLevel l (filter (\<lambda>t. tmLevel t = l) tables)"

definition contents :: "(TableMeta \<Rightarrow> (bytes \<times> bytes) list) \<Rightarrow> TableMeta list \<Rightarrow> (bytes \<times> bytes) list list" where
  "contents run_of tables = map run_of (level_of 0 tables) @ map run_of (level_of 1 tables)"

lemma find_run_append: "find_run (rs @ ss) k = (case find_run rs k of Some v \<Rightarrow> Some v | None \<Rightarrow> find_run ss k)"
  by (induction rs) (auto split: option.split)

lemma find_run_filter: "(\<And>x. x \<in> set xs \<Longrightarrow> \<not> Q x \<Longrightarrow> map_of (f x) k = None) \<Longrightarrow> find_run (map f (filter Q xs)) k = find_run (map f xs) k"
  by (induction xs) (auto split: option.split)

lemma find_run_Some: "find_run rs k = Some v \<Longrightarrow> \<exists>r \<in> set rs. map_of r k = Some v"
  by (induction rs) (auto split: option.splits)

lemma find_run_NoneD: "find_run rs k = None \<Longrightarrow> r \<in> set rs \<Longrightarrow> map_of r k = None"
  by (induction rs) (auto split: option.splits)

lemma find_run_unique:
  assumes "r \<in> set rs" "map_of r k = Some v" "\<And>q w. q \<in> set rs \<Longrightarrow> map_of q k = Some w \<Longrightarrow> w = v"
  shows "find_run rs k = Some v"
proof (cases "find_run rs k")
  case None
  then show ?thesis using find_run_NoneD assms(1,2) by fastforce
next
  case (Some w)
  then show ?thesis using find_run_Some [OF Some] assms(3) by blast
qed

lemma first_hit_find_run: "(\<And>r k v. r \<in> set rs \<Longrightarrow> map_of r k = Some v \<Longrightarrow> v \<noteq> []) \<Longrightarrow> first_hit rs key = find_run rs key"
proof (induction rs)
  case (Cons r rs)
  then show ?case by (cases "map_of r key") (auto simp: append_nil_def)
qed simp

section \<open>Ordering the tables of level 1\<close>

definition separate :: "TableMeta \<Rightarrow> TableMeta \<Rightarrow> bool" where
  "separate a b \<longleftrightarrow> tmLargest a < tmSmallest b \<or> tmLargest b < tmSmallest a"

lemma sorted_wrt_perm:
  assumes "\<And>a b. R a b \<Longrightarrow> R b a"
  shows "sorted_wrt R xs \<Longrightarrow> mset xs = mset ys \<Longrightarrow> sorted_wrt R ys"
proof (induction ys arbitrary: xs)
  case (Cons y ys)
  have "y \<in> set xs" using Cons.prems(2) by (metis list.set_intros(1) set_mset_mset)
  then obtain as bs where xs: "xs = as @ y # bs" by (meson split_list)
  then have m: "mset (as @ bs) = mset ys" using Cons.prems(2) by simp
  have "sorted_wrt R (as @ bs)" using Cons.prems(1) xs by (auto simp: sorted_wrt_append)
  moreover have "R y z" if "z \<in> set ys" for z
  proof -
    have "z \<in> set (as @ bs)" using that m by (metis set_mset_mset)
    then show ?thesis using Cons.prems(1) xs assms by (auto simp: sorted_wrt_append)
  qed
  ultimately show ?case using Cons.IH [OF _ m] by simp
qed simp

lemma level1_less: "\<not> level_less 1 b a \<Longrightarrow> tmSmallest a \<le> tmSmallest b"
  by (auto simp: level_less_def Let_def split: if_splits)

text \<open>Tables with separate ranges are disjoint in order once they are sorted for their level.\<close>

lemma level1_sorted:
  assumes "sorted_wrt separate ts" "\<And>t. t \<in> set ts \<Longrightarrow> tmSmallest t \<le> tmLargest t"
  shows "sorted_wrt (\<lambda>a b. tmLargest a < tmSmallest b) (sortTableMetaForLevel 1 ts)"
proof -
  let ?s = "sortTableMetaForLevel 1 ts"
  have m: "mset ts = mset ?s" by (simp add: sortTableMetaForLevel_def)
  have sep: "sorted_wrt separate ?s" using assms(1) m by (rule sorted_wrt_perm [rotated]) (auto simp: separate_def)
  have r: "tmSmallest t \<le> tmLargest t" if "t \<in> set ?s" for t using assms(2) that m by (metis set_mset_mset)
  show ?thesis unfolding sorted_wrt_iff_nth_less
  proof (intro allI impI)
    fix i j
    assume ij: "i < j" "j < length ?s"
    have le: "tmSmallest (?s ! i) \<le> tmSmallest (?s ! j)" using sorted_level [of 1 ts] ij level1_less by (auto simp: sorted_wrt_iff_nth_less)
    have "separate (?s ! i) (?s ! j)" using sep ij by (auto simp: sorted_wrt_iff_nth_less)
    moreover have "tmSmallest (?s ! j) \<le> tmLargest (?s ! j)" using r ij by simp
    ultimately show "tmLargest (?s ! i) < tmSmallest (?s ! j)" using le unfolding separate_def by (meson leD le_less_trans less_le_trans)
  qed
qed

lemma sorted_separate: "sorted_wrt (\<lambda>a b. tmLargest a < tmSmallest b) ts \<Longrightarrow> sorted_wrt separate ts"
  by (erule sorted_wrt_mono_rel [rotated]) (simp add: separate_def)

text \<open>Sorting is stable and commutes with leaving tables out.\<close>

lemma filter_insort_by:
  assumes "\<And>a b. lt a b \<Longrightarrow> \<not> lt b a" "\<And>a b c. \<not> lt b a \<Longrightarrow> \<not> lt c b \<Longrightarrow> \<not> lt c a"
  shows "sorted_wrt (\<lambda>a b. \<not> lt b a) xs \<Longrightarrow> filter P (insort_by lt x xs) = (if P x then insort_by lt x (filter P xs) else filter P xs)"
proof (induction xs)
  case (Cons y ys)
  show ?case
  proof (cases "lt y x")
    case False
    have "\<not> lt z x" if "z \<in> set ys" for z using assms(2) [of y x z] Cons.prems False that by auto
    then have "\<not> lt z x" if "z \<in> set (filter P ys)" for z using that by simp
    then have "insort_by lt x (filter P ys) = x # filter P ys" by (cases "filter P ys") simp_all
    then show ?thesis using False by simp
  qed (use Cons in simp)
qed simp

lemma filter_level: "filter P (sortTableMetaForLevel l ts) = sortTableMetaForLevel l (filter P ts)"
  unfolding sortTableMetaForLevel_def
proof (induction ts)
  case (Cons t ts)
  have "sorted_wrt (\<lambda>a b. \<not> level_less l b a) (sort_slice (level_less l) ts)" using sorted_level by (simp add: sortTableMetaForLevel_def)
  from filter_insort_by [OF level_less_asym level_less_trans this] show ?case using Cons by (simp add: sort_slice_Cons)
qed simp

lemma set_level_of [simp]: "set (level_of l ts) = {t \<in> set ts. tmLevel t = l}"
  by (auto simp: level_of_def sortTableMetaForLevel_def)

section \<open>A compaction keeps the contents\<close>

text \<open>What is known of the tables: each holds a run that its entry describes, without empty values; level 1 is disjoint.\<close>

definition tables_ok :: "(TableMeta \<Rightarrow> (bytes \<times> bytes) list) \<Rightarrow> TableMeta list \<Rightarrow> bool" where
  "tables_ok run_of tables \<longleftrightarrow> distinct (map tmFilename tables) \<and>
     (\<forall>t \<in> set tables. (tmLevel t = 0 \<or> tmLevel t = 1) \<and> run_meta t (run_of t) \<and> (\<forall>k v. map_of (run_of t) k = Some v \<longrightarrow> v \<noteq> [])) \<and>
     sorted_wrt (\<lambda>a b. tmLargest a < tmSmallest b) (level_of 1 tables)"

text \<open>The tables after the replacement, as \<open>replaceCompactedTables\<close> computes them.\<close>

definition updated_tables :: "TableMeta list \<Rightarrow> compactionPlan \<Rightarrow> TableMeta list \<Rightarrow> TableMeta list" where
  "updated_tables tables plan outs = filter (\<lambda>t. tmFilename t \<notin> tmFilename ` set (planInputTables plan)) tables @ outs"

lemma sorted_insert_same: "sorted_list_of_set {0 :: int, 1} = [0, 1]" "sorted_list_of_set {0 :: int} = [0]"
  by simp_all

lemma group_two:
  assumes "\<exists>t \<in> set tables. tmLevel t = 0" "\<forall>t \<in> set tables. tmLevel t = 0 \<or> tmLevel t = 1"
  shows "groupTableMetaByLevel tables = \<lparr>lsLevel = 0, lsMeta = level_of 0 tables, lsTables = []\<rparr> #
    (if \<exists>t \<in> set tables. tmLevel t = 1 then [\<lparr>lsLevel = 1, lsMeta = level_of 1 tables, lsTables = []\<rparr>] else [])"
proof -
  have s: "distinct (levels_seen tables [])" "set (levels_seen tables []) = tmLevel ` set tables" using levels_seen_spec [of "[]" tables] by simp_all
  have e: "tmLevel ` set tables = (if \<exists>t \<in> set tables. tmLevel t = 1 then {0, 1} else {0})" using assms by (auto simp: image_iff)
  have "sort (levels_seen tables []) = sorted_list_of_set (tmLevel ` set tables)"
    using s by (metis sorted_list_of_set_sort_remdups distinct_remdups_id)
  then have "sort (levels_seen tables []) = (if \<exists>t \<in> set tables. tmLevel t = 1 then [0, 1] else [0])" unfolding e by simp
  moreover have "tables \<noteq> []" using assms(1) by auto
  ultimately show ?thesis by (auto simp: groupTableMetaByLevel_def level_of_def)
qed

lemma plan_shape:
  assumes "\<exists>t \<in> set tables. tmLevel t = 0" "\<forall>t \<in> set tables. tmLevel t = 0 \<or> tmLevel t = 1" "plan_tables mx tables = Some plan"
  shows "sourceTables plan = selectL0CompactionSource (level_of 0 tables)"
    "targetTables plan = filter (\<lambda>t. \<not> apart t (tableMetaBounds (sourceTables plan))) (level_of 1 tables)"
    "dropTombstones plan"
proof -
  have ne: "level_of 0 tables \<noteq> []" using assms(1) set_level_of [of 0 tables] by (auto simp del: set_level_of)
  have n1: "level_of 1 tables = []" if "\<not> (\<exists>t \<in> set tables. tmLevel t = 1)"
  proof -
    have "set (level_of 1 tables) = {}" using that by auto
    then show ?thesis by (simp only: set_empty)
  qed
  have plan: "plan = \<lparr>sourceLevel = 0, targetLevel = 1, sourceTables = selectL0CompactionSource (level_of 0 tables),
      targetTables = overlappingTableMeta (groupTableMetaByLevel tables) 1 (tableMetaBounds (selectL0CompactionSource (level_of 0 tables))),
      targetOutputBytes = compactionOutputBytes mx, dropTombstones = maxTableLevel (groupTableMetaByLevel tables) \<le> 1\<rparr>"
    using assms(3) ne unfolding plan_tables_def group_two [OF assms(1,2)] by (simp add: Let_def)
  show "sourceTables plan = selectL0CompactionSource (level_of 0 tables)" unfolding plan by simp
  show "targetTables plan = filter (\<lambda>t. \<not> apart t (tableMetaBounds (sourceTables plan))) (level_of 1 tables)"
    unfolding plan group_two [OF assms(1,2)] using n1 by auto
  show "dropTombstones plan" unfolding plan group_two [OF assms(1,2)] by (simp add: maxTableLevel_def)
qed

definition merged :: "(TableMeta \<Rightarrow> (bytes \<times> bytes) list) \<Rightarrow> compactionPlan \<Rightarrow> (bytes \<times> bytes) list" where
  "merged run_of plan = live (dropTombstones plan) (merge_runs (map run_of (planInputTables plan)))"

text \<open>
  A step of compaction, as far as the contents are concerned: level 0 and 1 with their runs, the selected tables, which span
  the range \<open>b\<close>, and the tables of level 1 that meet it.
\<close>

definition compaction_step :: "(TableMeta \<Rightarrow> (bytes \<times> bytes) list) \<Rightarrow> TableMeta list \<Rightarrow> TableMeta list \<Rightarrow> TableMeta list \<Rightarrow> bytes \<times> bytes \<Rightarrow> bool" where
  "compaction_step run_of L0 L1 S b \<longleftrightarrow> (\<forall>t \<in> set (L0 @ L1). run_meta t (run_of t)) \<and>
     sorted_wrt (\<lambda>a b. tmLargest a < tmSmallest b) L1 \<and> S = filter (\<lambda>t. t \<in> set S) L0 \<and>
     (\<forall>t \<in> set S. fst b \<le> tmSmallest t \<and> tmLargest t \<le> snd b) \<and> (\<forall>t \<in> set L0 - set S. apart t b)"

abbreviation meets :: "TableMeta list \<Rightarrow> bytes \<times> bytes \<Rightarrow> TableMeta list" where
  "meets L1 b \<equiv> filter (\<lambda>t. \<not> apart t b) L1"

lemma compaction_stepD:
  assumes "compaction_step run_of L0 L1 S b"
  shows "t \<in> set L0 \<or> t \<in> set L1 \<Longrightarrow> run_meta t (run_of t)" "sorted_wrt (\<lambda>a b. tmLargest a < tmSmallest b) L1"
    "S = filter (\<lambda>t. t \<in> set S) L0" "t \<in> set S \<Longrightarrow> t \<in> set L0"
    "t \<in> set S \<Longrightarrow> fst b \<le> tmSmallest t \<and> tmLargest t \<le> snd b" "t \<in> set L0 \<Longrightarrow> t \<notin> set S \<Longrightarrow> apart t b"
proof -
  show s: "S = filter (\<lambda>t. t \<in> set S) L0" using assms unfolding compaction_step_def by blast
  show "t \<in> set S \<Longrightarrow> t \<in> set L0" using s by (metis filter_is_subset subsetD)
qed (use assms in \<open>auto simp: compaction_step_def\<close>)

lemma step_range:
  assumes "compaction_step run_of L0 L1 S b" "t \<in> set L0 \<or> t \<in> set L1" "map_of (run_of t) k = Some v"
  shows "tmSmallest t \<le> k" "k \<le> tmLargest t"
  using run_meta_range [OF compaction_stepD(1) [OF assms(1,2)] assms(3)] .

text \<open>A key of a selected table is in no table that is left.\<close>

lemma source_key:
  assumes st: "compaction_step run_of L0 L1 S b" and t: "t \<in> set S" "map_of (run_of t) k = Some v"
    and u: "u \<in> set L0 \<or> u \<in> set L1" "apart u b"
  shows "map_of (run_of u) k = None"
proof (cases "map_of (run_of u) k")
  case (Some w)
  have "tmSmallest u \<le> k" "k \<le> tmLargest u" using step_range [OF st u(1) Some] .
  moreover have "fst b \<le> k" "k \<le> snd b"
    using step_range [OF st _ t(2)] compaction_stepD(4,5) [OF st t(1)] by auto
  ultimately show ?thesis using u(2) by (auto simp: apart_def)
qed simp

lemma separate_level1: "compaction_step run_of L0 L1 S b \<Longrightarrow> t \<in> set L1 \<Longrightarrow> u \<in> set L1 \<Longrightarrow> t \<noteq> u \<Longrightarrow> separate t u"
  by (drule compaction_stepD(2)) (auto simp: separate_def sorted_wrt_iff_nth_less in_set_conv_nth, metis nat_neq_iff)

lemma level1_unique:
  assumes st: "compaction_step run_of L0 L1 S b" and "t \<in> set L1" "u \<in> set L1" "map_of (run_of t) k = Some v" "map_of (run_of u) k = Some w"
  shows "t = u"
proof (rule ccontr)
  assume "t \<noteq> u"
  then have "separate t u" using separate_level1 [OF st] assms(2,3) by blast
  moreover have "tmSmallest t \<le> k" "k \<le> tmLargest t" "tmSmallest u \<le> k" "k \<le> tmLargest u"
    using step_range [OF st] assms by auto
  ultimately show False by (auto simp: separate_def)
qed

text \<open>A table of level 1 that is left lies on one side of all the keys of the compaction.\<close>

lemma kept_side:
  assumes st: "compaction_step run_of L0 L1 S b" and u: "u \<in> set L1" "apart u b"
  shows "(\<forall>t \<in> set (S @ meets L1 b). tmLargest u < tmSmallest t) \<or> (\<forall>t \<in> set (S @ meets L1 b). tmLargest t < tmSmallest u)"
proof -
  have le: "tmSmallest u \<le> tmLargest u" using run_meta_order [OF compaction_stepD(1) [OF st]] u(1) by blast
  have T: "separate t u" if "t \<in> set (meets L1 b)" for t using that u separate_level1 [OF st, of t u] by auto
  show ?thesis
  proof (cases "tmLargest u < fst b")
    case True
    have "tmLargest u < tmSmallest t" if "t \<in> set (S @ meets L1 b)" for t
    proof (cases "t \<in> set S")
      case False
      then have "\<not> apart t b" "separate t u" using T that by auto
      then show ?thesis using True le by (auto simp: apart_def separate_def)
    qed (use True compaction_stepD(5) [OF st] in force)
    then show ?thesis by blast
  next
    case False
    then have r: "snd b < tmSmallest u" using u by (auto simp: apart_def)
    have "tmLargest t < tmSmallest u" if "t \<in> set (S @ meets L1 b)" for t
    proof (cases "t \<in> set S")
      case False
      then have "\<not> apart t b" "separate t u" using T that by auto
      then show ?thesis using r le by (auto simp: apart_def separate_def)
    qed (use r compaction_stepD(5) [OF st] in force)
    then show ?thesis by blast
  qed
qed

lemma find_run_map: "find_run (map f xs) k = Some v \<Longrightarrow> \<exists>x \<in> set xs. map_of (f x) k = Some v"
  by (induction xs) (auto split: option.splits)

lemma separate_sym: "separate a b \<Longrightarrow> separate b a"
  by (auto simp: separate_def)

lemma map_of_live:
  "sorted_keys kvs \<Longrightarrow> map_of (live d kvs) k = (case map_of kvs k of None \<Rightarrow> None | Some v \<Rightarrow> if d \<and> isTombstoneValue v then None else Some v)"
proof (induction kvs)
  case (Cons e kvs)
  have "map_of (live d kvs) (fst e) = None" using Cons.prems by (force simp: map_of_eq_None_iff live_def)
  then show ?case using Cons by (cases e) (auto simp: live_def)
qed (simp add: live_def)

definition outputs_of :: "(TableMeta \<Rightarrow> (bytes \<times> bytes) list) \<Rightarrow> TableMeta list \<Rightarrow> TableMeta list \<Rightarrow> bool" where
  "outputs_of run_of inputs outs \<longleftrightarrow> (\<forall>t \<in> set outs. run_meta t (run_of t)) \<and>
     concat (map run_of outs) = live True (merge_runs (map run_of inputs))"

lemma outputs_lookup:
  assumes "outputs_of run_of inputs outs"
  shows "(\<exists>t \<in> set outs. map_of (run_of t) k = Some v) \<longleftrightarrow> find_run (map run_of inputs) k = Some v \<and> \<not> isTombstoneValue v"
proof -
  let ?K = "concat (map run_of outs)"
  have so: "sorted_keys ?K" using assms sorted_live [OF merge_runs_sorted] by (simp add: outputs_of_def)
  have K: "map_of ?K k = Some v \<longleftrightarrow> find_run (map run_of inputs) k = Some v \<and> \<not> isTombstoneValue v"
    using assms map_of_live [OF merge_runs_sorted, of True "map run_of inputs" k]
    by (auto simp: outputs_of_def merge_runs_lookup split: option.splits if_splits)
  have "(\<exists>t \<in> set outs. map_of (run_of t) k = Some v) \<longleftrightarrow> (k, v) \<in> set ?K"
  proof
    assume "(k, v) \<in> set ?K"
    then obtain t where t: "t \<in> set outs" "(k, v) \<in> set (run_of t)" by auto
    then have "distinct (map fst (run_of t))" using assms by (auto simp: outputs_of_def run_meta_def intro: sorted_keys_distinct)
    then show "\<exists>t \<in> set outs. map_of (run_of t) k = Some v" using t by (intro bexI [of _ t] map_of_is_SomeI)
  qed (auto dest: map_of_SomeD)
  also have "\<dots> \<longleftrightarrow> map_of ?K k = Some v" using sorted_keys_distinct [OF so] by auto
  finally show ?thesis using K by blast
qed

lemma bounds_are_keys: "run_meta m r \<Longrightarrow> \<exists>v w. map_of r (tmSmallest m) = Some v \<and> map_of r (tmLargest m) = Some w"
proof -
  assume m: "run_meta m r"
  then have "distinct (map fst r)" "hd r \<in> set r" "last r \<in> set r" by (auto simp: run_meta_def intro: sorted_keys_distinct)
  then have "map_of r (fst (hd r)) = Some (snd (hd r))" "map_of r (fst (last r)) = Some (snd (last r))" by simp_all
  then show ?thesis using m by (auto simp: run_meta_def)
qed

lemma chunks_sorted:
  "\<forall>t \<in> set outs. run_meta t (run_of t) \<Longrightarrow> sorted_keys (concat (map run_of outs)) \<Longrightarrow> sorted_wrt (\<lambda>a b. tmLargest a < tmSmallest b) outs"
proof (induction outs)
  case (Cons t outs)
  have "tmLargest t < tmSmallest u" if u: "u \<in> set outs" for u
  proof -
    have r: "run_meta t (run_of t)" "run_meta u (run_of u)" using Cons.prems(1) u by auto
    have "tmLargest t \<in> set (map fst (run_of t))" "tmSmallest u \<in> set (map fst (run_of u))" using r by (auto simp: run_meta_def)
    then have "tmLargest t \<in> set (map fst (run_of t))" "tmSmallest u \<in> set (map fst (concat (map run_of outs)))" using u by auto
    then show ?thesis using Cons.prems(2) by (simp only: list.map concat.simps map_append sorted_wrt_append)
  qed
  then show ?case using Cons by (simp add: sorted_wrt_append)
qed simp

text \<open>The new tables are apart from the tables of level 1 that are left.\<close>

lemma outputs_separate:
  assumes st: "compaction_step run_of L0 L1 S b" and o: "outputs_of run_of (S @ meets L1 b) outs"
    and u: "u \<in> set L1" "apart u b" and t: "t \<in> set outs"
  shows "separate u t"
proof -
  have m: "run_meta t (run_of t)" using o t by (simp add: outputs_of_def)
  obtain v w where "map_of (run_of t) (tmSmallest t) = Some v" "map_of (run_of t) (tmLargest t) = Some w" using bounds_are_keys [OF m] by blast
  then have f: "find_run (map run_of (S @ meets L1 b)) (tmSmallest t) = Some v" "find_run (map run_of (S @ meets L1 b)) (tmLargest t) = Some w"
    using outputs_lookup [OF o] t by blast+
  obtain x where x: "x \<in> set (S @ meets L1 b)" "map_of (run_of x) (tmSmallest t) = Some v" using find_run_map [OF f(1)] by blast
  obtain y where y: "y \<in> set (S @ meets L1 b)" "map_of (run_of y) (tmLargest t) = Some w" using find_run_map [OF f(2)] by blast
  have in_levels: "z \<in> set L0 \<or> z \<in> set L1" if "z \<in> set (S @ meets L1 b)" for z using that compaction_stepD(4) [OF st] by auto
  have "tmSmallest x \<le> tmSmallest t" "tmLargest t \<le> tmLargest y"
    using step_range(1) [OF st in_levels [OF x(1)] x(2)] step_range(2) [OF st in_levels [OF y(1)] y(2)] .
  moreover have "tmLargest u < tmSmallest x \<or> tmLargest y < tmSmallest u" using kept_side [OF st u] x(1) y(1) by blast
  ultimately show ?thesis by (auto simp: separate_def)
qed

lemma new_level1_sorted:
  assumes st: "compaction_step run_of L0 L1 S b" and o: "outputs_of run_of (S @ meets L1 b) outs"
    and n: "mset ts = mset (filter (\<lambda>t. apart t b) L1 @ outs)"
  shows "sorted_wrt (\<lambda>a b. tmLargest a < tmSmallest b) (sortTableMetaForLevel 1 ts)"
proof (rule level1_sorted)
  have "sorted_wrt separate (filter (\<lambda>t. apart t b) L1)" using sorted_separate [OF compaction_stepD(2) [OF st]] by (rule sorted_wrt_filter)
  moreover have "sorted_wrt separate outs"
    using o sorted_live [OF merge_runs_sorted] by (intro sorted_separate chunks_sorted) (auto simp: outputs_of_def)
  moreover have "\<forall>u \<in> set (filter (\<lambda>t. apart t b) L1). \<forall>t \<in> set outs. separate u t" using outputs_separate [OF st o] by simp
  ultimately have "sorted_wrt separate (filter (\<lambda>t. apart t b) L1 @ outs)" unfolding sorted_wrt_append by blast
  from sorted_wrt_perm [of separate, OF separate_sym this n [symmetric]] show "sorted_wrt separate ts" .
  fix t
  assume "t \<in> set ts"
  then have "t \<in> set (filter (\<lambda>t. apart t b) L1 @ outs)" using n by (metis set_mset_mset)
  then have "run_meta t (run_of t)" using o compaction_stepD(1) [OF st] by (auto simp: outputs_of_def)
  then show "tmSmallest t \<le> tmLargest t" by (rule run_meta_order)
qed

text \<open>The lookup in the new tables of level 1.\<close>

lemma outputs_hit: "outputs_of run_of inputs outs \<Longrightarrow> t \<in> set outs \<Longrightarrow> map_of (run_of t) k = Some w \<Longrightarrow>
    find_run (map run_of inputs) k = Some w \<and> \<not> isTombstoneValue w"
  using outputs_lookup by blast

lemma new_level1_hit:
  assumes o: "outputs_of run_of inputs outs" and n: "set ts = kept \<union> set outs"
    and F: "find_run (map run_of inputs) k = Some v" and none: "\<And>u. u \<in> kept \<Longrightarrow> map_of (run_of u) k = None"
  shows "find_run (map run_of ts) k = (if isTombstoneValue v then None else Some v)"
proof (cases "isTombstoneValue v")
  case True
  have "map_of (run_of t) k = None" if "t \<in> set outs" for t
    using outputs_hit [OF o that, of k] F True by (cases "map_of (run_of t) k") auto
  then show ?thesis using True none n by (intro trans [OF find_run_None]) auto
next
  case False
  then obtain t where t: "t \<in> set outs" "map_of (run_of t) k = Some v" using outputs_lookup [OF o, of k v] F by blast
  have uniq: "w = v" if q: "q \<in> set (map run_of ts)" "map_of q k = Some w" for q w
  proof -
    obtain u where u: "u \<in> set ts" "map_of (run_of u) k = Some w" using q by auto
    then have "u \<in> set outs" using n none by fastforce
    then show ?thesis using outputs_hit [OF o _ u(2)] F by simp
  qed
  have "run_of t \<in> set (map run_of ts)" using t(1) n by simp
  from find_run_unique [OF this t(2) uniq] False show ?thesis by simp
qed

lemma new_level1_miss:
  assumes st: "compaction_step run_of L0 L1 S b" and o: "outputs_of run_of (S @ meets L1 b) outs"
    and n: "set ts = {t \<in> set L1. apart t b} \<union> set outs" and F: "find_run (map run_of (S @ meets L1 b)) k = None"
  shows "find_run (map run_of ts) k = find_run (map run_of L1) k"
proof -
  have outs: "map_of (run_of t) k = None" if "t \<in> set outs" for t
    using outputs_hit [OF o that, of k] F by (cases "map_of (run_of t) k") auto
  have T: "map_of (run_of t) k = None" if "t \<in> set (meets L1 b)" for t using find_run_NoneD [OF F, of "run_of t"] that by simp
  show ?thesis
  proof (cases "find_run (map run_of L1) k")
    case None
    then have "map_of (run_of u) k = None" if "u \<in> set L1" for u using find_run_NoneD [OF None, of "run_of u"] that by simp
    then show ?thesis using None outs n by (intro trans [OF find_run_None]) auto
  next
    case (Some v)
    obtain u where u: "u \<in> set L1" "map_of (run_of u) k = Some v" using find_run_map [OF Some] by blast
    then have "apart u b" using T [of u] by fastforce
    then have mem: "run_of u \<in> set (map run_of ts)" using u(1) n by simp
    have uniq: "w = v" if q: "q \<in> set (map run_of ts)" "map_of q k = Some w" for q w
    proof -
      obtain x where x: "x \<in> set ts" "map_of (run_of x) k = Some w" using q by auto
      then have "x \<in> set L1" using n outs by fastforce
      then show ?thesis using level1_unique [OF st _ u(1) x(2) u(2)] x(2) u(2) by simp
    qed
    from find_run_unique [OF mem u(2) uniq] Some show ?thesis by simp
  qed
qed

definition shown :: "bytes option \<Rightarrow> bytes option" where
  "shown x = (case x of None \<Rightarrow> None | Some v \<Rightarrow> if isTombstoneValue v then None else Some v)"

lemma step_keeps_view:
  assumes st: "compaction_step run_of L0 L1 S b" and o: "outputs_of run_of (S @ meets L1 b) outs"
    and n: "set ts = {t \<in> set L1. apart t b} \<union> set outs"
  shows "shown (find_run (map run_of (filter (\<lambda>t. t \<notin> set S) L0 @ ts)) k) = shown (find_run (map run_of (L0 @ L1)) k)"
proof -
  let ?F = "find_run (map run_of (S @ meets L1 b)) k"
  have kept0: "map_of (run_of u) k = None" if "u \<in> set L0" "u \<notin> set S" "t \<in> set S" "map_of (run_of t) k = Some v" for u t v
    using source_key [OF st that(3,4)] compaction_stepD(6) [OF st that(1,2)] that(1) by blast
  show ?thesis
  proof (cases "find_run (map run_of S) k")
    case (Some v)
    obtain t where t: "t \<in> set S" "map_of (run_of t) k = Some v" using find_run_map [OF Some] by blast
    have "find_run (map run_of (filter (\<lambda>t. t \<in> set S) L0)) k = find_run (map run_of L0) k" using kept0 [OF _ _ t] by (intro find_run_filter)
    then have L0: "find_run (map run_of L0) k = Some v" using Some compaction_stepD(3) [OF st] by simp
    have "find_run (map run_of (filter (\<lambda>t. t \<notin> set S) L0)) k = None" using kept0 [OF _ _ t] by (intro find_run_None) auto
    moreover have "find_run (map run_of ts) k = (if isTombstoneValue v then None else Some v)"
    proof (rule new_level1_hit [OF o n])
      show "?F = Some v" using Some by (simp add: find_run_append)
      show "map_of (run_of u) k = None" if "u \<in> {t \<in> set L1. apart t b}" for u using source_key [OF st t, of u] that by blast
    qed
    ultimately show ?thesis using L0 by (simp add: find_run_append shown_def)
  next
    case None
    have "map_of (run_of t) k = None" if "t \<in> set S" for t using find_run_NoneD [OF None, of "run_of t"] that by simp
    then have L0: "find_run (map run_of (filter (\<lambda>t. t \<notin> set S) L0)) k = find_run (map run_of L0) k" by (intro find_run_filter) auto
    show ?thesis
    proof (cases ?F)
      case miss: None
      then show ?thesis using L0 new_level1_miss [OF st o n miss] by (auto simp: find_run_append split: option.split)
    next
      case (Some v)
      have "find_run (map run_of (meets L1 b)) k = Some v" using Some None by (simp add: find_run_append)
      from find_run_map [OF this] obtain u where u: "u \<in> set (meets L1 b)" "map_of (run_of u) k = Some v" by blast
      have L1: "find_run (map run_of L1) k = Some v"
      proof (rule find_run_unique [OF _ u(2)])
        show "run_of u \<in> set (map run_of L1)" using u(1) by simp
        show "w = v" if "q \<in> set (map run_of L1)" "map_of q k = Some w" for q w
          using that u level1_unique [OF st, of _ u k w v] by auto
      qed
      have "find_run (map run_of ts) k = (if isTombstoneValue v then None else Some v)"
      proof (rule new_level1_hit [OF o n Some])
        show "map_of (run_of x) k = None" if "x \<in> {t \<in> set L1. apart t b}" for x
          using that u level1_unique [OF st, of x u k _ v] by (cases "map_of (run_of x) k") auto
      qed
      then show ?thesis using L0 L1 by (auto simp: find_run_append shown_def split: option.split)
    qed
  qed
qed

lemma selection_filter: "selectL0CompactionSource l0 = filter (\<lambda>t. t \<in> set (selectL0CompactionSource l0)) l0"
  by (auto simp: selectL0CompactionSource_def Let_def intro: filter_cong)

lemma mset_level_of: "mset (level_of l ts) = mset (filter (\<lambda>t. tmLevel t = l) ts)"
  by (simp add: level_of_def sortTableMetaForLevel_def)

lemma distinct_level: "distinct (map tmFilename ts) \<Longrightarrow> distinct (map tmFilename (level_of l ts))"
proof -
  assume "distinct (map tmFilename ts)"
  then have "distinct (map tmFilename (filter (\<lambda>t. tmLevel t = l) ts))" by (rule distinct_map_filter)
  moreover have "mset (map tmFilename (level_of l ts)) = mset (map tmFilename (filter (\<lambda>t. tmLevel t = l) ts))"
    using mset_level_of [of l ts] by simp
  ultimately show ?thesis by (metis mset_eq_imp_distinct_iff)
qed

lemma plan_is_step:
  assumes ok: "tables_ok run_of tables" and l0: "\<exists>t \<in> set tables. tmLevel t = 0" and plan: "plan_tables mx tables = Some plan"
  shows "compaction_step run_of (level_of 0 tables) (level_of 1 tables) (sourceTables plan) (tableMetaBounds (sourceTables plan))"
    "planInputTables plan = sourceTables plan @ meets (level_of 1 tables) (tableMetaBounds (sourceTables plan))"
proof -
  let ?L0 = "level_of 0 tables" and ?S = "sourceTables plan" and ?b = "tableMetaBounds (sourceTables plan)"
  have lv: "\<forall>t \<in> set tables. tmLevel t = 0 \<or> tmLevel t = 1" using ok by (simp add: tables_ok_def)
  note shape = plan_shape [OF l0 lv plan]
  show "planInputTables plan = ?S @ meets (level_of 1 tables) ?b" using shape(2) by (simp add: planInputTables_def)
  have ne: "?L0 \<noteq> []" using l0 set_level_of [of 0 tables] by (auto simp del: set_level_of)
  have "distinct (map tmFilename ?L0)" using ok by (intro distinct_level) (simp add: tables_ok_def)
  note sel = selection_spec [OF ne this, folded shape(1)]
  have "?S \<noteq> []" using sel by auto
  then have "spans ?b (set ?S)" by (rule spans_bounds)
  then have in_b: "\<forall>t \<in> set ?S. fst ?b \<le> tmSmallest t \<and> tmLargest t \<le> snd ?b" by (auto simp: spans_def)
  have "?S = filter (\<lambda>t. t \<in> set ?S) ?L0" unfolding shape(1) by (rule selection_filter)
  moreover have "\<forall>t \<in> set (?L0 @ level_of 1 tables). run_meta t (run_of t)" "sorted_wrt (\<lambda>a b. tmLargest a < tmSmallest b) (level_of 1 tables)"
    using ok by (auto simp: tables_ok_def)
  ultimately show "compaction_step run_of ?L0 (level_of 1 tables) ?S ?b"
    unfolding compaction_step_def using sel in_b by blast
qed

lemma updated_levels:
  assumes ok: "tables_ok run_of tables" and l0: "\<exists>t \<in> set tables. tmLevel t = 0" and plan: "plan_tables mx tables = Some plan"
    and outs: "\<forall>t \<in> set outs. tmLevel t = 1"
  shows "level_of 0 (updated_tables tables plan outs) = filter (\<lambda>t. t \<notin> set (sourceTables plan)) (level_of 0 tables)"
    "\<exists>ts. level_of 1 (updated_tables tables plan outs) = sortTableMetaForLevel 1 ts \<and>
      mset ts = mset (filter (\<lambda>t. apart t (tableMetaBounds (sourceTables plan))) (level_of 1 tables) @ outs)"
proof -
  let ?S = "sourceTables plan" and ?b = "tableMetaBounds (sourceTables plan)" and ?N = "\<lambda>t. tmFilename t \<notin> tmFilename ` set (planInputTables plan)"
  note st = plan_is_step [OF ok l0 plan]
  have S: "t \<in> set tables \<and> tmLevel t = 0" if "t \<in> set ?S" for t using compaction_stepD(4) [OF st(1) that] by simp
  have sub: "set (planInputTables plan) \<subseteq> set tables" unfolding st(2) using S by auto
  have inj: "t = u" if "t \<in> set tables" "u \<in> set tables" "tmFilename t = tmFilename u" for t u
    using ok that by (auto simp: tables_ok_def intro: filename_inj)
  have N: "?N t \<longleftrightarrow> t \<notin> set (planInputTables plan)" if "t \<in> set tables" for t using inj [OF that] sub by blast
  have NN: "filter ?N (level_of l tables) = filter (\<lambda>t. t \<notin> set (planInputTables plan)) (level_of l tables)" for l
    by (intro filter_cong refl N) simp
  have lvl: "filter (\<lambda>t. tmLevel t = l) (updated_tables tables plan outs) = filter ?N (filter (\<lambda>t. tmLevel t = l) tables) @ filter (\<lambda>t. tmLevel t = l) outs" for l
    by (simp add: updated_tables_def conj_commute)
  have "filter (\<lambda>t. tmLevel t = 0) outs = []" using outs by (auto simp: filter_empty_conv)
  then have "level_of 0 (updated_tables tables plan outs) = filter ?N (level_of 0 tables)"
    unfolding level_of_def lvl by (simp add: filter_level)
  also have "\<dots> = filter (\<lambda>t. t \<notin> set ?S) (level_of 0 tables)"
    unfolding NN unfolding st(2) by (rule filter_cong) auto
  finally show "level_of 0 (updated_tables tables plan outs) = filter (\<lambda>t. t \<notin> set ?S) (level_of 0 tables)" .
  have "filter (\<lambda>t. tmLevel t = 1) outs = outs" using outs by simp
  then have "level_of 1 (updated_tables tables plan outs) = sortTableMetaForLevel 1 (filter ?N (filter (\<lambda>t. tmLevel t = 1) tables) @ outs)"
    unfolding level_of_def lvl by simp
  moreover have "filter ?N (level_of 1 tables) = filter (\<lambda>t. apart t ?b) (level_of 1 tables)"
    unfolding NN unfolding st(2) using S by (intro filter_cong) auto
  then have "mset (filter ?N (filter (\<lambda>t. tmLevel t = 1) tables)) = mset (filter (\<lambda>t. apart t ?b) (level_of 1 tables))"
    using mset_level_of [of 1 tables] by (metis mset_filter)
  ultimately show "\<exists>ts. level_of 1 (updated_tables tables plan outs) = sortTableMetaForLevel 1 ts \<and>
      mset ts = mset (filter (\<lambda>t. apart t ?b) (level_of 1 tables) @ outs)" by auto
qed

lemma visible_shown: "visible rs k = shown (first_hit rs k)"
  by (simp add: visible_def shown_def)

text \<open>
  C6: A compaction changes no answer. Take the tables of a manifest, each with the sorted run it holds, without empty values
  and disjoint on level 1, with at least one table on level 0, and the plan made for them. Replacing the tables
  of the plan by tables of level 1 that hold, in order, their merge without tombstones leaves level 1
  sorted and disjoint, and every lookup ends with the same stored value as before (a deleted key with none).
\<close>
theorem compaction_keeps_contents:
  assumes ok: "tables_ok run_of tables" and l0: "\<exists>t \<in> set tables. tmLevel t = 0" and plan: "plan_tables mx tables = Some plan"
    and outs: "\<forall>t \<in> set outs. tmLevel t = 1 \<and> run_meta t (run_of t)" "concat (map run_of outs) = merged run_of plan"
  shows "sorted_wrt (\<lambda>a b. tmLargest a < tmSmallest b) (level_of 1 (updated_tables tables plan outs)) \<and>
    (\<forall>k. visible (contents run_of (updated_tables tables plan outs)) k = visible (contents run_of tables) k)"
proof -
  let ?L0 = "level_of 0 tables" and ?L1 = "level_of 1 tables" and ?S = "sourceTables plan" and ?b = "tableMetaBounds (sourceTables plan)"
  let ?new = "updated_tables tables plan outs"
  note st = plan_is_step [OF ok l0 plan]
  have "dropTombstones plan" using ok plan_shape(3) [OF l0 _ plan] by (simp add: tables_ok_def)
  then have o: "outputs_of run_of (?S @ meets ?L1 ?b) outs" using outs st(2) by (simp add: outputs_of_def merged_def)
  have new0: "level_of 0 ?new = filter (\<lambda>t. t \<notin> set ?S) ?L0" using outs(1) by (intro updated_levels [OF ok l0 plan]) simp
  obtain ts where ts: "level_of 1 ?new = sortTableMetaForLevel 1 ts" "mset ts = mset (filter (\<lambda>t. apart t ?b) ?L1 @ outs)"
    using updated_levels(2) [OF ok l0 plan, of outs] outs(1) by auto
  have "set (level_of 1 ?new) = set ts" unfolding ts(1) by (simp add: sortTableMetaForLevel_def)
  also have "\<dots> = {t \<in> set ?L1. apart t ?b} \<union> set outs" using arg_cong [OF ts(2), of set_mset] by simp
  finally have n: "set (level_of 1 ?new) = {t \<in> set ?L1. apart t ?b} \<union> set outs" .
  have full: "v \<noteq> []" if "t \<in> set tables" "map_of (run_of t) k = Some v" for t k v using ok that by (auto simp: tables_ok_def)
  have full_outs: "v \<noteq> []" if t: "t \<in> set outs" "map_of (run_of t) k = Some v" for t k v
  proof -
    have "find_run (map run_of (?S @ meets ?L1 ?b)) k = Some v" using outputs_hit [OF o t] by blast
    from find_run_map [OF this] obtain u where u: "u \<in> set (?S @ meets ?L1 ?b)" "map_of (run_of u) k = Some v" by blast
    then have "u \<in> set tables" using compaction_stepD(4) [OF st(1), of u] by auto
    then show ?thesis using full u(2) by blast
  qed
  have full': "v \<noteq> []" if "t \<in> set (level_of 0 ?new @ level_of 1 ?new)" "map_of (run_of t) k = Some v" for t k v
  proof -
    have "t \<in> set tables \<or> t \<in> set outs" using that(1) by (auto simp: updated_tables_def)
    then show ?thesis using full full_outs that(2) by blast
  qed
  have "visible (contents run_of ?new) k = visible (contents run_of tables) k" for k
  proof -
    have "first_hit (contents run_of ?new) k = find_run (contents run_of ?new) k"
      using full' by (intro first_hit_find_run) (auto simp: contents_def simp del: set_level_of)
    moreover have "first_hit (contents run_of tables) k = find_run (contents run_of tables) k"
      using full by (intro first_hit_find_run) (auto simp: contents_def)
    ultimately show ?thesis using step_keeps_view [OF st(1) o n, of k] unfolding visible_shown contents_def new0 by (simp only: map_append)
  qed
  then show ?thesis using new_level1_sorted [OF st(1) o ts(2)] unfolding ts(1) by blast
qed

lemma compaction_keeps_contents_witness:
  "\<exists>plan. plan_tables 0 [meta_at ''a'' 0 [5] [7]] = Some plan \<and>
    (\<forall>k. visible (contents (\<lambda>_. [([5], [2, 3]), ([7], [9])]) (updated_tables [meta_at ''a'' 0 [5] [7]] plan [meta_at ''b'' 1 [5] [7]])) k =
       visible (contents (\<lambda>_. [([5], [2, 3]), ([7], [9])]) [meta_at ''a'' 0 [5] [7]]) k)"
proof -
  let ?r = "\<lambda>_ :: TableMeta. [([5 :: byte], [2 :: byte, 3]), ([7], [9])]" and ?a = "meta_at ''a'' 0 [5] [7]" and ?b = "meta_at ''b'' 1 [5] [7]"
  have l: "level_of 0 [?a] = [?a]" "level_of 1 [?a] = []"
    by (simp_all add: level_of_def sortTableMetaForLevel_def sort_slice_def meta_at_def)
  have "\<forall>k v. map_of (?r ?a) k = Some v \<longrightarrow> v \<noteq> []" by simp
  then have ok: "tables_ok ?r [?a]" using l by (simp add: tables_ok_def run_meta_def meta_at_def)
  have l0: "\<exists>t \<in> set [?a]. tmLevel t = 0" by (simp add: meta_at_def)
  have g: "groupTableMetaByLevel [?a] = [\<lparr>lsLevel = 0, lsMeta = [?a], lsTables = []\<rparr>]"
    using group_two [of "[?a]"] l by (simp add: meta_at_def)
  have "?a \<in> set (selectL0CompactionSource [?a])" using selection_spec [of "[?a]"] by simp
  then have s: "selectL0CompactionSource [?a] = [?a]" by (subst selection_filter) simp
  obtain plan where plan: "plan_tables 0 [?a] = Some plan" using g by (cases "plan_tables 0 [?a]") (auto simp: plan_tables_def Let_def)
  then have "planInputTables plan = [?a]" "dropTombstones plan"
    using g s by (auto simp: plan_tables_def planInputTables_def maxTableLevel_def Let_def)
  have "merged ?r plan = [([5], [2, 3]), ([7], [9])]" using \<open>planInputTables plan = [?a]\<close> \<open>dropTombstones plan\<close> by (simp add: merged_def live_def isTombstoneValue_def tombstoneValue_def)
  then have "concat (map ?r [?b]) = merged ?r plan" "\<forall>t \<in> set [?b]. tmLevel t = 1 \<and> run_meta t (?r t)" by (simp_all add: meta_at_def run_meta_def)
  then show ?thesis using compaction_keeps_contents [OF ok l0 plan] plan by blast
qed

section \<open>The files\<close>

lemma rename_loop_ok:
  assumes "\<And>p q. hFault h (OpRename p q) = None" "tempDir \<noteq> dir"
  shows "distinct ns \<Longrightarrow> (\<And>n. n \<in> set ns \<Longrightarrow> fs (tempDir, n) \<noteq> None) \<Longrightarrow>
    \<exists>fs'. rename_loop h fs tempDir dir ns = (fs', None) \<and> (\<forall>x. x \<notin> set ns \<longrightarrow> fs' (dir, x) = fs (dir, x))"
proof (induction ns arbitrary: fs)
  case (Cons n ns)
  obtain d where d: "fs (tempDir, n) = Some d" using Cons.prems(2) [of n] by auto
  let ?fs = "(fs((tempDir, n) := None))((dir, n) \<mapsto> d)"
  have "\<exists>fs'. rename_loop h ?fs tempDir dir ns = (fs', None) \<and> (\<forall>x. x \<notin> set ns \<longrightarrow> fs' (dir, x) = ?fs (dir, x))"
    using Cons.prems assms(2) by (intro Cons.IH) auto
  then show ?case using d assms by (auto simp: os_Rename_def)
qed simp

lemma remove_loop_ok:
  assumes "\<And>p. hFault h (OpRemove p) = None"
  shows "\<exists>fs'. remove_loop h fs dir newNames bs = (fs', None) \<and> (\<forall>x \<in> set bs - set newNames. fs' (dir, x) = None) \<and>
    (\<forall>x. x \<notin> set bs \<longrightarrow> fs' (dir, x) = fs (dir, x)) \<and> (\<forall>x. fs (dir, x) = None \<longrightarrow> fs' (dir, x) = None)"
proof (induction bs arbitrary: fs)
  case (Cons b bs)
  let ?fs = "fs((dir, b) := None)"
  obtain fs1 where "remove_loop h ?fs dir newNames bs = (fs1, None)" "\<forall>x \<in> set bs - set newNames. fs1 (dir, x) = None"
    "\<forall>x. x \<notin> set bs \<longrightarrow> fs1 (dir, x) = ?fs (dir, x)" "\<forall>x. ?fs (dir, x) = None \<longrightarrow> fs1 (dir, x) = None" using Cons.IH [of ?fs] by blast
  moreover have "os_Remove h fs (dir, b) = (?fs, if fs (dir, b) = None then Some ENoent else None)"
    using assms by (auto simp: os_Remove_def fun_upd_idem split: option.split)
  moreover obtain fs2 where "remove_loop h fs dir newNames bs = (fs2, None)" "\<forall>x \<in> set bs - set newNames. fs2 (dir, x) = None"
    "\<forall>x. x \<notin> set bs \<longrightarrow> fs2 (dir, x) = fs (dir, x)" "\<forall>x. fs (dir, x) = None \<longrightarrow> fs2 (dir, x) = None" using Cons.IH [of fs] by blast
  ultimately show ?case by (cases "b \<in> set newNames") auto
qed simp

lemma openSSTables_missing: "fs p = None \<Longrightarrow> p \<in> set ps \<Longrightarrow> openSSTables h fs ps \<noteq> Some (Inr ts)"
proof (induction ps arbitrary: ts)
  case (Cons q ps)
  show ?case
  proof (cases "p = q")
    case True
    then show ?thesis using Cons.prems(1) by (auto simp: Open_def tryE_def split: option.splits sum.splits)
  next
    case False
    then show ?thesis using Cons by (auto simp: tryE_def split: option.splits sum.splits)
  qed
qed simp

text \<open>
  C37: A compaction whose manifest cannot be written loses the database. The input tables are removed before the manifest is
  replaced; when the write of the new manifest fails (or the process ends there), the manifest on disk is the old
  one and still names a table that is gone: opening the manifest succeeds, and opening its tables cannot.
\<close>
theorem failed_manifest_write_loses_tables:
  assumes fault: "hFault h (OpWrite (dir, manifestFilename @ ''.tmp'')) = Some n" "\<And>op. op \<noteq> OpWrite (dir, manifestFilename @ ''.tmp'') \<Longrightarrow> hFault h op = None"
    and m: "mPath manifest = (dir, manifestFilename)" "tempDir \<noteq> dir"
    and old: "fs (dir, manifestFilename) = Some data" "hUnmarshal h data = Some \<lparr>msVersion = manifestVersion, msTables = tables\<rparr>"
    and new: "distinct (map fst newEntries)" "\<forall>e \<in> set newEntries. fs (tempDir, fst e) \<noteq> None"
    and plan: "\<forall>u \<in> set (planInputTables plan). file_ext (tmFilename u) = ''.sst''"
    and t: "t \<in> set (planInputTables plan)" "t \<in> set tables" "tmFilename t \<notin> fst ` set newEntries"
    and order: "\<And>xs. set (map_order xs) = set xs"
    and cap: "length (planInputTables plan) \<le> length (msTables (mState manifest)) + length outputMeta"
  shows "\<exists>fs' m'. replaceCompactedTables h map_order fs dir manifest plan outputMeta tempDir newEntries = Some (fs', m', Some (CmIO EIO)) \<and>
    openManifest h now fs' dir names = Some (fs', Inr \<lparr>mPath = (dir, manifestFilename), mState = \<lparr>msVersion = manifestVersion, msTables = tables\<rparr>\<rparr>) \<and>
    fs' (dir, tmFilename t) = None \<and> (\<forall>ts. openSSTablesFromMeta h fs' dir tables \<noteq> Some (Inr ts))"
proof -
  define newNames where "newNames = map fst (filter (\<lambda>e. \<not> snd e \<and> file_ext (fst e) = ''.sst'') newEntries)"
  define removeNames where "removeNames = remdups (map tmFilename (planInputTables plan))"
  have ext: "file_ext manifestFilename \<noteq> ''.sst''" "file_ext (manifestFilename @ ''.tmp'') \<noteq> ''.sst''"
    by (simp_all add: file_ext_def manifestFilename_def Let_def)
  have nn: "distinct newNames" "set newNames \<subseteq> fst ` set newEntries" "manifestFilename \<notin> set newNames"
    using new(1) ext by (auto simp: newNames_def distinct_map_filter)
  obtain fs1 where fs1: "rename_loop h fs tempDir dir newNames = (fs1, None)" "\<forall>x. x \<notin> set newNames \<longrightarrow> fs1 (dir, x) = fs (dir, x)"
    using rename_loop_ok [OF _ m(2) nn(1), of h fs] nn(2) new(2) fault(2) by blast
  obtain fs2 where fs2: "remove_loop h fs1 dir newNames (map_order removeNames) = (fs2, None)"
    "\<forall>x \<in> set removeNames - set newNames. fs2 (dir, x) = None" "\<forall>x. x \<notin> set removeNames \<longrightarrow> fs2 (dir, x) = fs1 (dir, x)"
    using remove_loop_ok [of h fs1 dir newNames "map_order removeNames"] fault(2) order by auto
  define fs3 where "fs3 = fs2((dir, manifestFilename @ ''.tmp'') \<mapsto> take n (hMarshal h
      ((mState manifest)\<lparr>msTables := orderTableMetaForManifest (filter (\<lambda>t. tmFilename t \<notin> set removeNames) (manifest_Tables manifest) @ outputMeta)\<rparr>)))"
  have "length removeNames \<le> length (planInputTables plan)" unfolding removeNames_def by (metis length_map length_remdups_leq)
  then have cap': "\<not> int (length (msTables (mState manifest))) - int (length removeNames) + int (length outputMeta) < 0" using cap by linarith
  have w: "ReplaceTables h fs2 manifest (orderTableMetaForManifest (filter (\<lambda>t. tmFilename t \<notin> set removeNames) (manifest_Tables manifest) @ outputMeta)) =
      (fs3, manifest\<lparr>mState := (mState manifest)\<lparr>msTables := orderTableMetaForManifest (filter (\<lambda>t. tmFilename t \<notin> set removeNames) (manifest_Tables manifest) @ outputMeta)\<rparr>\<rparr>, Some EIO)"
    using m(1) fault(1) by (simp add: ReplaceTables_def manifest_write_def os_WriteFile_def fs3_def Let_def)
  have r: "remdups (map tmFilename (cloneTableMeta (sourceTables plan) @ targetTables plan)) = removeNames"
    by (simp add: removeNames_def planInputTables_def)
  have run: "\<exists>m'. replaceCompactedTables h map_order fs dir manifest plan outputMeta tempDir newEntries = Some (fs3, m', Some (CmIO EIO))"
    using fault(2) fs1(1) fs2(1) cap' w unfolding replaceCompactedTables_def newNames_def [symmetric] r Let_def by simp
  have man: "fs3 (dir, manifestFilename) = Some data"
  proof -
    have "manifestFilename \<notin> set removeNames" using plan ext(1) by (force simp: removeNames_def)
    then show ?thesis using fs1(2) fs2(3) nn(3) old(1) by (simp add: fs3_def)
  qed
  have "tmFilename t \<in> set removeNames - set newNames" "tmFilename t \<noteq> manifestFilename @ ''.tmp''"
    using t nn(2) plan ext(2) by (auto simp: removeNames_def)
  then have gone: "fs3 (dir, tmFilename t) = None" using fs2(2) by (simp add: fs3_def)
  have "openManifest h now fs3 dir names = Some (fs3, Inr \<lparr>mPath = (dir, manifestFilename), mState = \<lparr>msVersion = manifestVersion, msTables = tables\<rparr>\<rparr>)"
    using man old(2) fault(2) by (simp add: openManifest_def os_ReadFile_def Let_def)
  moreover have "openSSTablesFromMeta h fs3 dir tables \<noteq> Some (Inr ts)" for ts
    using openSSTables_missing [of fs3 "(dir, tmFilename t)" _ h ts] gone t(2) by (simp add: openSSTablesFromMeta_def)
  ultimately show ?thesis using run gone by blast
qed

lemma failed_manifest_write_loses_tables_witness:
  "\<exists>h fs' m'. replaceCompactedTables h (\<lambda>xs. xs) [(''d'', manifestFilename) \<mapsto> [1]] ''d''
      \<lparr>mPath = (''d'', manifestFilename), mState = \<lparr>msVersion = manifestVersion, msTables = [meta_at ''1.sst'' 0 [5] [7]]\<rparr>\<rparr>
      (small_plan\<lparr>sourceTables := [meta_at ''1.sst'' 0 [5] [7]]\<rparr>) [] ''t'' [] = Some (fs', m', Some (CmIO EIO)) \<and>
    (\<forall>ts. openSSTablesFromMeta h fs' ''d'' [meta_at ''1.sst'' 0 [5] [7]] \<noteq> Some (Inr ts))"
proof -
  let ?t = "meta_at ''1.sst'' 0 [5] [7]"
  let ?op = "OpWrite (''d'', manifestFilename @ ''.tmp'')"
  let ?h = "(calm_host [?t])\<lparr>hFault := \<lambda>op. if op = ?op then Some 0 else None\<rparr>"
  let ?m = "\<lparr>mPath = (''d'', manifestFilename), mState = \<lparr>msVersion = manifestVersion, msTables = [?t]\<rparr>\<rparr>"
  let ?plan = "small_plan\<lparr>sourceTables := [?t]\<rparr>" and ?fs = "[(''d'', manifestFilename) \<mapsto> [1 :: byte]]"
  have p: "planInputTables ?plan = [?t]" by (simp add: planInputTables_def small_plan_def)
  have e: "file_ext (tmFilename ?t) = ''.sst''" by (simp add: file_ext_def meta_at_def Let_def)
  have "\<exists>fs' m'. replaceCompactedTables ?h (\<lambda>xs. xs) ?fs ''d'' ?m ?plan [] ''t'' [] = Some (fs', m', Some (CmIO EIO)) \<and>
      openManifest ?h 0 fs' ''d'' [] = Some (fs', Inr ?m) \<and> fs' (''d'', tmFilename ?t) = None \<and> (\<forall>ts. openSSTablesFromMeta ?h fs' ''d'' [?t] \<noteq> Some (Inr ts))"
    by (rule failed_manifest_write_loses_tables [where data = "[1]" and t = ?t and n = 0]) (simp_all add: p e, simp_all add: calm_host_def)
  then show ?thesis by blast
qed

end
