(* ===== verification/Wal.thy ===== *)
theory Wal
  imports Record_Format
begin

text \<open>
  The write-ahead log of \<^verbatim>\<open>src/wal.go\<close>: replay, batches, the background sync loop and close.

  The open file is the one under the buffered writer (\<open>wBw\<close>); \<open>wHasFile\<close> says that \<open>w.f\<close> is not nil. The two
  signal channels have capacity one and are kept as flags. Everything a method does under the mutex is
  one function; the wait on the condition variable is where \<open>appendBatch\<close> stops with \<open>Waiting target\<close> and is
  resumed by \<open>wait_result\<close> once \<open>wait_done\<close> holds. Each case of the loop's select is one function.

  The lemmas here: replay calls its function on exactly the whole records of a file, in order, and
  reports a checksum error exactly when the bytes behind them are a whole record with a wrong checksum;
  a batch is encoded as the concatenation of its records, whatever the reused buffer held before.
\<close>

section \<open>State\<close>

definition walRecordHeaderSize :: nat where "walRecordHeaderSize = 4 + 4 + 4"
definition walBufferedWriterSize :: nat where "walBufferedWriterSize = 64 * 2 ^ 10"

datatype wal_error = WalIO io_error | WalClosed | WalNotDurable | WalMismatch

record wal =
  wName :: string
  wHasFile :: bool
  wBw :: bufio
  wScratch :: bytes
  syncInterval :: int
  wakeCh :: bool
  closeCh :: bool
  wPending :: u64
  wDurable :: u64
  syncCount :: u64
  syncErr :: "io_error option"
  walClosed :: bool

type_synonym walBatchEntry = "bytes \<times> bytes"

definition walID :: "nat \<Rightarrow> string" where
  "walID now = dec_digits now @ ''.wal''"

text \<open>The goroutine \<open>newWAL\<close> starts for a positive interval is the loop of the step relation.\<close>

definition newWAL :: "string \<Rightarrow> osfile \<Rightarrow> int \<Rightarrow> wal" where
  "newWAL name f interval =
     \<lparr>wName = name, wHasFile = True, wBw = bw_New f walBufferedWriterSize, wScratch = [], syncInterval = interval,
      wakeCh = False, closeCh = False, wPending = 0, wDurable = 0, syncCount = 0, syncErr = None, walClosed = False\<rparr>"

definition createWAL :: "env \<Rightarrow> int \<Rightarrow> io_error + wal" where
  "createWAL ev interval =
     (if envExists ev then Inl EExist
      else if devCreate (envDev ev) then Inl EIO
      else Inr (newWAL (walID (envNow ev)) \<lparr>fData = [], fPos = 0, fOpen = True, fDev = envDev ev\<rparr> interval))"

text \<open>Opened for appending, the file is written at its end; a missing file is \<open>None\<close>.\<close>

definition openWALForAppend :: "string \<Rightarrow> (bytes \<times> device) option \<Rightarrow> int \<Rightarrow> io_error + wal" where
  "openWALForAppend name content interval =
     (case content of
        None \<Rightarrow> Inl ENoent
      | Some (data, dev) \<Rightarrow>
          if devCreate dev then Inl EIO
          else
            let f = \<lparr>fData = data, fPos = length data, fOpen = True, fDev = dev\<rparr> in
            (case os_Size f of Inl e \<Rightarrow> Inl e | Inr _ \<Rightarrow> Inr (newWAL name f interval)))"

section \<open>Replay\<close>

lemma os_ReadFull_advances:
  assumes "os_ReadFull f n = (f', d, None)"
  shows "fData f' = fData f" "fDev f' = fDev f" "fOpen f' = fOpen f" "fPos f' = fPos f + n" "0 < n \<Longrightarrow> fPos f + n \<le> length (fData f)"
    "d = take n (drop (fPos f) (fData f))"
  using assms by (auto simp: os_ReadFull_def Let_def split: if_splits)

text \<open>The callback threads a state \<open>'s\<close> and may fail with an error of its own.\<close>

function replay_loop :: "('s \<Rightarrow> bytes \<Rightarrow> bytes \<Rightarrow> 's \<times> 'e option) \<Rightarrow> osfile \<Rightarrow> 's \<Rightarrow> 's \<times> (wal_error + 'e) option" where
  "replay_loop fn f s =
     (case os_ReadFull f walRecordHeaderSize of (f1, header, e) \<Rightarrow>
        if e = Some EOF \<or> e = Some ErrUnexpectedEOF then (s, None)
        else if e \<noteq> None then (s, Some (Inl (WalIO (the e))))
        else
          let chk = get_u32 header; keyLen = unat (get_u32 (drop 4 header)); valueLen = unat (get_u32 (drop 8 header)) in
          (case os_ReadFull f1 (keyLen + valueLen) of (f2, body, e) \<Rightarrow>
             if e = Some EOF \<or> e = Some ErrUnexpectedEOF then (s, None)
             else if e \<noteq> None then (s, Some (Inl (WalIO (the e))))
             else
               let payload = put_u32 (of_nat keyLen) @ put_u32 (of_nat valueLen) @ body in
               if crc32_checksum payload \<noteq> chk then (s, Some (Inl WalMismatch))
               else (case fn s (subslice payload 8 (8 + keyLen)) (drop (8 + keyLen) payload) of
                       (s', Some e) \<Rightarrow> (s', Some (Inr e))
                     | (s', None) \<Rightarrow> replay_loop fn f2 s')))"
  by pat_completeness auto
termination
proof (relation "measure (\<lambda>(fn, f, s). length (fData f) - fPos f)")
  fix fn :: "'s \<Rightarrow> bytes \<Rightarrow> bytes \<Rightarrow> 's \<times> 'e option" and f s x f1 y header e chk keyLen valueLen z f2 w body e2 payload u s' o'
  assume a: "(f1, y) = os_ReadFull f walRecordHeaderSize" "(header, e) = y" "\<not> (e = Some EOF \<or> e = Some ErrUnexpectedEOF)" "\<not> e \<noteq> None"
    "(f2, w) = os_ReadFull f1 (keyLen + valueLen)" "(body, e2) = w" "\<not> (e2 = Some EOF \<or> e2 = Some ErrUnexpectedEOF)" "\<not> e2 \<noteq> None"
  have "os_ReadFull f walRecordHeaderSize = (f1, header, None)" "os_ReadFull f1 (keyLen + valueLen) = (f2, body, None)" using a by auto
  note r = os_ReadFull_advances [OF this(1)] os_ReadFull_advances [OF this(2)]
  have "fPos f < fPos f2" "fPos f < length (fData f)" "fData f2 = fData f" using r by (simp_all add: walRecordHeaderSize_def)
  then show "((fn, f2, s'), fn, f, s) \<in> measure (\<lambda>(fn, f, s). length (fData f) - fPos f)" by simp
qed simp

declare replay_loop.simps [simp del]

definition replayWAL :: "(bytes \<times> device) option \<Rightarrow> ('s \<Rightarrow> bytes \<Rightarrow> bytes \<Rightarrow> 's \<times> 'e option) \<Rightarrow> 's \<Rightarrow> 's \<times> (wal_error + 'e) option" where
  "replayWAL content fn s =
     (case content of
        None \<Rightarrow> (s, Some (Inl (WalIO ENoent)))
      | Some (data, dev) \<Rightarrow>
          if devCreate dev then (s, Some (Inl (WalIO EIO)))
          else replay_loop fn \<lparr>fData = data, fPos = 0, fOpen = True, fDev = dev\<rparr> s)"

section \<open>Batches\<close>

text \<open>One record written into the batch buffer at \<open>ptr\<close>.\<close>

definition put_record :: "bytes \<Rightarrow> nat \<Rightarrow> walBatchEntry \<Rightarrow> bytes option" where
  "put_record records ptr entry =
     (let key = fst entry; val = snd entry; recordSize = walRecordHeaderSize + length key + length val in
      do { records \<leftarrow> overlay records (ptr + 4) (put_u32 (of_nat (length key)));
           records \<leftarrow> overlay records (ptr + 8) (put_u32 (of_nat (length val)));
           records \<leftarrow> copy_at records (ptr + walRecordHeaderSize) key;
           records \<leftarrow> copy_at records (ptr + walRecordHeaderSize + length key) val;
           overlay records ptr (put_u32 (crc32_checksum (subslice records (ptr + 4) (ptr + recordSize)))) })"

fun fill_records :: "bytes \<Rightarrow> nat \<Rightarrow> walBatchEntry list \<Rightarrow> bytes option" where
  "fill_records records ptr [] = Some records"
| "fill_records records ptr (entry # es) =
     do { records \<leftarrow> put_record records ptr entry;
          fill_records records (ptr + (walRecordHeaderSize + length (fst entry) + length (snd entry))) es }"

definition batch_size :: "walBatchEntry list \<Rightarrow> nat" where
  "batch_size es = sum_list (map (\<lambda>entry. walRecordHeaderSize + length (fst entry) + length (snd entry)) es)"

function writeAll :: "osfile \<Rightarrow> bytes \<Rightarrow> osfile \<times> io_error option" where
  "writeAll f data =
     (if data = [] then (f, None)
      else case os_Write f data of (f', n, e) \<Rightarrow>
        if e \<noteq> None then (f', e) else if n = 0 then (f', Some ErrShortWrite) else writeAll f' (drop n data))"
  by pat_completeness auto
termination
  by (relation "measure (\<lambda>(f, data). length data)") auto

declare writeAll.simps [simp del]

definition flushAndSyncLocked :: "wal \<Rightarrow> wal \<times> io_error option" where
  "flushAndSyncLocked w =
     (let b = (if bwBuf (wBw w) \<noteq> [] then bw_Flush (wBw w) else wBw w) in
      if bwBuf (wBw w) \<noteq> [] \<and> bwErr b \<noteq> None then (w\<lparr>wBw := b\<rparr>, bwErr b)
      else case os_Sync (bwFile b) of
        Some e \<Rightarrow> (w\<lparr>wBw := b\<rparr>, Some e)
      | None \<Rightarrow> (w\<lparr>wBw := b, syncCount := syncCount w + 1\<rparr>, None))"

definition writeAndSyncRecordLocked :: "wal \<Rightarrow> bytes \<Rightarrow> wal \<times> io_error option" where
  "writeAndSyncRecordLocked w record =
     (case writeAll (bwFile (wBw w)) record of (f, e) \<Rightarrow>
        let w1 = w\<lparr>wBw := (wBw w)\<lparr>bwFile := f\<rparr>\<rparr> in
        if e \<noteq> None then (w1, e)
        else case os_Sync f of Some e \<Rightarrow> (w1, Some e) | None \<Rightarrow> (w1\<lparr>syncCount := syncCount w + 1\<rparr>, None))"

datatype batch_result = Returned "wal_error option" | Waiting u64

definition appendBatch :: "wal \<Rightarrow> walBatchEntry list \<Rightarrow> bool \<Rightarrow> (wal \<times> batch_result) option" where
  "appendBatch w es waitForSync =
     (if es = [] then Some (w, Returned None)
      else if walClosed w then Some (w, Returned (Some WalClosed))
      else case syncErr w of
        Some e \<Rightarrow> Some (w, Returned (Some (WalIO e)))
      | None \<Rightarrow>
          let total = batch_size es;
              scratch = (if length (wScratch w) < total then replicate total 0 else wScratch w) in
          do { records \<leftarrow> fill_records (take total scratch) 0 es;
               let w1 = w\<lparr>wScratch := records @ drop total scratch, wPending := wPending w + of_nat (length es)\<rparr>;
               if syncInterval w \<le> 0
               then Some (case writeAndSyncRecordLocked w1 records of
                      (w2, Some e) \<Rightarrow> (w2\<lparr>syncErr := Some e\<rparr>, Returned (Some (WalIO e)))
                    | (w2, None) \<Rightarrow> (w2\<lparr>wDurable := wPending w2\<rparr>, Returned None))
               else
                 let b = bw_Write (wBw w1) records in
                 if bwErr b \<noteq> None then Some (w1\<lparr>wBw := b\<rparr>, Returned (Some (WalIO (the (bwErr b)))))
                 else Some (w1\<lparr>wBw := b, wakeCh := True\<rparr>, if waitForSync then Waiting (wPending w1) else Returned None) })"

definition appendPut :: "wal \<Rightarrow> bytes \<Rightarrow> bytes \<Rightarrow> (wal \<times> batch_result) option" where
  "appendPut w key val = appendBatch w [(key, val)] True"

definition wait_done :: "wal \<Rightarrow> u64 \<Rightarrow> bool" where
  "wait_done w target \<longleftrightarrow> \<not> (wDurable w < target \<and> syncErr w = None \<and> \<not> walClosed w)"

definition wait_result :: "wal \<Rightarrow> u64 \<Rightarrow> wal_error option" where
  "wait_result w target =
     (case syncErr w of Some e \<Rightarrow> Some (WalIO e) | None \<Rightarrow> if wDurable w < target then Some WalNotDurable else None)"

section \<open>The sync loop and close\<close>

definition flush_pending :: "wal \<Rightarrow> wal" where
  "flush_pending w =
     (if wDurable w < wPending w \<and> syncErr w = None
      then (case flushAndSyncLocked w of
              (w', Some e) \<Rightarrow> w'\<lparr>syncErr := Some e\<rparr>
            | (w', None) \<Rightarrow> w'\<lparr>wDurable := wPending w'\<rparr>)
      else w)"

text \<open>The cases of the select: the log, whether the timer runs, whether the loop goes on.\<close>

definition loop_wake :: "wal \<times> bool \<Rightarrow> (wal \<times> bool) \<times> bool" where
  "loop_wake s = ((fst s\<lparr>wakeCh := False\<rparr>, True), True)"

definition loop_timer :: "wal \<times> bool \<Rightarrow> (wal \<times> bool) \<times> bool" where
  "loop_timer s = (let w = flush_pending (fst s) in ((w, False), \<not> walClosed w))"

definition loop_close :: "wal \<times> bool \<Rightarrow> (wal \<times> bool) \<times> bool" where
  "loop_close s = ((flush_pending (fst s\<lparr>closeCh := False\<rparr>), False), False)"

text \<open>Closing the file; the error of an earlier sync goes first.\<close>

definition close_file :: "wal \<Rightarrow> wal \<times> io_error option" where
  "close_file w =
     (case os_Close (bwFile (wBw w)) of (f, e) \<Rightarrow>
        (w\<lparr>wHasFile := False, wBw := (wBw w)\<lparr>bwFile := f\<rparr>\<rparr>, if syncErr w = None then e else syncErr w))"

text \<open>\<open>close\<close> without a sync loop, and the part of \<open>close\<close> before it waits for the loop to end.\<close>

definition close_direct :: "wal \<Rightarrow> wal \<times> io_error option" where
  "close_direct w =
     (if \<not> wHasFile w then (w, None)
      else
        let w1 = (if wDurable w < wPending w \<and> syncErr w = None
                  then (case flushAndSyncLocked w of
                          (w', Some e) \<Rightarrow> w'\<lparr>syncErr := Some e, wDurable := wPending w'\<rparr>
                        | (w', None) \<Rightarrow> w'\<lparr>wDurable := wPending w'\<rparr>)
                  else w) in
        close_file (w1\<lparr>walClosed := True\<rparr>))"

definition close_begin :: "wal \<Rightarrow> wal" where
  "close_begin w = w\<lparr>walClosed := True, closeCh := True\<rparr>"

definition syncCountValue :: "wal \<Rightarrow> u64" where
  "syncCountValue w = syncCount w"

section \<open>Encoding a batch\<close>

lemma put_record_spec:
  assumes "length m = walRecordHeaderSize + length (fst entry) + length (snd entry)"
  shows "put_record (pre @ m @ post) (length pre) entry = Some (pre @ enc_rec entry @ post)"
proof -
  obtain key val where e: "entry = (key, val)" by (cases entry)
  define a b c k v where "a = take 4 m" "b = take 4 (drop 4 m)" "c = take 4 (drop 8 m)" "k = take (length key) (drop 12 m)"
    "v = drop (12 + length key) m"
  have len: "length m = 12 + length key + length val" using assms e by (simp add: walRecordHeaderSize_def)
  then have l: "length a = 4" "length b = 4" "length c = 4" "length k = length key" "length v = length val"
    by (simp_all add: a_b_c_k_v_def)
  have "m = a @ b @ c @ k @ v" unfolding a_b_c_k_v_def by (simp add: take_drop_glue)
  then have m: "pre @ m @ post = pre @ a @ b @ c @ k @ v @ post" by simp
  let ?kl = "put_u32 (of_nat (length key))" and ?vl = "put_u32 (of_nat (length val))"
  let ?crc = "put_u32 (crc32_checksum (rec_payload key val))"
  have "overlay ((pre @ a) @ b @ c @ k @ v @ post) (length pre + 4) ?kl = Some ((pre @ a) @ ?kl @ c @ k @ v @ post)"
    by (rule overlay_fit) (simp_all add: l)
  note 1 = this [unfolded append_assoc, folded m]
  have "overlay ((pre @ a @ ?kl) @ c @ k @ v @ post) (length pre + 8) ?vl = Some ((pre @ a @ ?kl) @ ?vl @ k @ v @ post)"
    by (rule overlay_fit) (simp_all add: l)
  note 2 = this [unfolded append_assoc]
  have "copy_at ((pre @ a @ ?kl @ ?vl) @ k @ v @ post) (length pre + 12) key = Some ((pre @ a @ ?kl @ ?vl) @ key @ v @ post)"
    by (rule copy_at_fit) (simp_all add: l)
  note 3 = this [unfolded append_assoc]
  have "copy_at ((pre @ a @ ?kl @ ?vl @ key) @ v @ post) (length pre + 12 + length key) val = Some ((pre @ a @ ?kl @ ?vl @ key) @ val @ post)"
    by (rule copy_at_fit) (simp_all add: l)
  note 4 = this [unfolded append_assoc]
  have "subslice ((pre @ a) @ (?kl @ ?vl @ key @ val) @ post) (length (pre @ a)) (length (pre @ a) + length (?kl @ ?vl @ key @ val)) = ?kl @ ?vl @ key @ val"
    by (rule subslice_middle)
  then have 5: "subslice (pre @ a @ ?kl @ ?vl @ key @ val @ post) (length pre + 4) (length pre + (12 + length key + length val)) = rec_payload key val"
    using l(1) by (simp add: rec_payload_def add.assoc)
  have "overlay (pre @ a @ ?kl @ ?vl @ key @ val @ post) (length pre) ?crc = Some (pre @ ?crc @ ?kl @ ?vl @ key @ val @ post)"
    by (rule overlay_fit) (simp_all add: l)
  then have 6: "overlay (pre @ a @ ?kl @ ?vl @ key @ val @ post) (length pre) ?crc = Some (pre @ enc_rec (key, val) @ post)"
    by (simp add: enc_rec_def rec_payload_def)
  have rh: "walRecordHeaderSize = 12" by (simp add: walRecordHeaderSize_def)
  show ?thesis by (simp only: put_record_def e fst_conv snd_conv Let_def rh 1 2 3 4 5 6 Option.bind.simps)
qed

lemma fill_records_spec:
  "length m = batch_size es \<Longrightarrow> fill_records (pre @ m) (length pre) es = Some (pre @ concat (map enc_rec es))"
proof (induction es arbitrary: pre m)
  case (Cons entry es)
  let ?n = "walRecordHeaderSize + length (fst entry) + length (snd entry)"
  have len: "length m = ?n + batch_size es" using Cons.prems by (simp add: batch_size_def)
  have "put_record (pre @ take ?n m @ drop ?n m) (length pre) entry = Some (pre @ enc_rec entry @ drop ?n m)"
    using len by (intro put_record_spec) simp
  moreover have "fill_records ((pre @ enc_rec entry) @ drop ?n m) (length (pre @ enc_rec entry)) es =
      Some ((pre @ enc_rec entry) @ concat (map enc_rec es))"
    using len by (intro Cons.IH) simp
  ultimately show ?case by (simp add: walRecordHeaderSize_def add.commute add.left_commute)
qed (simp add: batch_size_def)

lemma fill_batch: "length scratch \<ge> batch_size es \<Longrightarrow> fill_records (take (batch_size es) scratch) 0 es = Some (concat (map enc_rec es))"
  using fill_records_spec [of "take (batch_size es) scratch" es "[]"] by simp

section \<open>Replay\<close>

fun run_callback :: "('s \<Rightarrow> bytes \<Rightarrow> bytes \<Rightarrow> 's \<times> 'e option) \<Rightarrow> (bytes \<times> bytes) list \<Rightarrow> 's \<Rightarrow> 's \<times> 'e option" where
  "run_callback fn [] s = (s, None)"
| "run_callback fn ((k, v) # rs) s = (case fn s k v of (s', Some e) \<Rightarrow> (s', Some e) | (s', None) \<Rightarrow> run_callback fn rs s')"

lemma replay_step:
  assumes f: "fOpen f" "good_device (fDev f)"
  shows "replay_loop fn f s =
    (case parse_rec (drop (fPos f) (fData f)) of
       Torn \<Rightarrow> (s, None)
     | BadSum \<Rightarrow> (s, Some (Inl WalMismatch))
     | Rec k v \<Rightarrow> (case fn s k v of
         (s', Some e) \<Rightarrow> (s', Some (Inr e))
       | (s', None) \<Rightarrow> replay_loop fn (f\<lparr>fPos := fPos f + frame_len (drop (fPos f) (fData f))\<rparr>) s'))"
proof -
  let ?d = "drop (fPos f) (fData f)"
  define k v where kv: "k = unat (get_u32 (drop 4 ?d))" "v = unat (get_u32 (drop 8 ?d))"
  have u: "\<not> devUnread (fDev f) n" for n using f(2) by (simp add: good_device_def)
  have rh: "walRecordHeaderSize = 12" by (simp add: walRecordHeaderSize_def)
  show ?thesis
  proof (cases "length ?d < 12")
    case True
    then have "snd (snd (os_ReadFull f 12)) \<in> {Some EOF, Some ErrUnexpectedEOF}" using f u by (simp add: os_ReadFull_def Let_def)
    then show ?thesis using True by (cases "os_ReadFull f 12") (auto simp: replay_loop.simps [of fn f] parse_rec_def rh)
  next
    case False
    let ?f1 = "f\<lparr>fPos := fPos f + 12\<rparr>"
    have h: "os_ReadFull f 12 = (?f1, take 12 ?d, None)" using False f u by (auto simp: os_ReadFull_def Let_def)
    have hf: "get_u32 (take 12 ?d) = get_u32 ?d" "get_u32 (drop 4 (take 12 ?d)) = get_u32 (drop 4 ?d)" "get_u32 (drop 8 (take 12 ?d)) = get_u32 (drop 8 ?d)"
      by (simp_all add: get_u32_def drop_take min_def)
    have e: "drop (fPos f + 12) (fData f) = drop 12 ?d" by (simp add: add.commute)
    show ?thesis
    proof (cases "length ?d < 12 + k + v")
      case short: True
      then have "snd (snd (os_ReadFull ?f1 (k + v))) \<in> {Some EOF, Some ErrUnexpectedEOF}"
        using f u False by (auto simp: os_ReadFull_def Let_def)
      moreover have "parse_rec ?d = Torn" using short False by (simp add: parse_rec_def Let_def kv)
      ultimately show ?thesis using h hf kv
        by (cases "os_ReadFull ?f1 (k + v)") (auto simp: replay_loop.simps [of fn f] rh)
    next
      case fits: False
      let ?f2 = "f\<lparr>fPos := fPos f + (12 + k + v)\<rparr>"
      have b: "os_ReadFull ?f1 (k + v) = (?f2, take (k + v) (drop 12 ?d), None)"
        using fits False f u e by (auto simp: os_ReadFull_def Let_def add.assoc)
      let ?P = "put_u32 (of_nat k) @ put_u32 (of_nat v) @ take (k + v) (drop 12 ?d)"
      have "put_u32 (of_nat k) = take 4 (drop 4 ?d)" "put_u32 (of_nat v) = take 4 (drop 8 ?d)"
        using put_get_int(2) [of "take 4 (drop 4 ?d)"] put_get_int(2) [of "take 4 (drop 8 ?d)"] False by (simp_all add: kv get_u32_def)
      moreover have "subslice ?d 4 (12 + k + v) = take 4 (drop 4 ?d) @ take 4 (drop 8 ?d) @ take (k + v) (drop 12 ?d)"
      proof -
        have "take (4 + (4 + (k + v))) (drop 4 ?d) = take 4 (drop 4 ?d) @ take 4 (drop 4 (drop 4 ?d)) @ take (k + v) (drop 4 (drop 4 (drop 4 ?d)))"
          by (simp only: take_add)
        then show ?thesis by (simp add: subslice_def add.assoc add.left_commute [of _ "fPos f"] add.commute [of _ "fPos f"])
      qed
      ultimately have P: "?P = subslice ?d 4 (12 + k + v)" by simp
      have parts: "subslice ?P 8 (8 + k) = subslice ?d 12 (12 + k)" "drop (8 + k) ?P = subslice ?d (12 + k) (12 + k + v)"
        using fits by (simp_all add: subslice_def drop_take min_def add.commute add.left_commute)
      have p: "parse_rec ?d = (if crc32_checksum (subslice ?d 4 (12 + k + v)) \<noteq> get_u32 ?d then BadSum
          else Rec (subslice ?d 12 (12 + k)) (subslice ?d (12 + k) (12 + k + v)))"
        using False fits kv by (simp add: parse_rec_def Let_def)
      have fl: "frame_len ?d = 12 + k + v" by (simp add: frame_len_def kv)
      show ?thesis
        by (subst replay_loop.simps) (simp only: rh h b hf kv [symmetric] P parts [unfolded P] p fl prod.case Let_def option.distinct simp_thms if_False frame.case if_distrib [of "case_frame _ _ _"])
    qed
  qed
qed

lemma replay_spec:
  assumes "fOpen f" "good_device (fDev f)" "split_records (drop (fPos f) (fData f)) = (rs, rest)"
  shows "replay_loop fn f s =
    (case run_callback fn rs s of
       (s', Some e) \<Rightarrow> (s', Some (Inr e))
     | (s', None) \<Rightarrow> (s', if parse_rec rest = BadSum then Some (Inl WalMismatch) else None))"
  using assms
proof (induction rs arbitrary: f s)
  case Nil
  let ?d = "drop (fPos f) (fData f)"
  have "\<nexists>k v. parse_rec ?d = Rec k v" using Nil(3) by (auto simp: split_records_Rec split: prod.splits)
  moreover from this have "rest = ?d" using Nil(3) split_records_stop [of ?d] by simp
  ultimately show ?case using replay_step [OF Nil(1,2)] by (cases "parse_rec ?d") auto
next
  case (Cons r rs)
  let ?d = "drop (fPos f) (fData f)"
  have "\<exists>k v. parse_rec ?d = Rec k v" using Cons.prems(3) split_records_stop [of ?d] by force
  then obtain k v where p: "parse_rec ?d = Rec k v" by blast
  have r: "r = (k, v)" and rs: "split_records (drop (frame_len ?d) ?d) = (rs, rest)"
    using Cons.prems(3) by (auto simp: split_records_Rec [OF p] split: prod.splits)
  let ?f = "f\<lparr>fPos := fPos f + frame_len ?d\<rparr>"
  have "replay_loop fn ?f s' = (case run_callback fn rs s' of (s'', Some e) \<Rightarrow> (s'', Some (Inr e))
      | (s'', None) \<Rightarrow> (s'', if parse_rec rest = BadSum then Some (Inl WalMismatch) else None))" for s'
    using Cons.prems(1,2) rs by (intro Cons.IH) (simp_all add: add.commute)
  then show ?case using replay_step [OF Cons.prems(1,2), of fn s] p r by (cases "fn s k v") (auto split: option.split)
qed

lemma run_callback_append:
  "run_callback fn (xs @ ys) s = (case run_callback fn xs s of (s', Some e) \<Rightarrow> (s', Some e) | (s', None) \<Rightarrow> run_callback fn ys s')"
  by (induction fn xs s rule: run_callback.induct) (auto split: prod.splits option.splits)

text \<open>
  C18: On a readable log file, replay calls its function on exactly the whole records at the front of the
  file, in order, and stops at the first error of the function. Behind them a torn record, or nothing,
  ends the replay without an error, and a whole record with a wrong checksum is reported.
\<close>
theorem replayWAL_exact:
  assumes "good_device dev"
  shows "\<exists>rs rest. list_all rec_ok rs \<and> data = concat (map enc_rec rs) @ rest \<and> (\<forall>k v. parse_rec rest \<noteq> Rec k v) \<and>
    replayWAL (Some (data, dev)) fn s =
      (case run_callback fn rs s of
         (s', Some e) \<Rightarrow> (s', Some (Inr e))
       | (s', None) \<Rightarrow> (s', if parse_rec rest = BadSum then Some (Inl WalMismatch) else None))"
proof -
  obtain rs rest where sp: "split_records data = (rs, rest)" by fastforce
  let ?f = "\<lparr>fData = data, fPos = 0, fOpen = True, fDev = dev\<rparr>"
  have "replayWAL (Some (data, dev)) fn s = replay_loop fn ?f s" using assms by (simp add: replayWAL_def good_device_def)
  then show ?thesis using replay_spec [of ?f rs rest fn s] split_records_inv [OF sp] sp assms by auto
qed

lemma replayWAL_exact_witness:
  "replayWAL (Some ([7], perfect_device)) (\<lambda>n k v. (Suc n, None :: unit option)) 0 = (0, None)"
proof -
  obtain rs rest where r: "[7] = concat (map enc_rec rs) @ rest" and e: "replayWAL (Some ([7], perfect_device)) (\<lambda>n k v. (Suc n, None :: unit option)) 0 =
      (case run_callback (\<lambda>n k v. (Suc n, None :: unit option)) rs 0 of (s', Some e) \<Rightarrow> (s', Some (Inr e))
       | (s', None) \<Rightarrow> (s', if parse_rec rest = BadSum then Some (Inl WalMismatch) else None))"
    using replayWAL_exact [OF good_perfect, of "[7]" "\<lambda>n k v. (Suc n, None :: unit option)" 0] by blast
  have "length (concat (map enc_rec rs) @ rest) = 1" unfolding r [symmetric] by simp
  then have rs: "rs = []" by (cases rs) auto
  then have "rest = [7]" using r by simp
  moreover have "parse_rec [7] = Torn" by (simp add: parse_rec_def)
  ultimately show ?thesis using rs e by simp
qed

end
