(* ===== verification/Wal_Durability.thy ===== *)
theory Wal_Durability
  imports Wal
begin

text \<open>
  The write-ahead log as a concurrent system: writers that append batches and wait, the sync loop, a
  closer, and a device that may start or stop failing at any moment. A step is what one goroutine does
  between two points where it can be interrupted.

  Besides the log the state has the loop's timer, whether the loop still runs, and what cannot be seen
  by the program: the entries accepted so far (\<open>sLog\<close>), the bytes known to be on stable storage (\<open>sDisk\<close>,
  the file at the last successful sync), the waiting writers with the number of entries each of them
  needs, and how many entries have been acknowledged (\<open>sAcked\<close>).

  The lemmas: acknowledged entries are on stable storage at every moment, so that replay after a crash
  finds them, whatever the device does; and no waiting writer is left behind by the loop.
\<close>

section \<open>The system\<close>

record sys =
  sWal :: wal
  sTimer :: bool
  sRun :: bool
  sLog :: "walBatchEntry list"
  sDisk :: bytes
  sWaiters :: "(u64 \<times> nat) list"
  sAcked :: nat

definition synced :: "sys \<Rightarrow> wal \<Rightarrow> bytes" where
  "synced s w = (if syncCount w = syncCount (sWal s) then sDisk s else fData (bwFile (wBw w)))"

abbreviation set_dev :: "device \<Rightarrow> wal \<Rightarrow> wal" where
  "set_dev d w \<equiv> w\<lparr>wBw := (wBw w)\<lparr>bwFile := (bwFile (wBw w))\<lparr>fDev := d\<rparr>\<rparr>\<rparr>"

text \<open>What a batch adds to the entries of the log: all of it when the call succeeds or waits.\<close>

fun accepted :: "batch_result \<Rightarrow> walBatchEntry list \<Rightarrow> walBatchEntry list" where
  "accepted (Returned None) es = es"
| "accepted (Returned (Some e)) es = []"
| "accepted (Waiting t) es = es"

inductive wal_step :: "sys \<Rightarrow> sys \<Rightarrow> bool" where
  device: "wal_step s (s\<lparr>sWal := set_dev d (sWal s)\<rparr>)"
| append_batch:
    "appendBatch (sWal s) es waitForSync = Some (w, r) \<Longrightarrow> list_all rec_ok es \<Longrightarrow>
     unat (wPending (sWal s)) + length es < 2 ^ 64 \<Longrightarrow>
     wal_step s (s\<lparr>sWal := w, sDisk := synced s w, sLog := sLog s @ accepted r es,
       sWaiters := (case r of Waiting t \<Rightarrow> (t, length (sLog s @ es)) # sWaiters s | _ \<Rightarrow> sWaiters s),
       sAcked := (if r = Returned None \<and> waitForSync \<and> es \<noteq> [] then length (sLog s @ es) else sAcked s)\<rparr>)"
| wake_up:
    "(t, n) \<in> set (sWaiters s) \<Longrightarrow> wait_done (sWal s) t \<Longrightarrow>
     wal_step s (s\<lparr>sWaiters := remove1 (t, n) (sWaiters s),
       sAcked := (if wait_result (sWal s) t = None then max (sAcked s) n else sAcked s)\<rparr>)"
| wake:
    "sRun s \<Longrightarrow> wakeCh (sWal s) \<Longrightarrow> loop_wake (sWal s, sTimer s) = ((w, tm), run) \<Longrightarrow>
     wal_step s (s\<lparr>sWal := w, sTimer := tm, sRun := run\<rparr>)"
| timer:
    "sRun s \<Longrightarrow> sTimer s \<Longrightarrow> loop_timer (sWal s, sTimer s) = ((w, tm), run) \<Longrightarrow>
     wal_step s (s\<lparr>sWal := w, sTimer := tm, sRun := run, sDisk := synced s w\<rparr>)"
| close_signal:
    "sRun s \<Longrightarrow> closeCh (sWal s) \<Longrightarrow> loop_close (sWal s, sTimer s) = ((w, tm), run) \<Longrightarrow>
     wal_step s (s\<lparr>sWal := w, sTimer := tm, sRun := run, sDisk := synced s w\<rparr>)"
| close_start:
    "0 < syncInterval (sWal s) \<Longrightarrow> wHasFile (sWal s) \<Longrightarrow> wal_step s (s\<lparr>sWal := close_begin (sWal s)\<rparr>)"
| close_finish:
    "0 < syncInterval (sWal s) \<Longrightarrow> walClosed (sWal s) \<Longrightarrow> \<not> sRun s \<Longrightarrow> wHasFile (sWal s) \<Longrightarrow> close_file (sWal s) = (w, e) \<Longrightarrow>
     wal_step s (s\<lparr>sWal := w\<rparr>)"
| close_sync:
    "syncInterval (sWal s) \<le> 0 \<Longrightarrow> close_direct (sWal s) = (w, e) \<Longrightarrow> wal_step s (s\<lparr>sWal := w, sDisk := synced s w\<rparr>)"

definition wal_init :: "env \<Rightarrow> int \<Rightarrow> sys \<Rightarrow> bool" where
  "wal_init ev interval s \<longleftrightarrow>
     (\<exists>w. createWAL ev interval = Inr w \<and>
        s = \<lparr>sWal = w, sTimer = False, sRun = (0 < interval), sLog = [], sDisk = [], sWaiters = [], sAcked = 0\<rparr>)"

inductive wal_reach :: "env \<Rightarrow> int \<Rightarrow> sys \<Rightarrow> bool" for ev interval where
  init: "wal_init ev interval s \<Longrightarrow> wal_reach ev interval s"
| step: "wal_reach ev interval s \<Longrightarrow> wal_step s s' \<Longrightarrow> wal_reach ev interval s'"

section \<open>The core invariant\<close>

abbreviation encs :: "walBatchEntry list \<Rightarrow> bytes" where "encs es \<equiv> concat (map enc_rec es)"

definition core :: "wal \<Rightarrow> walBatchEntry list \<Rightarrow> bytes \<Rightarrow> bool" where
  "core w L D \<longleftrightarrow> at_end (bwFile (wBw w)) \<and> prefix (encs L) (bw_all (wBw w)) \<and>
     (bwErr (wBw w) = None \<and> syncErr w = None \<longrightarrow> bw_all (wBw w) = encs L \<and> unat (wPending w) = length L) \<and>
     prefix (encs (take (unat (wDurable w)) L)) D \<and> length L \<le> unat (wPending w) \<and> wDurable w \<le> wPending w \<and>
     (syncInterval w \<le> 0 \<longrightarrow> bwBuf (wBw w) = [] \<and> bwErr (wBw w) = None \<and> (syncErr w = None \<longrightarrow> wDurable w = wPending w))"

lemma writeAll_end:
  assumes "at_end f" "writeAll f d = (f', e)"
  shows "at_end f' \<and> (\<exists>q. fData f' = fData f @ q) \<and> (e = None \<longrightarrow> fData f' = fData f @ d)"
proof (cases "d = []")
  case False
  obtain g n e' where g: "os_Write f d = (g, n, e')" by (cases "os_Write f d")
  note o = os_Write_end [OF assms(1) g]
  then show ?thesis using assms(2) g False by (cases e') (auto simp: writeAll.simps [of f d] writeAll.simps [of g "[]"])
qed (use assms in \<open>simp add: writeAll.simps [of f "[]"]\<close>)

lemma flush_no_err: "at_end (bwFile b) \<Longrightarrow> bwErr (bw_Flush b) = None \<Longrightarrow> bwErr b = None"
  using bw_Flush_end(4) [of b] by (cases "bwErr b") auto

lemma flushAndSync_end:
  assumes "at_end (bwFile (wBw w))" "flushAndSyncLocked w = (w', e)"
  shows "\<exists>b. w' = w\<lparr>wBw := b, syncCount := (if e = None then syncCount w + 1 else syncCount w)\<rparr> \<and> at_end (bwFile b) \<and> bw_all b = bw_all (wBw w) \<and>
    (e = None \<longrightarrow> bwBuf b = []) \<and> (bwErr b = None \<longrightarrow> bwErr (wBw w) = None) \<and> (bwBuf (wBw w) = [] \<longrightarrow> b = wBw w)"
proof -
  define b where "b = (if bwBuf (wBw w) \<noteq> [] then bw_Flush (wBw w) else wBw w)"
  note fl = bw_Flush_end [OF assms(1)]
  have b: "at_end (bwFile b)" "bw_all b = bw_all (wBw w)" "bwErr b = None \<longrightarrow> bwBuf b = [] \<and> bwErr (wBw w) = None \<or> bwBuf (wBw w) = [] \<and> b = wBw w"
    using fl(1-3) flush_no_err [OF assms(1)] assms(1) by (auto simp: b_def)
  have "w' = w\<lparr>wBw := b, syncCount := (if e = None then syncCount w + 1 else syncCount w)\<rparr> \<and> (e = None \<longrightarrow> bwBuf b = [])"
  proof -
    have "flushAndSyncLocked w = (if bwBuf (wBw w) \<noteq> [] \<and> bwErr b \<noteq> None then (w\<lparr>wBw := b\<rparr>, bwErr b)
      else case os_Sync (bwFile b) of Some e \<Rightarrow> (w\<lparr>wBw := b\<rparr>, Some e) | None \<Rightarrow> (w\<lparr>wBw := b, syncCount := syncCount w + 1\<rparr>, None))"
      by (simp only: flushAndSyncLocked_def b_def Let_def)
    moreover have "bwBuf (wBw w) = [] \<longrightarrow> bwBuf b = []" by (simp add: b_def)
    ultimately show ?thesis using assms(2) b(3) by (auto split: if_splits option.splits)
  qed
  moreover have "bwErr b = None \<longrightarrow> bwErr (wBw w) = None" using flush_no_err [OF assms(1)] by (simp add: b_def)
  moreover have "bwBuf (wBw w) = [] \<longrightarrow> b = wBw w" by (simp add: b_def)
  ultimately show ?thesis using b(1,2) by (intro exI [of _ b]) (elim conjE, intro conjI)
qed

lemma bw_Write_sticky: "bwErr b \<noteq> None \<Longrightarrow> bwErr (bw_Write b p) \<noteq> None"
  by (auto simp: bw_Write_def bw_loop.simps [of b p])

lemma encs_take: "prefix (encs (take n L)) (encs L)"
  by (metis append_take_drop_id concat_append map_append prefixI)

lemma flush_pending_core:
  assumes c: "core w L D"
  shows "core (flush_pending w) L (if syncCount (flush_pending w) = syncCount w then D else fData (bwFile (wBw (flush_pending w))))"
proof (cases "wDurable w < wPending w \<and> syncErr w = None")
  case True
  obtain w' e where w': "flushAndSyncLocked w = (w', e)" by fastforce
  have en: "at_end (bwFile (wBw w))" using c by (simp add: core_def)
  obtain b where b: "w' = w\<lparr>wBw := b, syncCount := (if e = None then syncCount w + 1 else syncCount w)\<rparr>" "at_end (bwFile b)" "bw_all b = bw_all (wBw w)"
    "e = None \<longrightarrow> bwBuf b = []" "bwErr b = None \<longrightarrow> bwErr (wBw w) = None" "bwBuf (wBw w) = [] \<longrightarrow> b = wBw w"
    using flushAndSync_end [OF en w'] by (elim exE conjE)
  show ?thesis
  proof (cases e)
    case None
    then have fp: "flush_pending w = w\<lparr>wBw := b, syncCount := syncCount w + 1, wDurable := wPending w\<rparr>" using True w' b(1) by (simp add: flush_pending_def)
    have "fData (bwFile b) = bw_all b" using b(4) None by (simp add: bw_all_def)
    then have "prefix (encs L) (fData (bwFile b))" using c b(3) by (simp add: core_def)
    then have "prefix (encs (take (unat (wPending w)) L)) (fData (bwFile b))" using encs_take prefix_order.trans by blast
    then show ?thesis unfolding fp using c b True by (simp add: core_def)
  next
    case (Some x)
    then have fp: "flush_pending w = w\<lparr>wBw := b, syncErr := Some x\<rparr>" using True w' b(1) by (simp add: flush_pending_def)
    show ?thesis unfolding fp using c b by (simp add: core_def)
  qed
qed (use c in \<open>auto simp: flush_pending_def\<close>)

lemma appendBatch_eq:
  assumes "es \<noteq> []" "\<not> walClosed w" "syncErr w = None"
  shows "\<exists>scr. appendBatch w es waitForSync = Some (let w1 = w\<lparr>wScratch := scr, wPending := wPending w + of_nat (length es)\<rparr> in
    if syncInterval w \<le> 0
    then (case writeAndSyncRecordLocked w1 (encs es) of
            (w2, Some e) \<Rightarrow> (w2\<lparr>syncErr := Some e\<rparr>, Returned (Some (WalIO e)))
          | (w2, None) \<Rightarrow> (w2\<lparr>wDurable := wPending w2\<rparr>, Returned None))
    else let b = bw_Write (wBw w) (encs es) in
      if bwErr b \<noteq> None then (w1\<lparr>wBw := b\<rparr>, Returned (Some (WalIO (the (bwErr b)))))
      else (w1\<lparr>wBw := b, wakeCh := True\<rparr>, if waitForSync then Waiting (wPending w1) else Returned None))"
proof -
  let ?s = "if length (wScratch w) < batch_size es then replicate (batch_size es) 0 else wScratch w"
  have "fill_records (take (batch_size es) ?s) 0 es = Some (encs es)" by (rule fill_batch) simp
  then show ?thesis using assms
    by (intro exI [of _ "encs es @ drop (batch_size es) ?s"]) (simp add: appendBatch_def Let_def split: prod.split option.split)
qed

text \<open>A batch in the three ways it can end once it has been encoded.\<close>

lemma append_sync_core:
  assumes c: "core w L D" and w: "syncErr w = None" "syncInterval w \<le> 0" and n: "unat (wPending w) + length es < 2 ^ 64"
    and r: "writeAndSyncRecordLocked (w\<lparr>wScratch := scr, wPending := wPending w + of_nat (length es)\<rparr>) (encs es) = (w2, e)"
  shows "case e of
      None \<Rightarrow> core (w2\<lparr>wDurable := wPending w2\<rparr>) (L @ es) (fData (bwFile (wBw w2))) \<and> syncCount w2 \<noteq> syncCount w \<and> unat (wPending w2) = length (L @ es)
    | Some x \<Rightarrow> core (w2\<lparr>syncErr := Some x\<rparr>) L D \<and> syncCount w2 = syncCount w"
proof -
  obtain f' e' where f': "writeAll (bwFile (wBw w)) (encs es) = (f', e')" by fastforce
  have en: "at_end (bwFile (wBw w))" "bwBuf (wBw w) = []" "bwErr (wBw w) = None" using c w(2) by (simp_all add: core_def)
  note wa = writeAll_end [OF en(1) f']
  have u: "unat (wPending w + of_nat (length es)) = unat (wPending w) + length es"
    using n unat_word_ariths(1) [of "wPending w" "of_nat (length es)"] by (simp add: unat_of_nat)
  have all: "fData (bwFile (wBw w)) = encs L" "unat (wPending w) = length L" using c en w by (simp_all add: core_def bw_all_def)
  let ?w = "w\<lparr>wScratch := scr, wPending := wPending w + of_nat (length es), wBw := (wBw w)\<lparr>bwFile := f'\<rparr>\<rparr>"
  show ?thesis
  proof (cases e)
    case None
    then have "e' = None" "w2 = ?w\<lparr>syncCount := syncCount w + 1\<rparr>"
      using r f' by (auto simp: writeAndSyncRecordLocked_def Let_def split: if_splits option.splits)
    then show ?thesis using None wa all en u by (simp add: core_def bw_all_def)
  next
    case (Some x)
    then have "w2 = ?w" using r f' by (auto simp: writeAndSyncRecordLocked_def Let_def split: if_splits option.splits)
    moreover have "prefix (encs L) (fData f')" using wa all by auto
    moreover have "wDurable w \<le> wPending w + of_nat (length es)" using c u by (simp add: core_def word_le_nat_alt)
    ultimately show ?thesis using Some c wa en u all by (simp add: core_def bw_all_def)
  qed
qed

lemma append_async_core:
  fixes scr :: bytes
  assumes c: "core w L D" and w: "syncErr w = None" "0 < syncInterval w" and n: "unat (wPending w) + length es < 2 ^ 64"
  defines "w1 \<equiv> w\<lparr>wScratch := scr, wPending := wPending w + of_nat (length es), wBw := bw_Write (wBw w) (encs es)\<rparr>"
  shows "bwErr (wBw w1) \<noteq> None \<Longrightarrow> core w1 L D"
    "bwErr (wBw w1) = None \<Longrightarrow> core (w1\<lparr>wakeCh := k\<rparr>) (L @ es) D \<and> unat (wPending w1) = length (L @ es)"
proof -
  have en: "at_end (bwFile (wBw w))" using c by (simp add: core_def)
  note bw = bw_Write_end [OF en, of "encs es"]
  have u: "unat (wPending w + of_nat (length es)) = unat (wPending w) + length es"
    using n unat_word_ariths(1) [of "wPending w" "of_nat (length es)"] by (simp add: unat_of_nat)
  then have le: "wDurable w \<le> wPending w + of_nat (length es)" using c by (simp add: core_def word_le_nat_alt)
  have pre: "prefix (encs L) (bw_all (bw_Write (wBw w) (encs es)))" using bw(2) c unfolding core_def prefix_def by fastforce
  show "bwErr (wBw w1) \<noteq> None \<Longrightarrow> core w1 L D" using c bw(1) pre u le w by (auto simp: core_def w1_def)
  assume ok: "bwErr (wBw w1) = None"
  then have "bwErr (wBw w) = None" using bw_Write_sticky [of "wBw w" "encs es"] by (cases "bwErr (wBw w)") (auto simp: w1_def)
  then have all: "bw_all (wBw w) = encs L" "unat (wPending w) = length L" using c w by (simp_all add: core_def)
  have "unat (wDurable w) \<le> length L" using c all(2) by (simp add: core_def word_le_nat_alt)
  then show "core (w1\<lparr>wakeCh := k\<rparr>) (L @ es) D \<and> unat (wPending w1) = length (L @ es)"
    using c bw(1) bw(3) ok all u le w by (simp add: core_def w1_def)
qed

section \<open>Every step keeps the invariant\<close>

definition sys_inv :: "sys \<Rightarrow> bool" where
  "sys_inv s \<longleftrightarrow> core (sWal s) (sLog s) (sDisk s) \<and> list_all rec_ok (sLog s) \<and>
     (\<forall>(t, n) \<in> set (sWaiters s). unat t = n \<and> n \<le> length (sLog s)) \<and>
     sAcked s \<le> length (sLog s) \<and> sAcked s \<le> unat (wDurable (sWal s)) \<and>
     (closeCh (sWal s) \<longrightarrow> walClosed (sWal s)) \<and> (syncInterval (sWal s) \<le> 0 \<longrightarrow> sWaiters s = []) \<and>
     (0 < syncInterval (sWal s) \<and> \<not> walClosed (sWal s) \<longrightarrow> sRun s) \<and>
     (\<forall>(t, n) \<in> set (sWaiters s). wait_done (sWal s) t \<or> wakeCh (sWal s) \<or> sTimer s)"

lemma flush_pending_frame:
  assumes "core w L D"
  shows "wDurable w \<le> wDurable (flush_pending w)" "walClosed (flush_pending w) = walClosed w" "syncInterval (flush_pending w) = syncInterval w"
    "closeCh (flush_pending w) = closeCh w" "wakeCh (flush_pending w) = wakeCh w" "wPending (flush_pending w) = wPending w"
    "fDev (bwFile (wBw (flush_pending w))) = fDev (bwFile (wBw w))"
    "unat t \<le> length L \<Longrightarrow> wait_done (flush_pending w) t"
proof -
  obtain w' e where w': "flushAndSyncLocked w = (w', e)" by fastforce
  have en: "at_end (bwFile (wBw w))" using assms by (simp add: core_def)
  obtain b where b: "w' = w\<lparr>wBw := b, syncCount := (if e = None then syncCount w + 1 else syncCount w)\<rparr>" using flushAndSync_end [OF en w'] by (elim exE conjE)
  show "wDurable w \<le> wDurable (flush_pending w)" "walClosed (flush_pending w) = walClosed w" "syncInterval (flush_pending w) = syncInterval w"
    "closeCh (flush_pending w) = closeCh w" "wakeCh (flush_pending w) = wakeCh w" "wPending (flush_pending w) = wPending w"
    using b w' by (auto simp: flush_pending_def split: option.split)
  have le: "length L \<le> unat (wPending w)" using assms by (simp add: core_def)
  show "wait_done (flush_pending w) t" if "unat t \<le> length L"
    using b w' that le by (auto simp: flush_pending_def wait_done_def word_less_nat_alt split: option.split)
  have "fDev (bwFile (bw_Flush c)) = fDev (bwFile c)" for c
    by (auto simp: bw_Flush_def os_Write_def os_WriteAt_def Let_def split: prod.splits option.splits if_splits)
  then show "fDev (bwFile (wBw (flush_pending w))) = fDev (bwFile (wBw w))"
    by (auto simp: flush_pending_def flushAndSyncLocked_def Let_def split: option.splits prod.splits if_splits)
qed

lemma core_cong:
  "at_end (bwFile b) \<Longrightarrow> bw_all b = bw_all (wBw w) \<Longrightarrow> bwErr b = bwErr (wBw w) \<Longrightarrow> bwBuf b = bwBuf (wBw w) \<Longrightarrow> core w L D \<Longrightarrow>
    core (w\<lparr>wBw := b\<rparr>) L D"
  "core (w\<lparr>walClosed := x\<rparr>) L D = core w L D" "core (w\<lparr>closeCh := x\<rparr>) L D = core w L D" "core (w\<lparr>wakeCh := x\<rparr>) L D = core w L D"
  "core (w\<lparr>wHasFile := x\<rparr>) L D = core w L D"
  by (simp_all add: core_def)

lemma step_append:
  assumes inv: "sys_inv s" and a: "appendBatch (sWal s) es ws = Some (w, r)" "list_all rec_ok es" "unat (wPending (sWal s)) + length es < 2 ^ 64"
  shows "sys_inv (s\<lparr>sWal := w, sDisk := synced s w, sLog := sLog s @ accepted r es,
       sWaiters := (case r of Waiting t \<Rightarrow> (t, length (sLog s @ es)) # sWaiters s | _ \<Rightarrow> sWaiters s),
       sAcked := (if r = Returned None \<and> ws \<and> es \<noteq> [] then length (sLog s @ es) else sAcked s)\<rparr>)"
proof (cases "es = [] \<or> walClosed (sWal s) \<or> syncErr (sWal s) \<noteq> None")
  case True
  then have "w = sWal s" "accepted r es = []" "r = Returned None \<longrightarrow> es = []" "\<And>t. r \<noteq> Waiting t"
    using a(1) by (auto simp: appendBatch_def split: if_splits)
  then show ?thesis using inv by (cases r) (auto simp: sys_inv_def synced_def)
next
  case False
  let ?w = "sWal s"
  have ok: "es \<noteq> []" "\<not> walClosed ?w" "syncErr ?w = None" using False by auto
  have c: "core ?w (sLog s) (sDisk s)" using inv by (simp add: sys_inv_def)
  obtain scr where e: "appendBatch ?w es ws = Some (let w1 = ?w\<lparr>wScratch := scr, wPending := wPending ?w + of_nat (length es)\<rparr> in
    if syncInterval ?w \<le> 0
    then (case writeAndSyncRecordLocked w1 (encs es) of
            (w2, Some e) \<Rightarrow> (w2\<lparr>syncErr := Some e\<rparr>, Returned (Some (WalIO e)))
          | (w2, None) \<Rightarrow> (w2\<lparr>wDurable := wPending w2\<rparr>, Returned None))
    else let b = bw_Write (wBw ?w) (encs es) in
      if bwErr b \<noteq> None then (w1\<lparr>wBw := b\<rparr>, Returned (Some (WalIO (the (bwErr b)))))
      else (w1\<lparr>wBw := b, wakeCh := True\<rparr>, if ws then Waiting (wPending w1) else Returned None))" using appendBatch_eq [OF ok] by blast
  show ?thesis
  proof (cases "syncInterval ?w \<le> 0")
    case True
    obtain w2 x where r: "writeAndSyncRecordLocked (?w\<lparr>wScratch := scr, wPending := wPending ?w + of_nat (length es)\<rparr>) (encs es) = (w2, x)" by fastforce
    note cc = append_sync_core [OF c ok(3) True a(3) r]
    have fr: "walClosed w2 = walClosed ?w" "closeCh w2 = closeCh ?w" "syncInterval w2 = syncInterval ?w" "wDurable w2 = wDurable ?w"
      using r by (auto simp: writeAndSyncRecordLocked_def Let_def split: prod.splits if_splits option.splits)
    show ?thesis
    proof (cases x)
      case None
      then have "w = w2\<lparr>wDurable := wPending w2\<rparr>" "r = Returned None" using e a(1) r True by (simp_all add: Let_def)
      then show ?thesis using cc None inv fr ok True a(2) by (simp add: sys_inv_def synced_def)
    next
      case (Some y)
      then have "w = w2\<lparr>syncErr := Some y\<rparr>" "r = Returned (Some (WalIO y))" using e a(1) r True by (simp_all add: Let_def)
      then show ?thesis using cc Some inv fr ok True by (simp add: sys_inv_def synced_def)
    qed
  next
    case async: False
    then have i: "0 < syncInterval ?w" by simp
    let ?w1 = "?w\<lparr>wScratch := scr, wPending := wPending ?w + of_nat (length es), wBw := bw_Write (wBw ?w) (encs es)\<rparr>"
    note cc = append_async_core [OF c ok(3) i a(3), of scr]
    show ?thesis
    proof (cases "bwErr (bw_Write (wBw ?w) (encs es))")
      case None
      then have w: "w = ?w1\<lparr>wakeCh := True\<rparr>" "r = (if ws then Waiting (wPending ?w1) else Returned None)" using e a(1) async by (simp_all add: Let_def)
      have "core w (sLog s @ es) (sDisk s)" "unat (wPending w) = length (sLog s @ es)" using cc(2) [of True] None w(1) by simp_all
      then show ?thesis using inv w ok i a(2) by (auto simp: sys_inv_def synced_def list_all_append)
    next
      case (Some y)
      then have w: "w = ?w1" "r = Returned (Some (WalIO y))" using e a(1) async by (simp_all add: Let_def)
      then have "core w (sLog s) (sDisk s)" using cc(1) Some by simp
      then show ?thesis using inv w ok i by (auto simp: sys_inv_def synced_def wait_done_def)
    qed
  qed
qed

lemma step_flush:
  assumes inv: "sys_inv s" and run: "run \<longrightarrow> sRun s" "0 < syncInterval (sWal s) \<and> \<not> walClosed (sWal s) \<longrightarrow> run"
    and w: "w = flush_pending (sWal s) \<or> w = flush_pending (sWal s\<lparr>closeCh := False\<rparr>)"
  shows "sys_inv (s\<lparr>sWal := w, sTimer := False, sRun := run, sDisk := synced s w\<rparr>)"
proof -
  obtain v where v: "w = flush_pending v" "v = sWal s \<or> v = sWal s\<lparr>closeCh := False\<rparr>" using w by blast
  have c: "core v (sLog s) (sDisk s)" using inv v(2) core_cong by (auto simp: sys_inv_def)
  note fr = flush_pending_frame [OF c]
  have "core w (sLog s) (synced s w)" using flush_pending_core [OF c] v by (auto simp: synced_def)
  moreover have "sAcked s \<le> unat (wDurable w)" using inv v fr(1) by (auto simp: sys_inv_def word_le_nat_alt)
  moreover have "\<forall>(t, n) \<in> set (sWaiters s). wait_done w t" using inv fr(8) v(1) by (auto simp: sys_inv_def)
  moreover have "walClosed w = walClosed (sWal s)" "syncInterval w = syncInterval (sWal s)" "closeCh w \<longrightarrow> closeCh (sWal s)"
    using fr(2-4) v by auto
  ultimately show ?thesis using inv run by (auto simp: sys_inv_def)
qed

lemma close_direct_eq:
  assumes "core w L D" "syncInterval w \<le> 0" "wHasFile w"
  shows "close_direct w = close_file (w\<lparr>walClosed := True\<rparr>)"
proof -
  have "\<not> (wDurable w < wPending w \<and> syncErr w = None)" using assms by (auto simp: core_def)
  then show ?thesis using assms(3) by (auto simp: close_direct_def)
qed

lemma close_file_core: "core w L D \<Longrightarrow> close_file w = (w', e) \<Longrightarrow> core w' L D \<and> (\<exists>b. w' = w\<lparr>wHasFile := False, wBw := b\<rparr>)"
proof -
  assume c: "core w L D" and e: "close_file w = (w', e)"
  define b where "b = (wBw w)\<lparr>bwFile := fst (os_Close (bwFile (wBw w)))\<rparr>"
  have "w' = w\<lparr>wHasFile := False, wBw := b\<rparr>" using e by (auto simp: close_file_def b_def split: prod.splits)
  moreover have "core (w\<lparr>wBw := b\<rparr>) L D"
    using c by (intro core_cong(1)) (simp_all add: b_def os_Close_def bw_all_def at_end_def core_def)
  then have "core (w\<lparr>wHasFile := False, wBw := b\<rparr>) L D" by (simp add: core_def)
  ultimately show ?thesis by blast
qed

lemma ball_remove1: "\<forall>x \<in> set xs. P x \<Longrightarrow> \<forall>x \<in> set (remove1 y xs). P x"
  by (meson notin_set_remove1)

lemma step_inv: "wal_step s s' \<Longrightarrow> sys_inv s \<Longrightarrow> sys_inv s'"
proof (induction rule: wal_step.induct)
  case (device s d)
  have "core (set_dev d (sWal s)) (sLog s) (sDisk s)"
    using device by (intro core_cong(1)) (simp_all add: sys_inv_def core_def bw_all_def at_end_def)
  then show ?case using device by (simp add: sys_inv_def wait_done_def)
next
  case (append_batch s es ws w r)
  then show ?case using step_append by blast
next
  case (wake_up t n s)
  then have n: "unat t = n" "n \<le> length (sLog s)" by (auto simp: sys_inv_def)
  have "n \<le> unat (wDurable (sWal s))" if "wait_result (sWal s) t = None"
    using that n by (auto simp: wait_result_def word_less_nat_alt split: option.splits if_splits)
  then have "sAcked (s\<lparr>sAcked := (if wait_result (sWal s) t = None then max (sAcked s) n else sAcked s)\<rparr>) \<le> min (length (sLog s)) (unat (wDurable (sWal s)))"
    using wake_up(3) n by (simp add: sys_inv_def)
  moreover have "\<forall>(t, n) \<in> set (remove1 (t, n) (sWaiters s)). unat t = n \<and> n \<le> length (sLog s)"
    "\<forall>(t, n) \<in> set (remove1 (t, n) (sWaiters s)). wait_done (sWal s) t \<or> wakeCh (sWal s) \<or> sTimer s"
    using wake_up(3) by (intro ball_remove1; simp add: sys_inv_def)+
  ultimately show ?case using wake_up(3) by (simp add: sys_inv_def)
next
  case (wake s w tm run)
  then show ?case by (auto simp: sys_inv_def loop_wake_def core_cong wait_done_def)
next
  case (timer s w tm run)
  then show ?case using step_flush [of s run w] flush_pending_frame(2) by (auto simp: loop_timer_def Let_def sys_inv_def)
next
  case (close_signal s w tm run)
  then show ?case using step_flush [of s run w] by (auto simp: loop_close_def sys_inv_def)
next
  case (close_start s)
  then show ?case by (auto simp: sys_inv_def close_begin_def core_cong wait_done_def)
next
  case (close_finish s w e)
  have c: "core (sWal s) (sLog s) (sDisk s)" using close_finish by (simp add: sys_inv_def)
  obtain b where "core w (sLog s) (sDisk s)" "w = sWal s\<lparr>wHasFile := False, wBw := b\<rparr>"
    using close_file_core [OF c close_finish(5)] by blast
  then show ?case using close_finish by (simp add: sys_inv_def wait_done_def)
next
  case (close_sync s w e)
  show ?case
  proof (cases "wHasFile (sWal s)")
    case True
    have c: "core (sWal s) (sLog s) (sDisk s)" using close_sync by (simp add: sys_inv_def)
    have cl: "close_file (sWal s\<lparr>walClosed := True\<rparr>) = (w, e)" using close_direct_eq [OF c close_sync(1) True] close_sync(2) by simp
    obtain b where "core w (sLog s) (sDisk s)" "w = sWal s\<lparr>walClosed := True, wHasFile := False, wBw := b\<rparr>"
      using close_file_core [OF _ cl] c core_cong(2) by auto
    then show ?thesis using close_sync by (simp add: sys_inv_def synced_def)
  qed (use close_sync in \<open>auto simp: close_direct_def synced_def sys_inv_def\<close>)
qed

lemma reach_inv: "wal_reach ev interval s \<Longrightarrow> sys_inv s"
proof (induction rule: wal_reach.induct)
  case (init s)
  then show ?case
    by (auto simp: wal_init_def createWAL_def newWAL_def bw_New_def sys_inv_def core_def at_end_def bw_all_def split: if_splits)
qed (rule step_inv)

lemma wal_reach_steps: "wal_step\<^sup>*\<^sup>* s s' \<Longrightarrow> wal_reach ev interval s \<Longrightarrow> wal_reach ev interval s'"
  by (induction rule: rtranclp_induct) (auto intro: wal_reach.step)

section \<open>Properties\<close>

text \<open>
  C5: However appends, waits, the sync loop, close and device faults interleave, every acknowledged entry
  is on stable storage. Replaying any file that starts with the bytes of the last successful sync, as
  a crash leaves it, calls the function on all acknowledged entries first, in the order of the log; and
  a caller whose wait ends without an error had all its entries acknowledged.
\<close>
theorem acknowledged_entries_survive:
  assumes "wal_reach ev interval s" "prefix (sDisk s) data" "good_device dev"
  shows "\<exists>more err. replayWAL (Some (data, dev)) (\<lambda>es k v. (es @ [(k, v)], None :: 'e option)) [] =
      (take (sAcked s) (sLog s) @ more, err) \<and> sAcked s \<le> length (sLog s) \<and>
    (\<forall>(t, n) \<in> set (sWaiters s). wait_done (sWal s) t \<and> wait_result (sWal s) t = None \<longrightarrow>
       prefix (encs (take n (sLog s))) (sDisk s))"
proof -
  let ?fn = "\<lambda>es k v. (es @ [(k, v)], None :: 'e option)" and ?A = "take (sAcked s) (sLog s)"
  have inv: "sys_inv s" using assms(1) by (rule reach_inv)
  have dur: "prefix (encs (take n (sLog s))) (sDisk s)" if "n \<le> unat (wDurable (sWal s))" for n
  proof -
    have "take n (sLog s) = take n (take (unat (wDurable (sWal s))) (sLog s))" using that by simp
    then have "prefix (encs (take n (sLog s))) (encs (take (unat (wDurable (sWal s))) (sLog s)))" by (metis encs_take)
    then show ?thesis using inv prefix_order.trans by (auto simp: sys_inv_def core_def)
  qed
  have acc: "sAcked s \<le> length (sLog s)" "sAcked s \<le> unat (wDurable (sWal s))" "list_all rec_ok ?A"
    using inv by (auto simp: sys_inv_def list_all_iff dest: in_set_takeD)
  obtain tail where d: "data = encs ?A @ tail" using dur [OF acc(2)] assms(2) by (auto simp: prefix_def)
  obtain rs rest where sp: "split_records tail = (rs, rest)" by fastforce
  let ?f = "\<lparr>fData = data, fPos = 0, fOpen = True, fDev = dev\<rparr>"
  have "split_records (drop (fPos ?f) (fData ?f)) = (?A @ rs, rest)" using split_records_enc [OF acc(3), of tail] d sp by simp
  moreover have run: "run_callback ?fn es acc = (acc @ es, None)" for es acc by (induction es arbitrary: acc) auto
  ultimately have "replay_loop ?fn ?f [] = (?A @ rs, if parse_rec rest = BadSum then Some (Inl WalMismatch) else None)"
    using replay_spec [of ?f "?A @ rs" rest ?fn "[]"] assms(3) by simp
  moreover have "replayWAL (Some (data, dev)) ?fn [] = replay_loop ?fn ?f []" using assms(3) by (simp add: replayWAL_def good_device_def)
  moreover have "prefix (encs (take n (sLog s))) (sDisk s)" if "(t, n) \<in> set (sWaiters s)" "wait_result (sWal s) t = None" for t n
    using dur [of n] that inv by (auto simp: sys_inv_def wait_result_def word_less_nat_alt split: option.splits if_splits)
  ultimately show ?thesis using acc(1) by auto
qed

text \<open>A loop step: the state changes, but not by a new batch, a finished wait, a close or the device.\<close>

definition loop_step :: "sys \<Rightarrow> sys \<Rightarrow> bool" where
  "loop_step s s' \<longleftrightarrow> wal_step s s' \<and> sLog s' = sLog s \<and> sWaiters s' = sWaiters s \<and> sAcked s' = sAcked s \<and>
     walClosed (sWal s') = walClosed (sWal s) \<and> fDev (bwFile (wBw (sWal s'))) = fDev (bwFile (wBw (sWal s)))"

text \<open>
  C35: No waiting writer is left behind: from every reachable state at most two steps of the sync loop
  alone end its wait, whether the sync succeeds or fails.
\<close>
theorem waiting_writer_is_served:
  assumes "wal_reach ev interval s" "(t, n) \<in> set (sWaiters s)"
  shows "\<exists>s1 s2. loop_step\<^sup>=\<^sup>= s s1 \<and> loop_step\<^sup>=\<^sup>= s1 s2 \<and> wait_done (sWal s2) t"
proof (cases "wait_done (sWal s) t")
  case False
  have inv: "sys_inv s" using assms(1) by (rule reach_inv)
  have run: "sRun s" "unat t \<le> length (sLog s)" "wakeCh (sWal s) \<or> sTimer s"
    using inv assms(2) False by (auto simp: sys_inv_def wait_done_def)
  define s1 where "s1 = (if sTimer s then s else s\<lparr>sWal := sWal s\<lparr>wakeCh := False\<rparr>, sTimer := True, sRun := True\<rparr>)"
  have 1: "loop_step\<^sup>=\<^sup>= s s1"
    using wal_step.wake [OF run(1), of "sWal s\<lparr>wakeCh := False\<rparr>" True True] run(1,3) by (auto simp: s1_def loop_step_def loop_wake_def)
  have s1: "sRun s1" "sTimer s1" "sLog s1 = sLog s" using run(1) by (auto simp: s1_def)
  have c: "core (sWal s1) (sLog s) (sDisk s)" using inv core_cong(4) by (auto simp: s1_def sys_inv_def)
  note fr = flush_pending_frame [OF c]
  let ?w = "flush_pending (sWal s1)"
  define s2 where "s2 = s1\<lparr>sWal := ?w, sTimer := False, sRun := \<not> walClosed ?w, sDisk := synced s1 ?w\<rparr>"
  have "loop_step s1 s2"
    using wal_step.timer [OF s1(1,2), of ?w False "\<not> walClosed ?w"] fr by (auto simp: s2_def loop_step_def loop_timer_def Let_def)
  moreover have "wait_done (sWal s2) t" using fr(8) [OF run(2)] by (simp add: s2_def)
  ultimately show ?thesis using 1 by blast
qed blast

section \<open>Witnesses\<close>

abbreviation quiet :: env where "quiet \<equiv> \<lparr>envNow = 7, envExists = False, envDev = perfect_device\<rparr>"

definition start :: "int \<Rightarrow> sys" where
  "start i = \<lparr>sWal = newWAL (walID 7) \<lparr>fData = [], fPos = 0, fOpen = True, fDev = perfect_device\<rparr> i, sTimer = False, sRun = (0 < i),
     sLog = [], sDisk = [], sWaiters = [], sAcked = 0\<rparr>"

lemma start_reach: "wal_reach quiet i (start i)"
  by (intro wal_reach.init) (simp add: wal_init_def createWAL_def start_def)

lemma start_append_sync: "\<exists>w. appendBatch (sWal (start 0)) [([1], [2])] True = Some (w, Returned None)"
proof -
  obtain scr where e: "appendBatch (sWal (start 0)) [([1], [2])] True = Some (case writeAndSyncRecordLocked (sWal (start 0)\<lparr>wScratch := scr, wPending := 1\<rparr>) (enc_rec ([1], [2])) of
            (w2, Some e) \<Rightarrow> (w2\<lparr>syncErr := Some e\<rparr>, Returned (Some (WalIO e)))
          | (w2, None) \<Rightarrow> (w2\<lparr>wDurable := wPending w2\<rparr>, Returned None))"
    using appendBatch_eq [of "[([1], [2])]" "sWal (start 0)" True] by (auto simp: start_def newWAL_def Let_def)
  have "\<exists>w2. writeAndSyncRecordLocked (sWal (start 0)\<lparr>wScratch := scr, wPending := 1\<rparr>) (enc_rec ([1], [2])) = (w2, None)"
    by (simp add: writeAndSyncRecordLocked_def start_def newWAL_def bw_New_def writeAll.simps [of _ "enc_rec ([1], [2])"] writeAll.simps [of _ "[]"]
        os_Write_def os_WriteAt_def os_Sync_def Let_def)
  then show ?thesis using e by auto
qed

lemma start_append_wait: "\<exists>w. appendBatch (sWal (start 1)) [([1], [2])] True = Some (w, Waiting 1)"
proof -
  have "bw_Write (wBw (sWal (start 1))) (enc_rec ([1], [2])) = (wBw (sWal (start 1)))\<lparr>bwBuf := enc_rec ([1], [2])\<rparr>"
    by (simp add: start_def newWAL_def bw_New_def bw_Write_def bw_loop.simps walBufferedWriterSize_def)
  then show ?thesis using appendBatch_eq [of "[([1], [2])]" "sWal (start 1)" True]
    by (auto simp: start_def newWAL_def bw_New_def Let_def)
qed

lemma acknowledged_entries_survive_witness:
  "\<exists>s more err. wal_reach quiet 0 s \<and> sAcked s = 1 \<and>
    replayWAL (Some (sDisk s @ [7], perfect_device)) (\<lambda>es k v. (es @ [(k, v)], None :: unit option)) [] = (([1], [2]) # more, err)"
proof -
  obtain w where w: "appendBatch (sWal (start 0)) [([1], [2])] True = Some (w, Returned None)" using start_append_sync by blast
  have "list_all rec_ok [([1], [2])]" "unat (wPending (sWal (start 0))) + length [([1 :: byte], [2 :: byte])] < 2 ^ 64"
    by (simp_all add: rec_ok_def start_def newWAL_def)
  from wal_step.append_batch [OF w this] obtain s where s: "wal_step (start 0) s" "sLog s = [([1], [2])]" "sAcked s = 1"
    by (force simp: start_def)
  have "wal_reach quiet 0 s" by (rule wal_reach.step [OF start_reach s(1)])
  with acknowledged_entries_survive [of quiet 0 s "sDisk s @ [7]" perfect_device, where ?'e = unit] s show ?thesis by fastforce
qed

lemma waiting_writer_is_served_witness:
  "\<exists>s s1 s2. wal_reach quiet 1 s \<and> sWaiters s = [(1, 1)] \<and> loop_step\<^sup>=\<^sup>= s s1 \<and> loop_step\<^sup>=\<^sup>= s1 s2 \<and> wait_done (sWal s2) 1"
proof -
  obtain w where w: "appendBatch (sWal (start 1)) [([1], [2])] True = Some (w, Waiting 1)" using start_append_wait by blast
  have "list_all rec_ok [([1], [2])]" "unat (wPending (sWal (start 1))) + length [([1 :: byte], [2 :: byte])] < 2 ^ 64"
    by (simp_all add: rec_ok_def start_def newWAL_def)
  from wal_step.append_batch [OF w this] obtain s where s: "wal_step (start 1) s" "sWaiters s = [(1, 1)]" by (force simp: start_def)
  have r: "wal_reach quiet 1 s" by (rule wal_reach.step [OF start_reach s(1)])
  have "(1, 1) \<in> set (sWaiters s)" using s(2) by simp
  from waiting_writer_is_served [OF r this] r s(2) show ?thesis by blast
qed

end
