(* ===== verification/Dir_Lock.thy ===== *)
theory Dir_Lock
  imports Go_IO
begin

text \<open>
  The lock of a database directory (\<open>dir_lock.go\<close>, \<open>dir_lock_darwin.go\<close>, \<open>dir_lock_other.go\<close>). On darwin it is an exclusive
  \<open>flock\<close> on the file \<open>LOCK\<close> of the directory; elsewhere it is a lock that everyone gets. The operating system's table of open
  files and of the locks on them is the state: a lock belongs to an open file, is refused while another open file has it, and goes with
  \<open>LOCK_UN\<close> or with the close of the file. The errors of the calls other than the refusal are the environment of a call.

  The contract that the database relies on is the locale \<open>exclusive_lock\<close>; the lock of darwin is interpreted as one.
\<close>

section \<open>Open files and the locks on them\<close>

datatype errno = EWOULDBLOCK | EAGAIN | EINTR | ENOLCK | EBADF

record lock_table =
  ltFiles :: "nat \<Rightarrow> path option"
  ltHeld :: "path \<Rightarrow> nat option"
  ltNext :: nat

record lock_env =
  leOpen :: "io_error option"
  leFlock :: "errno option"
  leUnlock :: "errno option"
  leClose :: "io_error option"

definition lt_open :: "lock_env \<Rightarrow> path \<Rightarrow> lock_table \<Rightarrow> lock_table \<times> (io_error + nat)" where
  "lt_open le p lt =
     (case leOpen le of
        Some e \<Rightarrow> (lt, Inl e)
      | None \<Rightarrow> (lt\<lparr>ltFiles := (ltFiles lt)(ltNext lt \<mapsto> p), ltNext := Suc (ltNext lt)\<rparr>, Inr (ltNext lt)))"

definition Flock_EX_NB :: "lock_env \<Rightarrow> nat \<Rightarrow> lock_table \<Rightarrow> lock_table \<times> errno option" where
  "Flock_EX_NB le fd lt =
     (case (leFlock le, ltFiles lt fd) of
        (Some e, _) \<Rightarrow> (lt, Some e)
      | (None, None) \<Rightarrow> (lt, Some EBADF)
      | (None, Some p) \<Rightarrow>
          (case ltHeld lt p of
             None \<Rightarrow> (lt\<lparr>ltHeld := (ltHeld lt)(p \<mapsto> fd)\<rparr>, None)
           | Some f \<Rightarrow> (lt, if f = fd then None else Some EWOULDBLOCK)))"

definition lt_release :: "nat \<Rightarrow> lock_table \<Rightarrow> lock_table" where
  "lt_release fd lt = lt\<lparr>ltHeld := (\<lambda>p. if ltHeld lt p = Some fd then None else ltHeld lt p)\<rparr>"

definition Flock_UN :: "lock_env \<Rightarrow> nat \<Rightarrow> lock_table \<Rightarrow> lock_table \<times> errno option" where
  "Flock_UN le fd lt = (case leUnlock le of Some e \<Rightarrow> (lt, Some e) | None \<Rightarrow> (lt_release fd lt, None))"

text \<open>A file that is closed is gone, with its lock, whatever the call returns. The end of a process closes its files the same way.\<close>

definition lt_close :: "nat \<Rightarrow> lock_table \<Rightarrow> lock_table" where
  "lt_close fd lt = (lt_release fd lt)\<lparr>ltFiles := (ltFiles lt)(fd := None)\<rparr>"

section \<open>The directory lock\<close>

datatype lock_error = ErrDatabaseLocked | ErrOpenLock io_error | ErrFlock errno | ErrUnlock errno | ErrCloseLock io_error

datatype platform = Darwin | OtherOS

record fileDirectoryLock =
  ldFile :: "nat option"

text \<open>The values of the interface: a pointer to a file lock, which may be nil, or the lock of the other systems.\<close>

datatype directoryLock = FileLock "fileDirectoryLock option" | NoopLock

definition directoryLockFilename :: string where "directoryLockFilename = ''LOCK''"

definition acquire_file_lock :: "lock_env \<Rightarrow> string \<Rightarrow> lock_table \<Rightarrow> lock_table \<times> (lock_error + directoryLock)" where
  "acquire_file_lock le dir lt =
     (case lt_open le (dir, directoryLockFilename) lt of
        (lt1, Inl e) \<Rightarrow> (lt1, Inl (ErrOpenLock e))
      | (lt1, Inr fd) \<Rightarrow>
          (case Flock_EX_NB le fd lt1 of
             (lt2, Some e) \<Rightarrow> (lt_close fd lt2, Inl (if e = EWOULDBLOCK \<or> e = EAGAIN then ErrDatabaseLocked else ErrFlock e))
           | (lt2, None) \<Rightarrow> (lt2, Inr (FileLock (Some \<lparr>ldFile = Some fd\<rparr>)))))"

definition acquire_noop_lock :: "lock_env \<Rightarrow> string \<Rightarrow> lock_table \<Rightarrow> lock_table \<times> (lock_error + directoryLock)" where
  "acquire_noop_lock le dir lt = (lt, Inr NoopLock)"

definition acquireDirectoryLock :: "platform \<Rightarrow> lock_env \<Rightarrow> string \<Rightarrow> lock_table \<Rightarrow> lock_table \<times> (lock_error + directoryLock)" where
  "acquireDirectoryLock pf = (case pf of Darwin \<Rightarrow> acquire_file_lock | OtherOS \<Rightarrow> acquire_noop_lock)"

text \<open>Closing a file lock unlocks and closes the file and forgets it; the second close does nothing.\<close>

definition file_lock_close :: "lock_env \<Rightarrow> fileDirectoryLock option \<Rightarrow> lock_table \<Rightarrow> lock_table \<times> fileDirectoryLock option \<times> lock_error option" where
  "file_lock_close le l lt =
     (case l of
        None \<Rightarrow> (lt, None, None)
      | Some fl \<Rightarrow>
          (case ldFile fl of
             None \<Rightarrow> (lt, Some fl, None)
           | Some fd \<Rightarrow>
               (case Flock_UN le fd lt of
                  (lt1, err) \<Rightarrow>
                    (lt_close fd lt1, Some (fl\<lparr>ldFile := None\<rparr>),
                     case err of Some e \<Rightarrow> Some (ErrUnlock e) | None \<Rightarrow> map_option ErrCloseLock (leClose le)))))"

definition lock_close :: "lock_env \<Rightarrow> directoryLock \<Rightarrow> lock_table \<Rightarrow> lock_table \<times> directoryLock \<times> lock_error option" where
  "lock_close le l lt =
     (case l of NoopLock \<Rightarrow> (lt, NoopLock, None) | FileLock fl \<Rightarrow> (case file_lock_close le fl lt of (lt', fl', e) \<Rightarrow> (lt', FileLock fl', e)))"

text \<open>What the end of a process does to a lock it has.\<close>

definition lock_exit :: "directoryLock \<Rightarrow> lock_table \<Rightarrow> lock_table" where
  "lock_exit l lt = (case l of FileLock (Some fl) \<Rightarrow> (case ldFile fl of None \<Rightarrow> lt | Some fd \<Rightarrow> lt_close fd lt) | _ \<Rightarrow> lt)"

section \<open>The contract\<close>

text \<open>
  \<open>holds k d l\<close> says that in the state \<open>k\<close> the lock \<open>l\<close> is the lock of the directory \<open>d\<close>. A client keeps a table of the
  directories it has locked, by an owner's name; \<open>owned\<close> is what ties that table to the locks.
\<close>

locale exclusive_lock =
  fixes ok :: "'k \<Rightarrow> bool"
    and holds :: "'k \<Rightarrow> string \<Rightarrow> 'l \<Rightarrow> bool"
    and acquire :: "'e \<Rightarrow> string \<Rightarrow> 'k \<Rightarrow> 'k \<times> ('x + 'l)"
    and release :: "'e \<Rightarrow> 'l \<Rightarrow> 'k \<Rightarrow> 'k"
    and leave :: "'l \<Rightarrow> 'k \<Rightarrow> 'k"
  assumes held_once: "ok k \<Longrightarrow> holds k d l \<Longrightarrow> holds k d' l' \<Longrightarrow> d = d' \<longleftrightarrow> l = l'"
    and acquire_ok: "ok k \<Longrightarrow> acquire e d k = (k', r) \<Longrightarrow> ok k'"
    and acquire_fails: "ok k \<Longrightarrow> acquire e d k = (k', Inl x) \<Longrightarrow> holds k' d' l \<longleftrightarrow> holds k d' l"
    and acquire_gets: "ok k \<Longrightarrow> acquire e d k = (k', Inr l) \<Longrightarrow> holds k' d' l' \<longleftrightarrow> holds k d' l' \<or> d' = d \<and> l' = l"
    and acquire_free: "ok k \<Longrightarrow> acquire e d k = (k', Inr l) \<Longrightarrow> \<not> holds k d l'"
    and release_ok: "ok k \<Longrightarrow> holds k d l \<Longrightarrow> ok (release e l k)"
    and release_gone: "ok k \<Longrightarrow> holds k d l \<Longrightarrow> holds (release e l k) d' l' \<longleftrightarrow> holds k d' l' \<and> l' \<noteq> l"
    and leave_ok: "ok k \<Longrightarrow> holds k d l \<Longrightarrow> ok (leave l k)"
    and leave_gone: "ok k \<Longrightarrow> holds k d l \<Longrightarrow> holds (leave l k) d' l' \<longleftrightarrow> holds k d' l' \<and> l' \<noteq> l"
begin

definition owned :: "'k \<Rightarrow> (nat \<Rightarrow> (string \<times> 'l) option) \<Rightarrow> bool" where
  "owned k own \<longleftrightarrow> ok k \<and> (\<forall>d l. holds k d l \<longleftrightarrow> (\<exists>i. own i = Some (d, l))) \<and> (\<forall>i j d l. own i = Some (d, l) \<longrightarrow> own j = Some (d, l) \<longrightarrow> i = j)"

lemma owned_exclusive: "owned k own \<Longrightarrow> own i = Some (d, l) \<Longrightarrow> own j = Some (d, l') \<Longrightarrow> i = j"
  unfolding owned_def using held_once by metis

lemma owned_acquire: "owned k own \<Longrightarrow> acquire e d k = (k', Inr l) \<Longrightarrow> own i = None \<Longrightarrow> owned k' (own(i \<mapsto> (d, l)))"
  using acquire_ok [of k e d k' "Inr l"] acquire_gets [of k e d k' l] acquire_free [of k e d k' l] unfolding owned_def by (auto; metis option.distinct(1))

lemma owned_refused: "owned k own \<Longrightarrow> acquire e d k = (k', Inl x) \<Longrightarrow> owned k' own"
  using acquire_ok [of k e d k' "Inl x"] acquire_fails [of k e d k' x] unfolding owned_def by auto

lemma owned_less:
  assumes "owned k own" "own i = Some (d, l)" "ok k'" "\<And>d' l'. holds k' d' l' \<longleftrightarrow> holds k d' l' \<and> l' \<noteq> l"
  shows "owned k' (own(i := None))"
proof -
  have h: "holds k d' l' \<longleftrightarrow> (\<exists>j. own j = Some (d', l'))" for d' l' using assms(1) unfolding owned_def by blast
  have k: "ok k" using assms(1) unfolding owned_def by blast
  have n: "l' \<noteq> l" if "own j = Some (d', l')" "j \<noteq> i" for j d' l'
    using that assms(1,2) held_once [OF k, of d' l' d l] h unfolding owned_def by metis
  have "holds k' d' l' \<longleftrightarrow> (\<exists>j. (own(i := None)) j = Some (d', l'))" for d' l'
  proof
    assume "holds k' d' l'"
    then obtain j where j: "own j = Some (d', l')" "l' \<noteq> l" using assms(4) h by blast
    then have "(own(i := None)) j = Some (d', l')" using assms(2) by auto
    then show "\<exists>j. (own(i := None)) j = Some (d', l')" by blast
  next
    assume "\<exists>j. (own(i := None)) j = Some (d', l')"
    then show "holds k' d' l'" using n assms(4) h by (auto split: if_splits)
  qed
  then show ?thesis using assms(1,3) unfolding owned_def by (auto split: if_splits)
qed

lemma owned_release:
  assumes "owned k own" "own i = Some (d, l)"
  shows "owned (release e l k) (own(i := None))"
proof -
  have "ok k" "holds k d l" using assms unfolding owned_def by blast+
  then show ?thesis using release_ok release_gone by (intro owned_less [OF assms]) blast+
qed

lemma owned_leave:
  assumes "owned k own" "own i = Some (d, l)"
  shows "owned (leave l k) (own(i := None))"
proof -
  have "ok k" "holds k d l" using assms unfolding owned_def by blast+
  then show ?thesis using leave_ok leave_gone by (intro owned_less [OF assms]) blast+
qed

end

section \<open>The lock of darwin keeps the contract\<close>

definition lt_ok :: "lock_table \<Rightarrow> bool" where
  "lt_ok lt \<longleftrightarrow> (\<forall>p fd. ltHeld lt p = Some fd \<longrightarrow> fd < ltNext lt \<and> ltFiles lt fd = Some p)"

definition lt_holds :: "lock_table \<Rightarrow> string \<Rightarrow> directoryLock \<Rightarrow> bool" where
  "lt_holds lt dir l \<longleftrightarrow> (\<exists>fd. l = FileLock (Some \<lparr>ldFile = Some fd\<rparr>) \<and> ltHeld lt (dir, directoryLockFilename) = Some fd)"

text \<open>On a directory that nobody has locked the calls succeed unless the environment fails them; on a locked one the lock is refused.\<close>

definition le_good :: "lock_env \<Rightarrow> bool" where
  "le_good le \<longleftrightarrow> leOpen le = None \<and> leFlock le = None"

lemmas lock_calls = lt_open_def Flock_EX_NB_def Flock_UN_def lt_release_def lt_close_def

lemma held_fresh: "lt_ok lt \<Longrightarrow> ltHeld lt p \<noteq> Some (ltNext lt)"
  unfolding lt_ok_def by (metis less_irrefl)

lemma close_fresh:
  assumes "lt_ok lt"
  shows "lt_close (ltNext lt) (lt\<lparr>ltFiles := (ltFiles lt)(ltNext lt \<mapsto> p), ltNext := Suc (ltNext lt)\<rparr>) =
    lt\<lparr>ltFiles := (ltFiles lt)(ltNext lt := None), ltNext := Suc (ltNext lt)\<rparr>"
  using held_fresh [OF assms] by (intro lock_table.equality) (simp_all add: lt_close_def lt_release_def)

lemma lt_ok_fresh: "lt_ok lt \<Longrightarrow> lt_ok (lt\<lparr>ltFiles := (ltFiles lt)(ltNext lt := x), ltNext := Suc (ltNext lt)\<rparr>)"
  using held_fresh by (auto simp: lt_ok_def less_Suc_eq)

lemma lt_ok_taken:
  "lt_ok lt \<Longrightarrow> lt_ok (lt\<lparr>ltFiles := (ltFiles lt)(ltNext lt \<mapsto> p), ltNext := Suc (ltNext lt), ltHeld := (ltHeld lt)(p \<mapsto> ltNext lt)\<rparr>)"
  using held_fresh by (auto simp: lt_ok_def less_Suc_eq)

lemma acquire_good:
  assumes "lt_ok lt" "le_good le"
  shows "snd (acquire_file_lock le dir lt) =
    (if ltHeld lt (dir, directoryLockFilename) = None then Inr (FileLock (Some \<lparr>ldFile = Some (ltNext lt)\<rparr>)) else Inl ErrDatabaseLocked)"
  using assms by (auto simp: acquire_file_lock_def lock_calls le_good_def lt_ok_def split: option.splits)

lemma acquire_cases:
  assumes "lt_ok lt" "acquire_file_lock le dir lt = (lt', r)"
  shows "lt_ok lt' \<and> (\<forall>x. r = Inl x \<longrightarrow> ltHeld lt' = ltHeld lt) \<and>
    (\<forall>l. r = Inr l \<longrightarrow> ltHeld lt (dir, directoryLockFilename) = None \<and> l = FileLock (Some \<lparr>ldFile = Some (ltNext lt)\<rparr>) \<and>
       ltHeld lt' = (ltHeld lt)((dir, directoryLockFilename) \<mapsto> ltNext lt))"
  using assms(2) held_fresh [OF assms(1)] close_fresh [OF assms(1)] lt_ok_fresh [OF assms(1)] lt_ok_taken [OF assms(1)] assms(1)
  by (auto simp: acquire_file_lock_def lt_open_def Flock_EX_NB_def split: option.splits prod.splits if_splits)

lemma lock_close_held:
  assumes "lt_holds lt dir l"
  obtains lt' where "fst (lock_close le l lt) = lt'" "ltHeld lt' = (ltHeld (lock_exit l lt))" "ltFiles lt' = ltFiles (lock_exit l lt)" "ltNext lt' = ltNext lt"
  using assms by (auto simp: lt_holds_def lock_close_def file_lock_close_def lock_exit_def lock_calls fun_eq_iff split: option.splits)

lemma exit_held:
  assumes "lt_ok lt" "lt_holds lt dir l"
  shows "lt_ok (lock_exit l lt) \<and> (\<forall>d' l'. lt_holds (lock_exit l lt) d' l' \<longleftrightarrow> lt_holds lt d' l' \<and> l' \<noteq> l)"
  using assms by (auto simp: lt_holds_def lt_ok_def lock_exit_def lock_calls split: if_splits)

interpretation dl: exclusive_lock lt_ok lt_holds acquire_file_lock "\<lambda>le l lt. fst (lock_close le l lt)" lock_exit
proof
  fix k d l d' l'
  assume "lt_ok k" "lt_holds k d l" "lt_holds k d' l'"
  then show "d = d' \<longleftrightarrow> l = l'" by (auto simp: lt_holds_def lt_ok_def) (metis option.inject prod.inject)
next
  fix k e d k' r
  assume "lt_ok k" "acquire_file_lock e d k = (k', r)"
  then show "lt_ok k'" using acquire_cases by blast
next
  fix k e d k' x d' l
  assume "lt_ok k" "acquire_file_lock e d k = (k', Inl x)"
  then show "lt_holds k' d' l \<longleftrightarrow> lt_holds k d' l" using acquire_cases by (simp add: lt_holds_def)
next
  fix k e d k' l d' l'
  assume a: "lt_ok k" "acquire_file_lock e d k = (k', Inr l)"
  show "lt_holds k' d' l' \<longleftrightarrow> lt_holds k d' l' \<or> d' = d \<and> l' = l" using acquire_cases [OF a] by (auto simp: lt_holds_def)
  show "\<not> lt_holds k d l'" using acquire_cases [OF a] by (auto simp: lt_holds_def)
next
  fix k d l e d' l'
  assume a: "lt_ok k" "lt_holds k d l"
  obtain k' where k': "fst (lock_close e l k) = k'" "ltHeld k' = ltHeld (lock_exit l k)" "ltFiles k' = ltFiles (lock_exit l k)" "ltNext k' = ltNext k"
    using lock_close_held [OF a(2)] .
  have "ltNext (lock_exit l k) = ltNext k" using a(2) by (auto simp: lt_holds_def lock_exit_def lock_calls)
  then have e: "fst (lock_close e l k) = lock_exit l k" using k' by simp
  show "lt_ok (lock_exit l k)" "lt_holds (lock_exit l k) d' l' \<longleftrightarrow> lt_holds k d' l' \<and> l' \<noteq> l" using exit_held [OF a] by auto
  then show "lt_ok (fst (lock_close e l k))" "lt_holds (fst (lock_close e l k)) d' l' \<longleftrightarrow> lt_holds k d' l' \<and> l' \<noteq> l" using e by simp_all
qed

end
