(* ===== verification/Database.thy ===== *)
theory Database
  imports Compaction_Contents Wal_Durability Dir_Lock
begin

text \<open>
  The database of \<^verbatim>\<open>src/db.go\<close>: options, opening with replay, the write path, rotation and flush of memtables, reads
  and close.

  The memtables are objects that the database and its published read state share, so they live in a store \<open>dbMems\<close> and
  are named by numbers; \<open>None\<close> is the nil pointer. The tables are values: what a read leaves in a block cache is dropped,
  which changes no answer of a table (\<open>Table_Get_holds\<close>). The value log is the same object in the database and in
  the read state. A \<open>disk\<close> has the files of tables and manifest and the write-ahead logs that are not open. A \<open>world\<close> gives
  the environment of every file creation and value log append, the random numbers and the clock, by the number of the call
  (\<open>dbTick\<close>).

  A goroutine's turn is one function: \<open>processWriteBatch\<close> for the write loop and \<open>flush_turn\<close> for the flush loop. The channel to
  the flush loop is a queue; a full channel only delays the writer. A call that waits for the write-ahead log to become durable
  is completed by the next two turns of its sync loop.
\<close>

section \<open>State\<close>

definition defaultValueThreshold :: int where "defaultValueThreshold = 2 * 2 ^ 10"
definition defaultWriteBatchWindow :: int where "defaultWriteBatchWindow = 100 * 1000"

record Options =
  MemtableMaxBytes :: int
  WALSyncInterval :: int
  ValueLogSegmentMaxBytes :: int
  ValueThreshold :: int
  AsyncWrites :: bool
  WriteBatchWindow :: int

definition normalizeOptions :: "Options \<Rightarrow> Options" where
  "normalizeOptions opts =
     (let o1 = (if MemtableMaxBytes opts \<le> 0 then opts\<lparr>MemtableMaxBytes := defaultMemtableMaxBytes\<rparr> else opts);
          o2 = (if ValueThreshold o1 \<le> 0 then o1\<lparr>ValueThreshold := defaultValueThreshold\<rparr> else o1) in
      if WriteBatchWindow o2 < 0 then o2\<lparr>WriteBatchWindow := 0\<rparr>
      else if WriteBatchWindow o2 = 0 then o2\<lparr>WriteBatchWindow := defaultWriteBatchWindow\<rparr>
      else o2)"

record immutableMemtable =
  imTable :: nat
  imWals :: "string list"

type_synonym writeRequest = "bytes \<times> bytes"

datatype dberr =
    ErrDbClosed
  | ErrStored db_error
  | ErrAppendWal wal_error
  | ErrRotateWal io_error
  | ErrCloseWal io_error
  | ErrSyncLog vlog_error
  | ErrFlush sst_error
  | ErrManifest io_error
  | ErrLevels level_error
  | ErrRemoveWal string io_error
  | ErrTable sst_error
  | ErrIO io_error
  | ErrOpenManifest manifest_error
  | ErrOpenLog vlog_error
  | ErrReplay wal_error
  | ErrDirLock lock_error

record dbReadState =
  rsClosed :: bool
  rsMemtable :: "nat option"
  rsImmutable :: "immutableMemtable list"
  rsTables :: "Table list"
  rsLevels :: "tableLevelState list"

record DB =
  dbDir :: string
  dbMaxBytes :: int
  dbSyncInterval :: int
  dbSegmentMax :: int
  dbThreshold :: int
  dbAsync :: bool
  dbWindow :: int
  dbMems :: "nat \<Rightarrow> Skiplist option"
  dbNextMem :: nat
  dbMemtable :: "nat option"
  dbMemBytes :: int
  dbWal :: "wal option"
  dbWalPaths :: "string list"
  dbImmutable :: "immutableMemtable list"
  dbTables :: "Table list"
  dbLevels :: "tableLevelState list"
  dbMeta :: "TableMeta list"
  dbManifest :: manifestStore
  dbLog :: "Log option"
  dbFlushErr :: "dberr option"
  dbClosed :: bool
  dbRead :: dbReadState
  dbFlushCh :: "immutableMemtable list"
  dbTick :: nat

record disk =
  dkFs :: fs
  dkWals :: "string \<Rightarrow> (bytes \<times> device) option"

record world =
  wdEnv :: "nat \<Rightarrow> env"
  wdRand :: "nat \<Rightarrow> nat \<Rightarrow> u32"
  wdClock :: "nat \<Rightarrow> nat"

section \<open>The read state\<close>

definition snapshotReadStateLocked :: "DB \<Rightarrow> dbReadState" where
  "snapshotReadStateLocked db =
     \<lparr>rsClosed = dbClosed db, rsMemtable = dbMemtable db, rsImmutable = dbImmutable db, rsTables = dbTables db,
      rsLevels = cloneTableLevels (dbLevels db)\<rparr>"

definition publishReadStateLocked :: "DB \<Rightarrow> DB" where
  "publishReadStateLocked db = db\<lparr>dbRead := snapshotReadStateLocked db\<rparr>"

definition setFlushErrIfNil :: "dberr \<Rightarrow> DB \<Rightarrow> DB \<times> dberr" where
  "setFlushErrIfNil e db = (case dbFlushErr db of None \<Rightarrow> (db\<lparr>dbFlushErr := Some e\<rparr>, e) | Some e' \<Rightarrow> (db, e'))"

section \<open>Reading\<close>

text \<open>A stored value that was found is resolved; a memtable that is nil has nothing.\<close>

fun get_memtables :: "(nat \<Rightarrow> Skiplist option) \<Rightarrow> nat list \<Rightarrow> bytes \<Rightarrow> bytes option option" where
  "get_memtables mems [] key = Some None"
| "get_memtables mems (i # is) key =
     (case mems i of
        None \<Rightarrow> None
      | Some sk \<Rightarrow> (case Get sk key of None \<Rightarrow> None | Some (Some stv) \<Rightarrow> Some (Some stv) | Some None \<Rightarrow> get_memtables mems is key))"

definition read_found :: "Log option \<Rightarrow> bytes \<Rightarrow> dberr + bytes option" where
  "read_found valueLog stv = (case readStoredValue valueLog stv of Inl e \<Rightarrow> Inl (ErrStored e) | Inr v \<Rightarrow> Inr v)"

definition db_Get :: "host \<Rightarrow> DB \<Rightarrow> bytes \<Rightarrow> (dberr + bytes option) option" where
  "db_Get h db key =
     (let state = dbRead db in
      if rsClosed state then Some (Inl ErrDbClosed)
      else
        (case get_memtables (dbMems db) ((case rsMemtable state of None \<Rightarrow> [] | Some i \<Rightarrow> [i]) @ rev (map imTable (rsImmutable state))) key of
           None \<Rightarrow> None
         | Some (Some stv) \<Rightarrow> Some (read_found (dbLog db) stv)
         | Some None \<Rightarrow>
             if rsLevels state \<noteq> [] then
               (case lookupLevels (hXxh3 h) (hStale h) (rsLevels state) (dbLog db) key of
                  None \<Rightarrow> None
                | Some (Inl (GetTable e)) \<Rightarrow> Some (Inl (ErrTable e))
                | Some (Inl (GetStored e)) \<Rightarrow> Some (Inl (ErrStored e))
                | Some (Inr (v, _)) \<Rightarrow> Some (Inr v))
             else
               (case lookup_level0 (hXxh3 h) (hStale h) (rsTables state) key of
                  None \<Rightarrow> None
                | Some (Inl e) \<Rightarrow> Some (Inl (ErrTable e))
                | Some (Inr (Some stv, _)) \<Rightarrow> Some (read_found (dbLog db) stv)
                | Some (Inr (None, _)) \<Rightarrow> Some (Inr None))))"

section \<open>Writing\<close>

text \<open>The whole calls of the write-ahead log.\<close>

definition wal_commit :: "wal \<Rightarrow> walBatchEntry list \<Rightarrow> bool \<Rightarrow> (wal \<times> wal_error option) option" where
  "wal_commit w es waitForSync =
     (case appendBatch w es waitForSync of
        None \<Rightarrow> None
      | Some (w', Returned e) \<Rightarrow> Some (w', e)
      | Some (w', Waiting target) \<Rightarrow>
          let w2 = fst (fst (loop_timer (fst (loop_wake (w', False))))) in Some (w2, wait_result w2 target))"

definition wal_close :: "wal \<Rightarrow> wal \<times> io_error option" where
  "wal_close w =
     (if syncInterval w \<le> 0 then close_direct w
      else if \<not> wHasFile w then (w, None)
      else close_file (fst (fst (loop_close (close_begin w, False)))))"

definition wal_content :: "wal \<Rightarrow> bytes \<times> device" where
  "wal_content w = (fData (bwFile (wBw w)), fDev (bwFile (wBw w)))"

text \<open>
  The preparation of a batch: values are stored for the tree until the memtable would be full or a value cannot be
  stored. Each entry has the request and its stored value.
\<close>

fun prepare :: "(nat \<Rightarrow> env) \<Rightarrow> int \<Rightarrow> int \<Rightarrow> nat \<Rightarrow> Log option \<Rightarrow> int \<Rightarrow> writeRequest list \<Rightarrow>
    Log option \<times> (writeRequest \<times> bytes) list \<times> bool \<times> db_error option" where
  "prepare ev valueThreshold maxBytes n valueLog projected [] = (valueLog, [], False, None)"
| "prepare ev valueThreshold maxBytes n valueLog projected (req # reqs) =
     (case storeValueForLSM (ev n) valueLog valueThreshold (fst req) (snd req) of
        (log', Inl e) \<Rightarrow> (log', [], False, Some e)
      | (log', Inr stv) \<Rightarrow>
          let projected' = projected + memtableEntrySize (fst req) (snd req) in
          if projected' \<ge> maxBytes then (log', [(req, stv)], True, None)
          else (case prepare ev valueThreshold maxBytes (Suc n) log' projected' reqs of
                  (log'', xs, crossing, e) \<Rightarrow> (log'', (req, stv) # xs, crossing, e)))"

lemma prepare_length: "prepare ev thr mx n l p reqs = (l', xs, c, e) \<Longrightarrow> length xs \<le> length reqs"
  by (induction ev thr mx n l p reqs arbitrary: l' xs c e rule: prepare.induct) (auto simp: Let_def split: sum.splits prod.splits if_splits)

fun put_entries :: "(nat \<Rightarrow> nat \<Rightarrow> u32) \<Rightarrow> nat \<Rightarrow> Skiplist \<Rightarrow> (writeRequest \<times> bytes) list \<Rightarrow> Skiplist option" where
  "put_entries rand n sk [] = Some sk"
| "put_entries rand n sk ((req, stv) # xs) = do { sk' \<leftarrow> Put (rand n) sk (fst req) stv; put_entries rand (Suc n) sk' xs }"

definition entries_bytes :: "(writeRequest \<times> bytes) list \<Rightarrow> int" where
  "entries_bytes xs = (\<Sum>x \<leftarrow> xs. memtableEntrySize (fst (fst x)) (snd (fst x)))"

text \<open>A new write-ahead log is on disk from the moment it is created; it is listed there when it is closed.\<close>

definition rotateMemtable :: "world \<Rightarrow> disk \<times> DB \<Rightarrow> ((disk \<times> DB) \<times> dberr option) option" where
  "rotateMemtable W st =
     (case st of (dk, db) \<Rightarrow>
        let tick = db\<lparr>dbTick := Suc (dbTick db)\<rparr> in
        (case createWAL (wdEnv W (dbTick db)) (dbSyncInterval db) of
           Inl e \<Rightarrow> Some ((dk, tick), Some (ErrRotateWal e))
         | Inr nextWal \<Rightarrow>
             (case dbWal db of
                None \<Rightarrow> None
              | Some w \<Rightarrow>
                  (case wal_close w of
                     (w', Some e) \<Rightarrow> Some ((dk, tick\<lparr>dbWal := Some w'\<rparr>), Some (ErrCloseWal e))
                   | (w', None) \<Rightarrow> do {
                       newMemtable \<leftarrow> New (nat (memtableArenaSize (dbMaxBytes db)));
                       m \<leftarrow> dbMemtable db;
                       let toFlush = \<lparr>imTable = m, imWals = dbWalPaths db\<rparr>;
                           db' = publishReadStateLocked
                             (tick\<lparr>dbImmutable := dbImmutable db @ [toFlush], dbMems := (dbMems db)(dbNextMem db \<mapsto> newMemtable),
                                   dbMemtable := Some (dbNextMem db), dbNextMem := Suc (dbNextMem db), dbWal := Some nextWal,
                                   dbWalPaths := [wName nextWal]\<rparr>) in
                       Some ((dk\<lparr>dkWals := (dkWals dk)(wName w \<mapsto> wal_content w')\<rparr>,
                              db'\<lparr>dbMemBytes := 0, dbFlushCh := dbFlushCh db @ [toFlush]\<rparr>), None)
                     }))))"

text \<open>One turn of the loop over a batch: the results of the requests it finished, and whether the rest goes on.\<close>

definition write_turn :: "world \<Rightarrow> disk \<times> DB \<Rightarrow> writeRequest list \<Rightarrow> ((disk \<times> DB) \<times> dberr option list \<times> bool) option" where
  "write_turn W st batch =
     (case st of (dk, db) \<Rightarrow>
        (case (dbFlushErr db, dbWal db, dbMemtable db) of
           (Some e, _, _) \<Rightarrow> Some ((dk, db), replicate (length batch) (Some e), False)
         | (None, Some activeWal, Some m) \<Rightarrow>
             (case prepare (\<lambda>i. wdEnv W (dbTick db + i)) (dbThreshold db) (dbMaxBytes db) 0 (dbLog db) (dbMemBytes db) batch of
                (log', xs, crossing, prepErr) \<Rightarrow>
                  let db1 = db\<lparr>dbLog := log', dbTick := dbTick db + Suc (length xs)\<rparr>;
                      (db2, stop) = (case prepErr of None \<Rightarrow> (db1, None) | Some e \<Rightarrow> map_prod id Some (setFlushErrIfNil (ErrStored e) db1)) in
                  if xs = [] then Some ((dk, db2), replicate (length batch) stop, False)
                  else
                    (case wal_commit activeWal (map fst xs) (\<not> dbAsync db \<or> dbSyncInterval db \<le> 0) of
                       None \<Rightarrow> None
                     | Some (w, Some e) \<Rightarrow>
                         (case setFlushErrIfNil (ErrAppendWal e) (db2\<lparr>dbWal := Some w\<rparr>) of
                            (db3, err) \<Rightarrow> Some ((dk, db3), replicate (length batch) (Some err), False))
                     | Some (w, None) \<Rightarrow> do {
                         mem \<leftarrow> dbMems db m;
                         mem' \<leftarrow> put_entries (wdRand W) (dbTick db) mem xs;
                         let db3 = db2\<lparr>dbWal := Some w, dbMems := (dbMems db)(m \<mapsto> mem'), dbMemBytes := dbMemBytes db + entries_bytes xs\<rparr>;
                             rest = length batch - length xs in
                         if crossing then do {
                           (st', e) \<leftarrow> rotateMemtable W (dk, db3);
                           (case e of
                              Some e \<Rightarrow>
                                (case setFlushErrIfNil e (snd st') of
                                   (db4, err) \<Rightarrow> Some ((fst st', db4), replicate (length xs - 1) None @ replicate (Suc rest) (Some err), False))
                            | None \<Rightarrow> Some (st', replicate (length xs) None, True))
                         }
                         else if stop \<noteq> None then Some ((dk, db3), replicate (length xs) None @ replicate rest stop, False)
                         else Some ((dk, db3), replicate (length xs) None, True)
                       }))
         | _ \<Rightarrow> Some ((dk, db), replicate (length batch) (Some ErrDbClosed), False)))"

lemma write_turn_progress: "write_turn W st batch = Some (st', rs, True) \<Longrightarrow> rs \<noteq> []"
  by (auto simp: write_turn_def Let_def split: prod.splits option.splits if_splits Option.bind_splits)

function processWriteBatch :: "world \<Rightarrow> disk \<times> DB \<Rightarrow> writeRequest list \<Rightarrow> ((disk \<times> DB) \<times> dberr option list) option" where
  "processWriteBatch W st batch =
     (if batch = [] then Some (st, [])
      else case write_turn W st batch of
        None \<Rightarrow> None
      | Some (st', rs, goOn) \<Rightarrow>
          if goOn then map_option (\<lambda>(st2, rs2). (st2, rs @ rs2)) (processWriteBatch W st' (drop (length rs) batch))
          else Some (st', rs))"
  by pat_completeness auto
termination
  by (relation "measure (\<lambda>(W, st, batch). length batch)") (auto dest!: write_turn_progress)

declare processWriteBatch.simps [simp del]

text \<open>The channel of requests; \<open>None\<close> is the nil that tells the write loop to stop. A batch has at most 256 requests.\<close>

definition batchCap :: nat where "batchCap = 256"

fun drainQueuedWrites :: "writeRequest option list \<Rightarrow> writeRequest list \<Rightarrow> writeRequest list \<times> writeRequest option list \<times> bool" where
  "drainQueuedWrites [] batch = (batch, [], False)"
| "drainQueuedWrites (x # ch) batch =
     (if length batch < batchCap then
        (case x of None \<Rightarrow> (batch, ch, True) | Some req \<Rightarrow> drainQueuedWrites ch (batch @ [req]))
      else (batch, x # ch, False))"

definition shouldWaitForGroupCommit :: "DB \<Rightarrow> writeRequest option list \<Rightarrow> int \<Rightarrow> bool" where
  "shouldWaitForGroupCommit db ch submitters =
     (if dbWindow db \<le> 0 then False
      else if dbAsync db \<and> dbSyncInterval db > 0 then False
      else if ch \<noteq> [] then True
      else submitters > 0)"

text \<open>\<open>arrived\<close> are the requests that are queued while the loop sleeps for the batch window.\<close>

definition collectWriteBatch :: "DB \<Rightarrow> int \<Rightarrow> writeRequest option list \<Rightarrow> writeRequest option list \<Rightarrow> writeRequest \<Rightarrow>
    writeRequest list \<times> writeRequest option list \<times> bool" where
  "collectWriteBatch db submitters arrived ch first =
     (case drainQueuedWrites ch [first] of (batch, ch', closing) \<Rightarrow>
        if closing \<or> length batch = batchCap \<or> \<not> shouldWaitForGroupCommit db ch' submitters then (batch, ch' @ arrived, closing)
        else drainQueuedWrites (ch' @ arrived) batch)"

text \<open>
  One turn of the write loop: the channel and the results; the loop ends when it takes the nil, alone or behind a batch. \<open>arrived\<close>
  are the requests that come in while it sleeps or while it waits on an empty channel.
\<close>

definition writeLoop_turn :: "world \<Rightarrow> int \<Rightarrow> writeRequest option list \<Rightarrow> (disk \<times> DB) \<times> writeRequest option list \<Rightarrow>
    (((disk \<times> DB) \<times> writeRequest option list) \<times> dberr option list \<times> bool) option" where
  "writeLoop_turn W submitters arrived st =
     (case st of
        (s, []) \<Rightarrow> Some ((s, arrived), [], True)
      | (s, None # ch) \<Rightarrow> Some ((s, ch @ arrived), [], False)
      | (s, Some req # ch) \<Rightarrow>
          (case collectWriteBatch (snd s) submitters arrived ch req of (batch, ch', closing) \<Rightarrow>
             map_option (\<lambda>(s', rs). ((s', ch'), rs, \<not> closing)) (processWriteBatch W s batch)))"

text \<open>A request is refused or queued; \<open>Delete\<close> writes the tombstone.\<close>

definition submitWrite :: "DB \<Rightarrow> writeRequest option list \<Rightarrow> writeRequest \<Rightarrow> dberr + writeRequest option list" where
  "submitWrite db ch req =
     (if rsClosed (dbRead db) then Inl ErrDbClosed
      else case dbFlushErr db of Some e \<Rightarrow> Inl e | None \<Rightarrow> Inr (ch @ [Some req]))"

definition db_Put :: "DB \<Rightarrow> writeRequest option list \<Rightarrow> bytes \<Rightarrow> bytes \<Rightarrow> dberr + writeRequest option list" where
  "db_Put db ch key val = submitWrite db ch (key, val)"

definition db_Delete :: "DB \<Rightarrow> writeRequest option list \<Rightarrow> bytes \<Rightarrow> dberr + writeRequest option list" where
  "db_Delete db ch key = submitWrite db ch (key, tombstoneValue)"

section \<open>Flushing\<close>

fun removeWALFiles :: "host \<Rightarrow> disk \<Rightarrow> string \<Rightarrow> string list \<Rightarrow> disk \<times> dberr option" where
  "removeWALFiles h dk dir [] = (dk, None)"
| "removeWALFiles h dk dir (n # ns) =
     (if hFault h (OpRemove (dir, n)) \<noteq> None then (dk, Some (ErrRemoveWal n EIO))
      else removeWALFiles h (dk\<lparr>dkWals := (dkWals dk)(n := None)\<rparr>) dir ns)"

fun remove_imm :: "nat \<Rightarrow> immutableMemtable list \<Rightarrow> immutableMemtable list" where
  "remove_imm i [] = []"
| "remove_imm i (x # xs) = (if imTable x = i then xs else x # remove_imm i xs)"

definition installFlushedTable :: "host \<Rightarrow> nat \<Rightarrow> disk \<times> DB \<Rightarrow> immutableMemtable \<Rightarrow> Table \<Rightarrow> (disk \<times> DB) \<times> dberr option" where
  "installFlushedTable h now st imm sst =
     (case st of (dk, db) \<Rightarrow>
        let db1 = db\<lparr>dbImmutable := remove_imm (imTable imm) (dbImmutable db)\<rparr>;
            updatedMeta = tableMetaFromSST now (Table_Metadata (Some sst)) 0 # dbMeta db in
        (case ReplaceTables h (dkFs dk) (dbManifest db) updatedMeta of
           (fs', m', Some e) \<Rightarrow> ((dk\<lparr>dkFs := fs'\<rparr>, db1\<lparr>dbManifest := m'\<rparr>), Some (ErrManifest e))
         | (fs', m', None) \<Rightarrow>
             let dk' = dk\<lparr>dkFs := fs'\<rparr>; db2 = db1\<lparr>dbManifest := m'\<rparr> in
             (case buildLevelState updatedMeta (sst # dbTables db) of
                Inl e \<Rightarrow> ((dk', db2), Some (ErrLevels e))
              | Inr (levels, orderedMeta, flatTables) \<Rightarrow>
                  ((dk', publishReadStateLocked (db2\<lparr>dbTables := flatTables, dbLevels := levels, dbMeta := orderedMeta\<rparr>)), None))))"

definition syncValueLogForFlush :: "DB \<Rightarrow> (DB \<times> dberr option) option" where
  "syncValueLogForFlush db =
     (case dbLog db of
        None \<Rightarrow> None
      | Some l \<Rightarrow> (case vlog_Sync l of
          None \<Rightarrow> Some (db, None)
        | Some e \<Rightarrow> Some (map_prod id Some (setFlushErrIfNil (ErrSyncLog e) db))))"

text \<open>One turn of the flush loop, for the memtable at the head of the channel; an empty channel is left as it is.\<close>

definition flush_turn :: "host \<Rightarrow> world \<Rightarrow> disk \<times> DB \<Rightarrow> (disk \<times> DB) option" where
  "flush_turn h W st =
     (case st of (dk, db) \<Rightarrow>
        (case dbFlushCh db of
           [] \<Rightarrow> Some st
         | imm # ch \<Rightarrow> do {
             (db0, e) \<leftarrow> syncValueLogForFlush (db\<lparr>dbFlushCh := ch\<rparr>);
             (if e \<noteq> None then Some (dk, db0)
              else do {
                sk \<leftarrow> dbMems db (imTable imm);
                (fs', sk', r) \<leftarrow> sst_Flush h (wdClock W (dbTick db)) (dkFs dk) (dbDir db) sk;
                let db1 = db0\<lparr>dbMems := (dbMems db)(imTable imm \<mapsto> sk'), dbTick := Suc (dbTick db)\<rparr>; dk1 = dk\<lparr>dkFs := fs'\<rparr> in
                (case r of
                   Inl err \<Rightarrow> Some (dk1, fst (setFlushErrIfNil (ErrFlush err) db1))
                 | Inr sst \<Rightarrow>
                     (case installFlushedTable h (wdClock W (dbTick db)) (dk1, db1) imm sst of
                        ((dk2, db2), Some err) \<Rightarrow> Some (dk2, fst (setFlushErrIfNil err db2))
                      | ((dk2, db2), None) \<Rightarrow>
                          (case removeWALFiles h dk2 (dbDir db) (imWals imm) of
                             (dk3, Some err) \<Rightarrow> Some (dk3, fst (setFlushErrIfNil err db2))
                           | (dk3, None) \<Rightarrow> Some (dk3, db2))))
              })
           }))"

section \<open>Opening\<close>

text \<open>The callback of the replay: the log, the memtable, its size and the number of calls; a panic of \<open>Put\<close> is an error of its own.\<close>

type_synonym replay_state = "Log option \<times> Skiplist \<times> int \<times> nat"

definition replay_entry :: "world \<Rightarrow> int \<Rightarrow> replay_state \<Rightarrow> bytes \<Rightarrow> bytes \<Rightarrow> replay_state \<times> (db_error + unit) option" where
  "replay_entry W valueThreshold s key val =
     (case s of (valueLog, memtable, memtableBytes, n) \<Rightarrow>
        (case storeValueForLSM (wdEnv W n) valueLog valueThreshold key val of
           (log', Inl e) \<Rightarrow> ((log', memtable, memtableBytes, Suc n), Some (Inl e))
         | (log', Inr stv) \<Rightarrow>
             (case Put (wdRand W n) memtable key stv of
                None \<Rightarrow> ((log', memtable, memtableBytes, Suc n), Some (Inr ()))
              | Some memtable' \<Rightarrow> ((log', memtable', memtableBytes + memtableEntrySize key val, Suc n), None))))"

fun replayWALs :: "world \<Rightarrow> (string \<Rightarrow> (bytes \<times> device) option) \<Rightarrow> int \<Rightarrow> string list \<Rightarrow> replay_state \<Rightarrow> (replay_state \<times> dberr option) option" where
  "replayWALs W wals valueThreshold [] s = Some (s, None)"
| "replayWALs W wals valueThreshold (n # ns) s =
     (case replayWAL (wals n) (replay_entry W valueThreshold) s of
        (s', None) \<Rightarrow> replayWALs W wals valueThreshold ns s'
      | (s', Some (Inl e)) \<Rightarrow> Some (s', Some (ErrReplay e))
      | (s', Some (Inr (Inl e))) \<Rightarrow> Some (s', Some (ErrStored e))
      | (s', Some (Inr (Inr _))) \<Rightarrow> None)"

text \<open>\<open>pre\<close> is the outcome of creating the directory and taking its lock; the tables and the log are closed on an error.\<close>

definition openDB :: "host \<Rightarrow> world \<Rightarrow> dberr option \<Rightarrow> disk \<Rightarrow> string \<Rightarrow> listing \<Rightarrow> dirent list \<Rightarrow> Options \<Rightarrow> (disk \<times> (dberr + DB)) option" where
  "openDB h W pre dk dir names vents opts0 =
     (let opts = normalizeOptions opts0 in
      case pre of
        Some e \<Rightarrow> Some (dk, Inl e)
      | None \<Rightarrow>
          (case scanDataFiles h dir names of
             Inl e \<Rightarrow> Some (dk, Inl (ErrIO e))
           | Inr (_, walPaths) \<Rightarrow>
               (case openManifest h (wdClock W 0) (dkFs dk) dir names of
                  None \<Rightarrow> None
                | Some (fs', Inl e) \<Rightarrow> Some (dk\<lparr>dkFs := fs'\<rparr>, Inl (ErrOpenManifest e))
                | Some (fs', Inr manifest) \<Rightarrow>
                    let tableMeta = manifest_Tables manifest; dk1 = dk\<lparr>dkFs := fs'\<rparr> in
                    (case openSSTablesFromMeta h fs' dir tableMeta of
                       None \<Rightarrow> None
                     | Some (Inl e) \<Rightarrow> Some (dk1, Inl (ErrTable e))
                     | Some (Inr ssts) \<Rightarrow>
                         (case buildLevelState tableMeta ssts of
                            Inl e \<Rightarrow> Some (dk1, Inl (ErrLevels e))
                          | Inr (levels, orderedMeta, flatTables) \<Rightarrow>
                              (case vlog_Open (wdEnv W 0) dir (ValueLogSegmentMaxBytes opts) vents of
                                 Inl e \<Rightarrow> Some (dk1, Inl (ErrOpenLog e))
                               | Inr valueLog \<Rightarrow> do {
                                   memtable \<leftarrow> New (nat (memtableArenaSize (MemtableMaxBytes opts)));
                                   ((log', memtable', memtableBytes, n), e) \<leftarrow>
                                     replayWALs W (dkWals dk) (ValueThreshold opts) walPaths (Some valueLog, memtable, 0, 1);
                                   (case e of
                                      Some err \<Rightarrow> Some (dk1, Inl err)
                                    | None \<Rightarrow>
                                        (case createWAL (wdEnv W n) (WALSyncInterval opts) of
                                           Inl err \<Rightarrow> Some (dk1, Inl (ErrIO err))
                                         | Inr activeWal \<Rightarrow>
                                             Some (dk1, Inr (publishReadStateLocked
                                               \<lparr>dbDir = dir, dbMaxBytes = MemtableMaxBytes opts, dbSyncInterval = WALSyncInterval opts,
                                                dbSegmentMax = ValueLogSegmentMaxBytes opts, dbThreshold = ValueThreshold opts, dbAsync = AsyncWrites opts,
                                                dbWindow = WriteBatchWindow opts, dbMems = (\<lambda>_. None)(0 \<mapsto> memtable'), dbNextMem = 1, dbMemtable = Some 0,
                                                dbMemBytes = memtableBytes, dbWal = Some activeWal, dbWalPaths = walPaths @ [wName activeWal], dbImmutable = [],
                                                dbTables = flatTables, dbLevels = levels, dbMeta = orderedMeta, dbManifest = manifest, dbLog = log',
                                                dbFlushErr = None, dbClosed = False,
                                                dbRead = \<lparr>rsClosed = False, rsMemtable = None, rsImmutable = [], rsTables = [], rsLevels = []\<rparr>,
                                                dbFlushCh = [], dbTick = Suc n\<rparr>))))
                                 }))))))"

section \<open>Closing\<close>

definition firstError :: "'e option \<Rightarrow> 'e option \<Rightarrow> 'e option" where
  "firstError err next = (case err of Some e \<Rightarrow> Some e | None \<Rightarrow> next)"

definition markClosed :: "DB \<Rightarrow> DB \<times> bool" where
  "markClosed db = (if dbClosed db then (db, False) else (publishReadStateLocked (db\<lparr>dbClosed := True\<rparr>), True))"

fun drain_flushes :: "host \<Rightarrow> world \<Rightarrow> nat \<Rightarrow> disk \<times> DB \<Rightarrow> (disk \<times> DB) option" where
  "drain_flushes h W 0 st = Some st"
| "drain_flushes h W (Suc n) st = do { st' \<leftarrow> flush_turn h W st; drain_flushes h W n st' }"

text \<open>The write-ahead log is closed and its file removed; the file may be gone already.\<close>

definition closeAndRemoveWAL :: "host \<Rightarrow> disk \<Rightarrow> string \<Rightarrow> wal option \<Rightarrow> disk \<times> dberr option" where
  "closeAndRemoveWAL h dk dir activeWal =
     (case activeWal of
        None \<Rightarrow> (dk, None)
      | Some w \<Rightarrow>
          (case wal_close w of (w', e) \<Rightarrow>
             if hFault h (OpRemove (dir, wName w)) \<noteq> None
             then (dk\<lparr>dkWals := (dkWals dk)(wName w \<mapsto> wal_content w')\<rparr>, Some (ErrIO (case e of Some x \<Rightarrow> x | None \<Rightarrow> EIO)))
             else (dk\<lparr>dkWals := (dkWals dk)(wName w := None)\<rparr>, map_option ErrIO e)))"

fun close_tables :: "Table list \<Rightarrow> dberr option \<Rightarrow> dberr option" where
  "close_tables [] e = e"
| "close_tables (t # ts) e = close_tables ts (firstError e (map_option ErrIO (snd (Table_Close t))))"

text \<open>\<open>unlock\<close> is the outcome of releasing the directory lock.\<close>

definition closeStorageLocked :: "dberr option \<Rightarrow> DB \<Rightarrow> dberr option \<Rightarrow> DB \<times> dberr option" where
  "closeStorageLocked unlock db extraErr =
     (let e1 = firstError (dbFlushErr db) extraErr;
          (log', e2) = (case dbLog db of None \<Rightarrow> (None, e1) | Some l \<Rightarrow> (case vlog_Close l of (l', e) \<Rightarrow> (Some l', firstError e1 (map_option ErrIO e)))) in
      (db\<lparr>dbLog := log'\<rparr>, firstError (close_tables (dbTables db) e2) unlock))"

text \<open>
  The write loop until it takes the nil (an empty channel leaves it waiting). Closing waits for the submitters, so no request arrives any more, and
  sends the nil behind the queued requests.
\<close>

lemma drain_length: "drainQueuedWrites ch b = (b', ch', c) \<Longrightarrow> length ch' \<le> length ch"
  by (induction ch b rule: drainQueuedWrites.induct) (auto split: if_splits option.splits)

lemma collect_length: "collectWriteBatch db k [] ch q = (b, ch', c) \<Longrightarrow> length ch' \<le> length ch"
proof -
  assume a: "collectWriteBatch db k [] ch q = (b, ch', c)"
  obtain b1 ch1 c1 where d: "drainQueuedWrites ch [q] = (b1, ch1, c1)" by (cases "drainQueuedWrites ch [q]")
  show "length ch' \<le> length ch" using a drain_length [OF d] drain_length [of ch1 b1 b ch' c] by (auto simp: collectWriteBatch_def d split: if_splits)
qed

lemma writeLoop_turn_shrinks: "writeLoop_turn W k [] (s, x # ch) = Some ((s', ch'), rs, goOn) \<Longrightarrow> length ch' \<le> length ch"
  by (auto simp: writeLoop_turn_def split: option.splits prod.splits dest: collect_length)

function writeLoop :: "world \<Rightarrow> disk \<times> DB \<Rightarrow> writeRequest option list \<Rightarrow> ((disk \<times> DB) \<times> dberr option list) option" where
  "writeLoop W s [] = Some (s, [])"
| "writeLoop W s (x # ch) =
     (case writeLoop_turn W 0 [] (s, x # ch) of
        None \<Rightarrow> None
      | Some ((s', ch'), rs, goOn) \<Rightarrow>
          if goOn then map_option (\<lambda>(s2, rs2). (s2, rs @ rs2)) (writeLoop W s' ch') else Some (s', rs))"
  by pat_completeness auto
termination
  by (relation "measure (\<lambda>(W, s, ch). length ch)") (auto simp: less_Suc_eq_le dest: writeLoop_turn_shrinks)

definition stopWrites :: "world \<Rightarrow> disk \<times> DB \<Rightarrow> writeRequest option list \<Rightarrow> ((disk \<times> DB) \<times> dberr option list) option" where
  "stopWrites W st ch = writeLoop W st (ch @ [None])"

text \<open>The flush loop empties its channel before the storage is closed.\<close>

definition closeWithoutPendingFlush :: "host \<Rightarrow> world \<Rightarrow> dberr option \<Rightarrow> disk \<times> DB \<Rightarrow> wal option \<Rightarrow> ((disk \<times> DB) \<times> dberr option) option" where
  "closeWithoutPendingFlush h W unlock st activeWal =
     (case st of (dk, db) \<Rightarrow>
        (case closeAndRemoveWAL h dk (dbDir db) activeWal of
           (dk1, walErr) \<Rightarrow> do {
             (dk2, db2) \<leftarrow> drain_flushes h W (length (dbFlushCh db)) (dk1, db);
             (case closeStorageLocked unlock db2 walErr of (db3, e) \<Rightarrow> Some ((dk2, db3), e))
           }))"

definition flushPendingMemtableAndClose :: "host \<Rightarrow> world \<Rightarrow> dberr option \<Rightarrow> disk \<times> DB \<Rightarrow> immutableMemtable \<Rightarrow> ((disk \<times> DB) \<times> dberr option) option" where
  "flushPendingMemtableAndClose h W unlock st toFlush =
     (case st of (dk, db) \<Rightarrow>
        let db1 = db\<lparr>dbFlushCh := dbFlushCh db @ [toFlush]\<rparr> in
        do {
          (dk2, db2) \<leftarrow> drain_flushes h W (length (dbFlushCh db1)) (dk, db1);
          (case closeStorageLocked unlock db2 None of (db3, e) \<Rightarrow> Some ((dk2, db3), e))
        })"

text \<open>\<open>ch\<close> has the requests that are queued when the last submitter is done; the answers to them are part of the result.\<close>

definition db_Close :: "host \<Rightarrow> world \<Rightarrow> dberr option \<Rightarrow> writeRequest option list \<Rightarrow> disk \<times> DB \<Rightarrow> ((disk \<times> DB) \<times> dberr option list \<times> dberr option) option" where
  "db_Close h W unlock ch st =
     (case st of (dk0, db0) \<Rightarrow>
        (case markClosed db0 of
           (_, False) \<Rightarrow> Some (st, [], None)
         | (dbc, True) \<Rightarrow> do {
             ((dk, db), answers) \<leftarrow> stopWrites W (dk0, dbc) ch;
             full \<leftarrow> (case dbMemtable db of None \<Rightarrow> Some False
                       | Some m \<Rightarrow> (case dbMems db m of None \<Rightarrow> None | Some sk \<Rightarrow> map_option Not (Empty sk)));
             let db1 = db\<lparr>dbMemtable := None, dbWal := None, dbWalPaths := []\<rparr>;
             (if full then do {
                w \<leftarrow> dbWal db;
                (case wal_close w of
                   (w', Some e) \<Rightarrow> Some ((dk, db\<lparr>dbWal := Some w'\<rparr>), answers, firstError (Some (ErrCloseWal e)) unlock)
                 | (w', None) \<Rightarrow>
                     let toFlush = \<lparr>imTable = the (dbMemtable db), imWals = dbWalPaths db\<rparr> in
                     map_option (\<lambda>(st2, e). (st2, answers, e))
                       (flushPendingMemtableAndClose h W unlock
                          (dk\<lparr>dkWals := (dkWals dk)(wName w \<mapsto> wal_content w')\<rparr>, db1\<lparr>dbImmutable := dbImmutable db @ [toFlush]\<rparr>) toFlush))
              }
              else map_option (\<lambda>(st2, e). (st2, answers, e)) (closeWithoutPendingFlush h W unlock (dk, db1) (dbWal db)))
           }))"

end
