(* ===== verification/Database_View.thy ===== *)
theory Database_View
  imports Database
begin

text \<open>
  Two parts of the database in normal operation, without faults. The write-ahead log: a commit of entries and a close succeed and leave a
  log that takes the next ones. The levels: \<open>lv_inv\<close> holds of the level state, the manifest entries and the tables of a database, and
  \<open>buildLevelState\<close> with a newer table in front only pushes this table on level 0.
\<close>

section \<open>The write-ahead log in normal operation\<close>

definition wal_good :: "nat \<Rightarrow> wal \<Rightarrow> bool" where
  "wal_good n w \<longleftrightarrow> \<not> walClosed w \<and> syncErr w = None \<and> wHasFile w \<and> bw_good (wBw w) \<and> wDurable w \<le> wPending w \<and> unat (wPending w) + n < 2 ^ 64"

lemma writeAll_good:
  assumes "fOpen f" "good_device (fDev f)"
  shows "\<exists>f'. writeAll f p = (f', None) \<and> fOpen f' \<and> fDev f' = fDev f"
proof (cases "p = []")
  case True
  then show ?thesis using assms by (subst writeAll.simps) simp
next
  case False
  have "writeAll f' [] = (f', None)" for f' by (subst writeAll.simps) simp
  then show ?thesis using False assms by (subst writeAll.simps) (simp add: os_Write_good)
qed

lemma os_Sync_good: "fOpen f \<Longrightarrow> good_device (fDev f) \<Longrightarrow> os_Sync f = None"
  by (simp add: os_Sync_def good_device_def)

lemma flushAndSync_good:
  assumes "bw_good (wBw w)"
  shows "\<exists>b. flushAndSyncLocked w = (w\<lparr>wBw := b, syncCount := syncCount w + 1\<rparr>, None) \<and> bw_good b"
proof -
  let ?b = "if bwBuf (wBw w) \<noteq> [] then bw_Flush (wBw w) else wBw w"
  have b: "bw_good ?b" using assms bw_Flush_good(1) [OF assms] by simp
  then have "bwErr ?b = None" "os_Sync (bwFile ?b) = None" by (auto simp: bw_good_def intro: os_Sync_good)
  then show ?thesis using b by (intro exI [of _ ?b]) (simp add: flushAndSyncLocked_def Let_def)
qed

lemma wal_good_le: "wal_good m w \<Longrightarrow> n \<le> m \<Longrightarrow> wal_good n w"
  by (simp add: wal_good_def)

lemma wal_commit_good:
  assumes w: "wal_good (length es + n) w" and es: "es \<noteq> []"
  shows "\<exists>w'. wal_commit w es wait = Some (w', None) \<and> wal_good n w' \<and> wName w' = wName w \<and> syncInterval w' = syncInterval w"
proof -
  note g = w [unfolded wal_good_def]
  have un: "unat (wPending w + of_nat (length es)) = unat (wPending w) + length es" using g by (simp add: unat_word_ariths unat_of_nat)
  have len: "0 < length es" using es by simp
  have "unat (wDurable w) \<le> unat (wPending w)" using g by (simp add: word_le_nat_alt)
  then have "wDurable w < wPending w + of_nat (length es)" unfolding word_less_nat_alt un using len by linarith
  moreover have "unat (wPending w + of_nat (length es)) + n < 2 ^ 64" unfolding un using g by simp
  ultimately have lt: "wDurable w < wPending w + of_nat (length es)" "unat (wPending w + of_nat (length es)) + n < 2 ^ 64" by blast+
  have c: "\<not> walClosed w" "syncErr w = None" using g by blast+
  obtain scr where a: "appendBatch w es wait = Some (let w1 = w\<lparr>wScratch := scr, wPending := wPending w + of_nat (length es)\<rparr> in
    if syncInterval w \<le> 0
    then (case writeAndSyncRecordLocked w1 (encs es) of
            (w2, Some e) \<Rightarrow> (w2\<lparr>syncErr := Some e\<rparr>, Returned (Some (WalIO e)))
          | (w2, None) \<Rightarrow> (w2\<lparr>wDurable := wPending w2\<rparr>, Returned None))
    else let b = bw_Write (wBw w) (encs es) in
      if bwErr b \<noteq> None then (w1\<lparr>wBw := b\<rparr>, Returned (Some (WalIO (the (bwErr b)))))
      else (w1\<lparr>wBw := b, wakeCh := True\<rparr>, if wait then Waiting (wPending w1) else Returned None))"
    using appendBatch_eq [OF es c, of wait] by blast
  show ?thesis
  proof (cases "syncInterval w \<le> 0")
    case True
    have f: "fOpen (bwFile (wBw w))" "good_device (fDev (bwFile (wBw w)))" using g by (auto simp: bw_good_def)
    obtain f' where f': "writeAll (bwFile (wBw w)) (encs es) = (f', None)" "fOpen f'" "fDev f' = fDev (bwFile (wBw w))" using writeAll_good [OF f] by blast
    then have s: "os_Sync f' = None" using f by (intro os_Sync_good) simp_all
    show ?thesis using a True f' s f g lt by (auto simp: wal_commit_def writeAndSyncRecordLocked_def Let_def wal_good_def bw_good_def)
  next
    case False
    let ?b = "bw_Write (wBw w) (encs es)"
    have b: "bw_good ?b" using bw_Write_good(1) g by blast
    then have e: "bwErr ?b = None" by (simp add: bw_good_def)
    define w1 where "w1 = w\<lparr>wScratch := scr, wPending := wPending w + of_nat (length es), wBw := ?b, wakeCh := True\<rparr>"
    have a1: "appendBatch w es wait = Some (w1, if wait then Waiting (wPending w1) else Returned None)"
      using a False e by (simp add: w1_def Let_def)
    have w1: "wal_good n w1" using g lt b by (auto simp: wal_good_def w1_def)
    show ?thesis
    proof (cases wait)
      case True
      obtain c where c: "flushAndSyncLocked (w1\<lparr>wakeCh := False\<rparr>) = (w1\<lparr>wakeCh := False, wBw := c, syncCount := syncCount w1 + 1\<rparr>, None)" "bw_good c"
        using flushAndSync_good [of "w1\<lparr>wakeCh := False\<rparr>"] w1 by (auto simp: wal_good_def)
      have "flush_pending (w1\<lparr>wakeCh := False\<rparr>) = w1\<lparr>wakeCh := False, wBw := c, syncCount := syncCount w1 + 1, wDurable := wPending w1\<rparr>"
        using c(1) lt(1) g by (simp add: flush_pending_def w1_def)
      then show ?thesis using a1 True c(2) w1 g
        by (auto simp: wal_commit_def loop_wake_def loop_timer_def Let_def wait_result_def wal_good_def w1_def)
    next
      case False
      then show ?thesis using a1 w1 by (auto simp: wal_commit_def w1_def)
    qed
  qed
qed

lemma close_file_good: "bw_good (wBw w) \<Longrightarrow> syncErr w = None \<Longrightarrow> \<exists>w'. close_file w = (w', None)"
  by (auto simp: close_file_def os_Close_def bw_good_def split: prod.splits)

lemma wal_close_good:
  assumes "wal_good n w"
  shows "\<exists>w'. wal_close w = (w', None)"
proof -
  note g = assms [unfolded wal_good_def]
  obtain b where b: "flushAndSyncLocked w = (w\<lparr>wBw := b, syncCount := syncCount w + 1\<rparr>, None)" "bw_good b" using flushAndSync_good g by blast
  show ?thesis
  proof (cases "syncInterval w \<le> 0")
    case True
    then show ?thesis using g b by (auto simp: wal_close_def close_direct_def Let_def intro!: close_file_good)
  next
    case False
    let ?w = "close_begin w\<lparr>closeCh := False\<rparr>"
    obtain c where c: "flushAndSyncLocked ?w = (?w\<lparr>wBw := c, syncCount := syncCount ?w + 1\<rparr>, None)" "bw_good c"
      using flushAndSync_good [of ?w] g by (auto simp: close_begin_def)
    then have "bw_good (wBw (flush_pending ?w)) \<and> syncErr (flush_pending ?w) = None"
      using g by (simp add: flush_pending_def) (simp add: close_begin_def)
    then show ?thesis using False g by (auto simp: wal_close_def loop_close_def intro!: close_file_good)
  qed
qed

lemma createWAL_good:
  assumes "env_ok ev" "n < 2 ^ 64"
  shows "\<exists>w. createWAL ev i = Inr w \<and> wal_good n w \<and> syncInterval w = i \<and> wName w = walID (envNow ev)"
  using assms bw_New_good [of "\<lparr>fData = [], fPos = 0, fOpen = True, fDev = envDev ev\<rparr>" walBufferedWriterSize]
  by (auto simp: createWAL_def env_ok_def newWAL_def wal_good_def good_device_def)

section \<open>Adding a table to level 0\<close>

definition lv_inv :: "tableLevelState list \<Rightarrow> TableMeta list \<Rightarrow> Table list \<Rightarrow> bool" where
  "lv_inv levels meta tables \<longleftrightarrow> sorted_wrt (<) (map lsLevel levels) \<and> list_all level_ok levels \<and> (\<forall>s \<in> set levels. 0 \<le> lsLevel s) \<and>
     meta = concat (map lsMeta levels) \<and> tables = concat (map lsTables levels) \<and>
     (\<forall>s \<in> set levels. list_all2 (\<lambda>m t. snd (tPath t) = tmFilename m) (lsMeta s) (lsTables s)) \<and> distinct (map tmFilename meta)"

definition push_table :: "TableMeta \<Rightarrow> Table \<Rightarrow> tableLevelState list \<Rightarrow> tableLevelState list" where
  "push_table m t levels =
     (case levels of
        [] \<Rightarrow> [\<lparr>lsLevel = 0, lsMeta = [m], lsTables = [t]\<rparr>]
      | s # ss \<Rightarrow> if lsLevel s = 0 then s\<lparr>lsMeta := m # lsMeta s, lsTables := t # lsTables s\<rparr> # ss
                  else \<lparr>lsLevel = 0, lsMeta = [m], lsTables = [t]\<rparr> # levels)"

lemma sort_sorted: "sorted_wrt (\<lambda>a b. \<not> lt b a) xs \<Longrightarrow> sort_slice lt xs = xs"
proof (induction xs)
  case (Cons x xs)
  have "insort_by lt x xs = x # xs" using Cons.prems by (cases xs) auto
  then show ?case using Cons by (simp add: sort_slice_Cons)
qed simp

lemma filter_concat_level:
  "sorted_wrt (<) (map lsLevel levels) \<Longrightarrow> list_all level_ok levels \<Longrightarrow> s \<in> set levels \<Longrightarrow>
    filter (\<lambda>t. tmLevel t = lsLevel s) (concat (map lsMeta levels)) = lsMeta s"
proof (induction levels)
  case (Cons r levels)
  have other: "filter (\<lambda>t. tmLevel t = lsLevel u) (lsMeta v) = []" if "level_ok v" "lsLevel u \<noteq> lsLevel v" for u v :: tableLevelState
    using that by (auto simp: level_ok_def filter_empty_conv)
  show ?case
  proof (cases "s = r")
    case True
    have "filter (\<lambda>t. tmLevel t = lsLevel s) (concat (map lsMeta levels)) = []"
      using Cons.prems(1,2) True by (auto simp: filter_concat list_all_iff intro!: other)
    moreover have "filter (\<lambda>t. tmLevel t = lsLevel s) (lsMeta s) = lsMeta s" using Cons.prems(2) True by (auto simp: level_ok_def)
    ultimately show ?thesis using True by simp
  next
    case False
    then have "s \<in> set levels" "lsLevel s \<noteq> lsLevel r" using Cons.prems(1,3) by auto
    then show ?thesis using Cons other [of r s] by simp
  qed
qed simp

lemma group_unique:
  assumes "ts \<noteq> []" "sorted_wrt (<) (map lsLevel G)" "lsLevel ` set G = tmLevel ` set ts"
    and "\<And>s. s \<in> set G \<Longrightarrow> sortTableMetaForLevel (lsLevel s) (filter (\<lambda>t. tmLevel t = lsLevel s) ts) = lsMeta s"
  shows "groupTableMetaByLevel ts = map (\<lambda>s. s\<lparr>lsTables := []\<rparr>) G"
proof -
  have ls: "distinct (levels_seen ts [])" "set (levels_seen ts []) = tmLevel ` set ts" using levels_seen_spec [of "[]" ts] by simp_all
  have "sort (levels_seen ts []) = map lsLevel G"
    using assms(2,3) ls by (intro sorted_distinct_set_unique) (auto simp: strict_sorted_iff)
  moreover have "\<lparr>lsLevel = lsLevel s, lsMeta = lsMeta s, lsTables = []\<rparr> = s\<lparr>lsTables := []\<rparr>" for s :: tableLevelState by (cases s) simp
  ultimately show ?thesis using assms(1,4) by (simp add: groupTableMetaByLevel_def comp_def)
qed

lemma level_tables_complete: "list_all2 (\<lambda>m t. byName (tmFilename m) = Some t) ms ts \<Longrightarrow> level_tables byName ms = Inr ts"
  by (induction ms ts rule: list_all2_induct) simp_all

lemma build_levels_complete:
  "(\<And>s. s \<in> set G \<Longrightarrow> list_all2 (\<lambda>m t. byName (tmFilename m) = Some t) (lsMeta s) (lsTables s)) \<Longrightarrow>
    build_levels byName (map (\<lambda>s. s\<lparr>lsTables := []\<rparr>) G) = Inr G"
proof (induction G)
  case (Cons s G)
  have "level_tables byName (lsMeta s) = Inr (lsTables s)" using Cons.prems by (intro level_tables_complete) simp
  then show ?case using Cons by simp
qed simp

lemma table_by_name_distinct: "distinct (map (\<lambda>t. snd (tPath t)) ts) \<Longrightarrow> t \<in> set ts \<Longrightarrow> table_by_name ts (snd (tPath t)) = Some t"
  unfolding table_by_name_def by (intro map_of_is_SomeI) (auto simp: rev_map [symmetric] comp_def)

text \<open>The level state of a database is what \<open>buildLevelState\<close> makes of its tables.\<close>

lemma lv_inv_build:
  assumes "lv_inv levels meta tables"
  shows "buildLevelState meta tables = Inr (levels, meta, tables)"
proof -
  note a = assms [unfolded lv_inv_def]
  have names: "map tmFilename (concat (map lsMeta ls)) = map (\<lambda>t. snd (tPath t)) (concat (map lsTables ls))"
    if "\<forall>s \<in> set ls. list_all2 (\<lambda>m t. snd (tPath t) = tmFilename m) (lsMeta s) (lsTables s)" for ls
    using that by (induction ls) (auto simp: list_all2_conv_all_nth intro!: nth_equalityI)
  have "map tmFilename meta = map (\<lambda>t. snd (tPath t)) tables" using a names [of levels] by metis
  then have "distinct (map (\<lambda>t. snd (tPath t)) tables)" using a by metis
  then have byn: "list_all2 (\<lambda>m t. table_by_name tables (tmFilename m) = Some t) (lsMeta s) (lsTables s)" if "s \<in> set levels" for s
  proof -
    have l: "list_all2 (\<lambda>m t. snd (tPath t) = tmFilename m) (lsMeta s) (lsTables s)" using a that by blast
    have "t \<in> set tables" if "t \<in> set (lsTables s)" for t using a that \<open>s \<in> set levels\<close> by auto
    then show ?thesis using l table_by_name_distinct [OF \<open>distinct (map (\<lambda>t. snd (tPath t)) tables)\<close>]
      unfolding list_all2_conv_all_nth by (metis nth_mem)
  qed
  show ?thesis
  proof (cases "levels = []")
    case True
    then show ?thesis using a by (simp add: buildLevelState_def)
  next
    case False
    then obtain s where s: "s \<in> set levels" by (cases levels) auto
    then have "lsMeta s \<noteq> []" using a by (auto simp: list_all_iff level_ok_def)
    then have ne: "meta \<noteq> []" using a s by auto
    have sm: "set meta = (\<Union>s \<in> set levels. set (lsMeta s))" using a by simp
    have lvl: "lsMeta s \<noteq> []" "x \<in> set (lsMeta s) \<Longrightarrow> tmLevel x = lsLevel s" if "s \<in> set levels" for s x
      using a that by (auto simp: list_all_iff level_ok_def)
    have "lsLevel s \<in> tmLevel ` set meta" if "s \<in> set levels" for s
      using lvl [OF that] that unfolding sm by (metis UN_I image_eqI last_in_set)
    then have "lsLevel ` set levels = tmLevel ` set meta" using lvl(2) unfolding sm by (auto intro: image_eqI)
    moreover have "sortTableMetaForLevel (lsLevel s) (filter (\<lambda>t. tmLevel t = lsLevel s) meta) = lsMeta s" if "s \<in> set levels" for s
      using a that filter_concat_level [of levels s] sort_sorted [of "level_less (lsLevel s)" "lsMeta s"]
      by (auto simp: sortTableMetaForLevel_def list_all_iff level_ok_def)
    ultimately have "groupTableMetaByLevel meta = map (\<lambda>s. s\<lparr>lsTables := []\<rparr>) levels" using ne a by (intro group_unique) auto
    then have "build_levels (table_by_name tables) (groupTableMetaByLevel meta) = Inr levels" using build_levels_complete [of levels "table_by_name tables"] byn by simp
    moreover have "concat (map lsMeta levels) = meta" "concat (map lsTables levels) = tables" using a by simp_all
    ultimately show ?thesis using ne by (simp add: buildLevelState_def)
  qed
qed

lemma lv_inv_push:
  assumes inv: "lv_inv levels meta tables" and m: "tmLevel m = 0" "\<And>x. x \<in> set meta \<Longrightarrow> tmCreatedAt x < tmCreatedAt m"
    "tmFilename m \<notin> tmFilename ` set meta" "snd (tPath t) = tmFilename m"
  shows "lv_inv (push_table m t levels) (m # meta) (t # tables)"
proof -
  note a = inv [unfolded lv_inv_def]
  have less: "\<not> level_less 0 x m" if "x \<in> set meta" for x using m(2) [OF that] by (simp add: level_less_def)
  show ?thesis
  proof (cases levels)
    case Nil
    then show ?thesis using a m by (simp add: lv_inv_def push_table_def level_ok_def)
  next
    case (Cons s ss)
    show ?thesis
    proof (cases "lsLevel s = 0")
      case True
      have "level_ok (s\<lparr>lsMeta := m # lsMeta s, lsTables := t # lsTables s\<rparr>)" using a Cons True m(1) less by (simp add: level_ok_def)
      moreover have "push_table m t levels = s\<lparr>lsMeta := m # lsMeta s, lsTables := t # lsTables s\<rparr> # ss" using Cons True by (simp add: push_table_def)
      moreover have "distinct (map tmFilename meta)" using a by blast
      then have "distinct (map tmFilename (m # meta))" using m(3) by simp
      ultimately show ?thesis using a Cons True m(4) by (simp add: lv_inv_def)
    next
      case False
      then have p: "push_table m t levels = \<lparr>lsLevel = 0, lsMeta = [m], lsTables = [t]\<rparr> # levels" using Cons by (simp add: push_table_def)
      have "sorted_wrt (<) (map lsLevel levels)" "\<forall>s \<in> set levels. 0 \<le> lsLevel s" using a by blast+
      then have "0 < lsLevel u" if "u \<in> set levels" for u using Cons False that by (cases "u = s") force+
      moreover have "distinct (map tmFilename meta)" "meta = concat (map lsMeta levels)" using a by blast+
      then have "distinct (map tmFilename (m # meta))" "m # meta = concat (map lsMeta (push_table m t levels))" using m(3) p by simp_all
      ultimately show ?thesis using a m(1,4) unfolding lv_inv_def by (intro conjI) (simp_all add: p level_ok_def)
    qed
  qed
qed

lemma push_rep:
  assumes inv: "lv_inv levels meta tables" and rep: "list_all2 (level_rep xxh3) levels rss" and t: "table_holds xxh3 t r" "run_meta m r"
  shows "\<exists>rss'. list_all2 (level_rep xxh3) (push_table m t levels) rss' \<and> concat rss' = r # concat rss"
proof -
  have new: "level_rep xxh3 \<lparr>lsLevel = 0, lsMeta = [m], lsTables = [t]\<rparr> [r]" using t by (simp add: level_rep_def)
  show ?thesis
  proof (cases levels)
    case Nil
    then show ?thesis using rep new by (intro exI [of _ "[[r]]"]) (simp add: push_table_def)
  next
    case (Cons s ss)
    then obtain rs rss1 where rss: "rss = rs # rss1" "level_rep xxh3 s rs" "list_all2 (level_rep xxh3) ss rss1" using rep by (auto simp: list_all2_Cons1)
    show ?thesis
    proof (cases "lsLevel s = 0")
      case True
      have "level_rep xxh3 (s\<lparr>lsMeta := m # lsMeta s, lsTables := t # lsTables s\<rparr>) (r # rs)" using rss(2) t True by (simp add: level_rep_def)
      then show ?thesis using Cons True rss by (intro exI [of _ "(r # rs) # rss1"]) (simp add: push_table_def)
    next
      case False
      then show ?thesis using Cons rss new by (intro exI [of _ "[r] # rs # rss1"]) (simp add: push_table_def)
    qed
  qed
qed

end
