(* ===== verification/Database_Refinement.thy ===== *)
theory Database_Refinement
  imports Database_View
begin

text \<open>
  The database as a map. \<open>db_rel\<close> relates a state of the database, in normal operation, to the map a client sees: the runs a read
  goes through are the memtable, the immutable memtables from the newest to the oldest, and the tables level by level; the first run
  with the key decides. Reads return the map; a batch of writes updates it in order, with the rotations it causes; the flush of a memtable
  leaves it unchanged.
\<close>

section \<open>The view of a list of runs\<close>

text \<open>A stored byte string stands for a value or for a deletion.\<close>

definition stored_as :: "Log \<Rightarrow> bytes \<Rightarrow> bytes option \<Rightarrow> bool" where
  "stored_as l s x \<longleftrightarrow> s \<noteq> [] \<and> (case x of None \<Rightarrow> isTombstoneValue s | Some v \<Rightarrow> represents l s v)"

definition views :: "Log \<Rightarrow> (bytes \<times> bytes) list list \<Rightarrow> (bytes \<rightharpoonup> bytes) \<Rightarrow> bool" where
  "views l rs M \<longleftrightarrow> (\<forall>k. case find_run rs k of None \<Rightarrow> M k = None | Some s \<Rightarrow> stored_as l s (M k))"

lemma read_stored_as: "log_ok l \<Longrightarrow> stored_as l s x \<Longrightarrow> readStoredValue (Some l) s = Inr x"
  using resolve_represents [of l s] by (auto simp: stored_as_def readStoredValue_def resolveStoredValue_def split: option.splits)

lemma stored_as_mono: "stored_as l s x \<Longrightarrow> (\<And>ref kv. stored l ref kv \<Longrightarrow> stored l' ref kv) \<Longrightarrow> stored_as l' s x"
  using represents_mono by (auto simp: stored_as_def split: option.splits)

lemma viewsD:
  assumes "views l rs M"
  shows "find_run rs k = None \<Longrightarrow> M k = None" "find_run rs k = Some s \<Longrightarrow> stored_as l s (M k)"
  using spec [OF assms [unfolded views_def], of k] by simp_all

lemma viewsI: "(\<And>k. find_run rs k = None \<Longrightarrow> M k = None) \<Longrightarrow> (\<And>k s. find_run rs k = Some s \<Longrightarrow> stored_as l s (M k)) \<Longrightarrow> views l rs M"
  by (simp add: views_def split: option.split)

lemma views_mono: "views l rs M \<Longrightarrow> (\<And>ref kv. stored l ref kv \<Longrightarrow> stored l' ref kv) \<Longrightarrow> views l' rs M"
  by (rule viewsI) (auto dest: viewsD intro: stored_as_mono)

lemma views_put:
  assumes v: "views l (r # rs) M" and s: "stored_as l s x"
  shows "views l (assoc_put k s r # rs) (M(k := x))"
proof (rule viewsI)
  have f: "find_run (assoc_put k s r # rs) j = (if j = k then Some s else find_run (r # rs) j)" for j by simp
  show "(M(k := x)) j = None" if "find_run (assoc_put k s r # rs) j = None" for j using that viewsD(1) [OF v, of j] unfolding f by (simp split: if_splits)
  show "stored_as l t ((M(k := x)) j)" if "find_run (assoc_put k s r # rs) j = Some t" for j t
    using that s viewsD(2) [OF v, of j t] unfolding f by (cases "j = k") simp_all
qed

lemma views_new_run: "views l rs M \<longleftrightarrow> views l ([] # rs) M"
  by (simp add: views_def)

lemma first_hit_found: "(\<And>s. find_run rs k = Some s \<Longrightarrow> s \<noteq> []) \<Longrightarrow> first_hit rs k = find_run rs k"
  by (induction rs) (auto simp: append_nil_def split: option.splits)

section \<open>The states of the database\<close>

text \<open>
  What the proofs rely on. The host: no faults and a sane sizing of the filters. The world: environments without faults and a clock that
  moves on. The budget of the arena: a write takes at most \<open>\<rho>\<close> times its accounted size and at most \<open>c\<close> bytes, and the arena has space
  for a full memtable and one more write; the code itself does not check the arena.
\<close>

definition host_ok :: "host \<Rightarrow> bool" where
  "host_ok h \<longleftrightarrow> good_device (hDev h) \<and> hFault h = (\<lambda>_. None) \<and> (\<forall>n. sizing_ok (hBits h) (hHashes h) n)"

definition world_ok :: "world \<Rightarrow> bool" where
  "world_ok W \<longleftrightarrow> (\<forall>n. env_ok (wdEnv W n)) \<and> strict_mono (wdClock W)"

definition budget :: "real \<Rightarrow> real \<Rightarrow> int \<Rightarrow> bool" where
  "budget \<rho> c maxBytes \<longleftrightarrow> 0 \<le> \<rho> \<and> 0 \<le> c \<and> 0 < maxBytes \<and> memtableArenaSize maxBytes < 2 ^ 32 \<and>
     104 + \<rho> * real_of_int maxBytes + c \<le> real_of_int (memtableArenaSize maxBytes)"

lemma budget_empty:
  assumes "budget \<rho> c mx"
  shows "104 + c \<le> real_of_int (memtableArenaSize mx)"
proof -
  have "0 \<le> \<rho> * real_of_int mx" using assms by (intro mult_nonneg_nonneg) (simp_all add: budget_def)
  moreover have "104 + \<rho> * real_of_int mx + c \<le> real_of_int (memtableArenaSize mx)" using assms by (simp add: budget_def)
  ultimately show ?thesis by linarith
qed

lemma budget_below: "budget \<rho> c mx \<Longrightarrow> n < mx \<Longrightarrow> 104 + \<rho> * real_of_int n + c \<le> real_of_int (memtableArenaSize mx)"
  using mult_left_mono [of "real_of_int n" "real_of_int mx" \<rho>] by (simp add: budget_def)

text \<open>The length of what is stored for a value, and a request that can be taken.\<close>

definition stored_len :: "int \<Rightarrow> bytes \<Rightarrow> nat" where
  "stored_len thr v = (if isTombstoneValue v \<or> int (length v) \<le> thr then length v else 8 + EncodedValueRefSize)"

definition req_cost :: "int \<Rightarrow> writeRequest \<Rightarrow> nat" where
  "req_cost thr r = node_cost maxHeight + length (fst r) + stored_len thr (snd r)"

definition req_ok :: "real \<Rightarrow> real \<Rightarrow> int \<Rightarrow> writeRequest \<Rightarrow> bool" where
  "req_ok \<rho> c thr r \<longleftrightarrow> snd r \<noteq> [] \<and> rec_ok r \<and> (isTombstoneValue (snd r) \<or> decodeValueRef (snd r) = None \<or> thr < int (length (snd r))) \<and>
     entryMetaSize + length (fst r) + stored_len thr (snd r) \<le> sstableBlockSize \<and>
     real (req_cost thr r) \<le> \<rho> * real_of_int (memtableEntrySize (fst r) (snd r)) \<and> real (req_cost thr r) \<le> c"

definition meaning :: "bytes \<Rightarrow> bytes option" where
  "meaning v = (if isTombstoneValue v then None else Some v)"

definition apply_request :: "(bytes \<rightharpoonup> bytes) \<Rightarrow> writeRequest \<Rightarrow> (bytes \<rightharpoonup> bytes)" where
  "apply_request M r = M(fst r := meaning (snd r))"

text \<open>A memtable that can be flushed, and the one that takes the writes.\<close>

definition mem_holds :: "(nat \<Rightarrow> Skiplist option) \<Rightarrow> nat \<Rightarrow> (bytes \<times> bytes) list \<Rightarrow> bool" where
  "mem_holds mems i r \<longleftrightarrow> (\<exists>sk. mems i = Some sk \<and> sl_rel sk r \<and> 0 < slRef sk)"

definition mem_room :: "real \<Rightarrow> real \<Rightarrow> int \<Rightarrow> int \<Rightarrow> Skiplist \<Rightarrow> (bytes \<times> bytes) list \<Rightarrow> bool" where
  "mem_room \<rho> c mx n sk r \<longleftrightarrow> 0 \<le> n \<and> 104 + \<rho> * real_of_int n + c \<le> real_of_int (memtableArenaSize mx) \<and> (\<forall>e \<in> set r. fits e) \<and> real (arena_cost r) \<le> 104 + \<rho> * real_of_int n \<and>
     sl_rel sk r \<and> 0 < slRef sk \<and> sl_cap sk = nat (memtableArenaSize mx) \<and> real (sl_used sk) \<le> 104 + \<rho> * real_of_int n"

definition active_ok :: "real \<Rightarrow> real \<Rightarrow> DB \<Rightarrow> nat \<Rightarrow> (bytes \<times> bytes) list \<Rightarrow> bool" where
  "active_ok \<rho> c db m r \<longleftrightarrow> (\<exists>sk. dbMems db m = Some sk \<and> mem_room \<rho> c (dbMaxBytes db) (dbMemBytes db) sk r)"

definition mems_ok :: "DB \<Rightarrow> (bytes \<times> bytes) list list \<Rightarrow> bool" where
  "mems_ok db ims \<longleftrightarrow> list_all2 (\<lambda>im r. mem_holds (dbMems db) (imTable im) r \<and> r \<noteq> [] \<and> flushable r) (dbImmutable db) ims \<and>
     distinct (map imTable (dbImmutable db)) \<and> (\<forall>im \<in> set (dbImmutable db). imTable im < dbNextMem db) \<and> dbFlushCh db = dbImmutable db"

definition tables_rel :: "host \<Rightarrow> world \<Rightarrow> DB \<Rightarrow> (bytes \<times> bytes) list list list \<Rightarrow> bool" where
  "tables_rel h W db rss \<longleftrightarrow> lv_inv (dbLevels db) (dbMeta db) (dbTables db) \<and> list_all2 (level_rep (hXxh3 h)) (dbLevels db) rss \<and>
     (\<forall>x \<in> set (dbMeta db). \<exists>c. tmFilename x = sstableID c \<and> tmCreatedAt x = int c \<and> c < wdClock W (dbTick db))"

definition open_ok :: "DB \<Rightarrow> bool" where
  "open_ok db \<longleftrightarrow> \<not> dbClosed db \<and> dbFlushErr db = None \<and> dbRead db = snapshotReadStateLocked db"

definition runs_rel :: "real \<Rightarrow> real \<Rightarrow> host \<Rightarrow> world \<Rightarrow> DB \<Rightarrow> (bytes \<times> bytes) list list \<Rightarrow> bool" where
  "runs_rel \<rho> c h W db rs \<longleftrightarrow> (\<exists>m r ims rss. rs = r # rev ims @ concat rss \<and> dbMemtable db = Some m \<and> m < dbNextMem db \<and> m \<notin> imTable ` set (dbImmutable db) \<and>
     active_ok \<rho> c db m r \<and> mems_ok db ims \<and> tables_rel h W db rss)"

definition log_rel :: "nat \<Rightarrow> DB \<Rightarrow> (bytes \<times> bytes) list list \<Rightarrow> (bytes \<rightharpoonup> bytes) \<Rightarrow> bool" where
  "log_rel n db rs M \<longleftrightarrow> (\<exists>l. dbLog db = Some l \<and> log_ok l \<and> room n l \<and> views l rs M)"

text \<open>The database, with the map \<open>M\<close>, has room for \<open>n\<close> more writes in its counters.\<close>

definition db_rel :: "real \<Rightarrow> real \<Rightarrow> host \<Rightarrow> world \<Rightarrow> nat \<Rightarrow> DB \<Rightarrow> (bytes \<rightharpoonup> bytes) \<Rightarrow> bool" where
  "db_rel \<rho> c h W n db M \<longleftrightarrow> open_ok db \<and> budget \<rho> c (dbMaxBytes db) \<and> n < 2 ^ 63 \<and> (\<exists>w. dbWal db = Some w \<and> wal_good n w) \<and>
     (\<exists>rs. runs_rel \<rho> c h W db rs \<and> log_rel n db rs M)"

section \<open>Reading\<close>

lemma get_memtables_spec:
  "list_all2 (mem_holds mems) is rs \<Longrightarrow> get_memtables mems is key = Some (find_run rs key)"
  by (induction "is" rs rule: list_all2_induct) (auto simp: mem_holds_def Get_refines split: option.split)

lemma cloneTableLevels_id [simp]: "cloneTableLevels ls = ls"
  unfolding cloneTableLevels_def by (rule map_idI) simp

lemma db_Get_view:
  assumes "db_rel \<rho> c h W n db M"
  shows "db_Get h db key = Some (Inr (M key))"
proof -
  obtain rs l where o: "open_ok db" and r: "runs_rel \<rho> c h W db rs" and l: "dbLog db = Some l" "log_ok l" "views l rs M"
    using assms unfolding db_rel_def log_rel_def by blast
  obtain m k0 ims rss where rs: "rs = k0 # rev ims @ concat rss" and m: "dbMemtable db = Some m" "active_ok \<rho> c db m k0" "mems_ok db ims" "tables_rel h W db rss"
    using r unfolding runs_rel_def by blast
  let ?ms = "m # rev (map imTable (dbImmutable db))"
  have "list_all2 (mem_holds (dbMems db)) (map imTable (dbImmutable db)) ims"
    using m(3) by (auto simp: mems_ok_def list_all2_conv_all_nth)
  then have "list_all2 (mem_holds (dbMems db)) ?ms (k0 # rev ims)"
    using m(2) by (auto simp: active_ok_def mem_room_def mem_holds_def)
  then have g: "get_memtables (dbMems db) ?ms key = Some (find_run (k0 # rev ims) key)" by (rule get_memtables_spec)
  have st: "dbRead db = snapshotReadStateLocked db" "\<not> dbClosed db" using o by (simp_all add: open_ok_def)
  have found: "stored_as l s (M key)" if "find_run rs key = Some s" for s using viewsD(2) [OF l(3) that] .
  have rd: "readStoredValue (dbLog db) s = Inr (M key)" if "find_run rs key = Some s" for s using read_stored_as [OF l(2) found [OF that]] l(1) by simp
  show ?thesis
  proof (cases "find_run (k0 # rev ims) key")
    case (Some s)
    then have "find_run rs key = Some s" using rs find_run_append [of "k0 # rev ims" "concat rss"] by simp
    from rd [OF this] show ?thesis using st m(1) g Some by (simp add: db_Get_def snapshotReadStateLocked_def read_found_def Let_def)
  next
    case None
    then have f: "find_run rs key = find_run (concat rss) key" using rs find_run_append [of "k0 # rev ims" "concat rss"] by simp
    have fh: "first_hit (concat rss) key = find_run rs key" using found f by (subst first_hit_found) (auto simp: stored_as_def)
    have t: "list_all2 (level_rep (hXxh3 h)) (dbLevels db) rss" "lv_inv (dbLevels db) (dbMeta db) (dbTables db)" using m(4) by (simp_all add: tables_rel_def)
    have no: "M key = None" if "find_run rs key = None" using viewsD(1) [OF l(3) that] .
    show ?thesis
    proof (cases "dbLevels db = []")
      case True
      then have "rss = []" "dbTables db = []" using t by (auto simp: lv_inv_def)
      then show ?thesis using True st m(1) g None f no by (simp add: db_Get_def snapshotReadStateLocked_def Let_def)
    next
      case False
      obtain ls where ls: "lookupLevels (hXxh3 h) (hStale h) (dbLevels db) (dbLog db) key = Some (read_result (dbLog db) (find_run rs key) ls)"
        using lookupLevels_spec [OF t(1)] fh by metis
      then show ?thesis using False st m(1) g None no rd
        by (cases "find_run rs key") (auto simp: db_Get_def snapshotReadStateLocked_def Let_def read_result_def)
    qed
  qed
qed

section \<open>Writing\<close>

lemma length_encodeValueRef: "length (encodeValueRef ref) \<le> 8 + EncodedValueRefSize"
  by (auto simp: encodeValueRef_def Let_def EncodedValueRefSize_def ref_MarshalBinary_def)

lemma encodeValueRef_not_Nil: "encodeValueRef ref \<noteq> []"
  by (simp add: encodeValueRef_def Let_def valueRefPrefix_def)

lemma store_request:
  assumes l: "log_ok l" "room (Suc n) l" and ev: "env_ok ev" and r: "req_ok \<rho> c thr r"
  shows "\<exists>l' s. storeValueForLSM ev (Some l) thr (fst r) (snd r) = (Some l', Inr s) \<and> log_ok l' \<and> room n l' \<and> stored_as l' s (meaning (snd r)) \<and>
    length s \<le> stored_len thr (snd r) \<and> (\<forall>ref kv. stored l ref kv \<longrightarrow> stored l' ref kv)"
proof (cases "isTombstoneValue (snd r)")
  case True
  then show ?thesis using l room_le [OF l(2), of n] by (auto simp: storeValueForLSM_def stored_as_def meaning_def encodeTombstone_def isTombstoneValue_def stored_len_def tombstoneValue_def)
next
  case False
  have q: "snd r \<noteq> []" "rec_ok (fst r, snd r)" "decodeValueRef (snd r) = None \<or> thr < int (length (snd r))" using r False by (auto simp: req_ok_def)
  obtain l' s where s: "storeValueForLSM ev (Some l) thr (fst r) (snd r) = (Some l', Inr s)" "log_ok l'" "room n l'" "represents l' s (snd r)"
    "\<forall>ref kv. stored l ref kv \<longrightarrow> stored l' ref kv" using store_represents [OF l ev q(2) False q(3)] by blast
  have "s = (if int (length (snd r)) \<le> thr then snd r else s) \<and> (thr < int (length (snd r)) \<longrightarrow> (\<exists>ref. s = encodeValueRef ref))"
    using s(1) False by (auto simp: storeValueForLSM_def split: if_splits prod.splits sum.splits)
  then have "length s \<le> stored_len thr (snd r) \<and> s \<noteq> []"
    using q(1) False length_encodeValueRef encodeValueRef_not_Nil by (auto simp: stored_len_def split: if_splits)
  then show ?thesis using s False by (auto simp: stored_as_def meaning_def)
qed

definition prepared :: "Log \<Rightarrow> int \<Rightarrow> (writeRequest \<times> bytes) list \<Rightarrow> bool" where
  "prepared l thr xs \<longleftrightarrow> (\<forall>x \<in> set xs. stored_as l (snd x) (meaning (snd (fst x))) \<and> length (snd x) \<le> stored_len thr (snd (fst x)))"

lemma entries_bytes_Cons [simp]: "entries_bytes [] = 0" "entries_bytes (x # xs) = memtableEntrySize (fst (fst x)) (snd (fst x)) + entries_bytes xs"
  by (simp_all add: entries_bytes_def)

lemma prepare_spec:
  assumes "log_ok l" "room (length reqs + n) l" "\<forall>i. env_ok (ev i)" "\<forall>r \<in> set reqs. req_ok \<rho> c thr r"
  shows "\<exists>l' xs crossing. prepare ev thr mx i (Some l) p reqs = (Some l', xs, crossing, None) \<and> log_ok l' \<and>
    room (length reqs - length xs + n) l' \<and> (\<forall>ref kv. stored l ref kv \<longrightarrow> stored l' ref kv) \<and> map fst xs = take (length xs) reqs \<and> prepared l' thr xs \<and>
    length xs \<le> length reqs \<and> (reqs \<noteq> [] \<longrightarrow> xs \<noteq> []) \<and> (reqs \<noteq> [] \<or> p < mx \<longrightarrow> (crossing \<longleftrightarrow> mx \<le> p + entries_bytes xs)) \<and>
    (\<not> crossing \<longrightarrow> length xs = length reqs) \<and> (butlast xs = [] \<or> p + entries_bytes (butlast xs) < mx)"
  using assms
proof (induction reqs arbitrary: l i p)
  case Nil
  then show ?case by (auto simp: prepared_def)
next
  case (Cons r reqs)
  have rm: "room (Suc (length reqs + n)) l" using Cons.prems(2) by simp
  have ok: "req_ok \<rho> c thr r" "env_ok (ev i)" using Cons.prems by auto
  obtain l1 s where s: "storeValueForLSM (ev i) (Some l) thr (fst r) (snd r) = (Some l1, Inr s)" "log_ok l1" "room (length reqs + n) l1"
    "stored_as l1 s (meaning (snd r))" "length s \<le> stored_len thr (snd r)" "\<forall>ref kv. stored l ref kv \<longrightarrow> stored l1 ref kv"
    using store_request [OF Cons.prems(1) rm ok(2,1)] by blast
  let ?p = "p + memtableEntrySize (fst r) (snd r)"
  show ?case
  proof (cases "mx \<le> ?p")
    case True
    then show ?thesis using s by (intro exI [of _ l1] exI [of _ "[(r, s)]"] exI [of _ True]) (simp add: prepared_def)
  next
    case False
    then have lt: "?p < mx" by simp
    have "\<forall>r \<in> set reqs. req_ok \<rho> c thr r" using Cons.prems(4) by simp
    from Cons.IH [OF s(2,3) Cons.prems(3) this, of "Suc i" ?p] obtain l' xs crossing where x: "prepare ev thr mx (Suc i) (Some l1) ?p reqs = (Some l', xs, crossing, None)" "log_ok l'"
      "room (length reqs - length xs + n) l'" "\<forall>ref kv. stored l1 ref kv \<longrightarrow> stored l' ref kv" "map fst xs = take (length xs) reqs" "prepared l' thr xs"
      "length xs \<le> length reqs" "crossing \<longleftrightarrow> mx \<le> ?p + entries_bytes xs" "\<not> crossing \<longrightarrow> length xs = length reqs" "butlast xs = [] \<or> ?p + entries_bytes (butlast xs) < mx" using lt by blast
    have "stored_as l' s (meaning (snd r))" using s(4) by (rule stored_as_mono) (use x(4) in blast)
    then have "prepared l' thr ((r, s) # xs)" using x(6) s(5) by (simp add: prepared_def)
    moreover have "prepare ev thr mx i (Some l) p (r # reqs) = (Some l', (r, s) # xs, crossing, None)" using s(1) False x(1) by simp
    moreover have "\<forall>ref kv. stored l ref kv \<longrightarrow> stored l' ref kv" using s(6) x(4) by blast
    moreover have "butlast ((r, s) # xs) = [] \<or> p + entries_bytes (butlast ((r, s) # xs)) < mx" using x(10) lt by (cases "xs = []") (auto simp: algebra_simps)
    ultimately show ?thesis using x by (intro exI [of _ l'] exI [of _ "(r, s) # xs"] exI [of _ crossing]) (simp add: algebra_simps)
  qed
qed

text \<open>The memtable takes the prepared entries.\<close>

definition put_run :: "(bytes \<times> bytes) list \<Rightarrow> (writeRequest \<times> bytes) list \<Rightarrow> (bytes \<times> bytes) list" where
  "put_run = foldl (\<lambda>r x. assoc_put (fst (fst x)) (snd x) r)"

lemma put_run_simps [simp]: "put_run r [] = r" "put_run r (x # xs) = put_run (assoc_put (fst (fst x)) (snd x) r) xs"
  by (simp_all add: put_run_def)

lemma put_entries_spec:
  assumes "sl_rel sk r" "\<forall>x \<in> set xs. length (fst (fst x)) < 2 ^ 16" "sl_used sk + (\<Sum>x \<leftarrow> xs. worst_cost (fst (fst x)) (snd x)) \<le> sl_cap sk"
  shows "\<exists>sk'. put_entries rand n sk xs = Some sk' \<and> sl_rel sk' (put_run r xs) \<and> sl_cap sk' = sl_cap sk \<and> slRef sk' = slRef sk \<and>
    sl_used sk' \<le> sl_used sk + (\<Sum>x \<leftarrow> xs. worst_cost (fst (fst x)) (snd x))"
  using assms
proof (induction xs arbitrary: sk r n)
  case (Cons x xs)
  obtain k v s where x: "x = ((k, v), s)" by (metis prod.exhaust)
  have c: "put_cost r (randomHeight (rand n)) k s \<le> worst_cost k s" by (rule put_cost_le [OF randomHeight_bounds(2)])
  obtain t where t: "Put (rand n) sk k s = Some t" "sl_rel t (assoc_put k s r)" "sl_cap t = sl_cap sk" "sl_used t = sl_used sk + put_cost r (randomHeight (rand n)) k s"
    using Put_refines [OF Cons.prems(1), of k "rand n" s] Cons.prems(2,3) c x by auto
  have "\<exists>sk'. put_entries rand (Suc n) t xs = Some sk' \<and> sl_rel sk' (put_run (assoc_put k s r) xs) \<and> sl_cap sk' = sl_cap t \<and> slRef sk' = slRef t \<and>
    sl_used sk' \<le> sl_used t + (\<Sum>x \<leftarrow> xs. worst_cost (fst (fst x)) (snd x))"
    using Cons.prems(2,3) t c x by (intro Cons.IH [OF t(2)]) auto
  then show ?case using t c x Put_slRef [OF t(1)] by auto
qed simp

lemma arena_cost_put: "arena_cost (assoc_put k s r) \<le> arena_cost r + worst_cost k s"
  by (induction r) (auto simp: arena_cost_def worst_cost_def)

lemma put_run_arena: "arena_cost (put_run r xs) \<le> arena_cost r + (\<Sum>x \<leftarrow> xs. worst_cost (fst (fst x)) (snd x))"
proof (induction xs arbitrary: r)
  case (Cons x xs)
  show ?case using Cons.IH [of "assoc_put (fst (fst x)) (snd x) r"] arena_cost_put [of "fst (fst x)" "snd x" r] by simp
qed simp

lemma set_assoc_put: "set (assoc_put k s r) \<subseteq> insert (k, s) (set r)"
  by (induction r) auto

lemma set_put_run: "set (put_run r xs) \<subseteq> set r \<union> (\<lambda>x. (fst (fst x), snd x)) ` set xs"
proof (induction xs arbitrary: r)
  case (Cons x xs)
  show ?case using Cons.IH [of "assoc_put (fst (fst x)) (snd x) r"] set_assoc_put [of "fst (fst x)" "snd x" r] by auto
qed simp

lemma put_run_not_Nil: "xs \<noteq> [] \<or> r \<noteq> [] \<Longrightarrow> put_run r xs \<noteq> []"
proof (induction xs arbitrary: r)
  case (Cons x xs)
  have "assoc_put (fst (fst x)) (snd x) r \<noteq> []" by (cases r) auto
  then show ?case using Cons.IH by simp
qed simp

lemma put_run_views:
  "views l (r # rs) M \<Longrightarrow> prepared l thr xs \<Longrightarrow> views l (put_run r xs # rs) (foldl apply_request M (map fst xs))"
proof (induction xs arbitrary: r M)
  case (Cons x xs)
  have "views l (assoc_put (fst (fst x)) (snd x) r # rs) (apply_request M (fst x))"
    unfolding apply_request_def by (rule views_put [OF Cons.prems(1)]) (use Cons.prems(2) in \<open>simp add: prepared_def\<close>)
  from Cons.IH [OF this] Cons.prems(2) show ?case by (simp add: prepared_def)
qed simp

lemma prepared_cost:
  assumes "prepared l thr xs" "\<forall>x \<in> set xs. req_ok \<rho> c thr (fst x)"
  shows "real (\<Sum>x \<leftarrow> xs. worst_cost (fst (fst x)) (snd x)) \<le> \<rho> * real_of_int (entries_bytes xs)"
  using assms
proof (induction xs)
  case (Cons x xs)
  have "worst_cost (fst (fst x)) (snd x) \<le> req_cost thr (fst x)" using Cons.prems(1) by (simp add: prepared_def worst_cost_def req_cost_def)
  then have "real (worst_cost (fst (fst x)) (snd x)) \<le> real (req_cost thr (fst x))" by linarith
  also have "\<dots> \<le> \<rho> * real_of_int (memtableEntrySize (fst (fst x)) (snd (fst x)))" using Cons.prems(2) by (simp add: req_ok_def)
  finally show ?case using Cons by (simp add: prepared_def distrib_left)
qed simp

lemma prepared_cost_last:
  assumes "prepared l thr xs" "\<forall>x \<in> set xs. req_ok \<rho> c thr (fst x)" "xs \<noteq> []"
  shows "real (\<Sum>x \<leftarrow> xs. worst_cost (fst (fst x)) (snd x)) \<le> \<rho> * real_of_int (entries_bytes (butlast xs)) + c"
proof -
  obtain ys x where xs: "xs = ys @ [x]" using assms(3) by (metis append_butlast_last_id)
  have "worst_cost (fst (fst x)) (snd x) \<le> req_cost thr (fst x)" using assms(1) xs by (simp add: prepared_def worst_cost_def req_cost_def)
  then have "real (worst_cost (fst (fst x)) (snd x)) \<le> real (req_cost thr (fst x))" by linarith
  also have "\<dots> \<le> c" using assms(2) xs by (simp add: req_ok_def)
  finally show ?thesis using prepared_cost [of l thr ys \<rho> c] assms(1,2) xs by (simp add: prepared_def)
qed

lemma flushable_run:
  assumes "\<forall>e \<in> set r. fits e" "real (arena_cost r) \<le> real_of_int (memtableArenaSize mx)" "memtableArenaSize mx < 2 ^ 32"
  shows "flushable r"
proof -
  have "int (arena_cost r) \<le> memtableArenaSize mx" using assms(2) by linarith
  then have "int (arena_cost r) < 2 ^ 32" using assms(3) by (rule order.strict_trans1)
  then have "arena_cost r < 2 ^ 32" by simp
  then show ?thesis using assms(1) arena_cost_enc [of r] by (simp add: flushable_def)
qed

lemma mem_room_flushable: "mem_room \<rho> c mx n sk r \<Longrightarrow> budget \<rho> c mx \<Longrightarrow> flushable r"
proof -
  assume a: "mem_room \<rho> c mx n sk r" "budget \<rho> c mx"
  have "real (arena_cost r) \<le> real_of_int (memtableArenaSize mx)" using a by (auto simp: mem_room_def budget_def)
  then show ?thesis using a by (intro flushable_run) (auto simp: mem_room_def budget_def)
qed

lemma mems_ok_cong:
  assumes "mems_ok db ims" "dbImmutable db' = dbImmutable db" "dbFlushCh db' = dbFlushCh db" "dbNextMem db \<le> dbNextMem db'"
    "\<And>im. im \<in> set (dbImmutable db) \<Longrightarrow> dbMems db' (imTable im) = dbMems db (imTable im)"
  shows "mems_ok db' ims"
  using assms unfolding mems_ok_def mem_holds_def list_all2_conv_all_nth by (metis (no_types, lifting) nth_mem order.strict_trans2)

lemma tables_rel_cong:
  assumes "tables_rel h W db rss" "dbLevels db' = dbLevels db" "dbMeta db' = dbMeta db" "dbTables db' = dbTables db" "dbTick db \<le> dbTick db'" "world_ok W"
  shows "tables_rel h W db' rss"
proof -
  have "wdClock W (dbTick db) \<le> wdClock W (dbTick db')" using assms(5,6) by (simp add: world_ok_def strict_mono_less_eq)
  then show ?thesis using assms(1-4) unfolding tables_rel_def by (metis order.strict_trans2)
qed

lemma rotateMemtable_spec:
  assumes st: "\<not> dbClosed db" "dbFlushErr db = None" and bud: "budget \<rho> c (dbMaxBytes db)" and wal: "dbWal db = Some w" "wal_good n w" "n < 2 ^ 63"
    and m: "dbMemtable db = Some m" "m < dbNextMem db" "m \<notin> imTable ` set (dbImmutable db)" "mem_holds (dbMems db) m r" "r \<noteq> []" "flushable r"
    and rest: "mems_ok db ims" "tables_rel h W db rss" and W: "world_ok W"
  shows "\<exists>dk' db'. rotateMemtable W (dk, db) = Some ((dk', db'), None) \<and> open_ok db' \<and> dbMaxBytes db' = dbMaxBytes db \<and> dbThreshold db' = dbThreshold db \<and>
    dbLog db' = dbLog db \<and> (\<exists>w'. dbWal db' = Some w' \<and> wal_good n w') \<and> runs_rel \<rho> c h W db' ([] # r # rev ims @ concat rss)"
proof -
  obtain nw where nw: "createWAL (wdEnv W (dbTick db)) (dbSyncInterval db) = Inr nw" "wal_good n nw"
    using createWAL_good [of "wdEnv W (dbTick db)" n "dbSyncInterval db"] W wal(3) by (auto simp: world_ok_def)
  obtain w' where w': "wal_close w = (w', None)" using wal_close_good [OF wal(2)] by blast
  have ar: "memtableArenaSize (dbMaxBytes db) < 2 ^ 32" using bud by (simp add: budget_def)
  obtain b where b: "New (nat (memtableArenaSize (dbMaxBytes db))) = Some b" "sl_rel b []" "0 < slRef b" "sl_cap b = nat (memtableArenaSize (dbMaxBytes db))" "sl_used b = 104"
    using new_builder [OF ar] by blast
  let ?im = "\<lparr>imTable = m, imWals = dbWalPaths db\<rparr>"
  define db1 where "db1 = db\<lparr>dbTick := Suc (dbTick db), dbImmutable := dbImmutable db @ [?im], dbMems := (dbMems db)(dbNextMem db \<mapsto> b),
      dbMemtable := Some (dbNextMem db), dbNextMem := Suc (dbNextMem db), dbWal := Some nw, dbWalPaths := [wName nw]\<rparr>"
  define db' where "db' = (publishReadStateLocked db1)\<lparr>dbMemBytes := 0, dbFlushCh := dbFlushCh db @ [?im]\<rparr>"
  have run: "rotateMemtable W (dk, db) = Some ((dk\<lparr>dkWals := (dkWals dk)(wName w \<mapsto> wal_content w')\<rparr>, db'), None)"
    using nw(1) wal(1) w' b(1) m(1) by (simp add: rotateMemtable_def Let_def db'_def db1_def)
  have op: "open_ok db'" using st by (simp add: open_ok_def db'_def db1_def publishReadStateLocked_def snapshotReadStateLocked_def)
  have lt: "imTable im < dbNextMem db" if "im \<in> set (dbImmutable db)" for im using rest(1) that by (simp add: mems_ok_def)
  have ims: "mems_ok db' (ims @ [r])"
  proof -
    have "mem_holds (dbMems db') i x" if "i < dbNextMem db" "mem_holds (dbMems db) i x" for i x
      using that by (simp add: mem_holds_def db'_def db1_def publishReadStateLocked_def)
    then have "list_all2 (\<lambda>im r. mem_holds (dbMems db') (imTable im) r \<and> r \<noteq> [] \<and> flushable r) (dbImmutable db) ims"
      "mem_holds (dbMems db') m r" using rest(1) m(2,4) lt by (auto simp: mems_ok_def elim!: list.rel_mono_strong)
    then have "list_all2 (\<lambda>im r. mem_holds (dbMems db') (imTable im) r \<and> r \<noteq> [] \<and> flushable r) (dbImmutable db @ [?im]) (ims @ [r])"
      using m(5,6) by (intro list_all2_appendI) simp_all
    moreover have "dbImmutable db' = dbImmutable db @ [?im]" "dbFlushCh db' = dbFlushCh db @ [?im]" "dbNextMem db' = Suc (dbNextMem db)"
      by (simp_all add: db'_def db1_def publishReadStateLocked_def)
    ultimately show ?thesis using rest(1) m(2,3) by (auto simp: mems_ok_def less_SucI image_iff)
  qed
  have "active_ok \<rho> c db' (dbNextMem db) []"
    using b budget_empty [OF bud] by (simp add: active_ok_def mem_room_def db'_def db1_def publishReadStateLocked_def arena_cost_def budget_def)
  moreover have "tables_rel h W db' rss" using rest(2) by (rule tables_rel_cong) (use W in \<open>simp_all add: db'_def db1_def publishReadStateLocked_def\<close>)
  moreover have "dbNextMem db \<notin> imTable ` set (dbImmutable db')" using lt m(2) by (fastforce simp: db'_def db1_def publishReadStateLocked_def)
  ultimately have "runs_rel \<rho> c h W db' ([] # r # rev ims @ concat rss)" unfolding runs_rel_def
    using ims by (intro exI [of _ "dbNextMem db"] exI [of _ "[]"] exI [of _ "ims @ [r]"] exI [of _ rss]) (simp add: db'_def db1_def publishReadStateLocked_def)
  then show ?thesis using run op nw(2) by (intro exI conjI) (auto simp: db'_def db1_def publishReadStateLocked_def)
qed

text \<open>What the entries of a turn leave of the memtable and the log.\<close>

lemma put_turn:
  assumes bud: "budget \<rho> c mx" and a: "mem_room \<rho> c mx n0 mem r" and xs: "prepared l thr xs" "\<forall>x \<in> set xs. req_ok \<rho> c thr (fst x)" "xs \<noteq> []"
    and below: "butlast xs = [] \<or> n0 + entries_bytes (butlast xs) < mx"
  shows "\<exists>mem'. put_entries rand n mem xs = Some mem' \<and> sl_rel mem' (put_run r xs) \<and> 0 < slRef mem' \<and> flushable (put_run r xs) \<and>
    (104 + \<rho> * real_of_int (n0 + entries_bytes xs) + c \<le> real_of_int (memtableArenaSize mx) \<longrightarrow> mem_room \<rho> c mx (n0 + entries_bytes xs) mem' (put_run r xs))"
proof -
  let ?cost = "\<Sum>x \<leftarrow> xs. worst_cost (fst (fst x)) (snd x)"
  note mem = a [unfolded mem_room_def]
  have b: "0 \<le> \<rho>" "104 + \<rho> * real_of_int mx + c \<le> real_of_int (memtableArenaSize mx)" "memtableArenaSize mx < 2 ^ 32"
    using bud by (simp_all add: budget_def)
  have c1: "real ?cost \<le> \<rho> * real_of_int (entries_bytes xs)" by (rule prepared_cost [OF xs(1,2)])
  have c2: "real ?cost \<le> \<rho> * real_of_int (entries_bytes (butlast xs)) + c" by (rule prepared_cost_last [OF xs])
  have small: "104 + \<rho> * real_of_int n0 + real ?cost \<le> real_of_int (memtableArenaSize mx)"
  proof (cases "butlast xs = []")
    case True
    then have "real ?cost \<le> c" using c2 by simp
    then show ?thesis using mem by linarith
  next
    case False
    then have "n0 + entries_bytes (butlast xs) < mx" using below by simp
    from budget_below [OF bud this] show ?thesis using c2 by (simp add: distrib_left)
  qed
  have key: "fits (fst (fst x), snd x)" if "x \<in> set xs" for x
  proof -
    have "length (snd x) \<le> stored_len thr (snd (fst x))" "req_ok \<rho> c thr (fst x)" using xs(1,2) that by (simp_all add: prepared_def)
    then show ?thesis by (simp add: req_ok_def fits_def)
  qed
  then have "length (fst (fst x)) < 2 ^ 16" if "x \<in> set xs" for x using fits_key [OF key [OF that]] by simp
  moreover have "real (sl_used mem + ?cost) \<le> real_of_int (memtableArenaSize mx)" using mem small by simp
  then have "sl_used mem + ?cost \<le> sl_cap mem" using mem by linarith
  ultimately obtain mem' where mem': "put_entries rand n mem xs = Some mem'" "sl_rel mem' (put_run r xs)" "sl_cap mem' = sl_cap mem" "slRef mem' = slRef mem"
    "sl_used mem' \<le> sl_used mem + ?cost" using put_entries_spec [of mem r xs rand n] mem by blast
  have ar: "real (arena_cost (put_run r xs)) \<le> real (arena_cost r) + real ?cost" using put_run_arena [of r xs] by linarith
  have ff: "\<forall>e \<in> set (put_run r xs). fits e" using set_put_run [of r xs] mem key by auto
  have "flushable (put_run r xs)" by (rule flushable_run [OF ff _ b(3)]) (use ar mem small in linarith)
  moreover have "0 \<le> entries_bytes xs" by (auto simp: entries_bytes_def memtableEntrySize_def intro!: sum_list_nonneg)
  moreover have "real (arena_cost (put_run r xs)) \<le> 104 + \<rho> * real_of_int (n0 + entries_bytes xs)" using ar mem c1 by (simp add: distrib_left)
  moreover have "real (sl_used mem') \<le> 104 + \<rho> * real_of_int (n0 + entries_bytes xs)" using mem'(5) mem c1 by (simp add: distrib_left)
  ultimately show ?thesis using mem mem' ff by (intro exI [of _ mem']) (simp add: mem_room_def)
qed

text \<open>The database after the entries of a turn are in the log and in the memtable, before it is rotated.\<close>

definition taken :: "DB \<Rightarrow> Log \<Rightarrow> (writeRequest \<times> bytes) list \<Rightarrow> wal \<Rightarrow> Skiplist \<Rightarrow> DB" where
  "taken db l xs w mem =
     db\<lparr>dbLog := Some l, dbTick := dbTick db + Suc (length xs), dbWal := Some w, dbMems := (dbMems db)(the (dbMemtable db) \<mapsto> mem),
        dbMemBytes := dbMemBytes db + entries_bytes xs\<rparr>"

lemma taken_simps [simp]:
  "dbLog (taken db l xs w mem) = Some l" "dbTick (taken db l xs w mem) = dbTick db + Suc (length xs)" "dbWal (taken db l xs w mem) = Some w"
  "dbMems (taken db l xs w mem) = (dbMems db)(the (dbMemtable db) \<mapsto> mem)" "dbMemBytes (taken db l xs w mem) = dbMemBytes db + entries_bytes xs"
  "dbMaxBytes (taken db l xs w mem) = dbMaxBytes db" "dbThreshold (taken db l xs w mem) = dbThreshold db" "dbMemtable (taken db l xs w mem) = dbMemtable db"
  "dbNextMem (taken db l xs w mem) = dbNextMem db" "dbImmutable (taken db l xs w mem) = dbImmutable db" "dbFlushCh (taken db l xs w mem) = dbFlushCh db"
  "dbLevels (taken db l xs w mem) = dbLevels db" "dbMeta (taken db l xs w mem) = dbMeta db" "dbTables (taken db l xs w mem) = dbTables db"
  "dbClosed (taken db l xs w mem) = dbClosed db" "dbFlushErr (taken db l xs w mem) = dbFlushErr db" "dbWalPaths (taken db l xs w mem) = dbWalPaths db"
  "dbDir (taken db l xs w mem) = dbDir db" "dbManifest (taken db l xs w mem) = dbManifest db" "dbSyncInterval (taken db l xs w mem) = dbSyncInterval db"
  "dbAsync (taken db l xs w mem) = dbAsync db" "dbRead (taken db l xs w mem) = dbRead db"
  by (simp_all add: taken_def)

lemma write_turn_shape:
  assumes rel: "db_rel \<rho> c h W (length reqs + n) db M" and reqs: "reqs \<noteq> []" "\<forall>r \<in> set reqs. req_ok \<rho> c (dbThreshold db) r" and W: "world_ok W"
    and m: "dbMemtable db = Some m" "active_ok \<rho> c db m k0" and w: "dbWal db = Some w" and l: "dbLog db = Some l" "log_ok l" "room (length reqs + n) l"
  obtains l' xs w' mem where "map fst xs = take (length xs) reqs" "xs \<noteq> []" "length xs \<le> length reqs" "\<forall>x \<in> set xs. req_ok \<rho> c (dbThreshold db) (fst x)"
    "log_ok l'" "room (length reqs - length xs + n) l'" "\<forall>ref kv. stored l ref kv \<longrightarrow> stored l' ref kv" "prepared l' (dbThreshold db) xs"
    "wal_commit w (map fst xs) (\<not> dbAsync db \<or> dbSyncInterval db \<le> 0) = Some (w', None)" "wal_good (length reqs - length xs + n) w'"
    "sl_rel mem (put_run k0 xs)" "0 < slRef mem" "flushable (put_run k0 xs)"
    "dbMemBytes db + entries_bytes xs < dbMaxBytes db \<longrightarrow> mem_room \<rho> c (dbMaxBytes db) (dbMemBytes db + entries_bytes xs) mem (put_run k0 xs)"
    "dbMemBytes db + entries_bytes xs < dbMaxBytes db \<longrightarrow> write_turn W (dk, db) reqs = Some ((dk, taken db l' xs w' mem), replicate (length xs) None, True)"
    "\<forall>st'. dbMaxBytes db \<le> dbMemBytes db + entries_bytes xs \<longrightarrow> rotateMemtable W (dk, taken db l' xs w' mem) = Some (st', None) \<longrightarrow>
      write_turn W (dk, db) reqs = Some (st', replicate (length xs) None, True)"
proof -
  have o: "open_ok db" and bud: "budget \<rho> c (dbMaxBytes db)" and wg: "wal_good (length reqs + n) w" using rel w unfolding db_rel_def by auto
  have ev: "\<forall>i. env_ok (wdEnv W (dbTick db + i))" using W by (simp add: world_ok_def)
  obtain mem0 where mem0: "dbMems db m = Some mem0" "mem_room \<rho> c (dbMaxBytes db) (dbMemBytes db) mem0 k0" using m(2) by (auto simp: active_ok_def)
  from prepare_spec [OF l(2,3) ev reqs(2), of "dbMaxBytes db" 0 "dbMemBytes db", folded l(1)] obtain l' xs crossing where
    p: "prepare (\<lambda>i. wdEnv W (dbTick db + i)) (dbThreshold db) (dbMaxBytes db) 0 (dbLog db) (dbMemBytes db) reqs = (Some l', xs, crossing, None)"
    "log_ok l'" "room (length reqs - length xs + n) l'" "\<forall>ref kv. stored l ref kv \<longrightarrow> stored l' ref kv" "map fst xs = take (length xs) reqs"
    "prepared l' (dbThreshold db) xs" "length xs \<le> length reqs" "xs \<noteq> []" "crossing \<longleftrightarrow> dbMaxBytes db \<le> dbMemBytes db + entries_bytes xs"
    "\<not> crossing \<longrightarrow> length xs = length reqs" "butlast xs = [] \<or> dbMemBytes db + entries_bytes (butlast xs) < dbMaxBytes db"
    using reqs(1) by blast
  have "fst x \<in> set reqs" if "x \<in> set xs" for x using that p(5) by (metis image_eqI in_set_takeD list.set_map)
  then have ok: "\<forall>x \<in> set xs. req_ok \<rho> c (dbThreshold db) (fst x)" using reqs(2) by blast
  have "wal_good (length (map fst xs) + (length reqs - length xs + n)) w" using wg p(7) by (simp add: wal_good_def)
  from wal_commit_good [OF this] obtain w' where w': "wal_commit w (map fst xs) (\<not> dbAsync db \<or> dbSyncInterval db \<le> 0) = Some (w', None)" "wal_good (length reqs - length xs + n) w'"
    using p(8) by fastforce
  obtain mem where mem: "put_entries (wdRand W) (dbTick db) mem0 xs = Some mem" "sl_rel mem (put_run k0 xs)" "0 < slRef mem" "flushable (put_run k0 xs)"
    "dbMemBytes db + entries_bytes xs < dbMaxBytes db \<longrightarrow> mem_room \<rho> c (dbMaxBytes db) (dbMemBytes db + entries_bytes xs) mem (put_run k0 xs)"
    using put_turn [OF bud mem0(2) p(6) ok p(8,11)] budget_below [OF bud] by blast
  have "dbFlushErr db = None" using o by (simp add: open_ok_def)
  then have "\<not> crossing \<Longrightarrow> write_turn W (dk, db) reqs = Some ((dk, taken db l' xs w' mem), replicate (length xs) None, True)"
    "crossing \<Longrightarrow> rotateMemtable W (dk, taken db l' xs w' mem) = Some (st', None) \<Longrightarrow> write_turn W (dk, db) reqs = Some (st', replicate (length xs) None, True)" for st'
    using w m(1) p(1,8) w'(1) mem0(1) mem(1) by (simp_all add: write_turn_def Let_def taken_def)
  then show thesis using that [OF p(5,8,7) ok p(2,3,4,6) w' mem(2,3,4)] mem(5) p(9) by simp
qed

lemma write_turn_spec:
  assumes rel: "db_rel \<rho> c h W (length reqs + n) db M" and reqs: "reqs \<noteq> []" "\<forall>r \<in> set reqs. req_ok \<rho> c (dbThreshold db) r" and W: "world_ok W"
  shows "\<exists>dk' db' j. write_turn W (dk, db) reqs = Some ((dk', db'), replicate j None, True) \<and> 0 < j \<and> j \<le> length reqs \<and>
    db_rel \<rho> c h W (length reqs - j + n) db' (foldl apply_request M (take j reqs)) \<and> dbThreshold db' = dbThreshold db"
proof -
  obtain w rs l where o: "open_ok db" and bud: "budget \<rho> c (dbMaxBytes db)" and n: "length reqs + n < 2 ^ 63" and w: "dbWal db = Some w" "wal_good (length reqs + n) w"
    and r: "runs_rel \<rho> c h W db rs" and l: "dbLog db = Some l" "log_ok l" "room (length reqs + n) l" "views l rs M"
    using rel unfolding db_rel_def log_rel_def by blast
  obtain m k0 ims rss where rs: "rs = k0 # rev ims @ concat rss" and m: "dbMemtable db = Some m" "m < dbNextMem db" "m \<notin> imTable ` set (dbImmutable db)"
    and act: "active_ok \<rho> c db m k0" and rest: "mems_ok db ims" "tables_rel h W db rss" using r unfolding runs_rel_def by blast
  obtain l' xs w' mem where p: "map fst xs = take (length xs) reqs" "xs \<noteq> []" "length xs \<le> length reqs"
    "\<forall>x \<in> set xs. req_ok \<rho> c (dbThreshold db) (fst x)"
    "log_ok l'" "room (length reqs - length xs + n) l'" "\<forall>ref kv. stored l ref kv \<longrightarrow> stored l' ref kv" "prepared l' (dbThreshold db) xs"
    and wc: "wal_commit w (map fst xs) (\<not> dbAsync db \<or> dbSyncInterval db \<le> 0) = Some (w', None)" and w': "wal_good (length reqs - length xs + n) w'" and mem: "sl_rel mem (put_run k0 xs)" "0 < slRef mem" "flushable (put_run k0 xs)"
    "dbMemBytes db + entries_bytes xs < dbMaxBytes db \<longrightarrow> mem_room \<rho> c (dbMaxBytes db) (dbMemBytes db + entries_bytes xs) mem (put_run k0 xs)"
    and turn: "dbMemBytes db + entries_bytes xs < dbMaxBytes db \<longrightarrow> write_turn W (dk, db) reqs = Some ((dk, taken db l' xs w' mem), replicate (length xs) None, True)"
    "\<forall>st'. dbMaxBytes db \<le> dbMemBytes db + entries_bytes xs \<longrightarrow> rotateMemtable W (dk, taken db l' xs w' mem) = Some (st', None) \<longrightarrow>
      write_turn W (dk, db) reqs = Some (st', replicate (length xs) None, True)"
    by (rule write_turn_shape [OF rel reqs W m(1) act w(1) l(1-3), of dk])
  let ?n = "length reqs - length xs + n" and ?M = "foldl apply_request M (take (length xs) reqs)" and ?db = "taken db l' xs w' mem"
  have v: "views l' (put_run k0 xs # rev ims @ concat rss) ?M"
  proof -
    have "views l' (k0 # rev ims @ concat rss) M" using l(4) unfolding rs by (rule views_mono) (use p(7) in blast)
    from put_run_views [OF this p(8)] show ?thesis unfolding p(1) .
  qed
  have fe: "dbFlushErr db = None" "\<not> dbClosed db" "dbRead db = snapshotReadStateLocked db" using o by (simp_all add: open_ok_def)
  have rest3: "mems_ok ?db ims" using rest(1) by (rule mems_ok_cong) (use m(1,3) in \<open>auto simp: image_iff\<close>)
  have tab3: "tables_rel h W ?db rss" using rest(2) by (rule tables_rel_cong) (use W in simp_all)
  have nn: "?n < 2 ^ 63" using n by linarith
  show ?thesis
  proof (cases "dbMaxBytes db \<le> dbMemBytes db + entries_bytes xs")
    case True
    have "mem_holds (dbMems ?db) m (put_run k0 xs)" using mem m(1) by (simp add: mem_holds_def)
    moreover have "put_run k0 xs \<noteq> []" using p(2) put_run_not_Nil by blast
    ultimately obtain dk' db' w2 where d: "rotateMemtable W (dk, ?db) = Some ((dk', db'), None)" "open_ok db'" "dbMaxBytes db' = dbMaxBytes ?db"
      "dbThreshold db' = dbThreshold ?db" "dbLog db' = dbLog ?db" "dbWal db' = Some w2" "wal_good ?n w2"
      "runs_rel \<rho> c h W db' ([] # put_run k0 xs # rev ims @ concat rss)"
      using rotateMemtable_spec [of ?db \<rho> c w' ?n m "put_run k0 xs" ims h W rss dk] fe bud w' nn m mem(3) rest3 tab3 W by auto
    have "views l' ([] # put_run k0 xs # rev ims @ concat rss) ?M" using v views_new_run by blast
    then have "log_rel ?n db' ([] # put_run k0 xs # rev ims @ concat rss) ?M" using p(5,6) d(5) by (simp add: log_rel_def)
    then have "db_rel \<rho> c h W ?n db' ?M" unfolding db_rel_def using d bud nn by auto
    then show ?thesis using turn(2) True d(1) d(4) p(2,3) by (intro exI [of _ dk'] exI [of _ db'] exI [of _ "length xs"]) simp
  next
    case False
    then have lt: "dbMemBytes db + entries_bytes xs < dbMaxBytes db" by simp
    have "active_ok \<rho> c ?db m (put_run k0 xs)" using mem(4) lt m(1) by (simp add: active_ok_def)
    then have "runs_rel \<rho> c h W ?db (put_run k0 xs # rev ims @ concat rss)" unfolding runs_rel_def
      using rest3 tab3 m by (intro exI [of _ m] exI [of _ "put_run k0 xs"] exI [of _ ims] exI [of _ rss]) simp
    moreover have "log_rel ?n ?db (put_run k0 xs # rev ims @ concat rss) ?M" using v p(5,6) by (simp add: log_rel_def)
    moreover have "open_ok ?db" using fe by (simp add: open_ok_def snapshotReadStateLocked_def)
    ultimately have "db_rel \<rho> c h W ?n ?db ?M" unfolding db_rel_def using bud nn w' by auto
    then show ?thesis using turn(1) lt p(2,3) by (intro exI [of _ dk] exI [of _ ?db] exI [of _ "length xs"]) simp
  qed
qed

lemma processWriteBatch_spec:
  assumes "db_rel \<rho> c h W (length reqs + n) db M" "\<forall>r \<in> set reqs. req_ok \<rho> c (dbThreshold db) r" "world_ok W"
  shows "\<exists>dk' db'. processWriteBatch W (dk, db) reqs = Some ((dk', db'), replicate (length reqs) None) \<and>
    db_rel \<rho> c h W n db' (foldl apply_request M reqs) \<and> dbThreshold db' = dbThreshold db"
  using assms
proof (induction "length reqs" arbitrary: reqs dk db M rule: less_induct)
  case less
  show ?case
  proof (cases "reqs = []")
    case True
    then show ?thesis using less.prems by (simp add: processWriteBatch.simps)
  next
    case False
    obtain dk1 db1 j where j: "write_turn W (dk, db) reqs = Some ((dk1, db1), replicate j None, True)" "0 < j" "j \<le> length reqs"
      "db_rel \<rho> c h W (length reqs - j + n) db1 (foldl apply_request M (take j reqs))" "dbThreshold db1 = dbThreshold db"
      using write_turn_spec [OF less.prems(1) False less.prems(2,3)] by blast
    have "length (drop j reqs) < length reqs" using j(2,3) by simp
    moreover have "db_rel \<rho> c h W (length (drop j reqs) + n) db1 (foldl apply_request M (take j reqs))" using j(4) by simp
    moreover have "\<forall>r \<in> set (drop j reqs). req_ok \<rho> c (dbThreshold db1) r" using less.prems(2) j(5) by (auto dest: in_set_dropD)
    ultimately obtain dk' db' where d: "processWriteBatch W (dk1, db1) (drop j reqs) = Some ((dk', db'), replicate (length (drop j reqs)) None)"
      "db_rel \<rho> c h W n db' (foldl apply_request (foldl apply_request M (take j reqs)) (drop j reqs))" "dbThreshold db' = dbThreshold db1"
      using less.hyps less.prems(3) by blast
    have "foldl apply_request (foldl apply_request M (take j reqs)) (drop j reqs) = foldl apply_request M reqs" by (metis append_take_drop_id foldl_append)
    moreover have "processWriteBatch W (dk, db) reqs = Some ((dk', db'), replicate (length reqs) None)"
      using j(1,3) d(1) False by (subst processWriteBatch.simps) (simp add: replicate_add [symmetric])
    ultimately show ?thesis using d j(5) by auto
  qed
qed

section \<open>Flushing\<close>

lemma vlog_Sync_ok: "log_ok l \<Longrightarrow> vlog_Sync l = None"
proof -
  assume l: "log_ok l"
  then obtain sg f where f: "lgActive l = Some sg" "map_of (lgFiles l) (sgId sg) = Some f" "\<not> lgClosed l" by (auto simp: log_ok_def)
  have "good_file f" using log_file(2) [OF l f(2)] .
  then have "os_Sync f = None" using os_Sync_good by (auto simp: good_file_def)
  then show ?thesis using f by (simp add: vlog_Sync_def activeFile_def)
qed

lemma tableCreatedAt_now: "tableCreatedAt n (sstableID n) = int n"
proof -
  have "file_ext (sstableID n) = ''.sst''" by (simp add: file_ext_def sstableID_def Let_def)
  then have "take (length (sstableID n) - length (file_ext (sstableID n))) (sstableID n) = dec_digits n" by (simp add: sstableID_def)
  moreover have "parse_int64 (dec_digits n) = Some (int n) \<or> parse_int64 (dec_digits n) = None"
    using parse_dec_digits [of n] by (cases "dec_digits n") (auto simp: parse_int64_def Let_def digit_of_def split: option.splits if_splits)
  ultimately show ?thesis by (auto simp: tableCreatedAt_def)
qed

lemma go_append_nil [simp]: "go_bytes (append_nil b) = b"
  by (simp add: append_nil_def)

lemma flushed_meta:
  assumes t: "table_holds xxh3 t r" "r \<noteq> []" "tPath t = (dir, sstableID now)"
  shows "run_meta (tableMetaFromSST now (Table_Metadata (Some t)) 0) r" "tmFilename (tableMetaFromSST now (Table_Metadata (Some t)) 0) = sstableID now"
    "tmCreatedAt (tableMetaFromSST now (Table_Metadata (Some t)) 0) = int now" "tmLevel (tableMetaFromSST now (Table_Metadata (Some t)) 0) = 0"
proof -
  have "tSmallest t = key_bound hd r" "tLargest t = key_bound last r" "sorted_keys r" using t(1) by (auto simp: table_holds_def table_rep_def)
  then show "run_meta (tableMetaFromSST now (Table_Metadata (Some t)) 0) r" using t(2) by (simp add: run_meta_def tableMetaFromSST_def Table_Metadata_def key_bound_def)
qed (simp_all add: tableMetaFromSST_def Table_Metadata_def t(3) tableCreatedAt_now)

lemma removeWALFiles_ok: "hFault h = (\<lambda>_. None) \<Longrightarrow> \<exists>dk'. removeWALFiles h dk dir ns = (dk', None)"
  by (induction ns arbitrary: dk) auto

lemma ReplaceTables_ok: "hFault h = (\<lambda>_. None) \<Longrightarrow> \<exists>fs' m'. ReplaceTables h fs m ts = (fs', m', None)"
  using manifest_write_ok [of h "m\<lparr>mState := (mState m)\<lparr>msTables := ts\<rparr>\<rparr>" fs] by (auto simp: ReplaceTables_def Let_def)

text \<open>The table of a memtable takes its place as the newest one of level 0.\<close>

definition installed :: "nat \<Rightarrow> immutableMemtable \<Rightarrow> Table \<Rightarrow> manifestStore \<Rightarrow> DB \<Rightarrow> DB" where
  "installed now imm t mf db =
     (let m = tableMetaFromSST now (Table_Metadata (Some t)) 0 in
      publishReadStateLocked (db\<lparr>dbTick := Suc (dbTick db), dbImmutable := remove_imm (imTable imm) (dbImmutable db), dbManifest := mf,
        dbTables := t # dbTables db, dbLevels := push_table m t (dbLevels db), dbMeta := m # dbMeta db\<rparr>))"

lemma installed_simps [simp]:
  "dbTick (installed now imm t mf db) = Suc (dbTick db)" "dbImmutable (installed now imm t mf db) = remove_imm (imTable imm) (dbImmutable db)"
  "dbManifest (installed now imm t mf db) = mf" "dbTables (installed now imm t mf db) = t # dbTables db"
  "dbMeta (installed now imm t mf db) = tableMetaFromSST now (Table_Metadata (Some t)) 0 # dbMeta db"
  "dbLevels (installed now imm t mf db) = push_table (tableMetaFromSST now (Table_Metadata (Some t)) 0) t (dbLevels db)"
  "dbRead (installed now imm t mf db) = snapshotReadStateLocked (installed now imm t mf db)" "dbLog (installed now imm t mf db) = dbLog db"
  "dbMems (installed now imm t mf db) = dbMems db" "dbMemtable (installed now imm t mf db) = dbMemtable db" "dbNextMem (installed now imm t mf db) = dbNextMem db"
  "dbMemBytes (installed now imm t mf db) = dbMemBytes db" "dbMaxBytes (installed now imm t mf db) = dbMaxBytes db" "dbThreshold (installed now imm t mf db) = dbThreshold db"
  "dbWal (installed now imm t mf db) = dbWal db" "dbWalPaths (installed now imm t mf db) = dbWalPaths db" "dbFlushCh (installed now imm t mf db) = dbFlushCh db"
  "dbFlushErr (installed now imm t mf db) = dbFlushErr db" "dbClosed (installed now imm t mf db) = dbClosed db" "dbDir (installed now imm t mf db) = dbDir db"
  "dbAsync (installed now imm t mf db) = dbAsync db" "dbSyncInterval (installed now imm t mf db) = dbSyncInterval db"
  by (simp_all add: installed_def publishReadStateLocked_def snapshotReadStateLocked_def Let_def)

lemma installFlushedTable_spec:
  assumes h: "hFault h = (\<lambda>_. None)" and tab: "tables_rel h W db rss" and W: "world_ok W"
    and t: "table_holds (hXxh3 h) t r" "r \<noteq> []" "tPath t = (dir, sstableID now)" and now: "now = wdClock W (dbTick db)"
  shows "\<exists>fs' mf rss'. ReplaceTables h (dkFs dk) (dbManifest db) (tableMetaFromSST now (Table_Metadata (Some t)) 0 # dbMeta db) = (fs', mf, None) \<and>
    installFlushedTable h now (dk, db\<lparr>dbTick := Suc (dbTick db)\<rparr>) imm t = ((dk\<lparr>dkFs := fs'\<rparr>, installed now imm t mf db), None) \<and>
    tables_rel h W (installed now imm t mf db) rss' \<and> concat rss' = r # concat rss"
proof -
  let ?m = "tableMetaFromSST now (Table_Metadata (Some t)) 0"
  obtain fs' mf where rp: "ReplaceTables h (dkFs dk) (dbManifest db) (?m # dbMeta db) = (fs', mf, None)" using ReplaceTables_ok [OF h] by blast
  have lv: "lv_inv (dbLevels db) (dbMeta db) (dbTables db)" "list_all2 (level_rep (hXxh3 h)) (dbLevels db) rss"
    and old: "\<And>x. x \<in> set (dbMeta db) \<Longrightarrow> \<exists>c. tmFilename x = sstableID c \<and> tmCreatedAt x = int c \<and> c < now"
    using tab by (auto simp: tables_rel_def now)
  have older: "tmCreatedAt x < tmCreatedAt ?m" "tmFilename x \<noteq> tmFilename ?m" if mem: "x \<in> set (dbMeta db)" for x
  proof -
    obtain c where c: "tmFilename x = sstableID c" "tmCreatedAt x = int c" "c < now" using old [OF mem] by blast
    show "tmCreatedAt x < tmCreatedAt ?m" unfolding c(2) flushed_meta(3) [OF t] using c(3) by simp
    show "tmFilename x \<noteq> tmFilename ?m" unfolding c(1) flushed_meta(2) [OF t] using c(3) sstableID_inj [of c now] by blast
  qed
  then have fresh: "tmFilename ?m \<notin> tmFilename ` set (dbMeta db)" by (metis (no_types, lifting) imageE)
  have nm: "snd (tPath t) = tmFilename ?m" using flushed_meta(2) [OF t] t(3) by simp
  have lv': "lv_inv (push_table ?m t (dbLevels db)) (?m # dbMeta db) (t # dbTables db)"
    using lv_inv_push [OF lv(1) flushed_meta(4) [OF t] older(1) fresh nm] .
  obtain rss' where rss': "list_all2 (level_rep (hXxh3 h)) (push_table ?m t (dbLevels db)) rss'" "concat rss' = r # concat rss"
    using push_rep [OF lv t(1) flushed_meta(1) [OF t]] by blast
  have run: "installFlushedTable h now (dk, db\<lparr>dbTick := Suc (dbTick db)\<rparr>) imm t = ((dk\<lparr>dkFs := fs'\<rparr>, installed now imm t mf db), None)"
    using rp lv_inv_build [OF lv'] by (simp add: installFlushedTable_def Let_def installed_def)
  have "now < wdClock W (Suc (dbTick db))" using W by (simp add: now world_ok_def strict_mono_less)
  then have "\<exists>c. tmFilename x = sstableID c \<and> tmCreatedAt x = int c \<and> c < wdClock W (Suc (dbTick db))" if "x \<in> set (?m # dbMeta db)" for x
    using old flushed_meta(2,3) [OF t] that by (metis order.strict_trans set_ConsD)
  then have "tables_rel h W (installed now imm t mf db) rss'" using lv' rss'(1) by (simp add: tables_rel_def)
  then show ?thesis using rp run rss'(2) by blast
qed

text \<open>A turn of the flush loop: the table is written, then the manifest, then the write-ahead logs are removed.\<close>

lemma flush_turn_shape:
  assumes ch: "dbFlushCh db = imm # ch" and l: "dbLog db = Some l" "log_ok l" and k: "mem_holds (dbMems db) (imTable imm) k1" "k1 \<noteq> []" "flushable k1"
    and tab: "tables_rel h W db rss" and h: "host_ok h" and W: "world_ok W" and now: "now = wdClock W (dbTick db)"
  shows "\<exists>t fs' mf rss'. table_holds (hXxh3 h) t k1 \<and> tPath t = (dbDir db, sstableID now) \<and>
    ReplaceTables h ((dkFs dk)((dbDir db, sstableID now) \<mapsto> fData (tF t))) (dbManifest db) (tableMetaFromSST now (Table_Metadata (Some t)) 0 # dbMeta db) = (fs', mf, None) \<and>
    flush_turn h W (dk, db) = Some (fst (removeWALFiles h (dk\<lparr>dkFs := fs'\<rparr>) (dbDir db) (imWals imm)), installed now imm t mf (db\<lparr>dbFlushCh := ch\<rparr>)) \<and>
    tables_rel h W (installed now imm t mf (db\<lparr>dbFlushCh := ch\<rparr>)) rss' \<and> concat rss' = k1 # concat rss"
proof -
  obtain sk where sk: "dbMems db (imTable imm) = Some sk" "sl_rel sk k1" "0 < slRef sk" using k(1) by (auto simp: mem_holds_def)
  have hh: "good_device (hDev h)" "hFault h = (\<lambda>_. None)" "sizing_ok (hBits h) (hHashes h) (length k1)" using h by (simp_all add: host_ok_def)
  obtain t where t: "sst_Flush h now (dkFs dk) (dbDir db) sk = Some ((dkFs dk)((dbDir db, sstableID now) \<mapsto> fData (tF t)), sk, Inr t)"
    "table_holds (hXxh3 h) t k1" "tPath t = (dbDir db, sstableID now)"
    using Flush_spec [OF sk(2,3) k(3) hh(3,1)] unfolding sst_Flush_def by blast
  let ?db = "db\<lparr>dbFlushCh := ch\<rparr>" and ?dk = "dk\<lparr>dkFs := (dkFs dk)((dbDir db, sstableID now) \<mapsto> fData (tF t))\<rparr>"
  have d: "tables_rel h W ?db rss" "now = wdClock W (dbTick ?db)" using tab now by (simp_all add: tables_rel_def)
  from installFlushedTable_spec [OF hh(2) d(1) W t(2) k(2) t(3) d(2), of ?dk imm] obtain fs' mf rss' where
    i: "ReplaceTables h ((dkFs dk)((dbDir db, sstableID now) \<mapsto> fData (tF t))) (dbManifest db) (tableMetaFromSST now (Table_Metadata (Some t)) 0 # dbMeta db) = (fs', mf, None)"
    "installFlushedTable h now (?dk, ?db\<lparr>dbTick := Suc (dbTick ?db)\<rparr>) imm t = ((dk\<lparr>dkFs := fs'\<rparr>, installed now imm t mf ?db), None)"
    "tables_rel h W (installed now imm t mf ?db) rss'" "concat rss' = k1 # concat rss" by auto
  obtain dk3 where "removeWALFiles h (dk\<lparr>dkFs := fs'\<rparr>) (dbDir db) (imWals imm) = (dk3, None)" using removeWALFiles_ok [OF hh(2)] by blast
  moreover have "(dbMems db)(imTable imm \<mapsto> sk) = dbMems db" using sk(1) by auto
  ultimately have "flush_turn h W (dk, db) = Some (fst (removeWALFiles h (dk\<lparr>dkFs := fs'\<rparr>) (dbDir db) (imWals imm)), installed now imm t mf ?db)"
    using ch l(1) vlog_Sync_ok [OF l(2)] sk(1) t(1) i(2) now by (simp add: flush_turn_def syncValueLogForFlush_def Let_def)
  then show ?thesis using t(2,3) i(1,3,4) by blast
qed

lemma flush_turn_spec:
  assumes rel: "db_rel \<rho> c h W n db M" and h: "host_ok h" and W: "world_ok W"
  shows "\<exists>dk' db'. flush_turn h W (dk, db) = Some (dk', db') \<and> db_rel \<rho> c h W n db' M \<and> dbThreshold db' = dbThreshold db \<and> dbFlushCh db' = tl (dbFlushCh db)"
proof (cases "dbFlushCh db")
  case Nil
  then show ?thesis using rel by (simp add: flush_turn_def)
next
  case (Cons imm ch)
  obtain w rs l where o: "open_ok db" and bud: "budget \<rho> c (dbMaxBytes db)" "n < 2 ^ 63" and w: "dbWal db = Some w" "wal_good n w"
    and r: "runs_rel \<rho> c h W db rs" and l: "dbLog db = Some l" "log_ok l" "room n l" "views l rs M"
    using rel unfolding db_rel_def log_rel_def by blast
  obtain m k0 ims0 rss where rs: "rs = k0 # rev ims0 @ concat rss" and m: "dbMemtable db = Some m" "m < dbNextMem db" "m \<notin> imTable ` set (dbImmutable db)"
    and act: "active_ok \<rho> c db m k0" and rest: "mems_ok db ims0" "tables_rel h W db rss" using r unfolding runs_rel_def by blast
  have im: "dbImmutable db = imm # ch" using rest(1) Cons by (simp add: mems_ok_def)
  then obtain k1 ims where ims: "ims0 = k1 # ims" "k1 \<noteq> []" "flushable k1" "mem_holds (dbMems db) (imTable imm) k1"
    using rest(1) by (auto simp: mems_ok_def list_all2_Cons1)
  let ?db = "\<lambda>t mf. installed (wdClock W (dbTick db)) imm t mf (db\<lparr>dbFlushCh := ch\<rparr>)"
  obtain t mf dk' rss' where run: "flush_turn h W (dk, db) = Some (dk', ?db t mf)" and i: "tables_rel h W (?db t mf) rss'" "concat rss' = k1 # concat rss"
    using flush_turn_shape [OF Cons l(1,2) ims(4,2,3) rest(2) h W refl, of dk] by blast
  have "mems_ok (?db t mf) ims" using rest(1) im ims(1) Cons by (auto simp: mems_ok_def)
  moreover have "active_ok \<rho> c (?db t mf) m k0" using act by (simp add: active_ok_def)
  moreover have "rs = k0 # rev ims @ concat rss'" using rs ims(1) i(2) by simp
  ultimately have "runs_rel \<rho> c h W (?db t mf) rs" unfolding runs_rel_def using i(1) m im
    by (intro exI [of _ m] exI [of _ k0] exI [of _ ims] exI [of _ rss']) auto
  moreover have "log_rel n (?db t mf) rs M" using l by (simp add: log_rel_def)
  ultimately have "db_rel \<rho> c h W n (?db t mf) M" unfolding db_rel_def using o bud w by (auto simp: open_ok_def)
  then show ?thesis using run Cons by auto
qed

section \<open>A setting without faults\<close>

lemma memtable_size_ok:
  "MemtableMaxBytes (normalizeOptions opts) = (if MemtableMaxBytes opts \<le> 0 then defaultMemtableMaxBytes else MemtableMaxBytes opts)"
  by (simp add: normalizeOptions_def Let_def)

lemma open_segment_size:
  "ValueLogSegmentMaxBytes (normalizeOptions opts) = ValueLogSegmentMaxBytes opts" "ValueThreshold (normalizeOptions opts) = (if ValueThreshold opts \<le> 0 then defaultValueThreshold else ValueThreshold opts)"
  by (simp_all add: normalizeOptions_def Let_def)

text \<open>The setting the witnesses share: a host and a world without faults, and a small memtable.\<close>

definition calm_world :: world where
  "calm_world = \<lparr>wdEnv = (\<lambda>_. calm), wdRand = (\<lambda>_ _. 0), wdClock = (\<lambda>n. n)\<rparr>"

definition small_options :: Options where
  "small_options = \<lparr>MemtableMaxBytes = 1000, WALSyncInterval = 0, ValueLogSegmentMaxBytes = 0, ValueThreshold = 0, AsyncWrites = False, WriteBatchWindow = 0\<rparr>"

lemma calm_setting:
  "host_ok (calm_host [])" "world_ok calm_world" "budget 200 500 (MemtableMaxBytes (normalizeOptions small_options))" "ValueLogSegmentMaxBytes small_options < 2 ^ 62"
  "req_ok 200 500 (ValueThreshold (normalizeOptions small_options)) ([1], [2])"
  using witness_sizing calm_ok
  by (simp_all add: host_ok_def calm_host_def world_ok_def calm_world_def strict_mono_def budget_def memtable_size_ok small_options_def
    memtableArenaSize_def minMemtableArenaSize_def open_segment_size defaultValueThreshold_def req_ok_def rec_ok_def decodeValueRef_def ref_size_simps
    stored_len_def req_cost_def node_cost_def maxHeight_def memtableEntrySize_def sst_consts)

end
