(* ===== verification/Database_System.thy ===== *)
theory Database_System
  imports Database_Refinement
begin

text \<open>
  The goroutines of the database together: clients that submit requests, turns of the write loop and turns of the flush loop, in
  any order. \<open>db_step\<close> is one such step.
  The properties: in every reachable state a read returns what the acknowledged requests, applied in order to the map of the start, have under
  the key; the next turn of the write loop answers at least the first waiting request, and none with an error; a database that is opened on an
  empty directory is the empty map.
\<close>

section \<open>Collecting a batch\<close>

lemma drain_queue: "length b \<le> batchCap \<Longrightarrow>
  drainQueuedWrites (map Some qs) b = (b @ take (batchCap - length b) qs, map Some (drop (batchCap - length b) qs), False)"
proof (induction qs arbitrary: b)
  case (Cons q qs)
  show ?case
  proof (cases "length b < batchCap")
    case True
    then obtain d where d: "batchCap - length b = Suc d" by (metis Suc_diff_Suc)
    then have "batchCap - length (b @ [q]) = d" by simp
    then show ?thesis using Cons.IH [of "b @ [q]"] True d by simp
  next
    case False
    then show ?thesis using Cons.prems by simp
  qed
qed simp

text \<open>A batch is a front of the queue that is not empty; the rest stays in its order.\<close>

lemma collect_batch:
  "\<exists>j. collectWriteBatch db submitters (map Some arrived) (map Some qs) q = (q # take j (qs @ arrived), map Some (drop j (qs @ arrived)), False)"
proof -
  let ?j = "batchCap - 1"
  have b: "batchCap - length [q] = ?j" "length [q] \<le> batchCap" by (simp_all add: batchCap_def)
  have d: "drainQueuedWrites (map Some qs) [q] = (q # take ?j qs, map Some (drop ?j qs), False)" using drain_queue [OF b(2), of qs] b(1) by simp
  show ?thesis
  proof (cases "length (q # take ?j qs) = batchCap \<or> \<not> shouldWaitForGroupCommit db (map Some (drop ?j qs)) submitters")
    case True
    let ?i = "min ?j (length qs)"
    have "take ?i (qs @ arrived) = take ?j qs" "drop ?i (qs @ arrived) = drop ?j qs @ arrived" by (simp_all add: min_def)
    then show ?thesis using d True by (intro exI [of _ ?i]) (simp add: collectWriteBatch_def)
  next
    case False
    then have "length (take ?j qs) < ?j" by (auto simp: batchCap_def)
    then have s: "length qs < ?j" by simp
    then have "drainQueuedWrites (map Some (drop ?j qs @ arrived)) (q # qs) = (q # qs @ take (?j - length qs) arrived, map Some (drop (?j - length qs) arrived), False)"
      by (subst drain_queue) (simp_all add: batchCap_def)
    then show ?thesis using d False s by (intro exI [of _ ?j]) (simp add: collectWriteBatch_def)
  qed
qed

text \<open>What every turn over a batch keeps, the batch keeps.\<close>

lemma processWriteBatch_keeps:
  assumes step: "\<And>dk db b dk' db' rs g. P dk db \<Longrightarrow> write_turn W (dk, db) b = Some ((dk', db'), rs, g) \<Longrightarrow> P dk' db'"
  shows "P dk db \<Longrightarrow> processWriteBatch W (dk, db) b = Some ((dk', db'), rs) \<Longrightarrow> P dk' db'"
proof (induction "length b" arbitrary: b dk db rs rule: less_induct)
  case less
  show ?case
  proof (cases "b = []")
    case True
    then show ?thesis using less.prems by (simp add: processWriteBatch.simps)
  next
    case False
    then obtain dk1 db1 rs1 g where t: "write_turn W (dk, db) b = Some ((dk1, db1), rs1, g)" using less.prems(2) by (subst (asm) processWriteBatch.simps) (auto split: option.splits)
    note p = step [OF less.prems(1) t]
    show ?thesis
    proof (cases g)
      case True
      then have "rs1 \<noteq> []" using write_turn_progress [of W "(dk, db)" b] t by simp
      then have "length (drop (length rs1) b) < length b" using False by simp
      moreover obtain rs2 where "processWriteBatch W (dk1, db1) (drop (length rs1) b) = Some ((dk', db'), rs2)"
        using less.prems(2) t True False by (subst (asm) processWriteBatch.simps) auto
      ultimately show ?thesis using less.hyps p by blast
    next
      case False
      then show ?thesis using less.prems(2) t \<open>b \<noteq> []\<close> p by (subst (asm) processWriteBatch.simps) auto
    qed
  qed
qed

section \<open>The system\<close>

record db_sys =
  dyDisk :: disk
  dyDB :: DB
  dyCh :: "writeRequest option list"
  dySubmitted :: "writeRequest list"
  dyAcked :: "writeRequest list"

text \<open>
  \<open>dySubmitted\<close> and \<open>dyAcked\<close> are the history of the run: the requests that went into the channel, and those answered without an error.
\<close>

text \<open>The requests among the first ones of the queue that got no error.\<close>

definition acked :: "writeRequest option list \<Rightarrow> dberr option list \<Rightarrow> writeRequest list" where
  "acked queue rs = map (the \<circ> fst) (filter (\<lambda>(r, e). e = None) (zip queue rs))"

inductive db_step :: "host \<Rightarrow> world \<Rightarrow> (writeRequest \<Rightarrow> bool) \<Rightarrow> db_sys \<Rightarrow> db_sys \<Rightarrow> bool" for h W good where
  submit: "good r \<Longrightarrow> submitWrite (dyDB s) (dyCh s) r = Inr ch \<Longrightarrow> db_step h W good s (s\<lparr>dyCh := ch, dySubmitted := dySubmitted s @ [r]\<rparr>)"
| turn: "\<forall>r \<in> set arrived. good r \<Longrightarrow> writeLoop_turn W submitters (map Some arrived) ((dyDisk s, dyDB s), dyCh s) = Some (((dk, db), ch), rs, goOn) \<Longrightarrow>
    db_step h W good s (s\<lparr>dyDisk := dk, dyDB := db, dyCh := ch, dySubmitted := dySubmitted s @ arrived, dyAcked := dyAcked s @ acked (dyCh s @ map Some arrived) rs\<rparr>)"
| flush: "flush_turn h W (dyDisk s, dyDB s) = Some (dk, db) \<Longrightarrow> db_step h W good s (s\<lparr>dyDisk := dk, dyDB := db\<rparr>)"

text \<open>
  The requests are answered in the order of their submission: those that wait are the ones behind the acknowledged ones. The database has the map
  of the acknowledged ones.
\<close>

definition sys_rel :: "real \<Rightarrow> real \<Rightarrow> host \<Rightarrow> world \<Rightarrow> nat \<Rightarrow> int \<Rightarrow> (bytes \<rightharpoonup> bytes) \<Rightarrow> db_sys \<Rightarrow> bool" where
  "sys_rel \<rho> c h W N thr M s \<longleftrightarrow> (\<exists>qs. dyCh s = map Some qs \<and> (\<forall>r \<in> set qs. req_ok \<rho> c thr r) \<and> dySubmitted s = dyAcked s @ qs) \<and>
     dbThreshold (dyDB s) = thr \<and> db_rel \<rho> c h W (N - length (dyAcked s)) (dyDB s) (foldl apply_request M (dyAcked s))"

lemma db_rel_le: "db_rel \<rho> c h W m db M \<Longrightarrow> n \<le> m \<Longrightarrow> db_rel \<rho> c h W n db M"
  unfolding db_rel_def log_rel_def by (meson order.strict_trans1 room_le wal_good_le)

lemma submitWrite_ok: "db_rel \<rho> c h W n db M \<Longrightarrow> submitWrite db ch r = Inr (ch @ [Some r])"
  by (auto simp: db_rel_def open_ok_def submitWrite_def snapshotReadStateLocked_def)

lemma acked_all: "length b = n \<Longrightarrow> acked (map Some b @ ch) (replicate n None) = b"
  by (induction b arbitrary: n) (auto simp: acked_def)

text \<open>A turn of the write loop takes a front of the queue and answers all of it without an error.\<close>

lemma writeLoop_turn_batch:
  assumes qs: "qs = ps @ arrived"
  shows "\<exists>j \<le> length qs. (ps \<noteq> [] \<longrightarrow> 0 < j) \<and> writeLoop_turn W submitters (map Some arrived) ((dk, db), map Some ps) =
    map_option (\<lambda>(st, rs). ((st, map Some (drop j qs)), rs, True)) (processWriteBatch W (dk, db) (take j qs))"
proof (cases ps)
  case Nil
  then show ?thesis using qs by (intro exI [of _ 0]) (simp add: writeLoop_turn_def processWriteBatch.simps)
next
  case (Cons p ps')
  obtain j0 where j0: "collectWriteBatch db submitters (map Some arrived) (map Some ps') p = (p # take j0 (ps' @ arrived), map Some (drop j0 (ps' @ arrived)), False)"
    using collect_batch by blast
  define j where "j = Suc (min j0 (length (ps' @ arrived)))"
  have b: "p # take j0 (ps' @ arrived) = take j qs" "drop j0 (ps' @ arrived) = drop j qs" "j \<le> length qs" "0 < j"
    using qs Cons by (auto simp: j_def min_def)
  have "collectWriteBatch db submitters (map Some arrived) (map Some ps') p = (take j qs, map Some (drop j qs), False)" using j0 unfolding b(1,2) .
  then show ?thesis using Cons b(3,4) by (intro exI [of _ j]) (simp add: writeLoop_turn_def split: option.split)
qed

lemma writeLoop_turn_spec:
  assumes rel: "db_rel \<rho> c h W (n + length qs) db M" and ok: "\<forall>r \<in> set qs. req_ok \<rho> c (dbThreshold db) r" and W: "world_ok W" and qs: "qs = ps @ arrived"
  shows "\<exists>dk' db' j. writeLoop_turn W submitters (map Some arrived) ((dk, db), map Some ps) =
      Some (((dk', db'), map Some (drop j qs)), replicate j None, True) \<and> j \<le> length qs \<and> (ps \<noteq> [] \<longrightarrow> 0 < j) \<and>
    db_rel \<rho> c h W (n + length qs - j) db' (foldl apply_request M (take j qs)) \<and> dbThreshold db' = dbThreshold db"
proof -
  obtain j where j: "j \<le> length qs" "ps \<noteq> [] \<longrightarrow> 0 < j" "writeLoop_turn W submitters (map Some arrived) ((dk, db), map Some ps) =
    map_option (\<lambda>(st, rs). ((st, map Some (drop j qs)), rs, True)) (processWriteBatch W (dk, db) (take j qs))"
    using writeLoop_turn_batch [OF qs, of W submitters dk db] by blast
  have "db_rel \<rho> c h W (length (take j qs) + (n + length qs - j)) db M" using rel j(1) by simp
  moreover have "\<forall>r \<in> set (take j qs). req_ok \<rho> c (dbThreshold db) r" using ok by (meson in_set_takeD)
  ultimately obtain dk' db' where "processWriteBatch W (dk, db) (take j qs) = Some ((dk', db'), replicate (length (take j qs)) None)"
    "db_rel \<rho> c h W (n + length qs - j) db' (foldl apply_request M (take j qs))" "dbThreshold db' = dbThreshold db" using processWriteBatch_spec W by blast
  then show ?thesis using j by (intro exI [of _ dk'] exI [of _ db'] exI [of _ j]) (simp add: min_def)
qed

lemma db_step_grows: "db_step h W good s s' \<Longrightarrow> length (dySubmitted s) \<le> length (dySubmitted s')"
  by (induction rule: db_step.induct) simp_all

lemma db_step_rel:
  assumes "db_step h W (req_ok \<rho> c thr) s s'" "sys_rel \<rho> c h W N thr M s" "length (dySubmitted s') \<le> N" "host_ok h" "world_ok W"
  shows "sys_rel \<rho> c h W N thr M s'"
  using assms
proof (induction rule: db_step.induct)
  case (submit r s ch)
  have "ch = dyCh s @ [Some r]" using submit(2) by (auto simp: submitWrite_def split: if_splits option.splits)
  moreover obtain qs where "dyCh s = map Some qs" "\<forall>r \<in> set qs. req_ok \<rho> c thr r" "dySubmitted s = dyAcked s @ qs" using submit(3) by (auto simp: sys_rel_def)
  ultimately show ?case using submit(1,3) unfolding sys_rel_def by (auto intro!: exI [of _ "qs @ [r]"])
next
  case (turn arrived submitters s dk db ch rs goOn)
  let ?n = "length (dyAcked s)"
  obtain ps where ps: "dyCh s = map Some ps" "\<forall>r \<in> set ps. req_ok \<rho> c thr r" "dySubmitted s = dyAcked s @ ps" "dbThreshold (dyDB s) = thr"
    and rel: "db_rel \<rho> c h W (N - ?n) (dyDB s) (foldl apply_request M (dyAcked s))" using turn(3) by (auto simp: sys_rel_def)
  let ?qs = "ps @ arrived"
  have len: "?n + length ?qs \<le> N" using turn(4) ps(3) by simp
  then have "db_rel \<rho> c h W (N - ?n - length ?qs + length ?qs) (dyDB s) (foldl apply_request M (dyAcked s))" using rel by simp
  moreover have ok: "\<forall>r \<in> set ?qs. req_ok \<rho> c (dbThreshold (dyDB s)) r" using ps(2,4) turn(1) by auto
  ultimately obtain dk' db' j where t: "writeLoop_turn W submitters (map Some arrived) ((dyDisk s, dyDB s), map Some ps) =
      Some (((dk', db'), map Some (drop j ?qs)), replicate j None, True)" "j \<le> length ?qs"
    "db_rel \<rho> c h W (N - ?n - length ?qs + length ?qs - j) db' (foldl apply_request (foldl apply_request M (dyAcked s)) (take j ?qs))" "dbThreshold db' = dbThreshold (dyDB s)"
    using writeLoop_turn_spec [OF _ _ turn(6) refl] by blast
  have e: "db = db'" "ch = map Some (drop j ?qs)" "rs = replicate j None" using turn(2) t(1) ps(1) by auto
  have "acked (map Some ?qs) rs = take j ?qs"
    using acked_all [of "take j ?qs" j "map Some (drop j ?qs)"] t(2) unfolding e(3) map_append [symmetric] append_take_drop_id by simp
  then have a: "acked (dyCh s @ map Some arrived) rs = take j ?qs" using ps(1) by simp
  have "N - ?n - length ?qs + length ?qs - j = N - length (dyAcked s @ take j ?qs)" using len t(2) by simp
  then have "db_rel \<rho> c h W (N - length (dyAcked s @ take j ?qs)) db' (foldl apply_request M (dyAcked s @ take j ?qs))" using t(3) by (simp del: length_append)
  moreover have "dySubmitted s @ arrived = (dyAcked s @ take j ?qs) @ drop j ?qs" using ps(3) by (simp del: take_append drop_append)
  moreover have "\<forall>r \<in> set (drop j ?qs). req_ok \<rho> c thr r" using ok ps(4) by (metis in_set_dropD)
  ultimately show ?case unfolding sys_rel_def using a e t(4) ps(4) by (auto simp del: take_append drop_append)
next
  case (flush s dk db)
  obtain dk' db' where "flush_turn h W (dyDisk s, dyDB s) = Some (dk', db')" "dbThreshold db' = dbThreshold (dyDB s)"
    "db_rel \<rho> c h W (N - length (dyAcked s)) db' (foldl apply_request M (dyAcked s))"
    using flush_turn_spec [of \<rho> c h W "N - length (dyAcked s)" "dyDB s"] flush(2,4,5) unfolding sys_rel_def by blast
  then show ?case using flush(1,2) by (auto simp: sys_rel_def)
qed

lemma db_reach_rel:
  assumes "(db_step h W (req_ok \<rho> c thr))\<^sup>*\<^sup>* s s'" "sys_rel \<rho> c h W N thr M s" "host_ok h" "world_ok W"
  shows "length (dySubmitted s') \<le> N \<Longrightarrow> sys_rel \<rho> c h W N thr M s'"
  using assms(1)
proof (induction rule: rtranclp_induct)
  case (step s1 s2)
  have "length (dySubmitted s1) \<le> N" using db_step_grows [OF step.hyps(2)] step.prems by linarith
  then show ?case using db_step_rel [OF step.hyps(2)] step.IH step.prems assms(3,4) by blast
qed (use assms(2) in blast)

section \<open>Opening an empty directory\<close>

lemma open_empty_manifest:
  assumes "hFault h = (\<lambda>_. None)"
  shows "\<exists>fs' m. openManifest h now (\<lambda>_. None) dir [] = Some (fs', Inr m) \<and> manifest_Tables m = []"
proof -
  let ?m = "\<lparr>mPath = (dir, manifestFilename), mState = \<lparr>msVersion = manifestVersion, msTables = []\<rparr>\<rparr>"
  obtain fs' where "manifest_write h (\<lambda>_. None) ?m = (fs', None)" using manifest_write_ok [of h ?m] assms by auto
  moreover have "scanDataFiles h dir [] = Inr ([], [])" using assms by (simp add: scanDataFiles_def Let_def)
  ultimately show ?thesis using assms
    by (simp add: openManifest_def Let_def os_ReadFile_def rebuildManifestStateFromDisk_def manifest_Tables_def)
qed

lemma openDB_empty:
  assumes h: "host_ok h" and W: "world_ok W" and b: "budget \<rho> c (MemtableMaxBytes (normalizeOptions opts))" and m: "ValueLogSegmentMaxBytes opts < 2 ^ 62"
  shows "\<exists>dk db. openDB h W None \<lparr>dkFs = (\<lambda>_. None), dkWals = wals\<rparr> dir [] [] opts = Some (dk, Inr db) \<and>
    dbThreshold db = ValueThreshold (normalizeOptions opts) \<and> db_rel \<rho> c h W (2 ^ 63 - 1) db Map.empty"
proof -
  let ?o = "normalizeOptions opts"
  have hf: "hFault h = (\<lambda>_. None)" using h by (simp add: host_ok_def)
  obtain fs' mf where mf: "openManifest h (wdClock W 0) (\<lambda>_. None) dir [] = Some (fs', Inr mf)" "manifest_Tables mf = []" using open_empty_manifest [OF hf] by blast
  have ev: "env_ok (wdEnv W n)" for n using W by (simp add: world_ok_def)
  let ?max = "if ValueLogSegmentMaxBytes opts \<le> 0 then defaultSegmentMaxBytes else ValueLogSegmentMaxBytes opts"
  have "0 < ?max" "?max < 2 ^ 62" using m by (simp_all add: defaultSegmentMaxBytes_def)
  from openEmpty_ok [OF ev this, of 0 dir] obtain l where l: "openEmpty (wdEnv W 0) dir ?max = Inr l" "log_ok l" "room (2 ^ 63 - 1) l" by blast
  then have vo: "vlog_Open (wdEnv W 0) dir (ValueLogSegmentMaxBytes ?o) [] = Inr l" by (simp add: vlog_Open_def Let_def open_segment_size)
  have ar: "memtableArenaSize (MemtableMaxBytes ?o) < 2 ^ 32" using b by (simp add: budget_def)
  obtain sk where sk: "New (nat (memtableArenaSize (MemtableMaxBytes ?o))) = Some sk" "sl_rel sk []" "0 < slRef sk"
    "sl_cap sk = nat (memtableArenaSize (MemtableMaxBytes ?o))" "sl_used sk = 104" using new_builder [OF ar] by blast
  obtain w where w: "createWAL (wdEnv W 1) (WALSyncInterval ?o) = Inr w" "wal_good (2 ^ 63 - 1) w" using createWAL_good [OF ev, of "2 ^ 63 - 1" 1 "WALSyncInterval ?o"] by auto
  have sc: "scanDataFiles h dir [] = Inr ([], [])" using hf by (simp add: scanDataFiles_def Let_def)
  have os: "openSSTablesFromMeta h fs' dir [] = Some (Inr [])" by (simp add: openSSTablesFromMeta_def)
  define db where "db = publishReadStateLocked \<lparr>dbDir = dir, dbMaxBytes = MemtableMaxBytes ?o, dbSyncInterval = WALSyncInterval ?o,
      dbSegmentMax = ValueLogSegmentMaxBytes ?o, dbThreshold = ValueThreshold ?o, dbAsync = AsyncWrites ?o, dbWindow = WriteBatchWindow ?o,
      dbMems = (\<lambda>_. None)(0 \<mapsto> sk), dbNextMem = 1, dbMemtable = Some 0, dbMemBytes = 0, dbWal = Some w, dbWalPaths = [wName w], dbImmutable = [],
      dbTables = [], dbLevels = [], dbMeta = [], dbManifest = mf, dbLog = Some l, dbFlushErr = None, dbClosed = False,
      dbRead = \<lparr>rsClosed = False, rsMemtable = None, rsImmutable = [], rsTables = [], rsLevels = []\<rparr>, dbFlushCh = [], dbTick = Suc 1\<rparr>"
  have db: "openDB h W None \<lparr>dkFs = (\<lambda>_. None), dkWals = wals\<rparr> dir [] [] opts = Some (\<lparr>dkFs = fs', dkWals = wals\<rparr>, Inr db)"
    using sc mf vo sk(1) w(1) os by (simp_all add: openDB_def Let_def buildLevelState_def db_def)
  have "active_ok \<rho> c db 0 []" using sk budget_empty [OF b] by (simp add: db_def publishReadStateLocked_def active_ok_def mem_room_def arena_cost_def budget_def)
  moreover have "mems_ok db []" "tables_rel h W db []" by (simp_all add: db_def publishReadStateLocked_def mems_ok_def tables_rel_def lv_inv_def)
  ultimately have "runs_rel \<rho> c h W db [[]]" unfolding runs_rel_def
    by (intro exI [of _ 0] exI [of _ "[]"] exI [of _ "[] :: (bytes \<times> bytes) list list"] exI [of _ "[] :: (bytes \<times> bytes) list list list"]) (simp add: db_def publishReadStateLocked_def)
  moreover have "log_rel (2 ^ 63 - 1) db [[]] Map.empty" using l by (simp add: log_rel_def db_def publishReadStateLocked_def views_def)
  moreover have "open_ok db" by (simp add: open_ok_def db_def publishReadStateLocked_def snapshotReadStateLocked_def)
  ultimately have "db_rel \<rho> c h W (2 ^ 63 - 1) db Map.empty" unfolding db_rel_def using b w(2) by (auto simp: db_def publishReadStateLocked_def)
  then show ?thesis using db by (auto simp: db_def publishReadStateLocked_def)
qed

section \<open>Properties of the database\<close>

definition db_start :: "disk \<Rightarrow> DB \<Rightarrow> db_sys" where
  "db_start dk db = \<lparr>dyDisk = dk, dyDB = db, dyCh = [], dySubmitted = [], dyAcked = []\<rparr>"

lemma start_rel: "db_rel \<rho> c h W N db M \<Longrightarrow> sys_rel \<rho> c h W N (dbThreshold db) M (db_start dk db)"
  by (simp add: sys_rel_def db_start_def)

lemma opened_reach_rel:
  assumes "host_ok h" "world_ok W" "budget \<rho> c (MemtableMaxBytes (normalizeOptions opts))" "ValueLogSegmentMaxBytes opts < 2 ^ 62"
    and "openDB h W None \<lparr>dkFs = (\<lambda>_. None), dkWals = wals\<rparr> dir [] [] opts = Some (dk, Inr db)"
    and "(db_step h W (req_ok \<rho> c (dbThreshold db)))\<^sup>*\<^sup>* (db_start dk db) s" "length (dySubmitted s) < 2 ^ 63"
  shows "sys_rel \<rho> c h W (2 ^ 63 - 1) (dbThreshold db) Map.empty s"
proof -
  have "db_rel \<rho> c h W (2 ^ 63 - 1) db Map.empty" using openDB_empty [OF assms(1-4), of wals dir] assms(5) by auto
  then show ?thesis using db_reach_rel [OF assms(6) start_rel assms(1,2)] assms(7) by simp
qed

text \<open>A run to try the properties on: one request and a turn of the write loop.\<close>

lemma small_run:
  assumes h: "host_ok h" and W: "world_ok W"
  shows "\<exists>dk db s. openDB h W None \<lparr>dkFs = (\<lambda>_. None), dkWals = (\<lambda>_. None)\<rparr> ''d'' [] [] small_options = Some (dk, Inr db) \<and>
    (db_step h W (req_ok 200 500 (dbThreshold db)))\<^sup>*\<^sup>* (db_start dk db) s \<and> dySubmitted s = [([1], [2])] \<and> dyAcked s = [([1], [2])] \<and>
    processWriteBatch W (dk, db) [([1], [2])] = Some ((dyDisk s, dyDB s), [None])"
proof -
  let ?r = "([1], [2]) :: writeRequest"
  obtain dk db where o: "openDB h W None \<lparr>dkFs = (\<lambda>_. None), dkWals = (\<lambda>_. None)\<rparr> ''d'' [] [] small_options = Some (dk, Inr db)"
    "dbThreshold db = ValueThreshold (normalizeOptions small_options)" "db_rel 200 500 h W (2 ^ 63 - 1) db Map.empty"
    using openDB_empty [OF h W calm_setting(3,4), of "\<lambda>_. None" "''d''"] by blast
  let ?step = "db_step h W (req_ok 200 500 (dbThreshold db))"
  have ok: "req_ok 200 500 (dbThreshold db) ?r" using calm_setting(5) o(2) by simp
  define s1 where "s1 = \<lparr>dyDisk = dk, dyDB = db, dyCh = [Some ?r], dySubmitted = [?r], dyAcked = []\<rparr>"
  have 1: "?step (db_start dk db) s1"
    using ok db_step.submit [of "req_ok 200 500 (dbThreshold db)" ?r "db_start dk db" "[Some ?r]" h W] submitWrite_ok [OF o(3), of "[]" ?r] by (simp add: s1_def db_start_def)
  have "db_rel 200 500 h W (length [?r] + (2 ^ 63 - 2)) db Map.empty" using o(3) by simp
  then obtain dk' db' where p: "processWriteBatch W (dk, db) [?r] = Some ((dk', db'), [None])"
    using processWriteBatch_spec [OF _ _ W, of 200 500 h "[?r]" "2 ^ 63 - 2" db Map.empty dk] ok by auto
  obtain j where j: "j \<le> length [?r]" "0 < j" "writeLoop_turn W 0 (map Some []) ((dk, db), map Some [?r]) =
    map_option (\<lambda>(st, rs). ((st, map Some (drop j [?r])), rs, True)) (processWriteBatch W (dk, db) (take j [?r]))"
    using writeLoop_turn_batch [of "[?r]" "[?r]" "[]" W 0 dk db] by auto
  then have "j = 1" by simp
  then have t: "writeLoop_turn W 0 [] ((dk, db), [Some ?r]) = Some (((dk', db'), []), [None], True)" using j(3) p by simp
  define s2 where "s2 = \<lparr>dyDisk = dk', dyDB = db', dyCh = [], dySubmitted = [?r], dyAcked = [?r]\<rparr>"
  have 2: "?step s1 s2"
    using db_step.turn [of "[]" "req_ok 200 500 (dbThreshold db)" W 0 s1 dk' db' "[]" "[None]" True h] t by (simp add: s1_def s2_def acked_def)
  show ?thesis using o(1) p 1 2 by (intro exI [of _ dk] exI [of _ db] exI [of _ s2]) (simp add: s2_def)
qed



text \<open>
  C11: No request waits for ever and no loop is stuck. From every state such a run reaches, the next turn of the write loop answers the waiting requests from
  the first one on, at least one of them and all without an error, and the next turn of the flush loop takes the oldest memtable from its channel.
\<close>
theorem database_makes_progress:
  assumes "host_ok h" "world_ok W" "budget \<rho> c (MemtableMaxBytes (normalizeOptions opts))" "ValueLogSegmentMaxBytes opts < 2 ^ 62"
    and "openDB h W None \<lparr>dkFs = (\<lambda>_. None), dkWals = wals\<rparr> dir [] [] opts = Some (dk, Inr db)"
    and "(db_step h W (req_ok \<rho> c (dbThreshold db)))\<^sup>*\<^sup>* (db_start dk db) s" "length (dySubmitted s) < 2 ^ 63"
  shows "(\<exists>st j. writeLoop_turn W submitters [] ((dyDisk s, dyDB s), dyCh s) = Some ((st, drop j (dyCh s)), replicate j None, True) \<and> (dyCh s \<noteq> [] \<longrightarrow> 0 < j)) \<and>
    (\<exists>dk' db'. flush_turn h W (dyDisk s, dyDB s) = Some (dk', db') \<and> dbFlushErr db' = None \<and> dbFlushCh db' = tl (dbFlushCh (dyDB s)))"
proof -
  let ?N = "2 ^ 63 - 1 - length (dyAcked s)"
  have "sys_rel \<rho> c h W (2 ^ 63 - 1) (dbThreshold db) Map.empty s" by (rule opened_reach_rel [OF assms])
  then obtain qs where q: "dyCh s = map Some qs" "\<forall>r \<in> set qs. req_ok \<rho> c (dbThreshold (dyDB s)) r" "dySubmitted s = dyAcked s @ qs"
    and rel: "db_rel \<rho> c h W ?N (dyDB s) (foldl apply_request Map.empty (dyAcked s))" unfolding sys_rel_def by metis
  have "?N = (?N - length qs) + length qs" using q(3) assms(7) by simp
  then have "db_rel \<rho> c h W ((?N - length qs) + length qs) (dyDB s) (foldl apply_request Map.empty (dyAcked s))" using rel by simp
  from writeLoop_turn_spec [OF this q(2) assms(2), of qs "[]" submitters "dyDisk s"] obtain st j where
    j: "writeLoop_turn W submitters [] ((dyDisk s, dyDB s), map Some qs) = Some ((st, map Some (drop j qs)), replicate j None, True)" "qs \<noteq> [] \<longrightarrow> 0 < j"
    by auto
  obtain dk' db' where f: "flush_turn h W (dyDisk s, dyDB s) = Some (dk', db')" "dbFlushCh db' = tl (dbFlushCh (dyDB s))"
    "db_rel \<rho> c h W ?N db' (foldl apply_request Map.empty (dyAcked s))"
    using flush_turn_spec [OF rel assms(1,2)] by blast
  then have "dbFlushErr db' = None" by (simp add: db_rel_def open_ok_def)
  then show ?thesis using j f(1,2) unfolding q(1) drop_map by auto
qed

lemma database_makes_progress_witness:
  "\<exists>(s :: db_sys) dk' db'. dyAcked s = [([1], [2])] \<and> flush_turn (calm_host []) calm_world (dyDisk s, dyDB s) = Some (dk', db') \<and> dbFlushErr db' = None"
proof -
  obtain dk db s where s: "openDB (calm_host []) calm_world None \<lparr>dkFs = (\<lambda>_. None), dkWals = (\<lambda>_. None)\<rparr> ''d'' [] [] small_options = Some (dk, Inr db)"
    "(db_step (calm_host []) calm_world (req_ok 200 500 (dbThreshold db)))\<^sup>*\<^sup>* (db_start dk db) s" "dySubmitted s = [([1], [2])]" "dyAcked s = [([1], [2])]"
    using small_run [OF calm_setting(1,2)] by blast
  then have "length (dySubmitted s) < 2 ^ 63" by simp
  from database_makes_progress [OF calm_setting(1-4) s(1,2) this, of 0] show ?thesis using s(4) by blast
qed

section \<open>Errors of the database\<close>

lemma write_turn_failed: "dbFlushErr db = Some e \<Longrightarrow> write_turn W (dk, db) batch = Some ((dk, db), replicate (length batch) (Some e), False)"
  by (simp add: write_turn_def)

lemma processWriteBatch_failed: "dbFlushErr db = Some e \<Longrightarrow> processWriteBatch W (dk, db) batch = Some ((dk, db), replicate (length batch) (Some e))"
  by (subst processWriteBatch.simps) (simp add: write_turn_failed)

lemma setFlushErrIfNil_sticky: "dbFlushErr db = Some e \<Longrightarrow> setFlushErrIfNil e' db = (db, e)"
  by (simp add: setFlushErrIfNil_def)

lemma installFlushedTable_err: "installFlushedTable h now (dk, db) imm t = ((dk', db'), r) \<Longrightarrow> dbFlushErr db' = dbFlushErr db"
  by (auto simp: installFlushedTable_def Let_def publishReadStateLocked_def split: prod.splits option.splits sum.splits)

lemma flush_turn_sticky: "flush_turn h W (dk, db) = Some (dk', db') \<Longrightarrow> dbFlushErr db = Some e \<Longrightarrow> dbFlushErr db' = Some e"
  by (auto simp: flush_turn_def syncValueLogForFlush_def Let_def setFlushErrIfNil_sticky
      split: list.splits Option.bind_splits option.splits if_splits sum.splits prod.splits dest!: installFlushedTable_err)

lemma acked_none: "acked q (replicate n (Some e)) = []"
  by (auto simp: acked_def filter_empty_conv set_zip)

text \<open>
  C20: The first error stays. Once a flush, the value log or the write-ahead log has failed, every step of the system keeps that error, no further request is
  accepted into the channel or acknowledged, and the files, memtables and tables are not changed by a turn of the write loop.
\<close>
theorem failed_database_is_frozen:
  assumes "db_step h W good s s'" "dbFlushErr (dyDB s) = Some e"
  shows "dbFlushErr (dyDB s') = Some e \<and> dyAcked s' = dyAcked s \<and> submitWrite (dyDB s') (dyCh s') r \<noteq> Inr ch \<and>
    (writeLoop_turn W k q ((dyDisk s, dyDB s), dyCh s) = Some ((st, ch'), rs, goOn) \<longrightarrow> st = (dyDisk s, dyDB s) \<and> None \<notin> set rs)"
proof -
  have w: "st = (dyDisk s, dyDB s) \<and> (\<exists>n. rs = replicate n (Some e))"
    if "writeLoop_turn W k q ((dyDisk s, dyDB s), dyCh s) = Some ((st, ch'), rs, goOn)" for k q st ch' rs goOn
    using that processWriteBatch_failed [OF assms(2)]
    by (auto simp: writeLoop_turn_def split: list.splits option.splits prod.splits intro: exI [of _ 0])
  have "dbFlushErr (dyDB s') = Some e \<and> dyAcked s' = dyAcked s" using assms
  proof (cases rule: db_step.cases)
    case (turn arrived submitters dk db ch rs goOn)
    then have "db = dyDB s" "\<exists>n. rs = replicate n (Some e)" using w by blast+
    then show ?thesis using turn(1) assms(2) acked_none by auto
  next
    case (flush dk db)
    then show ?thesis using flush_turn_sticky assms(2) by (metis db_sys.simps(2,5) db_sys.surjective db_sys.update_convs(1,2))
  qed simp
  moreover from this have "submitWrite (dyDB s') (dyCh s') r \<noteq> Inr ch" by (simp add: submitWrite_def)
  moreover have "st = (dyDisk s, dyDB s) \<and> None \<notin> set rs" if "writeLoop_turn W k q ((dyDisk s, dyDB s), dyCh s) = Some ((st, ch'), rs, goOn)"
    using w [OF that] by auto
  ultimately show ?thesis by blast
qed

lemma failed_database_is_frozen_witness:
  "\<exists>s s'. dbFlushErr (dyDB s) = Some ErrDbClosed \<and> db_step (calm_host []) calm_world (\<lambda>_. True) s s' \<and> dbFlushErr (dyDB s') = Some ErrDbClosed \<and> dyAcked s' = dyAcked s"
proof -
  obtain dk db where "openDB (calm_host []) calm_world None \<lparr>dkFs = (\<lambda>_. None), dkWals = (\<lambda>_. None)\<rparr> ''d'' [] [] small_options = Some (dk, Inr db)" using small_run [OF calm_setting(1,2)] by blast
  define s where "s = db_start dk (db\<lparr>dbFlushErr := Some ErrDbClosed, dbFlushCh := []\<rparr>)"
  have "db_step (calm_host []) calm_world (\<lambda>_. True) s (s\<lparr>dyDisk := dyDisk s, dyDB := dyDB s\<rparr>)" by (rule db_step.flush) (simp add: s_def db_start_def flush_turn_def)
  moreover have "dbFlushErr (dyDB s) = Some ErrDbClosed" by (simp add: s_def db_start_def)
  ultimately show ?thesis using failed_database_is_frozen by blast
qed

end
