(* ===== verification/Database_Recovery.thy ===== *)
theory Database_Recovery
  imports Database_System
begin

text \<open>
  Opening a database on what another one left on disk: a manifest with the tables it names, the segments of the value log, perhaps with a torn
  record at the end, and write-ahead logs. The logs are replayed on top of the tables, in the order of their names.
\<close>

section \<open>Replaying the write-ahead logs\<close>

text \<open>The file of a log has these requests as its whole records, and behind them at most a torn one.\<close>

definition wal_holds :: "(string \<Rightarrow> (bytes \<times> device) option) \<Rightarrow> string \<Rightarrow> writeRequest list \<Rightarrow> bool" where
  "wal_holds wals n es \<longleftrightarrow> (\<exists>data dev rest. wals n = Some (data, dev) \<and> good_device dev \<and> split_records data = (es, rest) \<and> parse_rec rest \<noteq> BadSum)"

definition reqs_bytes :: "writeRequest list \<Rightarrow> int" where
  "reqs_bytes es = (\<Sum>r \<leftarrow> es. memtableEntrySize (fst r) (snd r))"

lemma reqs_bytes_simps [simp]: "reqs_bytes [] = 0" "reqs_bytes (r # es) = memtableEntrySize (fst r) (snd r) + reqs_bytes es" "0 \<le> reqs_bytes es"
  by (auto simp: reqs_bytes_def memtableEntrySize_def intro!: sum_list_nonneg)

lemma entries_bytes_reqs: "entries_bytes xs = reqs_bytes (map fst xs)"
  by (induction xs) simp_all

lemma Append_max: "Append ev l k v = (l', x) \<Longrightarrow> lgMax l' = lgMax l"
proof -
  have "append_record l1 sg f k v = (l2, y) \<Longrightarrow> lgMax l2 = lgMax l1" for l1 l2 sg f y
    by (auto simp: append_record_def Let_def split: prod.splits if_splits)
  moreover have "rotateSegmentLocked ev l i = Inr l1 \<Longrightarrow> lgMax l1 = lgMax l" for l1 i
    by (auto simp: rotateSegmentLocked_def Let_def split: option.splits if_splits)
  ultimately show "Append ev l k v = (l', x) \<Longrightarrow> lgMax l' = lgMax l"
    by (auto simp: Append_def Let_def split: option.splits if_splits sum.splits)
qed

lemma store_max: "storeValueForLSM ev l thr k v = (l', x) \<Longrightarrow> map_option lgMax l' = map_option lgMax l"
  by (auto simp: storeValueForLSM_def split: option.splits if_splits sum.splits prod.splits dest: Append_max)

lemma replay_entries:
  assumes "budget \<rho> c mx" "\<forall>i. env_ok (wdEnv W i)" and "\<forall>q \<in> set es. req_ok \<rho> c thr q" "log_ok l" "room (length es + n) l" "mem_room \<rho> c mx b sk r"
    "104 + \<rho> * real_of_int (b + reqs_bytes es) + c \<le> real_of_int (memtableArenaSize mx)"
  shows "\<exists>l' sk' xs. run_callback (replay_entry W thr) es (Some l, sk, b, i) = ((Some l', sk', b + reqs_bytes es, i + length es), None) \<and> log_ok l' \<and> room n l' \<and>
    lgMax l' = lgMax l \<and> (\<forall>ref kv. stored l ref kv \<longrightarrow> stored l' ref kv) \<and> map fst xs = es \<and> prepared l' thr xs \<and> mem_room \<rho> c mx (b + reqs_bytes es) sk' (put_run r xs)"
  using assms(3-)
proof (induction es arbitrary: l sk b i r)
  case Nil
  then show ?case by (auto simp: prepared_def)
next
  case (Cons q es)
  have rm: "room (Suc (length es + n)) l" and q: "req_ok \<rho> c thr q" using Cons.prems(1,3) by simp_all
  obtain l1 s where s: "storeValueForLSM (wdEnv W i) (Some l) thr (fst q) (snd q) = (Some l1, Inr s)" "log_ok l1" "room (length es + n) l1"
    "stored_as l1 s (meaning (snd q))" "length s \<le> stored_len thr (snd q)" "\<forall>ref kv. stored l ref kv \<longrightarrow> stored l1 ref kv"
    using store_request [OF Cons.prems(2) rm _ q, of "wdEnv W i"] assms(2) by blast
  let ?b = "b + memtableEntrySize (fst q) (snd q)"
  have le: "104 + \<rho> * real_of_int ?b + c \<le> real_of_int (memtableArenaSize mx)"
  proof -
    have "\<rho> * real_of_int ?b \<le> \<rho> * real_of_int (b + reqs_bytes (q # es))" using assms(1) by (intro mult_left_mono) (simp_all add: budget_def)
    then show ?thesis using Cons.prems(5) by linarith
  qed
  have "prepared l1 thr [(q, s)]" using s(4,5) by (simp add: prepared_def)
  then obtain sk1 where sk1: "Put (wdRand W i) sk (fst q) s = Some sk1" "mem_room \<rho> c mx ?b sk1 (assoc_put (fst q) s r)"
    using put_turn [OF assms(1) Cons.prems(4), of l1 thr "[(q, s)]" "wdRand W" i] q le by (auto split: Option.bind_splits)
  have "104 + \<rho> * real_of_int (?b + reqs_bytes es) + c \<le> real_of_int (memtableArenaSize mx)" using Cons.prems(5) by (simp add: add.assoc)
  from Cons.IH [OF _ s(2,3) sk1(2) this, of "Suc i"] obtain l' sk' xs where
    x: "run_callback (replay_entry W thr) es (Some l1, sk1, ?b, Suc i) = ((Some l', sk', ?b + reqs_bytes es, Suc i + length es), None)" "log_ok l'" "room n l'"
    "\<forall>ref kv. stored l1 ref kv \<longrightarrow> stored l' ref kv" "map fst xs = es" "prepared l' thr xs" "mem_room \<rho> c mx (?b + reqs_bytes es) sk' (put_run (assoc_put (fst q) s r) xs)" "lgMax l' = lgMax l1"
    using Cons.prems(1) by auto
  have "stored_as l' s (meaning (snd q))" using s(4) by (rule stored_as_mono) (use x(4) in blast)
  then have "prepared l' thr ((q, s) # xs)" using x(6) s(5) by (simp add: prepared_def)
  moreover have "run_callback (replay_entry W thr) (q # es) (Some l, sk, b, i) = ((Some l', sk', b + reqs_bytes (q # es), i + length (q # es)), None)"
    using s(1) sk1(1) x(1) by (cases q) (simp add: replay_entry_def add.assoc)
  moreover have "mem_room \<rho> c mx (b + reqs_bytes (q # es)) sk' (put_run r ((q, s) # xs))" using x(7) by (simp add: add.assoc)
  moreover have "map fst ((q, s) # xs) = q # es" using x(5) by simp
  moreover have "\<forall>ref kv. stored l ref kv \<longrightarrow> stored l' ref kv" using s(6) x(4) by blast
  moreover have "lgMax l' = lgMax l" using x(8) store_max [OF s(1)] by simp
  ultimately show ?case using x(2,3) by (intro exI [of _ l'] exI [of _ sk'] exI [of _ "(q, s) # xs"]) simp
qed

lemma replay_file:
  assumes "wal_holds wals n es"
  shows "replayWAL (wals n) fn s = (case run_callback fn es s of (s', Some e) \<Rightarrow> (s', Some (Inr e)) | (s', None) \<Rightarrow> (s', None))"
proof -
  obtain data dev rest where d: "wals n = Some (data, dev)" "good_device dev" "split_records data = (es, rest)" "parse_rec rest \<noteq> BadSum"
    using assms by (auto simp: wal_holds_def)
  let ?f = "\<lparr>fData = data, fPos = 0, fOpen = True, fDev = dev\<rparr>"
  have "replayWAL (wals n) fn s = replay_loop fn ?f s" using d(1,2) by (simp add: replayWAL_def good_device_def)
  then show ?thesis using replay_spec [of ?f es rest fn s] d by (auto split: prod.splits option.splits)
qed

lemma replayWALs_run:
  "list_all2 (wal_holds wals) ns ess \<Longrightarrow> run_callback (replay_entry W thr) (concat ess) s = (s', None) \<Longrightarrow> replayWALs W wals thr ns s = Some (s', None)"
proof (induction ns ess arbitrary: s rule: list_all2_induct)
  case (Cons n ns es ess)
  obtain s1 where "run_callback (replay_entry W thr) es s = (s1, None)" "run_callback (replay_entry W thr) (concat ess) s1 = (s', None)"
    using Cons.prems by (auto simp: run_callback_append split: prod.splits option.splits)
  then show ?case using Cons.IH replay_file [OF Cons.hyps(1), of "replay_entry W thr" s] by simp
qed simp

section \<open>Reopening the tables\<close>

lemma openSSTables_reopen:
  assumes "good_device (hDev h)"
  shows "list_all2 (\<lambda>t r. table_holds x t r \<and> flushable r \<and> fs (dir, snd (tPath t)) = Some (fData (tF t))) ts rs \<Longrightarrow>
    \<exists>us. openSSTables h fs (map (\<lambda>t. (dir, snd (tPath t))) ts) = Some (Inr us) \<and> list_all2 (table_holds x) us rs \<and>
      list_all2 (\<lambda>u t. tPath u = (dir, snd (tPath t)) \<and> fData (tF u) = fData (tF t)) us ts"
proof (induction ts rs rule: list_all2_induct)
  case (Cons t ts r rs)
  obtain u where "Open (hStale h) (hDev h) fs (dir, snd (tPath t)) = Some (Inr u)" "table_holds x u r" "tPath u = (dir, snd (tPath t))" "fData (tF u) = fData (tF t)"
    using table_holds_reopen [of x t r "hDev h" fs "(dir, snd (tPath t))" "hStale h"] Cons.hyps(1) assms by blast
  then show ?case using Cons.IH by (auto simp: tryE_def)
qed simp

text \<open>The level state with other tables in the places of its own.\<close>

fun refill :: "Table list \<Rightarrow> tableLevelState list \<Rightarrow> tableLevelState list" where
  "refill us [] = []"
| "refill us (s # ss) = s\<lparr>lsTables := take (length (lsTables s)) us\<rparr> # refill (drop (length (lsTables s)) us) ss"

lemma refill_frame: "map lsLevel (refill us ls) = map lsLevel ls" "map lsMeta (refill us ls) = map lsMeta ls"
  by (induction us ls rule: refill.induct) simp_all

lemma refill_tables: "length us = length (concat (map lsTables ls)) \<Longrightarrow> concat (map lsTables (refill us ls)) = us"
  by (induction us ls rule: refill.induct) auto

lemma refill_rep:
  "list_all2 (level_rep x) ls rss \<Longrightarrow> list_all2 (table_holds x) us (concat rss) \<Longrightarrow> list_all2 (level_rep x) (refill us ls) rss"
proof (induction ls rss arbitrary: us rule: list_all2_induct)
  case (Cons s ss rs rss)
  have n: "length (lsTables s) = length rs" using Cons.hyps(1) by (auto simp: level_rep_def dest: list_all2_lengthD)
  obtain us1 us2 where u: "us = us1 @ us2" "list_all2 (table_holds x) us1 rs" "list_all2 (table_holds x) us2 (concat rss)"
    using Cons.prems by (auto simp: list_all2_append2)
  have "length us1 = length rs" using u(2) by (rule list_all2_lengthD)
  then show ?case using Cons.hyps(1) Cons.IH [OF u(3)] u n by (simp add: level_rep_def)
qed simp

lemma list_all2_names: "list_all2 (\<lambda>m t. f t = g m) ms ts \<longleftrightarrow> map f ts = map g ms"
  by (auto simp: list_all2_conv_all_nth list_eq_iff_nth_eq)

lemma refill_names:
  "\<forall>s \<in> set ls. list_all2 (\<lambda>m t. snd (tPath t) = tmFilename m) (lsMeta s) (lsTables s) \<Longrightarrow> map (\<lambda>t. snd (tPath t)) us = map (\<lambda>t. snd (tPath t)) (concat (map lsTables ls)) \<Longrightarrow>
    \<forall>s \<in> set (refill us ls). list_all2 (\<lambda>m t. snd (tPath t) = tmFilename m) (lsMeta s) (lsTables s)"
proof (induction us ls rule: refill.induct)
  case (2 us s ss)
  let ?n = "length (lsTables s)" and ?f = "\<lambda>t. snd (tPath t)"
  have "map ?f (take ?n us) = map ?f (lsTables s)" "map ?f (drop ?n us) = map ?f (concat (map lsTables ss))"
    using arg_cong [OF 2(3), of "take ?n"] arg_cong [OF 2(3), of "drop ?n"] by (simp_all add: take_map drop_map)
  then show ?case using 2(1,2) by (simp add: list_all2_names)
qed simp

lemma lv_inv_refill:
  assumes "lv_inv ls meta ts" "map (\<lambda>t. snd (tPath t)) us = map (\<lambda>t. snd (tPath t)) ts"
  shows "lv_inv (refill us ls) meta us"
proof -
  note a = assms(1) [unfolded lv_inv_def]
  have f: "map (\<lambda>s. (lsLevel s, lsMeta s)) (refill us ls) = map (\<lambda>s. (lsLevel s, lsMeta s)) ls" by (induction us ls rule: refill.induct) simp_all
  have p: "\<exists>t \<in> set ls. lsLevel t = lsLevel s \<and> lsMeta t = lsMeta s" if "s \<in> set (refill us ls)" for s
  proof -
    have "(lsLevel s, lsMeta s) \<in> set (map (\<lambda>s. (lsLevel s, lsMeta s)) (refill us ls))" using that by force
    then show ?thesis unfolding f by auto
  qed
  have "list_all level_ok (refill us ls)" "\<forall>s \<in> set (refill us ls). 0 \<le> lsLevel s" using p a by (auto simp: list_all_iff level_ok_def dest!: p)
  moreover have "length us = length (concat (map lsTables ls))" using map_eq_imp_length_eq [OF assms(2)] a by simp
  then have "us = concat (map lsTables (refill us ls))" by (simp add: refill_tables)
  moreover have "map (\<lambda>t. snd (tPath t)) us = map (\<lambda>t. snd (tPath t)) (concat (map lsTables ls))" using assms(2) a by simp
  then have "\<forall>s \<in> set (refill us ls). list_all2 (\<lambda>m t. snd (tPath t) = tmFilename m) (lsMeta s) (lsTables s)" using a by (intro refill_names) blast
  ultimately show ?thesis using a unfolding lv_inv_def refill_frame by blast
qed

text \<open>The manifest on disk names these tables, level by level, and their files hold these runs.\<close>

definition disk_tables :: "host \<Rightarrow> fs \<Rightarrow> string \<Rightarrow> TableMeta list \<Rightarrow> (bytes \<times> bytes) list list list \<Rightarrow> bool" where
  "disk_tables h fs dir meta rss \<longleftrightarrow> fs (dir, manifestFilename) = Some (hMarshal h \<lparr>msVersion = manifestVersion, msTables = meta\<rparr>) \<and> codec_ok h meta \<and>
     (\<exists>levels tables. lv_inv levels meta tables \<and> list_all2 (level_rep (hXxh3 h)) levels rss \<and> (\<forall>t \<in> set tables. fs (dir, snd (tPath t)) = Some (fData (tF t)))) \<and>
     (\<forall>r \<in> set (concat rss). flushable r)"

lemma level_rep_tables: "list_all2 (level_rep x) ls rss \<Longrightarrow> list_all2 (table_holds x) (concat (map lsTables ls)) (concat rss)"
  by (induction ls rss rule: list_all2_induct) (auto simp: level_rep_def intro: list_all2_appendI)

definition store_of :: "string \<Rightarrow> TableMeta list \<Rightarrow> manifestStore" where
  "store_of dir meta = \<lparr>mPath = (dir, manifestFilename), mState = \<lparr>msVersion = manifestVersion, msTables = meta\<rparr>\<rparr>"

lemma reopen_tables:
  assumes d: "disk_tables h fs dir meta rss" and h: "host_ok h"
  shows "\<exists>us levels. openManifest h now fs dir names = Some (fs, Inr (store_of dir meta)) \<and> openSSTablesFromMeta h fs dir meta = Some (Inr us) \<and>
    buildLevelState meta us = Inr (levels, meta, us) \<and> lv_inv levels meta us \<and> list_all2 (level_rep (hXxh3 h)) levels rss \<and>
    (\<forall>t \<in> set us. fs (dir, snd (tPath t)) = Some (fData (tF t)))"
proof -
  obtain levels tables where l: "lv_inv levels meta tables" "list_all2 (level_rep (hXxh3 h)) levels rss"
    and f: "\<forall>t \<in> set tables. fs (dir, snd (tPath t)) = Some (fData (tF t))" and m: "fs (dir, manifestFilename) = Some (hMarshal h \<lparr>msVersion = manifestVersion, msTables = meta\<rparr>)" "codec_ok h meta"
    and fl: "\<forall>r \<in> set (concat rss). flushable r" using d unfolding disk_tables_def by blast
  have hh: "good_device (hDev h)" "hFault h = (\<lambda>_. None)" using h by (simp_all add: host_ok_def)
  have ts: "tables = concat (map lsTables levels)" and nm: "meta = concat (map lsMeta levels)" using l(1) by (simp_all add: lv_inv_def)
  have "list_all2 (table_holds (hXxh3 h)) tables (concat rss)" using level_rep_tables [OF l(2)] ts by simp
  then have "list_all2 (\<lambda>t r. table_holds (hXxh3 h) t r \<and> flushable r \<and> fs (dir, snd (tPath t)) = Some (fData (tF t))) tables (concat rss)"
    using f fl by (auto elim!: list.rel_mono_strong)
  from openSSTables_reopen [OF hh(1) this] obtain us where u: "openSSTables h fs (map (\<lambda>t. (dir, snd (tPath t))) tables) = Some (Inr us)"
    "list_all2 (table_holds (hXxh3 h)) us (concat rss)" "list_all2 (\<lambda>u t. tPath u = (dir, snd (tPath t)) \<and> fData (tF u) = fData (tF t)) us tables" by blast
  have "map (\<lambda>t. snd (tPath t)) us = map (\<lambda>t. snd (tPath t)) tables" using u(3) by (induction rule: list_all2_induct) simp_all
  from lv_inv_refill [OF l(1) this] have lv: "lv_inv (refill us levels) meta us" .
  have names: "map (\<lambda>t. snd (tPath t)) (concat (map lsTables ls)) = map tmFilename (concat (map lsMeta ls))"
    if "\<forall>s \<in> set ls. list_all2 (\<lambda>m t. snd (tPath t) = tmFilename m) (lsMeta s) (lsTables s)" for ls
    using that by (induction ls) (simp_all add: list_all2_names)
  have "map (\<lambda>t. snd (tPath t)) tables = map tmFilename meta" using names [of levels] l(1) ts nm by (simp add: lv_inv_def)
  then have "map (Pair dir) (map (\<lambda>t. snd (tPath t)) tables) = map (Pair dir) (map tmFilename meta)" by simp
  then have "map (\<lambda>t. (dir, snd (tPath t))) tables = map (\<lambda>t. (dir, tmFilename t)) meta" by (simp add: comp_def)
  then have "openSSTablesFromMeta h fs dir meta = Some (Inr us)" using u(1) by (simp add: openSSTablesFromMeta_def)
  moreover have "openManifest h now fs dir names = Some (fs, Inr (store_of dir meta))"
    using m hh(2) by (simp add: openManifest_def os_ReadFile_def Let_def codec_ok_def store_of_def)
  moreover have "fs (dir, snd (tPath t)) = Some (fData (tF t))" if "t \<in> set us" for t
    using u(3) f that by (auto simp: list_all2_conv_all_nth in_set_conv_nth) (metis nth_mem snd_conv)
  ultimately show ?thesis using lv_inv_build [OF lv] lv refill_rep [OF l(2) u(2)] by blast
qed

section \<open>Opening\<close>

text \<open>The write-ahead logs a directory lists, in the order of their names.\<close>

definition lists_wals :: "listing \<Rightarrow> string list \<Rightarrow> bool" where
  "lists_wals names ws \<longleftrightarrow> distinct (map fst names) \<and> sorted_wrt (<) ws \<and> set ws = {n. (n, False) \<in> set names \<and> has_suffix n ''.wal''}"

lemma wal_not_sst: "has_suffix n ''.wal'' \<Longrightarrow> \<not> has_suffix n ''.sst''"
  by (simp add: has_suffix_def)

lemma scan_wals:
  assumes "lists_wals names ws" "hFault h = (\<lambda>_. None)"
  shows "\<exists>ssts. scanDataFiles h dir names = Inr (ssts, ws)"
proof -
  let ?l = "filter (\<lambda>n. \<not> has_suffix n ''.sst'' \<and> has_suffix n ''.wal'') (map fst (filter (\<lambda>e. \<not> snd e) names))"
  have w: "distinct (map fst names)" "sorted_wrt (<) ws" "set ws = {n. (n, False) \<in> set names \<and> has_suffix n ''.wal''}" using assms(1) by (simp_all add: lists_wals_def)
  have "distinct ?l" using w(1) by (intro distinct_filter) (metis distinct_map distinct_filter filter_is_subset inj_on_subset)
  moreover have "set ?l = set ws" using w(3) wal_not_sst by (auto simp: image_iff)
  moreover have "sorted (map id (sort_slice (\<lambda>a b. id a < id b) ?l))" by (rule sorted_sort_slice)
  ultimately have "sort_slice (\<lambda>a b. a < b) ?l = ws" using w(2) distinct_sort_slice [of id ?l "\<lambda>a b. a < b"]
    by (intro sorted_distinct_set_unique) (simp_all add: strict_sorted_iff)
  then show ?thesis using assms(2) by (simp add: scanDataFiles_def Let_def)
qed

section \<open>What the active log has on disk\<close>

text \<open>All of these requests are in the file and nothing is left in the buffer.\<close>

definition wal_has :: "wal \<Rightarrow> writeRequest list \<Rightarrow> bool" where
  "wal_has w es \<longleftrightarrow> bwBuf (wBw w) = [] \<and> fData (bwFile (wBw w)) = encs es \<and> fPos (bwFile (wBw w)) = length (encs es)"

lemma wal_has_commit:
  assumes g: "wal_good n w" and has: "wal_has w es0" and es: "es \<noteq> []" and c: "wal_commit w es True = Some (w', None)"
    and lt: "unat (wPending w) + length es < 2 ^ 64"
  shows "wal_has w' (es0 @ es)" "wName w' = wName w" "fDev (bwFile (wBw w')) = fDev (bwFile (wBw w))"
proof -
  note g = g [unfolded wal_good_def] and h = has [unfolded wal_has_def]
  have bg: "bw_good (wBw w)" and f: "fOpen (bwFile (wBw w))" "good_device (fDev (bwFile (wBw w)))" using g by (auto simp: bw_good_def)
  have im: "bw_image (wBw w) = encs es0" "bw_end (wBw w) = length (encs es0)" using h by (simp_all add: bw_image_def bw_end_def)
  have un: "unat (wPending w + of_nat (length es)) = unat (wPending w) + length es" using lt by (simp add: unat_word_ariths unat_of_nat)
  have "unat (wDurable w) \<le> unat (wPending w)" using g by (simp add: word_le_nat_alt)
  moreover have "0 < length es" using es by simp
  ultimately have dl: "wDurable w < wPending w + of_nat (length es)" unfolding word_less_nat_alt un by linarith
  have cc: "\<not> walClosed w" "syncErr w = None" using g by blast+
  obtain scr where a: "appendBatch w es True = Some (let w1 = w\<lparr>wScratch := scr, wPending := wPending w + of_nat (length es)\<rparr> in
    if syncInterval w \<le> 0
    then (case writeAndSyncRecordLocked w1 (encs es) of
            (w2, Some e) \<Rightarrow> (w2\<lparr>syncErr := Some e\<rparr>, Returned (Some (WalIO e)))
          | (w2, None) \<Rightarrow> (w2\<lparr>wDurable := wPending w2\<rparr>, Returned None))
    else let b = bw_Write (wBw w) (encs es) in
      if bwErr b \<noteq> None then (w1\<lparr>wBw := b\<rparr>, Returned (Some (WalIO (the (bwErr b)))))
      else (w1\<lparr>wBw := b, wakeCh := True\<rparr>, if True then Waiting (wPending w1) else Returned None))"
    using appendBatch_eq [OF es cc, of True] by blast
  have "wal_has w' (es0 @ es) \<and> wName w' = wName w \<and> fDev (bwFile (wBw w')) = fDev (bwFile (wBw w))"
  proof (cases "syncInterval w \<le> 0")
    case True
    let ?f = "(bwFile (wBw w))\<lparr>fData := encs es0 @ encs es, fPos := length (encs es0) + length (encs es)\<rparr>"
    have "writeAll f' [] = (f', None)" for f' by (subst writeAll.simps) simp
    moreover have "encs es \<noteq> []" using es length_enc_rec by (cases es) auto
    ultimately have wa: "writeAll (bwFile (wBw w)) (encs es) = (?f, None)"
      using f h write_at_end [of "encs es0" "encs es"] by (subst writeAll.simps) (simp add: os_Write_good)
    moreover have "os_Sync ?f = None" using f by (intro os_Sync_good) simp_all
    ultimately have "w' = w\<lparr>wScratch := scr, wPending := wPending w + of_nat (length es), wBw := (wBw w)\<lparr>bwFile := ?f\<rparr>, syncCount := syncCount w + 1, wDurable := wPending w + of_nat (length es)\<rparr>"
      using c True by (simp add: wal_commit_def a writeAndSyncRecordLocked_def Let_def)
    then show ?thesis using h by (simp add: wal_has_def)
  next
    case False
    let ?b = "bw_Write (wBw w) (encs es)"
    have b: "bw_good ?b" "bw_image ?b = encs (es0 @ es)" "bw_end ?b = length (encs (es0 @ es))" "fDev (bwFile ?b) = fDev (bwFile (wBw w))"
      using bw_Write_good [OF bg, of "encs es"] im write_at_end by simp_all
    then have e: "bwErr ?b = None" by (simp add: bw_good_def)
    define w1 where "w1 = w\<lparr>wScratch := scr, wPending := wPending w + of_nat (length es), wBw := ?b, wakeCh := False\<rparr>"
    let ?c = "if bwBuf ?b \<noteq> [] then bw_Flush ?b else ?b"
    have cg: "bw_good ?c" "bwBuf ?c = []" "fDev (bwFile ?c) = fDev (bwFile (wBw w))" "fData (bwFile ?c) = encs (es0 @ es)" "fPos (bwFile ?c) = length (encs (es0 @ es))"
      using b bw_Flush_good [OF b(1)] by (auto simp: bw_image_def bw_end_def)
    then have "bwErr ?c = None" "os_Sync (bwFile ?c) = None" by (auto simp: bw_good_def intro: os_Sync_good)
    moreover have "wBw w1 = ?b" "syncCount w1 = syncCount w" by (simp_all add: w1_def)
    ultimately have "flushAndSyncLocked w1 = (w1\<lparr>wBw := ?c, syncCount := syncCount w + 1\<rparr>, None)"
      unfolding flushAndSyncLocked_def by (cases "bwBuf ?b = []") (simp_all add: Let_def)
    then have "flush_pending w1 = w1\<lparr>wBw := ?c, syncCount := syncCount w + 1, wDurable := wPending w1\<rparr>"
      using dl cc by (simp add: flush_pending_def) (simp add: w1_def)
    then have "w' = w1\<lparr>wBw := ?c, syncCount := syncCount w + 1, wDurable := wPending w1\<rparr>"
      using c False e by (simp add: wal_commit_def a loop_wake_def loop_timer_def Let_def w1_def [symmetric])
    then show ?thesis using cg by (simp add: wal_has_def w1_def)
  qed
  then show "wal_has w' (es0 @ es)" "wName w' = wName w" "fDev (bwFile (wBw w')) = fDev (bwFile (wBw w))" by blast+
qed

lemma flushAndSync_empty: "bw_good (wBw w) \<Longrightarrow> bwBuf (wBw w) = [] \<Longrightarrow> flushAndSyncLocked w = (w\<lparr>syncCount := syncCount w + 1\<rparr>, None)"
  using os_Sync_good [of "bwFile (wBw w)"] by (auto simp: flushAndSyncLocked_def bw_good_def Let_def)

lemma wal_has_close:
  assumes g: "wal_good n w" and has: "wal_has w es" and c: "wal_close w = (w', None)"
  shows "wal_content w' = (encs es, fDev (bwFile (wBw w)))"
proof -
  have b: "bw_good (wBw w)" "bwBuf (wBw w) = []" "fData (bwFile (wBw w)) = encs es" using g has by (simp_all add: wal_good_def wal_has_def)
  have cl: "wal_content (fst (close_file v)) = (fData (bwFile (wBw v)), fDev (bwFile (wBw v)))" for v
    by (auto simp: close_file_def wal_content_def os_Close_def split: prod.splits)
  have fp: "wBw (flush_pending v) = wBw v" if "bw_good (wBw v)" "bwBuf (wBw v) = []" for v using that flushAndSync_empty [OF that] by (simp add: flush_pending_def)
  have hf: "wHasFile w" using g by (simp add: wal_good_def)
  show ?thesis
  proof (cases "syncInterval w \<le> 0")
    case True
    obtain w1 where "close_direct w = close_file w1" "wBw w1 = wBw w"
      using hf flushAndSync_empty [OF b(1,2)] by (auto simp: close_direct_def Let_def)
    then show ?thesis using c True b cl [of w1] by (simp add: wal_close_def)
  next
    case False
    have "wBw (flush_pending (close_begin w\<lparr>closeCh := False\<rparr>)) = wBw w" using fp [of "close_begin w\<lparr>closeCh := False\<rparr>"] b by (simp add: close_begin_def)
    then show ?thesis using c False hf b cl [of "flush_pending (close_begin w\<lparr>closeCh := False\<rparr>)"] by (simp add: wal_close_def loop_close_def)
  qed
qed

lemma createWAL_has: "createWAL ev i = Inr w \<Longrightarrow> wal_has w [] \<and> wName w = walID (envNow ev)"
  by (auto simp: createWAL_def newWAL_def wal_has_def bw_New_def split: if_splits)

text \<open>A front of the bytes of some records is a front of the records and a torn one.\<close>

lemma split_records_front:
  "list_all rec_ok fs \<Longrightarrow> \<exists>j \<le> length fs. \<exists>rest. split_records (take k (encs fs)) = (take j fs, rest) \<and> parse_rec rest \<noteq> BadSum"
proof (induction fs arbitrary: k)
  case Nil
  show ?case using split_records_stop [of "[]"] by (simp add: parse_rec_def)
next
  case (Cons f fs)
  show ?case
  proof (cases "k < length (enc_rec f)")
    case True
    then have "parse_rec (take k (enc_rec f)) = Torn" using parse_torn_prefix [of f k] Cons.prems by simp
    then show ?thesis using True split_records_stop [of "take k (enc_rec f)"] by (intro exI [of _ 0]) simp
  next
    case False
    obtain j rest where "j \<le> length fs" "split_records (take (k - length (enc_rec f)) (encs fs)) = (take j fs, rest)" "parse_rec rest \<noteq> BadSum"
      using Cons.IH Cons.prems by fastforce
    then show ?thesis using False split_records_enc [of "[f]" "take (k - length (enc_rec f)) (encs fs)"] Cons.prems by (intro exI [of _ "Suc j"]) simp
  qed
qed

lemma encs_held:
  assumes "wals n = Some (encs es @ take k (encs fs), dev)" "good_device dev" "list_all rec_ok es" "list_all rec_ok fs"
  shows "\<exists>j \<le> length fs. wal_holds wals n (es @ take j fs)"
proof -
  obtain j rest where "j \<le> length fs" "split_records (take k (encs fs)) = (take j fs, rest)" "parse_rec rest \<noteq> BadSum" using split_records_front [OF assms(4)] by blast
  then show ?thesis using assms split_records_enc [OF assms(3), of "take k (encs fs)"] by (auto simp: wal_holds_def)
qed

lemma encs_held_exact: "wals n = Some (encs es, dev) \<Longrightarrow> good_device dev \<Longrightarrow> list_all rec_ok es \<Longrightarrow> wal_holds wals n es"
  using encs_held [of wals n es 0 "[]" dev] by simp

section \<open>A database that can be recovered\<close>

text \<open>
  What the disk keeps of a running database: the entries of every memtable, written with the stored values \<open>xs\<close>, are in its write-ahead logs; the tables and
  the manifest are in their files. \<open>B\<close> bounds the number of the calls for which the clock is known to give names in their order.
\<close>

definition log_keeps :: "real \<Rightarrow> real \<Rightarrow> Log \<Rightarrow> int \<Rightarrow> (writeRequest \<times> bytes) list \<Rightarrow> bool" where
  "log_keeps \<rho> c l thr xs \<longleftrightarrow> prepared l thr xs \<and> (\<forall>x \<in> set xs. req_ok \<rho> c thr (fst x))"

definition wals_hold :: "(string \<Rightarrow> (bytes \<times> device) option) \<Rightarrow> string list \<Rightarrow> writeRequest list \<Rightarrow> bool" where
  "wals_hold wals ns es \<longleftrightarrow> (\<exists>ess. list_all2 (wal_holds wals) ns ess \<and> concat ess = es)"

definition dur_imm :: "real \<Rightarrow> real \<Rightarrow> disk \<Rightarrow> DB \<Rightarrow> Log \<Rightarrow> immutableMemtable \<Rightarrow> (writeRequest \<times> bytes) list \<Rightarrow> bool" where
  "dur_imm \<rho> c dk db l im xs \<longleftrightarrow> mem_holds (dbMems db) (imTable im) (put_run [] xs) \<and> log_keeps \<rho> c l (dbThreshold db) xs \<and> wals_hold (dkWals dk) (imWals im) (map fst xs)"

definition dur_act :: "real \<Rightarrow> real \<Rightarrow> disk \<Rightarrow> DB \<Rightarrow> Log \<Rightarrow> (writeRequest \<times> bytes) list \<Rightarrow> bool" where
  "dur_act \<rho> c dk db l xs \<longleftrightarrow> (\<not> dbAsync db \<or> dbSyncInterval db \<le> 0) \<and>
     (\<exists>m. dbMemtable db = Some m \<and> mem_holds (dbMems db) m (put_run [] xs)) \<and> log_keeps \<rho> c l (dbThreshold db) xs \<and>
     (\<exists>w ps es1 es2. dbWal db = Some w \<and> dbWalPaths db = ps @ [wName w] \<and> wals_hold (dkWals dk) ps es1 \<and> wal_has w es2 \<and> map fst xs = es1 @ es2)"

definition dur_tab :: "host \<Rightarrow> world \<Rightarrow> disk \<Rightarrow> DB \<Rightarrow> (bytes \<times> bytes) list list list \<Rightarrow> bool" where
  "dur_tab h W dk db rss \<longleftrightarrow> tables_rel h W db rss \<and> (\<forall>r \<in> set (concat rss). flushable r) \<and>
     (\<forall>t \<in> set (dbTables db). dkFs dk (dbDir db, snd (tPath t)) = Some (fData (tF t))) \<and> dbManifest db = store_of (dbDir db) (dbMeta db) \<and>
     dkFs dk (dbDir db, manifestFilename) = Some (hMarshal h \<lparr>msVersion = manifestVersion, msTables = dbMeta db\<rparr>)"

definition all_wals :: "DB \<Rightarrow> string list" where
  "all_wals db = concat (map imWals (dbImmutable db)) @ dbWalPaths db"

definition dur_names :: "world \<Rightarrow> nat \<Rightarrow> disk \<Rightarrow> DB \<Rightarrow> bool" where
  "dur_names W B dk db \<longleftrightarrow> sorted_wrt (<) (all_wals db) \<and> (\<forall>n \<in> set (all_wals db). has_suffix n ''.wal'') \<and>
     {n. dkWals dk n \<noteq> None} = set (butlast (all_wals db)) \<and> (\<forall>n \<in> set (all_wals db). \<forall>i. dbTick db \<le> i \<and> i < B \<longrightarrow> n < walID (envNow (wdEnv W i)))"

text \<open>Of the requests \<open>R\<close>, applied to the map \<open>M0\<close>, the first ones are in the tables and the others in the memtables and their logs.\<close>

definition dur :: "real \<Rightarrow> real \<Rightarrow> host \<Rightarrow> world \<Rightarrow> nat \<Rightarrow> disk \<Rightarrow> DB \<Rightarrow> (bytes \<rightharpoonup> bytes) \<Rightarrow> writeRequest list \<Rightarrow> bool" where
  "dur \<rho> c h W B dk db M0 R \<longleftrightarrow> (\<exists>l xss xs rss pre. dbLog db = Some l \<and> list_all2 (dur_imm \<rho> c dk db l) (dbImmutable db) xss \<and> dur_act \<rho> c dk db l xs \<and>
     dur_tab h W dk db rss \<and> dur_names W B dk db \<and> views l (concat rss) (foldl apply_request M0 pre) \<and> R = pre @ map fst (concat xss @ xs))"

section \<open>Opening a directory\<close>

lemma openDB_shape:
  assumes h: "host_ok h" and W: "world_ok W" and o: "opt = normalizeOptions opts" and b: "budget \<rho> c (MemtableMaxBytes opt)"
    and scan: "scanDataFiles h dir names = Inr (ssts, ws)"
    and mf: "openManifest h (wdClock W 0) (dkFs dk) dir names = Some (fs, Inr (store_of dir meta))" "openSSTablesFromMeta h fs dir meta = Some (Inr us)"
    and lv: "lv_inv levels meta us" "list_all2 (level_rep (hXxh3 h)) levels rss" "\<forall>x \<in> set meta. \<exists>c. tmFilename x = sstableID c \<and> tmCreatedAt x = int c \<and> c < wdClock W 0"
    and vo: "vlog_Open (wdEnv W 0) dir (ValueLogSegmentMaxBytes opt) vents = Inr l0" "log_ok l0" "room (length (concat ess) + n) l0" "views l0 (concat rss) T" and n: "n < 2 ^ 63"
    and ess: "list_all2 (wal_holds (dkWals dk)) ws ess" "\<forall>q \<in> set (concat ess). req_ok \<rho> c (ValueThreshold opt) q"
    and fit: "104 + \<rho> * real_of_int (reqs_bytes (concat ess)) + c \<le> real_of_int (memtableArenaSize (MemtableMaxBytes opt))"
  obtains db l w xs where "openDB h W None dk dir names vents opts = Some (dk\<lparr>dkFs := fs\<rparr>, Inr db)" "db_rel \<rho> c h W n db (foldl apply_request T (concat ess))"
    "dbDir db = dir" "dbThreshold db = ValueThreshold opt" "dbAsync db = AsyncWrites opt" "dbSyncInterval db = WALSyncInterval opt" "dbImmutable db = []"
    "dbTables db = us" "dbMeta db = meta" "dbManifest db = store_of dir meta" "dbMemtable db = Some 0" "dbLog db = Some l" "views l (concat rss) T"
    "mem_holds (dbMems db) 0 (put_run [] xs)" "prepared l (ValueThreshold opt) xs" "map fst xs = concat ess" "tables_rel h W db rss" "dbMaxBytes db = MemtableMaxBytes opt"
    "dbWal db = Some w" "dbWalPaths db = ws @ [wName w]" "wal_has w []" "dbTick db = Suc (Suc (length (concat ess)))" "wName w = walID (envNow (wdEnv W (Suc (length (concat ess)))))"
    "lgMax l = lgMax l0"
proof -
  have ev: "env_ok (wdEnv W i)" for i using W by (simp add: world_ok_def)
  have ar: "memtableArenaSize (MemtableMaxBytes opt) < 2 ^ 32" using b by (simp add: budget_def)
  obtain sk0 where sk0: "New (nat (memtableArenaSize (MemtableMaxBytes opt))) = Some sk0" "mem_room \<rho> c (MemtableMaxBytes opt) 0 sk0 []"
    using new_builder [OF ar] budget_empty [OF b] by (auto simp: mem_room_def arena_cost_def)
  have "104 + \<rho> * real_of_int (0 + reqs_bytes (concat ess)) + c \<le> real_of_int (memtableArenaSize (MemtableMaxBytes opt))" using fit by simp
  from replay_entries [OF b _ ess(2) vo(2,3) sk0(2) this, of W 1] ev obtain l sk xs where
    r: "run_callback (replay_entry W (ValueThreshold opt)) (concat ess) (Some l0, sk0, 0, 1) = ((Some l, sk, reqs_bytes (concat ess), Suc (length (concat ess))), None)"
    "log_ok l" "room n l" "\<forall>ref kv. stored l0 ref kv \<longrightarrow> stored l ref kv" "map fst xs = concat ess" "prepared l (ValueThreshold opt) xs"
    "mem_room \<rho> c (MemtableMaxBytes opt) (reqs_bytes (concat ess)) sk (put_run [] xs)" "lgMax l = lgMax l0" by auto
  note rp = replayWALs_run [OF ess(1) r(1)]
  obtain w where w: "createWAL (wdEnv W (Suc (length (concat ess)))) (WALSyncInterval opt) = Inr w" "wal_good n w"
    using createWAL_good [OF ev, of n "Suc (length (concat ess))" "WALSyncInterval opt"] n by auto
  define db where "db = publishReadStateLocked \<lparr>dbDir = dir, dbMaxBytes = MemtableMaxBytes opt, dbSyncInterval = WALSyncInterval opt,
      dbSegmentMax = ValueLogSegmentMaxBytes opt, dbThreshold = ValueThreshold opt, dbAsync = AsyncWrites opt, dbWindow = WriteBatchWindow opt,
      dbMems = (\<lambda>_. None)(0 \<mapsto> sk), dbNextMem = 1, dbMemtable = Some 0, dbMemBytes = reqs_bytes (concat ess), dbWal = Some w, dbWalPaths = ws @ [wName w], dbImmutable = [],
      dbTables = us, dbLevels = levels, dbMeta = meta, dbManifest = store_of dir meta, dbLog = Some l, dbFlushErr = None, dbClosed = False,
      dbRead = \<lparr>rsClosed = False, rsMemtable = None, rsImmutable = [], rsTables = [], rsLevels = []\<rparr>, dbFlushCh = [], dbTick = Suc (Suc (length (concat ess)))\<rparr>"
  have mt: "manifest_Tables (store_of dir meta) = meta" by (simp add: manifest_Tables_def store_of_def)
  have run: "openDB h W None dk dir names vents opts = Some (dk\<lparr>dkFs := fs\<rparr>, Inr db)"
    using scan mf mt lv_inv_build [OF lv(1)] vo(1) sk0(1) rp w(1) by (simp add: openDB_def Let_def o [symmetric] db_def)
  have f: "dbDir db = dir" "dbThreshold db = ValueThreshold opt" "dbAsync db = AsyncWrites opt" "dbSyncInterval db = WALSyncInterval opt" "dbImmutable db = []"
    "dbTables db = us" "dbMeta db = meta" "dbManifest db = store_of dir meta" "dbMemtable db = Some 0" "dbLog db = Some l" "dbMaxBytes db = MemtableMaxBytes opt"
    "dbWal db = Some w" "dbWalPaths db = ws @ [wName w]" "dbTick db = Suc (Suc (length (concat ess)))" "dbMems db = (\<lambda>_. None)(0 \<mapsto> sk)" "dbLevels db = levels" "dbNextMem db = 1"
    "dbMemBytes db = reqs_bytes (concat ess)" "dbFlushCh db = []"
    by (simp_all add: db_def publishReadStateLocked_def)
  have v: "views l (concat rss) T" using vo(4) by (rule views_mono) (use r(4) in blast)
  have op: "open_ok db" by (simp add: open_ok_def db_def publishReadStateLocked_def snapshotReadStateLocked_def)
  have "wdClock W 0 \<le> wdClock W (dbTick db)" using W by (simp add: world_ok_def strict_mono_less_eq)
  then have tr: "tables_rel h W db rss" unfolding tables_rel_def f using lv by (metis order.strict_trans2 f(14))
  have "active_ok \<rho> c db 0 (put_run [] xs)" using r(7) by (simp add: active_ok_def f)
  then have "runs_rel \<rho> c h W db (put_run [] xs # concat rss)" unfolding runs_rel_def using tr
    by (intro exI [of _ 0] exI [of _ "put_run [] xs"] exI [of _ "[]"] exI [of _ rss]) (simp add: f mems_ok_def)
  moreover have "views l (put_run [] xs # concat rss) (foldl apply_request T (concat ess))" using put_run_views [OF _ r(6), of "[]"] v views_new_run r(5) by metis
  then have "log_rel n db (put_run [] xs # concat rss) (foldl apply_request T (concat ess))" using r(2,3) by (simp add: log_rel_def f)
  ultimately have "db_rel \<rho> c h W n db (foldl apply_request T (concat ess))" unfolding db_rel_def using op b n w(2) by (auto simp: f)
  moreover have "mem_holds (dbMems db) 0 (put_run [] xs)" using r(7) by (simp add: mem_holds_def mem_room_def f)
  ultimately show thesis using that [OF run _ f(1-10) v _ r(6,5) tr f(11-13) _ f(14) _ r(8)] createWAL_has [OF w(1)] by blast
qed

text \<open>The size of the segments that \<open>Open\<close> takes from its options.\<close>

definition segment_max :: "int \<Rightarrow> int" where
  "segment_max m = (if m \<le> 0 then defaultSegmentMaxBytes else m)"

lemma open_segments_max: "open_segments ss l = Inr l' \<Longrightarrow> lgMax l' = lgMax l"
  by (induction ss l rule: open_segments.induct) (auto simp: Let_def split: if_splits sum.splits)

lemma vlog_Open_max: "vlog_Open ev dir m vents = Inr l \<Longrightarrow> lgMax l = segment_max m"
  by (auto simp: vlog_Open_def segment_max_def Let_def openEmpty_def rotateSegmentLocked_def split: sum.splits if_splits option.splits dest: open_segments_max)

text \<open>A directory without tables and logs: the manifest and the first segment are created.\<close>

lemma fresh_dir:
  assumes h: "host_ok h" and W: "world_ok W" and m: "ValueLogSegmentMaxBytes opts < 2 ^ 62" and sc: "scanDataFiles h dir names = Inr ([], [])"
  obtains fs l where "openManifest h (wdClock W 0) (\<lambda>_. None) dir names = Some (fs, Inr (store_of dir []))"
    "fs (dir, manifestFilename) = Some (hMarshal h \<lparr>msVersion = manifestVersion, msTables = []\<rparr>)"
    "vlog_Open (wdEnv W 0) dir (ValueLogSegmentMaxBytes (normalizeOptions opts)) [] = Inr l" "log_ok l" "room (2 ^ 63 - 1) l" "lgMax l = segment_max (ValueLogSegmentMaxBytes opts)"
proof -
  let ?m = "store_of dir []" and ?max = "segment_max (ValueLogSegmentMaxBytes opts)"
  have hf: "hFault h = (\<lambda>_. None)" using h by (simp add: host_ok_def)
  obtain fs where w: "manifest_write h (\<lambda>_. None) ?m = (fs, None)" using manifest_write_ok [of h ?m] hf by auto
  have mf: "openManifest h (wdClock W 0) (\<lambda>_. None) dir names = Some (fs, Inr ?m)"
    using w sc hf by (simp add: openManifest_def Let_def os_ReadFile_def rebuildManifestStateFromDisk_def store_of_def)
  have fm: "fs (dir, manifestFilename) = Some (hMarshal h \<lparr>msVersion = manifestVersion, msTables = []\<rparr>)" using manifest_write_cases(1) [OF w] by (simp add: store_of_def)
  have ev: "env_ok (wdEnv W 0)" using W by (simp add: world_ok_def)
  have "0 < ?max" "?max < 2 ^ 62" using m by (simp_all add: segment_max_def defaultSegmentMaxBytes_def)
  from openEmpty_ok [OF ev this, of dir] obtain l where l: "openEmpty (wdEnv W 0) dir ?max = Inr l" "log_ok l" "room (2 ^ 63 - 1) l" by blast
  then have "vlog_Open (wdEnv W 0) dir (ValueLogSegmentMaxBytes opts) [] = Inr l" by (simp add: vlog_Open_def Let_def segment_max_def)
  then show thesis using that [OF mf fm _ l(2,3)] vlog_Open_max by (simp add: open_segment_size)
qed

text \<open>The segments of the value log \<open>l\<close>, with at most a torn record at the end of the active one, among other files and in any order.\<close>

definition vlog_left :: "Log \<Rightarrow> dirent list \<Rightarrow> bool" where
  "vlog_left l vents \<longleftrightarrow> log_ok l \<and> distinct vents \<and>
     (\<exists>k r. rec_ok r \<and> k < length (enc_rec r) \<and> set (filter is_segment vents) = set (crash_image l (take k (enc_rec r))))"

lemma vlog_left_clean:
  assumes "log_ok l"
  shows "vlog_left l (crash_image l [])"
proof -
  have "rec_ok ([], [])" "0 < length (enc_rec ([], []))" by (simp_all add: rec_ok_def)
  moreover have "filter is_segment (crash_image l []) = crash_image l []" by (auto simp: filter_id_conv crash_image_def seg_info_entry)
  ultimately show ?thesis unfolding vlog_left_def using assms distinct_crash_image [OF assms] by (metis take0)
qed

lemma vlog_recovered:
  assumes "vlog_left l vents" "lgMax l = segment_max m"
  shows "\<exists>l0. vlog_Open ev dir m vents = Inr l0 \<and> log_ok l0 \<and> (\<forall>n. room n l \<longrightarrow> room n l0) \<and> (\<forall>ref kv. stored l ref kv \<longrightarrow> stored l0 ref kv)"
proof -
  obtain k r where l: "log_ok l" "lgMax l = segment_max m" "distinct vents" "rec_ok r" "k < length (enc_rec r)"
    "set (filter is_segment vents) = set (crash_image l (take k (enc_rec r)))" using assms unfolding vlog_left_def by blast
  from vlog_Open_image [OF l(1,3,6,4,5), of ev dir] obtain l0 where l0: "vlog_Open ev dir (lgMax l) vents = Inr l0" "log_ok l0"
    "map_option sgId (lgActive l0) = map_option sgId (lgActive l)" "\<forall>sid. map_option fData (map_of (lgFiles l0) sid) = map_option fData (map_of (lgFiles l) sid)" by blast
  have "vlog_Open ev dir m vents = vlog_Open ev dir (lgMax l) vents" using l(2) by (simp add: vlog_Open_def segment_max_def defaultSegmentMaxBytes_def)
  moreover have "room n l0" if "room n l" for n using that l0(3) unfolding room_def by (metis option.map_disc_iff option.map_sel option.sel option.distinct(1) not_Some_eq)
  moreover have "stored l0 ref kv" if "stored l ref kv" for ref kv using stored_cong [OF _ that] l0(4) by blast
  ultimately show ?thesis using l0(1,2) by metis
qed

text \<open>
  On a directory with a manifest and its tables, the segments of a value log with perhaps a torn record, and write-ahead logs that end at most in a torn record,
  \<open>openDB\<close> succeeds and the database is the map of the tables with the requests of the logs applied in the order of the files and of their records; it is ready
  for further writes. This holds when the replayed requests fit into the arena of one memtable.
\<close>
lemma open_recovers:
  assumes "host_ok h" "world_ok W" "budget \<rho> c (MemtableMaxBytes (normalizeOptions opts))"
    and "disk_tables h (dkFs dk) dir meta rss" "\<forall>x \<in> set meta. \<exists>c. tmFilename x = sstableID c \<and> tmCreatedAt x = int c \<and> c < wdClock W 0"
    and "vlog_left l vents" "lgMax l = segment_max (ValueLogSegmentMaxBytes opts)" "room (length (concat ess) + n) l" "views l (concat rss) T" "n < 2 ^ 63"
    and "lists_wals names ws" "list_all2 (wal_holds (dkWals dk)) ws ess" "\<forall>q \<in> set (concat ess). req_ok \<rho> c (ValueThreshold (normalizeOptions opts)) q"
    and "104 + \<rho> * real_of_int (reqs_bytes (concat ess)) + c \<le> real_of_int (memtableArenaSize (MemtableMaxBytes (normalizeOptions opts)))"
  shows "\<exists>db. openDB h W None dk dir names vents opts = Some (dk, Inr db) \<and> db_rel \<rho> c h W n db (foldl apply_request T (concat ess)) \<and>
    (\<forall>key. db_Get h db key = Some (Inr (foldl apply_request T (concat ess) key)))"
proof -
  obtain ssts where sc: "scanDataFiles h dir names = Inr (ssts, ws)" using scan_wals [OF assms(11), of h dir] assms(1) by (auto simp: host_ok_def)
  obtain us levels where t: "openManifest h (wdClock W 0) (dkFs dk) dir names = Some (dkFs dk, Inr (store_of dir meta))" "openSSTablesFromMeta h (dkFs dk) dir meta = Some (Inr us)"
    "lv_inv levels meta us" "list_all2 (level_rep (hXxh3 h)) levels rss" using reopen_tables [OF assms(4,1)] by blast
  from vlog_recovered [OF assms(6,7), of "wdEnv W 0" dir] obtain l0 where v: "vlog_Open (wdEnv W 0) dir (ValueLogSegmentMaxBytes opts) vents = Inr l0" "log_ok l0" "room (length (concat ess) + n) l0"
    "\<forall>ref kv. stored l ref kv \<longrightarrow> stored l0 ref kv" using assms(8) by blast
  have vo: "vlog_Open (wdEnv W 0) dir (ValueLogSegmentMaxBytes (normalizeOptions opts)) vents = Inr l0" using v(1) by (simp add: open_segment_size)
  have "views l0 (concat rss) T" using assms(9) by (rule views_mono) (use v(4) in blast)
  from openDB_shape [OF assms(1,2) refl assms(3) sc t assms(5) vo v(2,3) this assms(10,12,13,14)] obtain db where
    "openDB h W None dk dir names vents opts = Some (dk, Inr db)" "db_rel \<rho> c h W n db (foldl apply_request T (concat ess))" by auto
  then show ?thesis using db_Get_view by blast
qed

end
