(* ===== verification/Database_Durability.thy ===== *)
theory Database_Durability
  imports Database_Recovery "HOL-Library.Countable"
begin

text \<open>
  Durability of the whole database. Every step of the database keeps on disk what is needed to recover it, \<open>dur\<close>; so after a crash at any moment of a run,
  opening the directory again gives the map of the acknowledged requests.
\<close>

section \<open>The steps keep the disk recoverable\<close>

lemma sl_rel_unique: "sl_rel s a \<Longrightarrow> sl_rel s b \<Longrightarrow> a = b"
proof (rule sorted_keys_ext)
  assume "sl_rel s a" "sl_rel s b"
  then show "sorted_keys a" "sorted_keys b" using sorted_entries by (auto simp: sl_rel_def)
  have "map_of a k = map_of b k" for k using Get_refines [OF \<open>sl_rel s a\<close>, of k] Get_refines [OF \<open>sl_rel s b\<close>, of k] by simp
  then show "map_of a = map_of b" ..
qed

lemma mem_holds_unique: "mem_holds mems i a \<Longrightarrow> mem_holds mems i b \<Longrightarrow> a = b"
  using sl_rel_unique by (auto simp: mem_holds_def)

lemma prepared_mono: "prepared l thr xs \<Longrightarrow> \<forall>ref kv. stored l ref kv \<longrightarrow> stored l' ref kv \<Longrightarrow> prepared l' thr xs"
  unfolding prepared_def using stored_as_mono by blast

lemma log_keeps_mono: "log_keeps \<rho> c l thr xs \<Longrightarrow> \<forall>ref kv. stored l ref kv \<longrightarrow> stored l' ref kv \<Longrightarrow> log_keeps \<rho> c l' thr xs"
  unfolding log_keeps_def using prepared_mono by blast

lemma log_keeps_append: "log_keeps \<rho> c l thr xs \<Longrightarrow> log_keeps \<rho> c l thr ys \<Longrightarrow> log_keeps \<rho> c l thr (xs @ ys)"
  by (auto simp: log_keeps_def prepared_def)

lemma put_run_append: "put_run r (xs @ ys) = put_run (put_run r xs) ys"
  by (simp add: put_run_def)

lemma req_ok_rec_ok: "log_keeps \<rho> c l thr xs \<Longrightarrow> list_all rec_ok (map fst xs)"
  by (auto simp: log_keeps_def req_ok_def list_all_iff)

lemma wals_hold_append: "wals_hold wals ns es \<Longrightarrow> wals_hold wals ms fs \<Longrightarrow> wals_hold wals (ns @ ms) (es @ fs)"
  unfolding wals_hold_def by (metis concat_append list_all2_appendI)

lemma wals_hold_one: "wal_holds wals n es \<Longrightarrow> wals_hold wals [n] es"
  unfolding wals_hold_def by (intro exI [of _ "[es]"]) simp

lemma wals_hold_cong: "wals_hold wals ns es \<Longrightarrow> (\<And>n. n \<in> set ns \<Longrightarrow> wals' n = wals n) \<Longrightarrow> wals_hold wals' ns es"
  unfolding wals_hold_def wal_holds_def list_all2_conv_all_nth by (metis nth_mem)

text \<open>The entries of a turn.\<close>

lemma dur_taken:
  assumes d: "dur \<rho> c h W B dk db M0 R" and l: "dbLog db = Some l" "\<forall>ref kv. stored l ref kv \<longrightarrow> stored l' ref kv" and W: "world_ok W"
    and m: "dbMemtable db = Some m" "m \<notin> imTable ` set (dbImmutable db)" "mem_holds (dbMems db) m k0"
    and w: "dbWal db = Some w" "wal_good n w" "unat (wPending w) + length xs < 2 ^ 64" "wal_commit w (map fst xs) (\<not> dbAsync db \<or> dbSyncInterval db \<le> 0) = Some (w', None)"
    and xs: "log_keeps \<rho> c l' (dbThreshold db) xs" "xs \<noteq> []" and mem: "sl_rel mem (put_run k0 xs)" "0 < slRef mem"
  shows "dur \<rho> c h W B dk (taken db l' xs w' mem) M0 (R @ map fst xs)"
proof -
  obtain xss ys rss pre where i: "list_all2 (dur_imm \<rho> c dk db l) (dbImmutable db) xss" and a: "dur_act \<rho> c dk db l ys" and t: "dur_tab h W dk db rss" and nm: "dur_names W B dk db"
    and v: "views l (concat rss) (foldl apply_request M0 pre)" "R = pre @ map fst (concat xss @ ys)" using d l(1) unfolding dur_def by auto
  let ?db = "taken db l' xs w' mem"
  have i': "list_all2 (dur_imm \<rho> c dk ?db l') (dbImmutable db) xss"
    using i by (rule list.rel_mono_strong) (use m(1,2) log_keeps_mono [OF _ l(2)] in \<open>auto simp: dur_imm_def mem_holds_def\<close>)
  obtain ps es1 es2 where p: "dbWalPaths db = ps @ [wName w]" "wals_hold (dkWals dk) ps es1" "wal_has w es2" "map fst ys = es1 @ es2" and s: "\<not> dbAsync db \<or> dbSyncInterval db \<le> 0"
    and ky: "mem_holds (dbMems db) m (put_run [] ys)" "log_keeps \<rho> c l (dbThreshold db) ys" using a w(1) m(1) unfolding dur_act_def by auto
  have k0: "k0 = put_run [] ys" using mem_holds_unique [OF m(3) ky(1)] .
  have "wal_commit w (map fst xs) True = Some (w', None)" using w(4) s by simp
  from wal_has_commit [OF w(2) p(3) _ this] w(3) xs(2) have w': "wal_has w' (es2 @ map fst xs)" "wName w' = wName w" by simp_all
  have "mem_holds (dbMems ?db) m (put_run [] (ys @ xs))" using mem m(1) by (simp add: mem_holds_def put_run_append k0)
  moreover have "log_keeps \<rho> c l' (dbThreshold db) (ys @ xs)" using log_keeps_append [OF log_keeps_mono [OF ky(2) l(2)] xs(1)] .
  moreover have "map fst (ys @ xs) = es1 @ (es2 @ map fst xs)" using p(4) by simp
  ultimately have "dur_act \<rho> c dk ?db l' (ys @ xs)" unfolding dur_act_def using s m(1) p(1,2) w' by (auto simp del: map_append)
  moreover have "tables_rel h W ?db rss" using t W unfolding dur_tab_def by (auto intro: tables_rel_cong)
  then have "dur_tab h W dk ?db rss" using t by (simp add: dur_tab_def)
  moreover have "dur_names W B dk ?db" using nm by (auto simp: dur_names_def all_wals_def)
  moreover have "views l' (concat rss) (foldl apply_request M0 pre)" using v(1) by (rule views_mono) (use l(2) in blast)
  moreover have "R @ map fst xs = pre @ map fst (concat xss @ (ys @ xs))" using v(2) by simp
  ultimately show ?thesis unfolding dur_def using i' by (intro exI [of _ l'] exI [of _ xss] exI [of _ "ys @ xs"] exI [of _ rss] exI [of _ pre]) simp
qed

text \<open>The rotation of the memtable. The clock gives the names of the logs in their order.\<close>

definition names_ordered :: "world \<Rightarrow> nat \<Rightarrow> bool" where
  "names_ordered W B \<longleftrightarrow> (\<forall>i j. i < j \<and> j < B \<longrightarrow> walID (envNow (wdEnv W i)) < walID (envNow (wdEnv W j)))"

lemma walID_suffix: "has_suffix (walID n) ''.wal''"
  by (simp add: walID_def)

lemma rotate_names:
  assumes nm: "dur_names W B dk db" and p: "dbWalPaths db = ps @ [wName w]" and o: "names_ordered W B" "dbTick db < B"
    and a: "all_wals db' = all_wals db @ [walID (envNow (wdEnv W (dbTick db)))]" and t: "dbTick db' = Suc (dbTick db)" and k: "dkWals dk' = (dkWals dk)(wName w \<mapsto> x)"
  shows "dur_names W B dk' db'"
proof -
  let ?n = "walID (envNow (wdEnv W (dbTick db)))"
  note n = nm [unfolded dur_names_def]
  have lt: "\<forall>n \<in> set (all_wals db). n < ?n" using n o(2) by blast
  have "all_wals db = butlast (all_wals db) @ [wName w]" using p by (simp add: all_wals_def butlast_append)
  then have e: "set (all_wals db) = insert (wName w) (set (butlast (all_wals db)))" by (metis set_append insert_is_Un list.simps(15) list.set(1) sup_commute)
  have "{n. dkWals dk n \<noteq> None} = set (butlast (all_wals db))" using n by blast
  then have "{n. dkWals dk' n \<noteq> None} = set (butlast (all_wals db'))" using e by (auto simp: k a)
  moreover have "sorted_wrt (<) (all_wals db')" unfolding a using n lt by (simp add: sorted_wrt_append)
  moreover have "\<forall>n \<in> set (all_wals db'). has_suffix n ''.wal''" unfolding a using n walID_suffix by auto
  moreover have "n < walID (envNow (wdEnv W i))" if "n \<in> set (all_wals db')" "dbTick db' \<le> i" "i < B" for n i
  proof (cases "n = ?n")
    case True
    then show ?thesis using o(1) that(2,3) t by (auto simp: names_ordered_def)
  next
    case False
    then show ?thesis using n that t a by auto
  qed
  ultimately show ?thesis unfolding dur_names_def by blast
qed

lemma dur_rotate:
  assumes d: "dur \<rho> c h W B dk db M0 R" and w: "dbWal db = Some w" "wal_good n w" and run: "rotateMemtable W (dk, db) = Some ((dk', db'), None)" and W: "world_ok W"
    and o: "names_ordered W B" "dbTick db < B" and bud: "budget \<rho> c (dbMaxBytes db)"
    and m: "dbMemtable db = Some m" "m < dbNextMem db" "\<forall>im \<in> set (dbImmutable db). imTable im < dbNextMem db"
  shows "dur \<rho> c h W B dk' db' M0 R"
proof -
  obtain l xss ys rss pre where l: "dbLog db = Some l" and i: "list_all2 (dur_imm \<rho> c dk db l) (dbImmutable db) xss" and a: "dur_act \<rho> c dk db l ys" and t: "dur_tab h W dk db rss" and nm: "dur_names W B dk db"
    and v: "views l (concat rss) (foldl apply_request M0 pre)" "R = pre @ map fst (concat xss @ ys)" using d unfolding dur_def by blast
  obtain ps es1 es2 where p: "dbWalPaths db = ps @ [wName w]" "wals_hold (dkWals dk) ps es1" "wal_has w es2" "map fst ys = es1 @ es2" and s: "\<not> dbAsync db \<or> dbSyncInterval db \<le> 0"
    and ky: "mem_holds (dbMems db) m (put_run [] ys)" "log_keeps \<rho> c l (dbThreshold db) ys" using a w(1) m(1) unfolding dur_act_def by auto
  obtain nw where nw: "createWAL (wdEnv W (dbTick db)) (dbSyncInterval db) = Inr nw" using run by (cases "createWAL (wdEnv W (dbTick db)) (dbSyncInterval db)") (auto simp: rotateMemtable_def Let_def)
  obtain w' where w': "wal_close w = (w', None)" using wal_close_good [OF w(2)] by blast
  have ar: "memtableArenaSize (dbMaxBytes db) < 2 ^ 32" using bud by (simp add: budget_def)
  obtain b where b: "New (nat (memtableArenaSize (dbMaxBytes db))) = Some b" "sl_rel b []" "0 < slRef b" using new_builder [OF ar] by blast
  let ?im = "\<lparr>imTable = m, imWals = dbWalPaths db\<rparr>" and ?n = "walID (envNow (wdEnv W (dbTick db)))"
  have e: "dk' = dk\<lparr>dkWals := (dkWals dk)(wName w \<mapsto> wal_content w')\<rparr>" "dbImmutable db' = dbImmutable db @ [?im]" "dbMems db' = (dbMems db)(dbNextMem db \<mapsto> b)"
    "dbMemtable db' = Some (dbNextMem db)" "dbWal db' = Some nw" "dbWalPaths db' = [wName nw]" "dbTick db' = Suc (dbTick db)" "dbThreshold db' = dbThreshold db" "dbLog db' = dbLog db"
    "dbAsync db' = dbAsync db" "dbSyncInterval db' = dbSyncInterval db" "dbTables db' = dbTables db" "dbLevels db' = dbLevels db" "dbMeta db' = dbMeta db" "dbManifest db' = dbManifest db" "dbDir db' = dbDir db"
    using run nw w' b(1) m(1) w(1) by (auto simp: rotateMemtable_def Let_def publishReadStateLocked_def)
  note nwn = createWAL_has [OF nw]
  have all: "all_wals db' = all_wals db @ [?n]" using e(2,6) nwn by (simp add: all_wals_def)
  have di: "distinct (all_wals db)" using nm unfolding dur_names_def by (metis strict_sorted_iff)
  then have fresh: "wName w \<notin> set (imWals im)" "wName w \<notin> set ps" if "im \<in> set (dbImmutable db)" for im
    using p(1) that by (auto simp: all_wals_def)
  have fresh2: "wName w \<notin> set ps" using di p(1) by (simp add: all_wals_def)
  have old: "list_all2 (dur_imm \<rho> c dk' db' l) (dbImmutable db) xss"
    using i
  proof (rule list.rel_mono_strong)
    fix im xs
    assume x: "im \<in> set (dbImmutable db)" "dur_imm \<rho> c dk db l im xs"
    have "wals_hold (dkWals dk) (imWals im) (map fst xs)" using x(2) by (simp add: dur_imm_def)
    then have "wals_hold (dkWals dk') (imWals im) (map fst xs)" by (rule wals_hold_cong) (use fresh [OF x(1)] e(1) in auto)
    moreover have "imTable im \<noteq> dbNextMem db" using m(3) x(1) by auto
    ultimately show "dur_imm \<rho> c dk' db' l im xs" using x(2) by (simp add: dur_imm_def e mem_holds_def)
  qed
  have "good_device (fDev (bwFile (wBw w)))" using w(2) by (simp add: wal_good_def bw_good_def)
  moreover have "list_all rec_ok es2" using req_ok_rec_ok [OF ky(2)] p(4) by simp
  moreover have "dkWals dk' (wName w) = Some (encs es2, fDev (bwFile (wBw w)))" using wal_has_close [OF w(2) p(3) w'] e(1) by simp
  ultimately have "wals_hold (dkWals dk') [wName w] es2" by (intro wals_hold_one encs_held_exact)
  moreover have "wals_hold (dkWals dk') ps es1" using p(2) by (rule wals_hold_cong) (use fresh2 e(1) in auto)
  ultimately have "wals_hold (dkWals dk') (dbWalPaths db) (map fst ys)" unfolding p(1,4) by (intro wals_hold_append)
  then have "dur_imm \<rho> c dk' db' l ?im ys" using ky m(2) by (simp add: dur_imm_def e mem_holds_def)
  then have i': "list_all2 (dur_imm \<rho> c dk' db' l) (dbImmutable db') (xss @ [ys])" unfolding e(2) using old by (intro list_all2_appendI) simp_all
  have "dur_act \<rho> c dk' db' l []" unfolding dur_act_def using s b nwn by (auto simp: e mem_holds_def log_keeps_def prepared_def wals_hold_def)
  moreover have "tables_rel h W db' rss" using t W e unfolding dur_tab_def by (auto intro: tables_rel_cong)
  then have "dur_tab h W dk' db' rss" using t by (simp add: dur_tab_def e)
  moreover have "dkWals dk' = (dkWals dk)(wName w \<mapsto> wal_content w')" using e(1) by simp
  from rotate_names [OF nm p(1) o all e(7) this] have "dur_names W B dk' db'" .
  moreover have "R = pre @ map fst (concat (xss @ [ys]) @ [])" using v(2) by simp
  ultimately show ?thesis unfolding dur_def using i' v(1) l e(9) by (intro exI [of _ l] exI [of _ "xss @ [ys]"] exI [of _ "[]"] exI [of _ rss] exI [of _ pre]) simp
qed

text \<open>A turn of the flush loop: the entries of the oldest memtable move from its logs to a table.\<close>

lemma removeWALFiles_spec:
  "hFault h = (\<lambda>_. None) \<Longrightarrow> removeWALFiles h dk dir ns = (dk\<lparr>dkWals := \<lambda>n. if n \<in> set ns then None else dkWals dk n\<rparr>, None)"
  by (induction ns arbitrary: dk) (auto simp: fun_eq_iff)

lemma sstableID_not_manifest: "sstableID n \<noteq> manifestFilename" "sstableID n \<noteq> manifestFilename @ ''.tmp''"
proof -
  have "last (sstableID n) = CHR ''t''" by (simp add: sstableID_def)
  then show "sstableID n \<noteq> manifestFilename" "sstableID n \<noteq> manifestFilename @ ''.tmp''" by (auto simp: manifestFilename_def)
qed

lemma lv_inv_names:
  assumes "lv_inv ls ms ts" "t \<in> set ts"
  shows "\<exists>m \<in> set ms. snd (tPath t) = tmFilename m"
proof -
  obtain s where s: "s \<in> set ls" "t \<in> set (lsTables s)" "set (lsMeta s) \<subseteq> set ms" using assms by (auto simp: lv_inv_def)
  have "list_all2 (\<lambda>m t. snd (tPath t) = tmFilename m) (lsMeta s) (lsTables s)" using assms(1) s(1) by (simp add: lv_inv_def)
  then show ?thesis using s(2,3) by (auto simp: list_all2_conv_all_nth in_set_conv_nth) (metis nth_mem subsetD)
qed

text \<open>The new table and the manifest that names it are written; the files of the other tables stay.\<close>

lemma installed_tables:
  assumes t: "dur_tab h W dk db rss" and r: "flushable k1" and tb: "tPath tbl = (dbDir db, sstableID now)" "now = wdClock W (dbTick db)"
    and rp: "ReplaceTables h ((dkFs dk)((dbDir db, sstableID now) \<mapsto> fData (tF tbl))) (dbManifest db) (tableMetaFromSST now (Table_Metadata (Some tbl)) 0 # dbMeta db) = (fs', mf, None)"
    and db': "db' = installed now imm tbl mf (db\<lparr>dbFlushCh := ch\<rparr>)" and rel: "tables_rel h W db' rss'" "concat rss' = k1 # concat rss" and fs: "dkFs dk' = fs'"
  shows "dur_tab h W dk' db' rss'"
proof -
  let ?m = "tableMetaFromSST now (Table_Metadata (Some tbl)) 0" and ?fs = "(dkFs dk)((dbDir db, sstableID now) \<mapsto> fData (tF tbl))"
  note a = t [unfolded dur_tab_def]
  have mf: "mf = store_of (dbDir db) (?m # dbMeta db)" and w: "manifest_write h ?fs mf = (fs', None)"
    using rp a by (auto simp: ReplaceTables_def Let_def store_of_def split: prod.splits)
  have p: "mPath mf = (dbDir db, manifestFilename)" by (simp add: mf store_of_def)
  note c = manifest_write_cases [OF w, unfolded p]
  have "fs' (dbDir db, manifestFilename) = Some (hMarshal h \<lparr>msVersion = manifestVersion, msTables = ?m # dbMeta db\<rparr>)" using c(1) by (simp add: mf store_of_def)
  moreover have keep: "fs' (dbDir db, sstableID i) = ?fs (dbDir db, sstableID i)" for i using c(2) sstableID_not_manifest by simp
  moreover have "fs' (dbDir db, snd (tPath u)) = Some (fData (tF u))" if u: "u \<in> set (dbTables db)" for u
  proof -
    have "lv_inv (dbLevels db) (dbMeta db) (dbTables db)" "\<forall>x \<in> set (dbMeta db). \<exists>c. tmFilename x = sstableID c \<and> tmCreatedAt x = int c \<and> c < now"
      using a by (simp_all add: tables_rel_def tb(2))
    then obtain i where i: "snd (tPath u) = sstableID i" "i < now" using lv_inv_names [OF _ u] by metis
    then have "sstableID i \<noteq> sstableID now" using sstableID_inj [of i now] by auto
    moreover have "dkFs dk (dbDir db, sstableID i) = Some (fData (tF u))" using a u i(1) by metis
    ultimately show ?thesis using keep [of i] i(1) by simp
  qed
  ultimately show ?thesis using a r rel tb mf fs keep [of now] by (auto simp: dur_tab_def db')
qed

lemma dur_flush:
  assumes d: "dur \<rho> c h W B dk db M0 R" and rel: "db_rel \<rho> c h W n db M1" and h: "host_ok h" and W: "world_ok W" and run: "flush_turn h W (dk, db) = Some (dk', db')"
  shows "dur \<rho> c h W B dk' db' M0 R"
proof (cases "dbFlushCh db")
  case Nil
  then show ?thesis using run d by (simp add: flush_turn_def)
next
  case (Cons imm ch)
  obtain l xss0 ys rss pre where l: "dbLog db = Some l" and i: "list_all2 (dur_imm \<rho> c dk db l) (dbImmutable db) xss0" and a: "dur_act \<rho> c dk db l ys" and t: "dur_tab h W dk db rss" and nm: "dur_names W B dk db"
    and v: "views l (concat rss) (foldl apply_request M0 pre)" "R = pre @ map fst (concat xss0 @ ys)" using d unfolding dur_def by blast
  obtain rs where lo: "log_ok l" and r: "runs_rel \<rho> c h W db rs" using rel l unfolding db_rel_def log_rel_def by auto
  then obtain ims where mo: "mems_ok db ims" unfolding runs_rel_def by blast
  have im: "dbImmutable db = imm # ch" using mo Cons by (simp add: mems_ok_def)
  obtain k1 where k1: "k1 \<noteq> []" "flushable k1" "mem_holds (dbMems db) (imTable imm) k1" using mo im by (auto simp: mems_ok_def list_all2_Cons1)
  obtain xs xss where xs: "xss0 = xs # xss" "dur_imm \<rho> c dk db l imm xs" "list_all2 (dur_imm \<rho> c dk db l) ch xss" using i im by (auto simp: list_all2_Cons1)
  have ke: "k1 = put_run [] xs" using mem_holds_unique [OF k1(3)] xs(2) by (simp add: dur_imm_def)
  have tr: "tables_rel h W db rss" using t by (simp add: dur_tab_def)
  let ?now = "wdClock W (dbTick db)"
  obtain tbl fs' mf rss' where f: "table_holds (hXxh3 h) tbl k1" "tPath tbl = (dbDir db, sstableID ?now)"
    "ReplaceTables h ((dkFs dk)((dbDir db, sstableID ?now) \<mapsto> fData (tF tbl))) (dbManifest db) (tableMetaFromSST ?now (Table_Metadata (Some tbl)) 0 # dbMeta db) = (fs', mf, None)"
    "flush_turn h W (dk, db) = Some (fst (removeWALFiles h (dk\<lparr>dkFs := fs'\<rparr>) (dbDir db) (imWals imm)), installed ?now imm tbl mf (db\<lparr>dbFlushCh := ch\<rparr>))"
    "tables_rel h W (installed ?now imm tbl mf (db\<lparr>dbFlushCh := ch\<rparr>)) rss'" "concat rss' = k1 # concat rss"
    using flush_turn_shape [OF Cons l lo k1(3,1,2) tr h W refl, of dk] by blast
  have hf: "hFault h = (\<lambda>_. None)" using h by (simp add: host_ok_def)
  have db': "db' = installed ?now imm tbl mf (db\<lparr>dbFlushCh := ch\<rparr>)" and dk': "dk' = dk\<lparr>dkFs := fs', dkWals := \<lambda>n. if n \<in> set (imWals imm) then None else dkWals dk n\<rparr>"
    using run f(4) removeWALFiles_spec [OF hf, of "dk\<lparr>dkFs := fs'\<rparr>"] by (auto cong: if_cong)
  have "dkFs dk' = fs'" by (simp add: dk')
  from installed_tables [OF t k1(2) f(2) refl f(3) db' f(5) [folded db'] f(6) this] have t': "dur_tab h W dk' db' rss'" .
  have di: "distinct (all_wals db)" using nm unfolding dur_names_def by (metis strict_sorted_iff)
  then have other: "dkWals dk' n = dkWals dk n" if "n \<in> set (concat (map imWals ch)) \<union> set (dbWalPaths db)" for n
    using that im by (auto simp: dk' all_wals_def)
  have i': "list_all2 (dur_imm \<rho> c dk' db' l) ch xss" using xs(3)
  proof (rule list.rel_mono_strong)
    fix im' zs
    assume x: "im' \<in> set ch" "dur_imm \<rho> c dk db l im' zs"
    have "wals_hold (dkWals dk) (imWals im') (map fst zs)" using x(2) by (simp add: dur_imm_def)
    then have "wals_hold (dkWals dk') (imWals im') (map fst zs)" by (rule wals_hold_cong) (use x(1) other in auto)
    then show "dur_imm \<rho> c dk' db' l im' zs" using x(2) by (simp add: dur_imm_def db')
  qed
  obtain w ps es1 es2 where p: "dbWal db = Some w" "dbWalPaths db = ps @ [wName w]" "wals_hold (dkWals dk) ps es1" "wal_has w es2" "map fst ys = es1 @ es2" using a unfolding dur_act_def by blast
  have "wals_hold (dkWals dk') ps es1" using p(3) by (rule wals_hold_cong) (use p(2) other in auto)
  then have a': "dur_act \<rho> c dk' db' l ys" using a p unfolding dur_act_def db' installed_simps by auto
  have al: "all_wals db = imWals imm @ all_wals db'" "dbTick db' = Suc (dbTick db)" using im by (simp_all add: all_wals_def db')
  have ne: "all_wals db' \<noteq> []" using p(2) by (simp add: all_wals_def db')
  have "{n. dkWals dk' n \<noteq> None} = set (butlast (all_wals db'))"
  proof -
    have "{n. dkWals dk' n \<noteq> None} = set (butlast (all_wals db)) - set (imWals imm)" using nm unfolding dur_names_def by (auto simp: dk')
    also have "\<dots> = set (butlast (all_wals db'))" using di ne unfolding al(1) by (auto simp: butlast_append dest: in_set_butlastD)
    finally show ?thesis .
  qed
  then have "dur_names W B dk' db'" using nm al unfolding dur_names_def by (auto simp: sorted_wrt_append)
  moreover have "views l (concat rss') (foldl apply_request M0 (pre @ map fst xs))"
  proof -
    have "views l ([] # concat rss) (foldl apply_request M0 pre)" using v(1) views_new_run by blast
    from put_run_views [OF this, of "dbThreshold db" xs] show ?thesis using xs(2) by (simp add: f(6) ke dur_imm_def log_keeps_def)
  qed
  moreover have "R = (pre @ map fst xs) @ map fst (concat xss @ ys)" using v(2) xs(1) by simp
  ultimately show ?thesis unfolding dur_def using i' a' t' l
    by (intro exI [of _ l] exI [of _ xss] exI [of _ ys] exI [of _ rss'] exI [of _ "pre @ map fst xs"]) (simp add: db' im)
qed

text \<open>A turn of the write loop.\<close>

definition frame :: "DB \<Rightarrow> DB \<Rightarrow> bool" where
  "frame db db' \<longleftrightarrow> dbDir db' = dbDir db \<and> map_option lgMax (dbLog db') = map_option lgMax (dbLog db)"

lemma prepare_max: "prepare ev thr mx n l p reqs = (l', xs, crossing, e) \<Longrightarrow> map_option lgMax l' = map_option lgMax l"
proof (induction reqs arbitrary: n l p l' xs crossing e)
  case (Cons r reqs)
  obtain l1 s where s: "storeValueForLSM (ev n) l thr (fst r) (snd r) = (l1, s)" by fastforce
  then show ?case using Cons store_max [OF s] by (auto simp: Let_def split: sum.splits if_splits prod.splits)
qed simp

lemma rotateMemtable_frame: "rotateMemtable W (dk, db) = Some ((dk', db'), e) \<Longrightarrow> dbTick db' = Suc (dbTick db) \<and> frame db db'"
  by (auto simp: frame_def rotateMemtable_def Let_def publishReadStateLocked_def split: sum.splits option.splits prod.splits Option.bind_splits)

lemma write_turn_frame: "write_turn W (dk, db) b = Some ((dk', db'), rs, g) \<Longrightarrow> dbTick db \<le> dbTick db' \<and> frame db db'"
  by (auto simp: frame_def write_turn_def Let_def setFlushErrIfNil_def split: prod.splits option.splits if_splits Option.bind_splits dest!: rotateMemtable_frame prepare_max)

lemma processWriteBatch_frame:
  assumes "processWriteBatch W (dk, db) b = Some ((dk', db'), rs)"
  shows "dbTick db \<le> dbTick db' \<and> frame db db'"
  by (rule processWriteBatch_keeps [of "\<lambda>_ d. dbTick db \<le> dbTick d \<and> frame db d", OF _ _ assms]) (auto simp: frame_def dest: write_turn_frame)

lemma rotate_total:
  assumes "dbWal db = Some w" "wal_good n w" "world_ok W" "budget \<rho> c (dbMaxBytes db)" "dbMemtable db = Some m"
  shows "\<exists>dk' db'. rotateMemtable W (dk, db) = Some ((dk', db'), None)"
proof -
  have "memtableArenaSize (dbMaxBytes db) < 2 ^ 32" using assms(4) by (simp add: budget_def)
  then obtain b where "New (nat (memtableArenaSize (dbMaxBytes db))) = Some b" using new_builder by blast
  moreover obtain nw where "createWAL (wdEnv W (dbTick db)) (dbSyncInterval db) = Inr nw"
    using createWAL_good [of "wdEnv W (dbTick db)" 0 "dbSyncInterval db"] assms(3) by (auto simp: world_ok_def)
  moreover obtain w' where "wal_close w = (w', None)" using wal_close_good [OF assms(2)] by blast
  ultimately show ?thesis using assms(1,5) by (simp add: rotateMemtable_def Let_def)
qed

lemma dur_write_turn:
  assumes d: "dur \<rho> c h W B dk db M0 R" and rel: "db_rel \<rho> c h W (length reqs + n) db M1" and reqs: "reqs \<noteq> []" "\<forall>r \<in> set reqs. req_ok \<rho> c (dbThreshold db) r"
    and W: "world_ok W" and o: "names_ordered W B" and run: "write_turn W (dk, db) reqs = Some ((dk', db'), rs, g)" and B: "dbTick db' \<le> B"
  shows "dur \<rho> c h W B dk' db' M0 (R @ take (length rs) reqs)"
proof -
  obtain w rs0 l where bud: "budget \<rho> c (dbMaxBytes db)" and n: "length reqs + n < 2 ^ 63" and w: "dbWal db = Some w" "wal_good (length reqs + n) w"
    and r: "runs_rel \<rho> c h W db rs0" and l: "dbLog db = Some l" "log_ok l" "room (length reqs + n) l" using rel unfolding db_rel_def log_rel_def by blast
  obtain m k0 ims where m: "dbMemtable db = Some m" "m < dbNextMem db" "m \<notin> imTable ` set (dbImmutable db)" and act: "active_ok \<rho> c db m k0" and mo: "mems_ok db ims"
    using r unfolding runs_rel_def by blast
  obtain l' xs w' mem where p: "map fst xs = take (length xs) reqs" "xs \<noteq> []" "length xs \<le> length reqs" "\<forall>x \<in> set xs. req_ok \<rho> c (dbThreshold db) (fst x)"
    "log_ok l'" "room (length reqs - length xs + n) l'" "\<forall>ref kv. stored l ref kv \<longrightarrow> stored l' ref kv" "prepared l' (dbThreshold db) xs"
    and wc: "wal_commit w (map fst xs) (\<not> dbAsync db \<or> dbSyncInterval db \<le> 0) = Some (w', None)" and w': "wal_good (length reqs - length xs + n) w'"
    and mem: "sl_rel mem (put_run k0 xs)" "0 < slRef mem" "flushable (put_run k0 xs)"
    "dbMemBytes db + entries_bytes xs < dbMaxBytes db \<longrightarrow> mem_room \<rho> c (dbMaxBytes db) (dbMemBytes db + entries_bytes xs) mem (put_run k0 xs)"
    and turn: "dbMemBytes db + entries_bytes xs < dbMaxBytes db \<longrightarrow> write_turn W (dk, db) reqs = Some ((dk, taken db l' xs w' mem), replicate (length xs) None, True)"
    "\<forall>st'. dbMaxBytes db \<le> dbMemBytes db + entries_bytes xs \<longrightarrow> rotateMemtable W (dk, taken db l' xs w' mem) = Some (st', None) \<longrightarrow>
      write_turn W (dk, db) reqs = Some (st', replicate (length xs) None, True)"
    by (rule write_turn_shape [OF rel reqs W m(1) act w(1) l, of dk])
  let ?db = "taken db l' xs w' mem"
  have "unat (wPending w) + length xs < 2 ^ 64" using w(2) p(3) by (simp add: wal_good_def)
  moreover have "mem_holds (dbMems db) m k0" using act by (auto simp: active_ok_def mem_room_def mem_holds_def)
  moreover have "log_keeps \<rho> c l' (dbThreshold db) xs" using p(4,8) by (simp add: log_keeps_def)
  ultimately have dt: "dur \<rho> c h W B dk ?db M0 (R @ take (length xs) reqs)"
    using dur_taken [OF d l(1) p(7) W m(1,3) _ w(1,2) _ wc _ p(2) mem(1,2)] p(1) by simp
  show ?thesis
  proof (cases "dbMemBytes db + entries_bytes xs < dbMaxBytes db")
    case True
    then have "dk' = dk" "db' = ?db" "length rs = length xs" using turn(1) run by auto
    then show ?thesis using dt by simp
  next
    case False
    obtain dk2 db2 where ro: "rotateMemtable W (dk, ?db) = Some ((dk2, db2), None)" using rotate_total [OF _ w' W, of ?db \<rho> c m dk] bud m(1) by auto
    then have e: "dk2 = dk'" "db2 = db'" "length rs = length xs" using turn(2) run False by auto
    then have "dbTick ?db < B" using rotateMemtable_frame [OF ro] B by simp
    moreover have "\<forall>im \<in> set (dbImmutable ?db). imTable im < dbNextMem ?db" using mo by (simp add: mems_ok_def)
    ultimately have "dur \<rho> c h W B dk2 db2 M0 (R @ take (length xs) reqs)"
      using dur_rotate [OF dt _ w' ro W o] bud m(1,2) by simp
    then show ?thesis using e by simp
  qed
qed

lemma dur_batch:
  assumes "dur \<rho> c h W B dk db M0 R" "db_rel \<rho> c h W (length reqs + n) db M1" "\<forall>r \<in> set reqs. req_ok \<rho> c (dbThreshold db) r" "world_ok W" "names_ordered W B"
    and "processWriteBatch W (dk, db) reqs = Some ((dk', db'), rs)" "dbTick db' \<le> B"
  shows "dur \<rho> c h W B dk' db' M0 (R @ reqs)"
  using assms
proof (induction "length reqs" arbitrary: reqs dk db R M1 rs rule: less_induct)
  case less
  show ?case
  proof (cases "reqs = []")
    case True
    then show ?thesis using less.prems by (simp add: processWriteBatch.simps)
  next
    case False
    obtain dk1 db1 j where j: "write_turn W (dk, db) reqs = Some ((dk1, db1), replicate j None, True)" "0 < j" "j \<le> length reqs"
      "db_rel \<rho> c h W (length reqs - j + n) db1 (foldl apply_request M1 (take j reqs))" "dbThreshold db1 = dbThreshold db"
      using write_turn_spec [OF less.prems(2) False less.prems(3,4)] by blast
    obtain rs2 where r: "processWriteBatch W (dk1, db1) (drop j reqs) = Some ((dk', db'), rs2)"
      using less.prems(6) j(1) False by (subst (asm) processWriteBatch.simps) auto
    then have "dbTick db1 \<le> B" using processWriteBatch_frame less.prems(7) le_trans by blast
    from dur_write_turn [OF less.prems(1,2) False less.prems(3,4,5) j(1) this] have d: "dur \<rho> c h W B dk1 db1 M0 (R @ take j reqs)" by simp
    have "length (drop j reqs) < length reqs" using j(2,3) by simp
    moreover have "db_rel \<rho> c h W (length (drop j reqs) + n) db1 (foldl apply_request M1 (take j reqs))" using j(4) by simp
    moreover have "\<forall>r \<in> set (drop j reqs). req_ok \<rho> c (dbThreshold db1) r" using less.prems(3) j(5) by (auto dest: in_set_dropD)
    ultimately have "dur \<rho> c h W B dk' db' M0 ((R @ take j reqs) @ drop j reqs)"
      using less.hyps d less.prems(4,5,7) r by blast
    then show ?thesis by simp
  qed
qed

section \<open>Opening\<close>

lemma openDB_dur:
  assumes h: "host_ok h" and W: "world_ok W" and o: "opt = normalizeOptions opts" and b: "budget \<rho> c (MemtableMaxBytes opt)"
    and scan: "scanDataFiles h dir names = Inr (ssts, ws)"
    and mf: "openManifest h (wdClock W 0) (dkFs dk) dir names = Some (fs, Inr (store_of dir meta))" "openSSTablesFromMeta h fs dir meta = Some (Inr us)"
    and lv: "lv_inv levels meta us" "list_all2 (level_rep (hXxh3 h)) levels rss" "\<forall>x \<in> set meta. \<exists>c. tmFilename x = sstableID c \<and> tmCreatedAt x = int c \<and> c < wdClock W 0"
    and vo: "vlog_Open (wdEnv W 0) dir (ValueLogSegmentMaxBytes opt) vents = Inr l0" "log_ok l0" "room (length (concat ess) + n) l0" "views l0 (concat rss) T" and n: "n < 2 ^ 63"
    and ess: "list_all2 (wal_holds (dkWals dk)) ws ess" "\<forall>q \<in> set (concat ess). req_ok \<rho> c (ValueThreshold opt) q"
    and fit: "104 + \<rho> * real_of_int (reqs_bytes (concat ess)) + c \<le> real_of_int (memtableArenaSize (MemtableMaxBytes opt))"
    and disk: "\<forall>t \<in> set us. fs (dir, snd (tPath t)) = Some (fData (tF t))" "fs (dir, manifestFilename) = Some (hMarshal h \<lparr>msVersion = manifestVersion, msTables = meta\<rparr>)"
      "\<forall>r \<in> set (concat rss). flushable r"
    and ws: "sorted_wrt (<) ws" "\<forall>n \<in> set ws. has_suffix n ''.wal''" "{n. dkWals dk n \<noteq> None} = set ws" "\<forall>n \<in> set ws. \<forall>i < B. n < walID (envNow (wdEnv W i))"
    and ord: "names_ordered W B" "Suc (length (concat ess)) < B" and sync: "\<not> AsyncWrites opt \<or> WALSyncInterval opt \<le> 0"
  shows "\<exists>db. openDB h W None dk dir names vents opts = Some (dk\<lparr>dkFs := fs\<rparr>, Inr db) \<and> db_rel \<rho> c h W n db (foldl apply_request T (concat ess)) \<and>
    dur \<rho> c h W B (dk\<lparr>dkFs := fs\<rparr>) db T (concat ess) \<and> dbThreshold db = ValueThreshold opt \<and> dbDir db = dir \<and>
    map_option lgMax (dbLog db) = Some (lgMax l0) \<and> dbTick db = Suc (Suc (length (concat ess)))"
proof -
  obtain db l w xs where d: "openDB h W None dk dir names vents opts = Some (dk\<lparr>dkFs := fs\<rparr>, Inr db)" "db_rel \<rho> c h W n db (foldl apply_request T (concat ess))"
    "dbDir db = dir" "dbThreshold db = ValueThreshold opt" "dbAsync db = AsyncWrites opt" "dbSyncInterval db = WALSyncInterval opt" "dbImmutable db = []"
    "dbTables db = us" "dbMeta db = meta" "dbManifest db = store_of dir meta" "dbMemtable db = Some 0" "dbLog db = Some l" "views l (concat rss) T"
    "mem_holds (dbMems db) 0 (put_run [] xs)" "prepared l (ValueThreshold opt) xs" "map fst xs = concat ess" "tables_rel h W db rss" "dbMaxBytes db = MemtableMaxBytes opt"
    "dbWal db = Some w" "dbWalPaths db = ws @ [wName w]" "wal_has w []" "dbTick db = Suc (Suc (length (concat ess)))" "wName w = walID (envNow (wdEnv W (Suc (length (concat ess)))))" "lgMax l = lgMax l0"
    by (rule openDB_shape [OF h W o b scan mf lv vo n ess fit])
  let ?dk = "dk\<lparr>dkFs := fs\<rparr>"
  have "fst x \<in> set (concat ess)" if "x \<in> set xs" for x using that d(16) by (metis image_eqI list.set_map)
  then have "log_keeps \<rho> c l (ValueThreshold opt) xs" using d(15) ess(2) unfolding log_keeps_def by blast
  moreover have "wals_hold (dkWals ?dk) ws (concat ess)" using ess(1) by (auto simp: wals_hold_def)
  ultimately have "dur_act \<rho> c ?dk db l xs" unfolding dur_act_def using sync d by auto
  moreover have "dur_tab h W ?dk db rss" using d disk by (simp add: dur_tab_def)
  moreover have "dur_names W B ?dk db" unfolding dur_names_def all_wals_def d(7,20,22,23)
    using ws ord walID_suffix by (auto simp: sorted_wrt_append names_ordered_def)
  moreover have "list_all2 (dur_imm \<rho> c ?dk db l) (dbImmutable db) []" using d(7) by simp
  moreover have "concat ess = [] @ map fst (concat [] @ xs)" "views l (concat rss) (foldl apply_request T [])" using d(13,16) by simp_all
  ultimately have "dur \<rho> c h W B ?dk db T (concat ess)" unfolding dur_def using d(12) by blast
  then show ?thesis using d(1-4,12,22,24) by auto
qed

lemma openDB_empty_dur:
  assumes h: "host_ok h" and W: "world_ok W" and b: "budget \<rho> c (MemtableMaxBytes (normalizeOptions opts))" and m: "ValueLogSegmentMaxBytes opts < 2 ^ 62"
    and ord: "names_ordered W B" "1 < B" and sync: "\<not> AsyncWrites opts \<or> WALSyncInterval opts \<le> 0"
  shows "\<exists>dk db. openDB h W None \<lparr>dkFs = (\<lambda>_. None), dkWals = (\<lambda>_. None)\<rparr> dir [] [] opts = Some (dk, Inr db) \<and>
    db_rel \<rho> c h W (2 ^ 63 - 1) db Map.empty \<and> dur \<rho> c h W B dk db Map.empty [] \<and> dbThreshold db = ValueThreshold (normalizeOptions opts) \<and> dbDir db = dir \<and>
    map_option lgMax (dbLog db) = Some (segment_max (ValueLogSegmentMaxBytes opts)) \<and> dbTick db = 2"
proof -
  let ?m = "store_of dir []" and ?dk = "\<lparr>dkFs = (\<lambda>_. None), dkWals = (\<lambda>_. None)\<rparr> :: disk"
  have sc: "scanDataFiles h dir [] = Inr ([], [])" using h by (simp add: scanDataFiles_def Let_def host_ok_def)
  obtain fs l where f: "openManifest h (wdClock W 0) (\<lambda>_. None) dir [] = Some (fs, Inr ?m)"
    and fm: "fs (dir, manifestFilename) = Some (hMarshal h \<lparr>msVersion = manifestVersion, msTables = []\<rparr>)"
    and vo: "vlog_Open (wdEnv W 0) dir (ValueLogSegmentMaxBytes (normalizeOptions opts)) [] = Inr l" and l: "log_ok l" "room (2 ^ 63 - 1) l" "lgMax l = segment_max (ValueLogSegmentMaxBytes opts)"
    by (rule fresh_dir [OF h W m sc])
  have mf: "openManifest h (wdClock W 0) (dkFs ?dk) dir [] = Some (fs, Inr ?m)" using f by simp
  have "\<not> AsyncWrites (normalizeOptions opts) \<or> WALSyncInterval (normalizeOptions opts) \<le> 0" using sync by (simp add: normalizeOptions_def Let_def)
  moreover have "log_ok l" "room (length (concat []) + (2 ^ 63 - 1)) l" "views l (concat []) Map.empty" using l by (simp_all add: views_def)
  moreover have "lv_inv [] [] []" by (simp add: lv_inv_def)
  ultimately show ?thesis
    using openDB_dur [OF h W refl b sc mf, of "[]" "[]" "[]" "[]" l "[]" "2 ^ 63 - 1" Map.empty B] fm vo ord budget_empty [OF b] l(3) by (auto simp: openSSTablesFromMeta_def numeral_2_eq_2)
qed

section \<open>Runs\<close>

lemma flush_turn_frame: "flush_turn h W (dk, db) = Some (dk', db') \<Longrightarrow> dbTick db \<le> dbTick db' \<and> frame db db'"
  by (auto simp: frame_def flush_turn_def syncValueLogForFlush_def Let_def setFlushErrIfNil_def installFlushedTable_def publishReadStateLocked_def
      split: list.splits Option.bind_splits option.splits if_splits sum.splits prod.splits)

lemma turn_batch:
  assumes t: "writeLoop_turn W k (map Some arrived) ((dk, db), map Some ps) = Some (((dk', db'), ch), rs, g)"
  shows "\<exists>j \<le> length (ps @ arrived). processWriteBatch W (dk, db) (take j (ps @ arrived)) = Some ((dk', db'), rs)"
proof -
  obtain j where j: "j \<le> length (ps @ arrived)" "writeLoop_turn W k (map Some arrived) ((dk, db), map Some ps) =
    map_option (\<lambda>(st, rs). ((st, map Some (drop j (ps @ arrived))), rs, True)) (processWriteBatch W (dk, db) (take j (ps @ arrived)))"
    using writeLoop_turn_batch [of "ps @ arrived" ps arrived W k dk db] by blast
  then show ?thesis using t by (cases "processWriteBatch W (dk, db) (take j (ps @ arrived))") (auto simp del: take_append drop_append intro!: exI [of _ j])
qed

lemma writeLoop_turn_frame: "writeLoop_turn W k a ((dk, db), ch) = Some (((dk', db'), ch'), rs, g) \<Longrightarrow> dbTick db \<le> dbTick db' \<and> frame db db'"
  by (auto simp: writeLoop_turn_def frame_def split: list.splits option.splits prod.splits dest: processWriteBatch_frame)

lemma db_step_frame: "db_step h W good s s' \<Longrightarrow> dbTick (dyDB s) \<le> dbTick (dyDB s') \<and> frame (dyDB s) (dyDB s')"
  by (induction rule: db_step.induct) (auto simp: frame_def dest: writeLoop_turn_frame flush_turn_frame)

lemma db_step_dur:
  assumes "db_step h W (req_ok \<rho> c thr) s s'" "sys_rel \<rho> c h W N thr M s" "dur \<rho> c h W B (dyDisk s) (dyDB s) M (dyAcked s)"
    and "length (dySubmitted s') \<le> N" "host_ok h" "world_ok W" "names_ordered W B" "dbTick (dyDB s') \<le> B"
  shows "dur \<rho> c h W B (dyDisk s') (dyDB s') M (dyAcked s')"
  using assms
proof (induction rule: db_step.induct)
  case (turn arrived k s dk db ch rs goOn)
  let ?n = "length (dyAcked s)"
  obtain ps where ps: "dyCh s = map Some ps" "\<forall>r \<in> set ps. req_ok \<rho> c thr r" "dySubmitted s = dyAcked s @ ps" "dbThreshold (dyDB s) = thr"
    and rel: "db_rel \<rho> c h W (N - ?n) (dyDB s) (foldl apply_request M (dyAcked s))" using turn(3) by (auto simp: sys_rel_def)
  let ?qs = "ps @ arrived"
  obtain j where j: "j \<le> length ?qs" "processWriteBatch W (dyDisk s, dyDB s) (take j ?qs) = Some ((dk, db), rs)" using turn_batch turn(2) unfolding ps(1) by blast
  have "?n + length ?qs \<le> N" using turn(5) ps(3) by simp
  moreover have lj: "length (take j ?qs) = j" using j(1) by simp
  ultimately have "length (take j ?qs) + (N - ?n - j) = N - ?n" using j(1) by linarith
  then have "db_rel \<rho> c h W (length (take j ?qs) + (N - ?n - j)) (dyDB s) (foldl apply_request M (dyAcked s))" using rel by (simp del: take_append length_take length_append)
  moreover have ok: "\<forall>r \<in> set (take j ?qs). req_ok \<rho> c (dbThreshold (dyDB s)) r" using ps(2,4) turn(1) by (auto dest!: in_set_takeD)
  ultimately obtain dk1 db1 where p: "processWriteBatch W (dyDisk s, dyDB s) (take j ?qs) = Some ((dk1, db1), replicate (length (take j ?qs)) None)"
    and rel2: "db_rel \<rho> c h W (length (take j ?qs) + (N - ?n - j)) (dyDB s) (foldl apply_request M (dyAcked s))" using processWriteBatch_spec turn(7) by blast
  have "rs = replicate (length (take j ?qs)) None" using p j(2) by simp
  then have "rs = replicate j None" unfolding lj .
  then have "acked (map Some ?qs) rs = take j ?qs"
    using acked_all [of "take j ?qs" j "map Some (drop j ?qs)"] j(1) unfolding map_append [symmetric] append_take_drop_id by simp
  moreover have "dbTick db \<le> B" using turn(9) by simp
  from dur_batch [OF turn(4) rel2 ok turn(7,8) j(2) this] have "dur \<rho> c h W B dk db M (dyAcked s @ take j ?qs)" by simp
  ultimately show ?case using ps(1) by simp
next
  case (flush s dk db)
  then show ?case using dur_flush [of \<rho> c h W B "dyDisk s" "dyDB s"] unfolding sys_rel_def by auto
qed simp

lemma db_reach_dur:
  assumes "(db_step h W (req_ok \<rho> c thr))\<^sup>*\<^sup>* s s'" "sys_rel \<rho> c h W N thr M s" "dur \<rho> c h W B (dyDisk s) (dyDB s) M (dyAcked s)"
    and "host_ok h" "world_ok W" "names_ordered W B"
  shows "length (dySubmitted s') \<le> N \<Longrightarrow> dbTick (dyDB s') \<le> B \<Longrightarrow> dur \<rho> c h W B (dyDisk s') (dyDB s') M (dyAcked s')"
  using assms(1)
proof (induction rule: rtranclp_induct)
  case (step s1 s2)
  have l: "length (dySubmitted s1) \<le> N" using db_step_grows [OF step.hyps(2)] step.prems by linarith
  have t: "dbTick (dyDB s1) \<le> B" using db_step_frame [OF step.hyps(2)] step.prems by linarith
  have "sys_rel \<rho> c h W N thr M s1" using db_reach_rel [OF step.hyps(1) assms(2,4,5) l] .
  then show ?case using db_step_dur [OF step.hyps(2) _ step.IH [OF l t] step.prems(1) assms(4-6) step.prems(2)] by blast
qed (use assms(3) in blast)

lemma db_reach_frame: "(db_step h W good)\<^sup>*\<^sup>* s s' \<Longrightarrow> frame (dyDB s) (dyDB s')"
proof (induction rule: rtranclp_induct)
  case (step s1 s2)
  then show ?case using db_step_frame [OF step.hyps(2)] by (simp add: frame_def)
qed (simp add: frame_def)

section \<open>Crashes\<close>

text \<open>The write-ahead logs at a crash: the active one has what is in its file, with perhaps a part of a batch on its way.\<close>

definition crash_disk :: "disk \<Rightarrow> DB \<Rightarrow> bytes \<Rightarrow> disk" where
  "crash_disk dk db tail =
     (case dbWal db of None \<Rightarrow> dk
      | Some w \<Rightarrow> dk\<lparr>dkWals := (dkWals dk)(wName w \<mapsto> (fData (bwFile (wBw w)) @ tail, fDev (bwFile (wBw w))))\<rparr>)"

definition lists_disk :: "listing \<Rightarrow> disk \<Rightarrow> bool" where
  "lists_disk names dk \<longleftrightarrow> distinct (map fst names) \<and> (\<forall>n. has_suffix n ''.wal'' \<longrightarrow> ((n, False) \<in> set names \<longleftrightarrow> dkWals dk n \<noteq> None))"

text \<open>The requests in the logs.\<close>

definition wal_reqs :: "disk \<Rightarrow> string list \<Rightarrow> writeRequest list" where
  "wal_reqs dk ns = concat (map (\<lambda>n. case dkWals dk n of None \<Rightarrow> [] | Some (data, _) \<Rightarrow> fst (split_records data)) ns)"

lemma wals_hold_reqs: "wals_hold (dkWals dk) ns es \<Longrightarrow> wal_reqs dk ns = es"
proof -
  have "list_all2 (wal_holds (dkWals dk)) ns ess \<Longrightarrow> wal_reqs dk ns = concat ess" for ess
    by (induction ns ess rule: list_all2_induct) (auto simp: wal_reqs_def wal_holds_def)
  then show "wals_hold (dkWals dk) ns es \<Longrightarrow> wal_reqs dk ns = es" by (auto simp: wals_hold_def)
qed

lemma imm_wals_hold: "list_all2 (dur_imm \<rho> c dk db l) ims xss \<Longrightarrow> wals_hold (dkWals dk) (concat (map imWals ims)) (map fst (concat xss))"
proof (induction ims xss rule: list_all2_induct)
  case Nil
  show ?case by (auto simp: wals_hold_def)
next
  case (Cons im ims xs xss)
  then show ?case using wals_hold_append by (simp add: dur_imm_def)
qed

lemma imm_reqs_ok: "list_all2 (dur_imm \<rho> c dk db l) ims xss \<Longrightarrow> \<forall>x \<in> set (concat xss). req_ok \<rho> c (dbThreshold db) (fst x)"
  by (induction ims xss rule: list_all2_induct) (auto simp: dur_imm_def log_keeps_def)

text \<open>What is on disk at a crash.\<close>

lemma crash_dom:
  assumes "dur \<rho> c h W B dk db M0 R" "dbWal db = Some w"
  shows "dkWals (crash_disk dk db tail) n \<noteq> None \<longleftrightarrow> n \<in> set (all_wals db)" "all_wals db = butlast (all_wals db) @ [wName w]" "distinct (all_wals db)"
    "\<forall>n \<in> set (all_wals db). has_suffix n ''.wal''"
proof -
  obtain ps where p: "dbWalPaths db = ps @ [wName w]" using assms unfolding dur_def dur_act_def by auto
  then show al: "all_wals db = butlast (all_wals db) @ [wName w]" by (simp add: all_wals_def butlast_append)
  have nm: "dur_names W B dk db" using assms(1) unfolding dur_def by blast
  then show "distinct (all_wals db)" unfolding dur_names_def by (metis strict_sorted_iff)
  show "\<forall>n \<in> set (all_wals db). has_suffix n ''.wal''" using nm unfolding dur_names_def by blast
  have "dkWals dk n \<noteq> None \<longleftrightarrow> n \<in> set (butlast (all_wals db))" using nm unfolding dur_names_def by blast
  moreover have "set (all_wals db) = insert (wName w) (set (butlast (all_wals db)))" by (subst al) simp
  moreover have "dkWals (crash_disk dk db tail) n \<noteq> None \<longleftrightarrow> n = wName w \<or> dkWals dk n \<noteq> None" using assms(2) by (simp add: crash_disk_def)
  ultimately show "dkWals (crash_disk dk db tail) n \<noteq> None \<longleftrightarrow> n \<in> set (all_wals db)" by simp
qed

lemma dur_crash:
  assumes d: "dur \<rho> c h W B dk db M0 R" and w: "dbWal db = Some w" "wal_good n w" and l: "dbLog db = Some l" and fs: "\<forall>q \<in> set fs. req_ok \<rho> c (dbThreshold db) q"
    and cd: "\<forall>ts. codec_ok h ts" and dk': "dk' = crash_disk dk db (take k (encs fs))" and ls: "lists_disk names dk'"
  shows "\<exists>j rss pre es. j \<le> length fs \<and> disk_tables h (dkFs dk') (dbDir db) (dbMeta db) rss \<and> views l (concat rss) (foldl apply_request M0 pre) \<and> lists_wals names (all_wals db) \<and>
    wals_hold (dkWals dk') (all_wals db) (es @ take j fs) \<and> (\<forall>q \<in> set (es @ take j fs). req_ok \<rho> c (dbThreshold db) q) \<and> R = pre @ es \<and> tables_rel h W db rss"
proof -
  obtain xss ys rss pre where i: "list_all2 (dur_imm \<rho> c dk db l) (dbImmutable db) xss" and a: "dur_act \<rho> c dk db l ys" and t: "dur_tab h W dk db rss" and nm: "dur_names W B dk db"
    and v: "views l (concat rss) (foldl apply_request M0 pre)" "R = pre @ map fst (concat xss @ ys)" using d l unfolding dur_def by auto
  obtain ps es1 es2 where p: "dbWalPaths db = ps @ [wName w]" "wals_hold (dkWals dk) ps es1" "wal_has w es2" "map fst ys = es1 @ es2"
    and ky: "log_keeps \<rho> c l (dbThreshold db) ys" using a w(1) unfolding dur_act_def by auto
  have wk: "dkWals dk' = (dkWals dk)(wName w \<mapsto> (encs es2 @ take k (encs fs), fDev (bwFile (wBw w))))" "dkFs dk' = dkFs dk"
    using p(3) w(1) by (simp_all add: dk' crash_disk_def wal_has_def)
  have al: "all_wals db = (concat (map imWals (dbImmutable db)) @ ps) @ [wName w]" using p(1) by (simp add: all_wals_def)
  have so: "sorted_wrt (<) (all_wals db)" using nm unfolding dur_names_def by blast
  note cd' = crash_dom [OF d w(1)]
  have "good_device (fDev (bwFile (wBw w)))" using w(2) by (simp add: wal_good_def bw_good_def)
  moreover have "list_all rec_ok es2" "list_all rec_ok fs" using req_ok_rec_ok [OF ky] p(4) fs by (auto simp: list_all_iff req_ok_def)
  ultimately obtain j where j: "j \<le> length fs" "wal_holds (dkWals dk') (wName w) (es2 @ take j fs)" using encs_held [of "dkWals dk'" "wName w" es2 k fs] wk(1) by auto
  have "wals_hold (dkWals dk) (concat (map imWals (dbImmutable db)) @ ps) (map fst (concat xss) @ es1)" using imm_wals_hold [OF i] p(2) by (rule wals_hold_append)
  then have "wals_hold (dkWals dk') (concat (map imWals (dbImmutable db)) @ ps) (map fst (concat xss) @ es1)"
    by (rule wals_hold_cong) (use cd'(3) al wk(1) in auto)
  from wals_hold_append [OF this wals_hold_one [OF j(2)]] have wh: "wals_hold (dkWals dk') (all_wals db) (map fst (concat xss @ ys) @ take j fs)" unfolding al using p(4) by simp
  have "set (all_wals db) = {n. (n, False) \<in> set names \<and> has_suffix n ''.wal''}" using ls cd'(1,4) unfolding lists_disk_def dk' by blast
  then have "lists_wals names (all_wals db)" using ls so unfolding lists_wals_def lists_disk_def by blast
  moreover have "disk_tables h (dkFs dk') (dbDir db) (dbMeta db) rss" "tables_rel h W db rss" using t cd unfolding dur_tab_def disk_tables_def tables_rel_def wk(2) by blast+
  moreover have "\<forall>q \<in> set (map fst (concat xss @ ys) @ take j fs). req_ok \<rho> c (dbThreshold db) q"
    using imm_reqs_ok [OF i] ky fs unfolding log_keeps_def by (fastforce dest: in_set_takeD)
  ultimately show ?thesis using j(1) v wh by blast
qed

lemma opened_reach_dur:
  assumes "host_ok h" "world_ok W" "budget \<rho> c (MemtableMaxBytes (normalizeOptions opts))" "ValueLogSegmentMaxBytes opts < 2 ^ 62"
    and "\<not> AsyncWrites opts \<or> WALSyncInterval opts \<le> 0" "names_ordered W B" "1 < B"
    and "openDB h W None \<lparr>dkFs = (\<lambda>_. None), dkWals = (\<lambda>_. None)\<rparr> dir [] [] opts = Some (dk, Inr db)"
    and "(db_step h W (req_ok \<rho> c (dbThreshold db)))\<^sup>*\<^sup>* (db_start dk db) s" "length (dySubmitted s) < 2 ^ 63" "dbTick (dyDB s) \<le> B"
  shows "dur \<rho> c h W B (dyDisk s) (dyDB s) Map.empty (dyAcked s)" "db_rel \<rho> c h W (2 ^ 63 - 1 - length (dyAcked s)) (dyDB s) (foldl apply_request Map.empty (dyAcked s))"
    "dbThreshold (dyDB s) = ValueThreshold (normalizeOptions opts)" "dbThreshold db = ValueThreshold (normalizeOptions opts)" "dbDir (dyDB s) = dir"
    "map_option lgMax (dbLog (dyDB s)) = Some (segment_max (ValueLogSegmentMaxBytes opts))"
proof -
  have o: "db_rel \<rho> c h W (2 ^ 63 - 1) db Map.empty" "dur \<rho> c h W B dk db Map.empty []" "dbThreshold db = ValueThreshold (normalizeOptions opts)" "dbDir db = dir"
    "map_option lgMax (dbLog db) = Some (segment_max (ValueLogSegmentMaxBytes opts))"
    using openDB_empty_dur [OF assms(1,2,3,4,6,7,5), of dir] assms(8) by auto
  have s0: "sys_rel \<rho> c h W (2 ^ 63 - 1) (dbThreshold db) Map.empty (db_start dk db)" by (rule start_rel [OF o(1)])
  have len: "length (dySubmitted s) \<le> 2 ^ 63 - 1" using assms(10) by simp
  have "dur \<rho> c h W B (dyDisk (db_start dk db)) (dyDB (db_start dk db)) Map.empty (dyAcked (db_start dk db))" using o(2) by (simp add: db_start_def)
  from db_reach_dur [OF assms(9) s0 this assms(1,2,6) len assms(11)] show "dur \<rho> c h W B (dyDisk s) (dyDB s) Map.empty (dyAcked s)" .
  show "db_rel \<rho> c h W (2 ^ 63 - 1 - length (dyAcked s)) (dyDB s) (foldl apply_request Map.empty (dyAcked s))" "dbThreshold (dyDB s) = ValueThreshold (normalizeOptions opts)"
    using db_reach_rel [OF assms(9) s0 assms(1,2) len] o(3) by (auto simp: sys_rel_def)
  show "dbThreshold db = ValueThreshold (normalizeOptions opts)" "dbDir (dyDB s) = dir" "map_option lgMax (dbLog (dyDB s)) = Some (segment_max (ValueLogSegmentMaxBytes opts))"
    using db_reach_frame [OF assms(9)] o(3,4,5) by (simp_all add: db_start_def frame_def)
qed


text \<open>A world whose clock numbers the calls, and a host with a codec for every manifest.\<close>

definition tick_world :: world where
  "tick_world = calm_world\<lparr>wdEnv := \<lambda>n. calm\<lparr>envNow := n mod 8\<rparr>\<rparr>"

lemma tick_world: "world_ok tick_world" "names_ordered tick_world 8" "world_ok (tick_world\<lparr>wdClock := \<lambda>n. n + 8\<rparr>)"
proof -
  show "world_ok tick_world" "world_ok (tick_world\<lparr>wdClock := \<lambda>n. n + 8\<rparr>)"
    using calm_ok by (auto simp: world_ok_def tick_world_def calm_world_def env_ok_def strict_mono_def intro: order.strict_trans [OF mod_less_divisor])
  have "list_all (\<lambda>i. list_all (\<lambda>j. i < j \<longrightarrow> walID i < walID j) [0..<8]) [0..<8]" by code_simp
  then show "names_ordered tick_world 8" by (auto simp: names_ordered_def tick_world_def list_all_iff)
qed

lemma some_codec: "\<exists>h. host_ok h \<and> (\<forall>ts. codec_ok h ts)"
proof -
  define g where "g t = (tmFilename t, tmLevel t, map unat (tmSmallest t), map unat (tmLargest t), tmSizeBytes t, tmCreatedAt t)" for t :: TableMeta
  define f where "f s = (replicate (to_nat (msVersion s, map g (msTables s))) 0 :: bytes)" for s :: manifestState
  have u: "map unat a = map unat b \<Longrightarrow> a = b" for a b :: bytes by (rule map_injective) (auto intro: injI simp: word_unat_eq_iff)
  have "inj g" by (rule injI) (auto simp: g_def dest: u)
  then have "inj (map g)" by simp
  then have "inj f" by (intro injI) (auto simp: f_def dest: injD)
  then have "host_ok (calm_host []\<lparr>hMarshal := f, hUnmarshal := \<lambda>b. Some (inv f b)\<rparr>) \<and> (\<forall>ts. codec_ok (calm_host []\<lparr>hMarshal := f, hUnmarshal := \<lambda>b. Some (inv f b)\<rparr>) ts)"
    using calm_setting(1) by (simp add: codec_ok_def host_ok_def)
  then show ?thesis by blast
qed

lemma write_turn_ticks: "write_turn W (dk, db) b = Some ((dk', db'), rs, g) \<Longrightarrow> dbTick db' \<le> dbTick db + length b + 2"
  by (auto simp: write_turn_def Let_def setFlushErrIfNil_def split: prod.splits option.splits if_splits Option.bind_splits dest!: rotateMemtable_frame prepare_length)

lemma single_ticks:
  assumes "processWriteBatch W (dk, db) [r] = Some ((dk', db'), rs)"
  shows "dbTick db' \<le> dbTick db + 3"
proof -
  obtain dk1 db1 rs1 g where t: "write_turn W (dk, db) [r] = Some ((dk1, db1), rs1, g)" using assms by (subst (asm) processWriteBatch.simps) (auto split: option.splits)
  have "g \<Longrightarrow> rs1 \<noteq> []" using write_turn_progress [of W "(dk, db)" "[r]"] t by simp
  then have "db' = db1" using assms t by (subst (asm) processWriteBatch.simps) (cases rs1; auto simp: processWriteBatch.simps split: if_splits)
  then show ?thesis using write_turn_ticks [OF t] by simp
qed


end
