(* ===== verification/Database_Sessions.thy ===== *)
theory Database_Sessions
  imports Database_Durability
begin

text \<open>
  Closing and opening again. \<open>Close\<close> answers the requests that are still queued, flushes every memtable and leaves a directory without write-ahead
  logs; opening it gives the map of all requests, with asynchronous writes too, and so on for any number of sessions (\<open>sessions\<close>).
\<close>

section \<open>Writes of a database that is closing\<close>

text \<open>\<open>markClosed\<close> changes the flag and the published state only; the write loop does the same work on such a database.\<close>

definition shut :: "DB \<Rightarrow> DB" where
  "shut db = db\<lparr>dbClosed := True, dbRead := (dbRead db)\<lparr>rsClosed := True\<rparr>\<rparr>"

lemma shut_fields [simp]:
  "dbTick (shut db) = dbTick db" "dbSyncInterval (shut db) = dbSyncInterval db" "dbWal (shut db) = dbWal db" "dbMaxBytes (shut db) = dbMaxBytes db"
  "dbMemtable (shut db) = dbMemtable db" "dbWalPaths (shut db) = dbWalPaths db" "dbImmutable (shut db) = dbImmutable db" "dbMems (shut db) = dbMems db"
  "dbNextMem (shut db) = dbNextMem db" "dbFlushCh (shut db) = dbFlushCh db" "dbFlushErr (shut db) = dbFlushErr db" "dbThreshold (shut db) = dbThreshold db"
  "dbLog (shut db) = dbLog db" "dbMemBytes (shut db) = dbMemBytes db" "dbAsync (shut db) = dbAsync db" "dbWindow (shut db) = dbWindow db" "dbDir (shut db) = dbDir db"
  "dbTables (shut db) = dbTables db" "dbLevels (shut db) = dbLevels db" "dbMeta (shut db) = dbMeta db" "dbManifest (shut db) = dbManifest db" "dbClosed (shut db)"
  by (simp_all add: shut_def)

lemma shut_updates [simp]:
  "(shut db)\<lparr>dbTick := a\<rparr> = shut (db\<lparr>dbTick := a\<rparr>)" "(shut db)\<lparr>dbWal := b\<rparr> = shut (db\<lparr>dbWal := b\<rparr>)" "(shut db)\<lparr>dbImmutable := c\<rparr> = shut (db\<lparr>dbImmutable := c\<rparr>)"
  "(shut db)\<lparr>dbMems := d\<rparr> = shut (db\<lparr>dbMems := d\<rparr>)" "(shut db)\<lparr>dbMemtable := e\<rparr> = shut (db\<lparr>dbMemtable := e\<rparr>)" "(shut db)\<lparr>dbNextMem := f\<rparr> = shut (db\<lparr>dbNextMem := f\<rparr>)"
  "(shut db)\<lparr>dbWalPaths := g\<rparr> = shut (db\<lparr>dbWalPaths := g\<rparr>)" "(shut db)\<lparr>dbMemBytes := i\<rparr> = shut (db\<lparr>dbMemBytes := i\<rparr>)" "(shut db)\<lparr>dbFlushCh := j\<rparr> = shut (db\<lparr>dbFlushCh := j\<rparr>)"
  "(shut db)\<lparr>dbLog := k\<rparr> = shut (db\<lparr>dbLog := k\<rparr>)" "(shut db)\<lparr>dbFlushErr := l\<rparr> = shut (db\<lparr>dbFlushErr := l\<rparr>)"
  by (simp_all add: shut_def)

lemma publish_shut [simp]: "publishReadStateLocked (shut db) = shut (publishReadStateLocked db)"
  by (simp add: publishReadStateLocked_def snapshotReadStateLocked_def shut_def)

lemma markClosed_shut: "open_ok db \<Longrightarrow> markClosed db = (shut db, True)"
  by (simp add: open_ok_def markClosed_def publishReadStateLocked_def snapshotReadStateLocked_def shut_def)

lemma setFlushErrIfNil_shut [simp]: "setFlushErrIfNil e (shut db) = map_prod shut id (setFlushErrIfNil e db)"
  by (simp add: setFlushErrIfNil_def split: option.split)

lemma rotate_shut: "rotateMemtable W (dk, shut db) = map_option (map_prod (map_prod id shut) id) (rotateMemtable W (dk, db))"
  by (simp add: rotateMemtable_def Let_def split: sum.split option.split prod.split Option.bind_split)

lemma write_turn_shut: "write_turn W (dk, shut db) b = map_option (map_prod (map_prod id shut) id) (write_turn W (dk, db) b)"
proof (cases "dbFlushErr db = None \<and> dbWal db \<noteq> None \<and> dbMemtable db \<noteq> None")
  case True
  then obtain w m where w: "dbFlushErr db = None" "dbWal db = Some w" "dbMemtable db = Some m" by auto
  obtain l xs crossing pe where p: "prepare (\<lambda>i. wdEnv W (dbTick db + i)) (dbThreshold db) (dbMaxBytes db) 0 (dbLog db) (dbMemBytes db) b = (l, xs, crossing, pe)"
    by (metis prod_cases4)
  obtain w1 e1 where "wal_commit w (map fst xs) (\<not> dbAsync db \<or> dbSyncInterval db \<le> 0) = None \<or>
    wal_commit w (map fst xs) (\<not> dbAsync db \<or> dbSyncInterval db \<le> 0) = Some (w1, e1)" by (metis not_Some_eq surj_pair)
  then show ?thesis using w p
    by (elim disjE; cases pe; cases e1; cases "xs = []"; cases "dbMems db m"; cases crossing)
      (simp_all add: write_turn_def Let_def rotate_shut setFlushErrIfNil_def split: option.split prod.split Option.bind_split, auto)
next
  case False
  then show ?thesis by (auto simp: write_turn_def split: option.split)
qed

lemma processWriteBatch_shut: "processWriteBatch W (dk, db) b = Some ((dk', db'), rs) \<Longrightarrow> processWriteBatch W (dk, shut db) b = Some ((dk', shut db'), rs)"
proof (induction "length b" arbitrary: b dk db rs rule: less_induct)
  case less
  show ?case
  proof (cases "b = []")
    case True
    then show ?thesis using less.prems by (simp add: processWriteBatch.simps)
  next
    case False
    then obtain dk1 db1 rs1 g where t: "write_turn W (dk, db) b = Some ((dk1, db1), rs1, g)" using less.prems by (subst (asm) processWriteBatch.simps) (auto split: option.splits)
    then have t': "write_turn W (dk, shut db) b = Some ((dk1, shut db1), rs1, g)" by (simp add: write_turn_shut)
    show ?thesis
    proof (cases g)
      case True
      then have "rs1 \<noteq> []" using write_turn_progress [of W "(dk, db)" b] t by simp
      then have lt: "length (drop (length rs1) b) < length b" using False by simp
      obtain rs2 where r: "processWriteBatch W (dk1, db1) (drop (length rs1) b) = Some ((dk', db'), rs2)" "rs = rs1 @ rs2"
        using less.prems t True False by (subst (asm) processWriteBatch.simps) auto
      then show ?thesis using less.hyps [OF lt] t' True False by (subst processWriteBatch.simps) simp
    next
      case False
      then show ?thesis using less.prems t t' \<open>b \<noteq> []\<close> by (subst (asm) processWriteBatch.simps, subst processWriteBatch.simps) auto
    qed
  qed
qed

text \<open>The requests that are queued in front of the nil.\<close>

lemma drain_close:
  "length b \<le> batchCap \<Longrightarrow> drainQueuedWrites (map Some qs @ [None]) b =
    (if length b + length qs < batchCap then (b @ qs, [], True)
     else (b @ take (batchCap - length b) qs, map Some (drop (batchCap - length b) qs) @ [None], False))"
proof (induction qs arbitrary: b)
  case (Cons q qs)
  then show ?case by (cases "length b < batchCap") (auto simp: Suc_diff_Suc [symmetric] Suc_le_eq)
qed auto

lemma collect_close:
  "collectWriteBatch db k [] (map Some qs @ [None]) q =
    (if length (q # qs) < batchCap then (q # qs, [], True) else (take batchCap (q # qs), map Some (drop batchCap (q # qs)) @ [None], False))"
proof -
  have c: "batchCap = Suc 255" by (simp add: batchCap_def)
  have "length [q] \<le> batchCap" by (simp add: c)
  from drain_close [OF this, of qs] show ?thesis by (auto simp: collectWriteBatch_def c)
qed

lemma turn_close:
  obtains j where "0 < j" "j \<le> Suc (length qs)" "writeLoop_turn W 0 [] ((dk, db), map Some (q # qs) @ [None]) =
    map_option (\<lambda>(st, rs). ((st, if length (q # qs) < batchCap then [] else map Some (drop j (q # qs)) @ [None]), rs, \<not> length (q # qs) < batchCap))
      (processWriteBatch W (dk, db) (take j (q # qs)))" "length (q # qs) < batchCap \<Longrightarrow> j = length (q # qs)"
proof (cases "length (q # qs) < batchCap")
  case True
  then show thesis using that [of "length (q # qs)"] by (simp add: writeLoop_turn_def collect_close)
next
  case False
  moreover have "0 < batchCap" by (simp add: batchCap_def)
  ultimately show thesis using that [of batchCap] by (simp add: writeLoop_turn_def collect_close del: take_Cons' drop_Cons')
qed

text \<open>Closing answers every queued request; \<open>P\<close> is what the batches keep.\<close>

lemma writeLoop_close:
  assumes W: "world_ok W"
    and keep: "\<And>dk db b dk' db'. P dk db \<Longrightarrow> processWriteBatch W (dk, db) b = Some ((dk', db'), replicate (length b) None) \<Longrightarrow> P dk' db'"
  shows "db_rel \<rho> c h W (n + length qs) db M \<Longrightarrow> \<forall>r \<in> set qs. req_ok \<rho> c (dbThreshold db) r \<Longrightarrow> P dk db \<Longrightarrow>
    \<exists>dk' db'. writeLoop W (dk, shut db) (map Some qs @ [None]) = Some ((dk', shut db'), replicate (length qs) None) \<and>
      db_rel \<rho> c h W n db' (foldl apply_request M qs) \<and> P dk' db'"
proof (induction "length qs" arbitrary: qs dk db M rule: less_induct)
  case less
  show ?case
  proof (cases qs)
    case Nil
    then show ?thesis using less.prems by (intro exI [of _ dk] exI [of _ db]) (simp add: writeLoop_turn_def)
  next
    case (Cons q qs')
    obtain j where j: "0 < j" "j \<le> length qs" "writeLoop_turn W 0 [] ((dk, shut db), map Some qs @ [None]) =
      map_option (\<lambda>(st, rs). ((st, if length qs < batchCap then [] else map Some (drop j qs) @ [None]), rs, \<not> length qs < batchCap)) (processWriteBatch W (dk, shut db) (take j qs))"
      "length qs < batchCap \<Longrightarrow> j = length qs" using turn_close [of qs' W dk "shut db" q] unfolding Cons by auto
    have "db_rel \<rho> c h W (length (take j qs) + (n + length (drop j qs))) db M" using less.prems(1) j(2) by simp
    moreover have "\<forall>r \<in> set (take j qs). req_ok \<rho> c (dbThreshold db) r" using less.prems(2) by (meson in_set_takeD)
    ultimately obtain dk1 db1 where p: "processWriteBatch W (dk, db) (take j qs) = Some ((dk1, db1), replicate (length (take j qs)) None)"
      "db_rel \<rho> c h W (n + length (drop j qs)) db1 (foldl apply_request M (take j qs))" "dbThreshold db1 = dbThreshold db" using processWriteBatch_spec W by blast
    note k = keep [OF less.prems(3) p(1)]
    have t: "writeLoop_turn W 0 [] ((dk, shut db), map Some qs @ [None]) =
      Some (((dk1, shut db1), if length qs < batchCap then [] else map Some (drop j qs) @ [None]), replicate j None, \<not> length qs < batchCap)"
      using j processWriteBatch_shut [OF p(1)] by (simp add: min_def)
    have ch: "map Some qs @ [None] = Some q # (map Some qs' @ [None])" using Cons by simp
    show ?thesis
    proof (cases "length qs < batchCap")
      case True
      then have "writeLoop W (dk, shut db) (map Some qs @ [None]) = Some ((dk1, shut db1), replicate (length qs) None)" using t j(4) unfolding ch by simp
      then show ?thesis using p(2) k j(4) True by auto
    next
      case False
      have "length (drop j qs) < length qs" using j(1,2) by simp
      moreover have "\<forall>r \<in> set (drop j qs). req_ok \<rho> c (dbThreshold db1) r" using less.prems(2) p(3) by (metis in_set_dropD)
      ultimately obtain dk2 db2 where r: "writeLoop W (dk1, shut db1) (map Some (drop j qs) @ [None]) = Some ((dk2, shut db2), replicate (length (drop j qs)) None)"
        "db_rel \<rho> c h W n db2 (foldl apply_request (foldl apply_request M (take j qs)) (drop j qs))" "P dk2 db2" using less.hyps p(2) k by blast
      have "writeLoop W (dk, shut db) (map Some qs @ [None]) = Some ((dk2, shut db2), replicate j None @ replicate (length (drop j qs)) None)"
        using t r(1) False unfolding ch by simp
      moreover have "replicate j None @ replicate (length (drop j qs)) None = replicate (length qs) None" using j(2) by (simp add: replicate_add [symmetric])
      moreover have "foldl apply_request (foldl apply_request M (take j qs)) (drop j qs) = foldl apply_request M qs"
        by (metis append_take_drop_id foldl_append)
      ultimately show ?thesis using r(2,3) by auto
    qed
  qed
qed

section \<open>What the disk keeps of a running database\<close>

lemma scan_list_all: "scan_list (\<lambda>s k v. (s @ [(k, v)], None :: nat option)) kvs s = (s @ kvs, None)"
  by (induction kvs arbitrary: s) (auto split: prod.split)

lemma table_holds_unique:
  assumes "table_holds x t r" "table_holds x t r'"
  shows "r = r'"
proof -
  let ?fn = "\<lambda>s k v. (s @ [(k, v)], None :: nat option)"
  obtain u where "Scan [] t (Some ?fn) [] = Some (u, r, None)" using Scan_holds [OF assms(1), of "[]" ?fn "[]"] by (auto simp: scan_list_all)
  moreover obtain u' where "Scan [] t (Some ?fn) [] = Some (u', r', None)" using Scan_holds [OF assms(2), of "[]" ?fn "[]"] by (auto simp: scan_list_all)
  ultimately show ?thesis by simp
qed

lemma level_reps_unique: "list_all2 (level_rep x) ls rss \<Longrightarrow> list_all2 (level_rep x) ls rss' \<Longrightarrow> rss = rss'"
proof (induction ls rss arbitrary: rss' rule: list_all2_induct)
  case (Cons l ls rs rss)
  then obtain rs' rss2 where r: "rss' = rs' # rss2" "level_rep x l rs'" "list_all2 (level_rep x) ls rss2" by (auto simp: list_all2_Cons1)
  have "rs = rs'" using Cons.hyps(1) r(2) table_holds_unique unfolding level_rep_def list_all2_conv_all_nth by (metis nth_equalityI)
  then show ?case using Cons.IH r by simp
qed simp

lemma tables_rel_unique: "tables_rel h W db rss \<Longrightarrow> tables_rel h W db rss' \<Longrightarrow> rss = rss'"
  unfolding tables_rel_def using level_reps_unique by blast

lemma close_file_name: "close_file w = (w', e) \<Longrightarrow> wName w' = wName w"
  by (auto simp: close_file_def split: prod.splits)

lemma flushAndSync_name: "flushAndSyncLocked w = (w', e) \<Longrightarrow> wName w' = wName w"
  by (auto simp: flushAndSyncLocked_def Let_def split: prod.splits option.splits if_splits)

lemma flush_pending_name [simp]: "wName (flush_pending w) = wName w"
  by (auto simp: flush_pending_def Let_def split: prod.splits option.splits if_splits dest!: flushAndSync_name)

lemma close_direct_name: "close_direct w = (w', e) \<Longrightarrow> wName w' = wName w"
  by (auto simp: close_direct_def close_file_def Let_def split: prod.splits option.splits if_splits dest!: flushAndSync_name)

lemma wal_close_name: "wal_close w = (w', e) \<Longrightarrow> wName w' = wName w"
  by (auto simp: wal_close_def loop_close_def close_begin_def split: if_splits dest!: close_direct_name close_file_name)

lemma appendBatch_name: "appendBatch w es b = Some (w', r) \<Longrightarrow> wName w' = wName w"
  by (auto simp: appendBatch_def writeAndSyncRecordLocked_def Let_def split: prod.splits option.splits if_splits Option.bind_splits)

lemma wal_commit_name: "wal_commit w es b = Some (w', e) \<Longrightarrow> wName w' = wName w"
  by (auto simp: wal_commit_def loop_wake_def loop_timer_def Let_def split: option.splits prod.splits batch_result.splits dest!: appendBatch_name)

text \<open>A turn of the write loop leaves the files of the tables, the manifest and the levels alone.\<close>

definition same_tables :: "disk \<Rightarrow> DB \<Rightarrow> disk \<Rightarrow> DB \<Rightarrow> bool" where
  "same_tables dk db dk' db' \<longleftrightarrow> dkFs dk' = dkFs dk \<and> dbTables db' = dbTables db \<and> dbLevels db' = dbLevels db \<and> dbMeta db' = dbMeta db \<and>
     dbManifest db' = dbManifest db \<and> dbDir db' = dbDir db \<and> dbTick db \<le> dbTick db'"

definition wals_named :: "disk \<Rightarrow> DB \<Rightarrow> bool" where
  "wals_named dk db \<longleftrightarrow> (\<exists>w. dbWal db = Some w \<and> dbWalPaths db = [wName w]) \<and> dom (dkWals dk) \<subseteq> set (all_wals db)"

lemma dur_tab_same: "dur_tab h W dk db rss \<Longrightarrow> same_tables dk db dk' db' \<Longrightarrow> world_ok W \<Longrightarrow> dur_tab h W dk' db' rss"
proof -
  assume a: "dur_tab h W dk db rss" "same_tables dk db dk' db'" "world_ok W"
  have "wdClock W (dbTick db) \<le> wdClock W (dbTick db')" using a(2,3) by (simp add: same_tables_def world_ok_def strict_mono_less_eq)
  then have "c < wdClock W (dbTick db')" if "c < wdClock W (dbTick db)" for c using that by linarith
  then show "dur_tab h W dk' db' rss" using a(1,2) unfolding dur_tab_def same_tables_def tables_rel_def by metis
qed

lemma rotate_keeps:
  assumes "rotateMemtable W (dk, db) = Some ((dk', db'), e)"
  shows "same_tables dk db dk' db'" "wals_named dk db \<Longrightarrow> wals_named dk' db'"
proof -
  show "same_tables dk db dk' db'" using assms
    by (auto simp: rotateMemtable_def Let_def same_tables_def publishReadStateLocked_def split: sum.splits option.splits prod.splits Option.bind_splits)
  assume n: "wals_named dk db"
  then obtain w where w: "dbWal db = Some w" "dbWalPaths db = [wName w]" by (auto simp: wals_named_def)
  have "(\<exists>w'. dbWal db' = Some w' \<and> dbWalPaths db' = [wName w']) \<and> dom (dkWals dk') \<subseteq> insert (wName w) (dom (dkWals dk)) \<and>
    set (all_wals db) \<subseteq> set (all_wals db')" using assms w
    by (auto simp: rotateMemtable_def Let_def all_wals_def publishReadStateLocked_def split: sum.splits option.splits prod.splits Option.bind_splits dest: wal_close_name)
  moreover have "wName w \<in> set (all_wals db)" using w by (simp add: all_wals_def)
  ultimately show "wals_named dk' db'" using n unfolding wals_named_def by blast
qed

lemma rotate_named: "rotateMemtable W (dk, db) = Some ((dk', db'), e) \<Longrightarrow> wals_named dk db \<longrightarrow> wals_named dk' db'"
  using rotate_keeps(2) by blast

lemma wals_named_updates:
  "wals_named dk (db\<lparr>dbFlushErr := e\<rparr>) = wals_named dk db" "wals_named dk (db\<lparr>dbLog := l\<rparr>) = wals_named dk db" "wals_named dk (db\<lparr>dbTick := n\<rparr>) = wals_named dk db"
  "wals_named dk (db\<lparr>dbMems := ms\<rparr>) = wals_named dk db" "wals_named dk (db\<lparr>dbMemBytes := b\<rparr>) = wals_named dk db"
  "wals_named dk (db\<lparr>dbWal := Some w\<rparr>) = (dbWalPaths db = [wName w] \<and> dom (dkWals dk) \<subseteq> set (all_wals db))"
  by (simp_all add: wals_named_def all_wals_def)

lemma write_turn_tables: "write_turn W (dk, db) b = Some ((dk', db'), rs, g) \<Longrightarrow> same_tables dk db dk' db'"
  by (auto simp: same_tables_def write_turn_def Let_def setFlushErrIfNil_def split: prod.splits option.splits if_splits Option.bind_splits
      dest!: rotate_keeps(1))

lemma write_turn_named:
  assumes run: "write_turn W (dk, db) b = Some ((dk', db'), rs, g)" and n: "wals_named dk db"
  shows "wals_named dk' db'"
proof (cases "dbFlushErr db = None \<and> dbWal db \<noteq> None \<and> dbMemtable db \<noteq> None")
  case True
  then obtain w m where w: "dbFlushErr db = None" "dbWal db = Some w" "dbMemtable db = Some m" by auto
  have "dbWalPaths db = [wName w]" "dom (dkWals dk) \<subseteq> set (all_wals db)" using n w(2) by (auto simp: wals_named_def)
  moreover have "all_wals (db\<lparr>dbLog := l, dbTick := t\<rparr>) = all_wals db" "all_wals (db\<lparr>dbLog := l, dbTick := t, dbFlushErr := e\<rparr>) = all_wals db" for l t e
    by (simp_all add: all_wals_def)
  ultimately show ?thesis using run w n
    by (auto simp: write_turn_def Let_def setFlushErrIfNil_def wals_named_updates split: prod.splits option.splits if_splits Option.bind_splits
        dest!: wal_commit_name rotate_named)
next
  case False
  then show ?thesis using run n by (auto simp: write_turn_def split: option.splits)
qed

definition on_disk :: "host \<Rightarrow> world \<Rightarrow> disk \<Rightarrow> DB \<Rightarrow> bool" where
  "on_disk h W dk db \<longleftrightarrow> (\<exists>rss. dur_tab h W dk db rss) \<and> wals_named dk db"

lemma on_disk_batch:
  assumes W: "world_ok W" and d: "on_disk h W dk db" and run: "processWriteBatch W (dk, db) b = Some ((dk', db'), rs)"
  shows "on_disk h W dk' db'"
proof (rule processWriteBatch_keeps [of "on_disk h W", OF _ d run])
  fix dk db b dk' db' rs g
  assume "on_disk h W dk db" "write_turn W (dk, db) b = Some ((dk', db'), rs, g)"
  then show "on_disk h W dk' db'" unfolding on_disk_def using dur_tab_same [OF _ write_turn_tables W] write_turn_named by blast
qed

text \<open>One flush: its memtable is a table on disk and its write-ahead logs are gone.\<close>

lemma flush_on_disk:
  assumes ch: "dbFlushCh db = imm # ch" and im: "dbImmutable db = imm # ims" and l: "dbLog db = Some l" "log_ok l"
    and k: "mem_holds (dbMems db) (imTable imm) k1" "k1 \<noteq> []" "flushable k1" and t: "dur_tab h W dk db rss" and h: "host_ok h" and W: "world_ok W"
  shows "\<exists>dk' db' rss'. flush_turn h W (dk, db) = Some (dk', db') \<and> dur_tab h W dk' db' rss' \<and> concat rss' = k1 # concat rss \<and> dom (dkWals dk') = dom (dkWals dk) - set (imWals imm) \<and>
    dbFlushCh db' = ch \<and> dbImmutable db' = ims \<and> dbLog db' = dbLog db \<and> dbMems db' = dbMems db \<and> dbFlushErr db' = dbFlushErr db \<and> dbWal db' = dbWal db \<and>
    dbWalPaths db' = dbWalPaths db \<and> dbDir db' = dbDir db"
proof -
  let ?now = "wdClock W (dbTick db)"
  have tr: "tables_rel h W db rss" using t by (simp add: dur_tab_def)
  obtain tbl fs' mf rss' where f: "table_holds (hXxh3 h) tbl k1" "tPath tbl = (dbDir db, sstableID ?now)"
    "ReplaceTables h ((dkFs dk)((dbDir db, sstableID ?now) \<mapsto> fData (tF tbl))) (dbManifest db) (tableMetaFromSST ?now (Table_Metadata (Some tbl)) 0 # dbMeta db) = (fs', mf, None)"
    "flush_turn h W (dk, db) = Some (fst (removeWALFiles h (dk\<lparr>dkFs := fs'\<rparr>) (dbDir db) (imWals imm)), installed ?now imm tbl mf (db\<lparr>dbFlushCh := ch\<rparr>))"
    "tables_rel h W (installed ?now imm tbl mf (db\<lparr>dbFlushCh := ch\<rparr>)) rss'" "concat rss' = k1 # concat rss"
    using flush_turn_shape [OF ch l k tr h W refl, of dk] by blast
  have "hFault h = (\<lambda>_. None)" using h by (simp add: host_ok_def)
  note r = removeWALFiles_spec [OF this, of "dk\<lparr>dkFs := fs'\<rparr>" "dbDir db" "imWals imm"]
  let ?dk = "fst (removeWALFiles h (dk\<lparr>dkFs := fs'\<rparr>) (dbDir db) (imWals imm))"
  have "dkFs ?dk = fs'" by (simp add: r)
  from installed_tables [OF t k(3) f(2) refl f(3) refl f(5,6) this] have "dur_tab h W ?dk (installed ?now imm tbl mf (db\<lparr>dbFlushCh := ch\<rparr>)) rss'" .
  moreover have "dom (dkWals ?dk) = dom (dkWals dk) - set (imWals imm)" by (auto simp: r split: if_splits)
  ultimately show ?thesis using f(4,6) im by (intro exI [of _ ?dk] exI [of _ "installed ?now imm tbl mf (db\<lparr>dbFlushCh := ch\<rparr>)"] exI [of _ rss']) simp
qed

lemma on_disk_flush:
  assumes d: "on_disk h W dk db" and rel: "db_rel \<rho> c h W n db M" and h: "host_ok h" and W: "world_ok W" and run: "flush_turn h W (dk, db) = Some (dk', db')"
  shows "on_disk h W dk' db'"
proof (cases "dbFlushCh db")
  case Nil
  then show ?thesis using run d by (simp add: flush_turn_def)
next
  case (Cons imm ch)
  obtain rs l where r: "runs_rel \<rho> c h W db rs" and l: "dbLog db = Some l" "log_ok l" using rel unfolding db_rel_def log_rel_def by auto
  then obtain ims where mo: "mems_ok db ims" unfolding runs_rel_def by blast
  have im: "dbImmutable db = imm # ch" using mo Cons by (simp add: mems_ok_def)
  obtain k1 where k1: "mem_holds (dbMems db) (imTable imm) k1" "k1 \<noteq> []" "flushable k1" using mo im by (auto simp: mems_ok_def list_all2_Cons1)
  obtain rss where t: "dur_tab h W dk db rss" using d unfolding on_disk_def by blast
  have f: "\<exists>rss'. dur_tab h W dk' db' rss'" "dom (dkWals dk') = dom (dkWals dk) - set (imWals imm)" "dbImmutable db' = ch" "dbWal db' = dbWal db" "dbWalPaths db' = dbWalPaths db"
    using flush_on_disk [OF Cons im l k1 t h W] unfolding run by blast+
  have "set (all_wals db) - set (imWals imm) \<subseteq> set (all_wals db')" using im f(3,5) by (auto simp: all_wals_def)
  then show ?thesis using d f unfolding on_disk_def wals_named_def by fastforce
qed

lemma db_step_on_disk:
  assumes "db_step h W (req_ok \<rho> c thr) s s'" "sys_rel \<rho> c h W N thr M s" "on_disk h W (dyDisk s) (dyDB s)" "host_ok h" "world_ok W"
  shows "on_disk h W (dyDisk s') (dyDB s')"
  using assms
proof (induction rule: db_step.induct)
  case (turn arrived k s dk db ch rs goOn)
  obtain ps where "dyCh s = map Some ps" using turn(3) by (auto simp: sys_rel_def)
  then have "\<exists>j. processWriteBatch W (dyDisk s, dyDB s) (take j (ps @ arrived)) = Some ((dk, db), rs)" using turn_batch turn(2) by metis
  then show ?case using on_disk_batch turn(4,6) by auto
next
  case (flush s dk db)
  then show ?case using on_disk_flush [of h W "dyDisk s" "dyDB s"] unfolding sys_rel_def by auto
qed simp

lemma db_reach_on_disk:
  assumes "(db_step h W (req_ok \<rho> c thr))\<^sup>*\<^sup>* s s'" "sys_rel \<rho> c h W N thr M s" "on_disk h W (dyDisk s) (dyDB s)" "host_ok h" "world_ok W"
  shows "length (dySubmitted s') \<le> N \<Longrightarrow> on_disk h W (dyDisk s') (dyDB s')"
  using assms(1)
proof (induction rule: rtranclp_induct)
  case (step s1 s2)
  have l: "length (dySubmitted s1) \<le> N" using db_step_grows [OF step.hyps(2)] step.prems by linarith
  show ?case using db_step_on_disk [OF step.hyps(2) db_reach_rel [OF step.hyps(1) assms(2,4,5) l] step.IH [OF l] assms(4,5)] .
qed (use assms(3) in blast)

text \<open>The flushes at the end of \<open>Close\<close>.\<close>

lemma drain_on_disk:
  assumes "host_ok h" "world_ok W"
  shows "dbFlushCh db = ims \<Longrightarrow> dbImmutable db = ims \<Longrightarrow> dbLog db = Some l \<Longrightarrow> log_ok l \<Longrightarrow>
    list_all2 (\<lambda>im r. mem_holds (dbMems db) (imTable im) r \<and> r \<noteq> [] \<and> flushable r) ims rs \<Longrightarrow> dur_tab h W dk db rss \<Longrightarrow>
    \<exists>dk' db' rss'. drain_flushes h W (length ims) (dk, db) = Some (dk', db') \<and> dur_tab h W dk' db' rss' \<and> concat rss' = rev rs @ concat rss \<and>
      dom (dkWals dk') = dom (dkWals dk) - set (concat (map imWals ims)) \<and> dbLog db' = Some l \<and> dbFlushErr db' = dbFlushErr db \<and> dbDir db' = dbDir db"
proof (induction ims arbitrary: dk db rs rss)
  case (Cons imm ims)
  obtain r rs' where rs: "rs = r # rs'" "mem_holds (dbMems db) (imTable imm) r" "r \<noteq> []" "flushable r"
    "list_all2 (\<lambda>im r. mem_holds (dbMems db) (imTable im) r \<and> r \<noteq> [] \<and> flushable r) ims rs'" using Cons.prems(5) by (auto simp: list_all2_Cons1)
  from flush_on_disk [OF Cons.prems(1-4) rs(2-4) Cons.prems(6) assms] obtain dk1 db1 rss1 where f: "flush_turn h W (dk, db) = Some (dk1, db1)" "dur_tab h W dk1 db1 rss1"
    "concat rss1 = r # concat rss" "dom (dkWals dk1) = dom (dkWals dk) - set (imWals imm)" "dbFlushCh db1 = ims" "dbImmutable db1 = ims" "dbLog db1 = dbLog db" "dbMems db1 = dbMems db"
    "dbFlushErr db1 = dbFlushErr db" "dbDir db1 = dbDir db" by blast
  have m: "list_all2 (\<lambda>im r. mem_holds (dbMems db1) (imTable im) r \<and> r \<noteq> [] \<and> flushable r) ims rs'" using rs(5) f(8) by simp
  have "dbLog db1 = Some l" using f(7) Cons.prems(3) by simp
  from Cons.IH [OF f(5,6) this Cons.prems(4) m f(2)] obtain dk2 db2 rss2 where g: "drain_flushes h W (length ims) (dk1, db1) = Some (dk2, db2)" "dur_tab h W dk2 db2 rss2"
    "concat rss2 = rev rs' @ concat rss1" "dom (dkWals dk2) = dom (dkWals dk1) - set (concat (map imWals ims))" "dbLog db2 = Some l" "dbFlushErr db2 = dbFlushErr db1" "dbDir db2 = dbDir db1" by blast
  have "dom (dkWals dk2) = dom (dkWals dk) - set (concat (map imWals (imm # ims)))" unfolding g(4) f(4) by auto
  then show ?case using f(1,3,9,10) g rs(1) by (intro exI [of _ dk2] exI [of _ db2] exI [of _ rss2]) simp
qed auto

section \<open>Closing\<close>

lemma vlog_Close_ok: "log_ok l \<Longrightarrow> snd (vlog_Close l) = None"
proof -
  assume l: "log_ok l"
  then obtain sg f where f: "lgActive l = Some sg" "map_of (lgFiles l) (sgId sg) = Some f" "\<not> lgClosed l" "\<forall>f \<in> snd ` set (lgFiles l). file_ok (lgMax l) f" by (auto simp: log_ok_def)
  have "good_file f" using log_file(2) [OF l f(2)] .
  then have "os_Sync f = None" using os_Sync_good by (auto simp: good_file_def)
  moreover have "list_all (\<lambda>(_, f). fOpen f) (lgFiles l)" using f(4) by (force simp: list_all_iff file_ok_def good_file_def)
  ultimately show "snd (vlog_Close l) = None" using f(1-3) by (simp add: vlog_Close_def Let_def activeFile_def closeFiles_def)
qed

lemma close_tables_ok: "\<forall>t \<in> set ts. fOpen (tF t) \<Longrightarrow> close_tables ts None = None"
  by (induction ts) (auto simp: Table_Close_def os_Close_def firstError_def)

lemma tables_open: "tables_rel h W db rss \<Longrightarrow> \<forall>t \<in> set (dbTables db). fOpen (tF t)"
proof -
  assume t: "tables_rel h W db rss"
  then have "list_all2 (table_holds (hXxh3 h)) (concat (map lsTables (dbLevels db))) (concat rss)" "dbTables db = concat (map lsTables (dbLevels db))"
    using level_rep_tables by (auto simp: tables_rel_def lv_inv_def)
  then have a: "list_all2 (table_holds (hXxh3 h)) (dbTables db) (concat rss)" by simp
  have o: "fOpen (tF u)" if "table_holds (hXxh3 h) u r" for u r using that by (auto simp: table_holds_def table_rep_def)
  show "\<forall>t \<in> set (dbTables db). fOpen (tF t)" using a by (induction rule: list_all2_induct) (auto intro: o)
qed

lemma closeStorage_ok:
  assumes "dbFlushErr db = None" "dbLog db = Some l" "log_ok l" "tables_rel h W db rss"
  shows "closeStorageLocked None db None = (db\<lparr>dbLog := Some (fst (vlog_Close l))\<rparr>, None)"
  using vlog_Close_ok [OF assms(3)] close_tables_ok [OF tables_open [OF assms(4)]] assms(1,2)
  by (auto simp: closeStorageLocked_def firstError_def split: prod.splits)

text \<open>
  The directory of a closed database: the manifest and its tables, which show the map \<open>M\<close> through the value log \<open>l\<close>, and no write-ahead log. \<open>now\<close> is a time
  after the creation of the tables.
\<close>

definition closed_dir :: "host \<Rightarrow> disk \<Rightarrow> string \<Rightarrow> Log \<Rightarrow> nat \<Rightarrow> (bytes \<rightharpoonup> bytes) \<Rightarrow> bool" where
  "closed_dir h dk dir l now M \<longleftrightarrow> dkWals dk = (\<lambda>_. None) \<and> (\<exists>meta rss. disk_tables h (dkFs dk) dir meta rss \<and> views l (concat rss) M \<and>
     (\<forall>x \<in> set meta. \<exists>c. tmFilename x = sstableID c \<and> tmCreatedAt x = int c \<and> c < now))"

lemma drain_then_close:
  assumes h: "host_ok h" "\<forall>ts. codec_ok h ts" and W: "world_ok W" and ch: "dbFlushCh db = dbImmutable db" and l: "dbLog db = Some l" "log_ok l" and e: "dbFlushErr db = None"
    and ims: "list_all2 (\<lambda>im r. mem_holds (dbMems db) (imTable im) r \<and> r \<noteq> [] \<and> flushable r) (dbImmutable db) rs" and t: "dur_tab h W dk db rss"
    and wals: "dom (dkWals dk) \<subseteq> set (concat (map imWals (dbImmutable db)))" and v: "views l (rev rs @ concat rss) M"
  shows "\<exists>dk' db1 db'. drain_flushes h W (length (dbFlushCh db)) (dk, db) = Some (dk', db1) \<and> closeStorageLocked None db1 None = (db', None) \<and>
    closed_dir h dk' (dbDir db) l (wdClock W (dbTick db')) M"
proof -
  obtain dk' db1 rss' where d: "drain_flushes h W (length (dbImmutable db)) (dk, db) = Some (dk', db1)" "dur_tab h W dk' db1 rss'" "concat rss' = rev rs @ concat rss"
    "dom (dkWals dk') = dom (dkWals dk) - set (concat (map imWals (dbImmutable db)))" "dbLog db1 = Some l" "dbFlushErr db1 = dbFlushErr db" "dbDir db1 = dbDir db"
    using drain_on_disk [OF h(1) W ch refl l ims t] by blast
  have tr: "tables_rel h W db1 rss'" using d(2) by (simp add: dur_tab_def)
  have "dom (dkWals dk') = {}" using wals unfolding d(4) by blast
  then have "dkWals dk' = (\<lambda>_. None)" by simp
  moreover have "disk_tables h (dkFs dk') (dbDir db) (dbMeta db1) rss'"
    using d(2) h(2) tr unfolding dur_tab_def disk_tables_def tables_rel_def d(7) by blast
  moreover have "views l (concat rss') M" using v d(3) by simp
  ultimately have "closed_dir h dk' (dbDir db) l (wdClock W (dbTick db1)) M" using tr unfolding closed_dir_def tables_rel_def by blast
  then show ?thesis using d(1) closeStorage_ok [OF _ d(5) l(2) tr] d(6) e ch
    by (intro exI [of _ dk'] exI [of _ db1] exI [of _ "db1\<lparr>dbLog := Some (fst (vlog_Close l))\<rparr>"]) simp
qed

text \<open>
  \<open>Close\<close> answers the queued requests without an error and leaves a closed directory. \<open>db1\<close> is the database after the last request.
\<close>

lemma db_Close_spec:
  assumes h: "host_ok h" "\<forall>ts. codec_ok h ts" and W: "world_ok W" and rel: "db_rel \<rho> c h W (n + length qs) db M" and d: "on_disk h W dk db"
    and qs: "\<forall>r \<in> set qs. req_ok \<rho> c (dbThreshold db) r"
  shows "\<exists>dk1 db1 l dk' db'. stopWrites W (dk, fst (markClosed db)) (map Some qs) = Some ((dk1, db1), replicate (length qs) None) \<and> dbLog db1 = Some l \<and> log_ok l \<and> room n l \<and> map_option lgMax (dbLog db) = Some (lgMax l) \<and>
    db_Close h W None (map Some qs) (dk, db) = Some ((dk', db'), replicate (length qs) None, None) \<and> closed_dir h dk' (dbDir db) l (wdClock W (dbTick db')) (foldl apply_request M qs)"
proof -
  have op: "open_ok db" using rel by (simp add: db_rel_def)
  let ?P = "\<lambda>dk db1. on_disk h W dk db1 \<and> frame db db1"
  have keep: "?P dk' db'" if "?P dk0 db0" "processWriteBatch W (dk0, db0) b = Some ((dk', db'), replicate (length b) None)" for dk0 db0 b dk' db'
    using that on_disk_batch [OF W] processWriteBatch_frame [OF that(2)] by (auto simp: frame_def)
  have p: "?P dk db" using d by (simp add: frame_def)
  have "\<exists>dk1 db1. writeLoop W (dk, shut db) (map Some qs @ [None]) = Some ((dk1, shut db1), replicate (length qs) None) \<and>
    db_rel \<rho> c h W n db1 (foldl apply_request M qs) \<and> ?P dk1 db1" by (rule writeLoop_close [where P = ?P, OF W _ rel qs p]) (erule (1) keep)
  then obtain dk1 db1 where s: "writeLoop W (dk, shut db) (map Some qs @ [None]) = Some ((dk1, shut db1), replicate (length qs) None)"
    "db_rel \<rho> c h W n db1 (foldl apply_request M qs)" "on_disk h W dk1 db1" "dbDir db1 = dbDir db" "map_option lgMax (dbLog db1) = map_option lgMax (dbLog db)" unfolding frame_def by blast
  obtain w rs l where o1: "open_ok db1" "budget \<rho> c (dbMaxBytes db1)" and w: "dbWal db1 = Some w" "wal_good n w" and r: "runs_rel \<rho> c h W db1 rs"
    and l: "dbLog db1 = Some l" "log_ok l" "room n l" "views l rs (foldl apply_request M qs)" using s(2) unfolding db_rel_def log_rel_def by blast
  obtain m k0 ims rss where rs: "rs = k0 # rev ims @ concat rss" and m: "dbMemtable db1 = Some m" "active_ok \<rho> c db1 m k0" and mo: "mems_ok db1 ims" and tr: "tables_rel h W db1 rss"
    using r unfolding runs_rel_def by blast
  obtain sk where sk: "dbMems db1 m = Some sk" "mem_room \<rho> c (dbMaxBytes db1) (dbMemBytes db1) sk k0" using m(2) by (auto simp: active_ok_def)
  have k0: "sl_rel sk k0" "0 < slRef sk" "flushable k0" using sk(2) mem_room_flushable [OF sk(2) o1(2)] by (auto simp: mem_room_def)
  obtain rss0 where "dur_tab h W dk1 db1 rss0" using s(3) unfolding on_disk_def by blast
  then have t: "dur_tab h W dk1 db1 rss" using tables_rel_unique [OF tr] by (metis dur_tab_def)
  have wn: "dbWalPaths db1 = [wName w]" "dom (dkWals dk1) \<subseteq> set (concat (map imWals (dbImmutable db1))) \<union> {wName w}"
    using s(3) w(1) by (auto simp: on_disk_def wals_named_def all_wals_def)
  obtain w' where w': "wal_close w = (w', None)" using wal_close_good [OF w(2)] by blast
  let ?D = "db1\<lparr>dbMemtable := None, dbWal := None, dbWalPaths := []\<rparr>"
  have ims: "list_all2 (\<lambda>im r. mem_holds (dbMems db1) (imTable im) r \<and> r \<noteq> [] \<and> flushable r) (dbImmutable db1) ims" "dbFlushCh db1 = dbImmutable db1" using mo by (simp_all add: mems_ok_def)
  have fe: "dbFlushErr db1 = None" using o1(1) by (simp add: open_ok_def)
  have hf: "hFault h = (\<lambda>_. None)" using h(1) by (simp add: host_ok_def)
  have tab: "dur_tab h W dk2 db2 rss" if "dkFs dk2 = dkFs dk1" "dbLevels db2 = dbLevels db1" "dbMeta db2 = dbMeta db1" "dbTables db2 = dbTables db1" "dbManifest db2 = dbManifest db1"
    "dbDir db2 = dbDir db1" "dbTick db2 = dbTick db1" for dk2 db2 using t that by (simp add: dur_tab_def tables_rel_def)
  have st: "stopWrites W (dk, fst (markClosed db)) (map Some qs) = Some ((dk1, shut db1), replicate (length qs) None)" using s(1) markClosed_shut [OF op] by (simp add: stopWrites_def)
  have "\<exists>dk' db'. db_Close h W None (map Some qs) (dk, db) = Some ((dk', db'), replicate (length qs) None, None) \<and> closed_dir h dk' (dbDir db) l (wdClock W (dbTick db')) (foldl apply_request M qs)"
  proof (cases "k0 = []")
    case True
    let ?dk = "dk1\<lparr>dkWals := (dkWals dk1)(wName w := None)\<rparr>"
    have cr: "closeAndRemoveWAL h dk1 (dbDir db1) (Some w) = (?dk, None)" using hf w' by (simp add: closeAndRemoveWAL_def)
    have v: "views l (rev ims @ concat rss) (foldl apply_request M qs)" using l(4) rs True views_new_run by simp
    have "dom (dkWals ?dk) \<subseteq> set (concat (map imWals (dbImmutable (shut ?D))))" using wn(2) by auto
    then obtain dk' db2 db' where "drain_flushes h W (length (dbFlushCh (shut ?D))) (?dk, shut ?D) = Some (dk', db2)" "closeStorageLocked None db2 None = (db', None)"
      "closed_dir h dk' (dbDir db) l (wdClock W (dbTick db')) (foldl apply_request M qs)"
      using drain_then_close [OF h W, of "shut ?D" l ims ?dk rss "foldl apply_request M qs"] l fe ims v tab [of ?dk "shut ?D"] s(4) by auto
    then show ?thesis using st markClosed_shut [OF op] m(1) sk(1) Empty_refines [OF k0(1)] True w(1) cr
      by (intro exI [of _ dk'] exI [of _ db']) (simp add: db_Close_def closeWithoutPendingFlush_def Let_def)
  next
    case False
    let ?im = "\<lparr>imTable = m, imWals = [wName w]\<rparr>" and ?dk = "dk1\<lparr>dkWals := (dkWals dk1)(wName w \<mapsto> wal_content w')\<rparr>"
    let ?E = "?D\<lparr>dbImmutable := dbImmutable db1 @ [?im], dbFlushCh := dbFlushCh db1 @ [?im]\<rparr>"
    have i2: "list_all2 (\<lambda>im r. mem_holds (dbMems db1) (imTable im) r \<and> r \<noteq> [] \<and> flushable r) (dbImmutable db1 @ [?im]) (ims @ [k0])"
      using ims(1) sk(1) k0 False by (intro list_all2_appendI) (auto simp: mem_holds_def)
    have v: "views l (rev (ims @ [k0]) @ concat rss) (foldl apply_request M qs)" using l(4) rs by simp
    have "dom (dkWals ?dk) \<subseteq> set (concat (map imWals (dbImmutable (shut ?E))))" using wn(2) by auto
    then obtain dk' db2 db' where "drain_flushes h W (length (dbFlushCh (shut ?E))) (?dk, shut ?E) = Some (dk', db2)" "closeStorageLocked None db2 None = (db', None)"
      "closed_dir h dk' (dbDir db) l (wdClock W (dbTick db')) (foldl apply_request M qs)"
      using drain_then_close [OF h W, of "shut ?E" l "ims @ [k0]" ?dk rss "foldl apply_request M qs"] l fe ims(2) i2 v tab [of ?dk "shut ?E"] s(4) by auto
    then show ?thesis using st markClosed_shut [OF op] m(1) sk(1) Empty_refines [OF k0(1)] False w(1) w' wn(1)
      by (intro exI [of _ dk'] exI [of _ db']) (simp add: db_Close_def flushPendingMemtableAndClose_def Let_def del: drain_flushes.simps)
  qed
  moreover have "map_option lgMax (dbLog db) = Some (lgMax l)" using s(5) l(1) by simp
  ultimately show ?thesis using st l(1-3) shut_fields(13) by metis
qed

section \<open>Opening\<close>

definition lists_dir :: "listing \<Rightarrow> disk \<Rightarrow> string \<Rightarrow> bool" where
  "lists_dir names dk dir \<longleftrightarrow> lists_disk names dk \<and> (\<forall>n. (n, False) \<in> set names \<and> has_suffix n ''.sst'' \<longrightarrow> dkFs dk (dir, n) \<noteq> None)"

lemma lists_no_wals: "lists_dir names dk dir \<Longrightarrow> dkWals dk = (\<lambda>_. None) \<Longrightarrow> lists_wals names []"
  by (auto simp: lists_dir_def lists_disk_def lists_wals_def)

lemma open_closed_dir:
  assumes h: "host_ok h" and W: "world_ok W" and b: "budget \<rho> c (MemtableMaxBytes (normalizeOptions opts))" and cl: "closed_dir h dk dir l now M" and now: "now \<le> wdClock W 0"
    and l: "vlog_left l vents" "lgMax l = segment_max (ValueLogSegmentMaxBytes opts)" "room n l" and n: "n < 2 ^ 63" and ls: "lists_dir names dk dir"
  shows "\<exists>db. openDB h W None dk dir names vents opts = Some (dk, Inr db) \<and> db_rel \<rho> c h W n db M \<and> on_disk h W dk db \<and>
    dbThreshold db = ValueThreshold (normalizeOptions opts) \<and> dbDir db = dir \<and> map_option lgMax (dbLog db) = Some (segment_max (ValueLogSegmentMaxBytes opts))"
proof -
  obtain meta rss where m: "dkWals dk = (\<lambda>_. None)" "disk_tables h (dkFs dk) dir meta rss" "views l (concat rss) M"
    "\<forall>x \<in> set meta. \<exists>c. tmFilename x = sstableID c \<and> tmCreatedAt x = int c \<and> c < now" using cl unfolding closed_dir_def by blast
  obtain ssts where sc: "scanDataFiles h dir names = Inr (ssts, [])" using scan_wals [OF lists_no_wals [OF ls m(1)], of h dir] h by (auto simp: host_ok_def)
  obtain us levels where t: "openManifest h (wdClock W 0) (dkFs dk) dir names = Some (dkFs dk, Inr (store_of dir meta))" "openSSTablesFromMeta h (dkFs dk) dir meta = Some (Inr us)"
    "lv_inv levels meta us" "list_all2 (level_rep (hXxh3 h)) levels rss" "\<forall>t \<in> set us. dkFs dk (dir, snd (tPath t)) = Some (fData (tF t))" using reopen_tables [OF m(2) h] by blast
  from vlog_recovered [OF l(1,2), of "wdEnv W 0" dir] obtain l0 where v: "vlog_Open (wdEnv W 0) dir (ValueLogSegmentMaxBytes opts) vents = Inr l0" "log_ok l0" "room n l0"
    "\<forall>ref kv. stored l ref kv \<longrightarrow> stored l0 ref kv" using l(3) by blast
  have vo: "vlog_Open (wdEnv W 0) dir (ValueLogSegmentMaxBytes (normalizeOptions opts)) vents = Inr l0" using v(1) by (simp add: open_segment_size)
  have v0: "views l0 (concat rss) M" using m(3) by (rule views_mono) (use v(4) in blast)
  have clk: "\<forall>x \<in> set meta. \<exists>c. tmFilename x = sstableID c \<and> tmCreatedAt x = int c \<and> c < wdClock W 0" using m(4) now by (meson order.strict_trans2)
  have e: "list_all2 (wal_holds (dkWals dk)) [] []" "\<forall>q \<in> set (concat []). req_ok \<rho> c (ValueThreshold (normalizeOptions opts)) q" "room (length (concat [] :: writeRequest list) + n) l0"
    "104 + \<rho> * real_of_int (reqs_bytes (concat [])) + c \<le> real_of_int (memtableArenaSize (MemtableMaxBytes (normalizeOptions opts)))" using v(3) budget_empty [OF b] by simp_all
  show ?thesis
  proof (rule openDB_shape [OF h W refl b sc t(1-4) clk vo v(2) e(3) v0 n e(1,2,4)])
    fix db l1 w xs
    assume d: "openDB h W None dk dir names vents opts = Some (dk\<lparr>dkFs := dkFs dk\<rparr>, Inr db)" "db_rel \<rho> c h W n db (foldl apply_request M (concat []))" "dbDir db = dir"
      "dbThreshold db = ValueThreshold (normalizeOptions opts)" "dbImmutable db = []" "dbTables db = us" "dbMeta db = meta" "dbManifest db = store_of dir meta" "dbLog db = Some l1"
      "tables_rel h W db rss" "dbWal db = Some w" "dbWalPaths db = [] @ [wName w]" "lgMax l1 = lgMax l0"
    have "dur_tab h W dk db rss" using d t(5) m(2) unfolding dur_tab_def disk_tables_def by simp
    moreover have "wals_named dk db" using d(11,12) m(1) by (simp add: wals_named_def)
    ultimately show ?thesis using d vlog_Open_max [OF v(1)] unfolding on_disk_def by auto
  qed
qed

lemma open_empty_dir:
  assumes h: "host_ok h" and W: "world_ok W" and b: "budget \<rho> c (MemtableMaxBytes (normalizeOptions opts))" and m: "ValueLogSegmentMaxBytes opts < 2 ^ 62"
    and dk: "dk = \<lparr>dkFs = (\<lambda>_. None), dkWals = (\<lambda>_. None)\<rparr>" and ls: "lists_dir names dk dir"
  shows "\<exists>dk1 db. openDB h W None dk dir names [] opts = Some (dk1, Inr db) \<and> db_rel \<rho> c h W (2 ^ 63 - 1) db Map.empty \<and> on_disk h W dk1 db \<and>
    dbThreshold db = ValueThreshold (normalizeOptions opts) \<and> dbDir db = dir \<and> map_option lgMax (dbLog db) = Some (segment_max (ValueLogSegmentMaxBytes opts))"
proof -
  let ?m = "store_of dir []" and ?o = "normalizeOptions opts"
  have hf: "hFault h = (\<lambda>_. None)" using h by (simp add: host_ok_def)
  have "filter (\<lambda>n. has_suffix n ''.sst'') (map fst (filter (\<lambda>e. \<not> snd e) names)) = []" using ls by (auto simp: filter_empty_conv lists_dir_def dk)
  moreover have "filter (\<lambda>n. \<not> has_suffix n ''.sst'' \<and> has_suffix n ''.wal'') (map fst (filter (\<lambda>e. \<not> snd e) names)) = []"
    using ls by (auto simp: filter_empty_conv lists_dir_def lists_disk_def dk)
  moreover have "sort_slice f [] = []" for f :: "string \<Rightarrow> string \<Rightarrow> bool" by (simp add: sort_slice_def)
  ultimately have sc: "scanDataFiles h dir names = Inr ([], [])" using hf by (simp add: scanDataFiles_def Let_def)
  obtain fs l where f: "openManifest h (wdClock W 0) (\<lambda>_. None) dir names = Some (fs, Inr ?m)" "fs (dir, manifestFilename) = Some (hMarshal h \<lparr>msVersion = manifestVersion, msTables = []\<rparr>)"
    and vo: "vlog_Open (wdEnv W 0) dir (ValueLogSegmentMaxBytes ?o) [] = Inr l" and l: "log_ok l" "room (2 ^ 63 - 1) l" "lgMax l = segment_max (ValueLogSegmentMaxBytes opts)"
    by (rule fresh_dir [OF h W m sc])
  have mf: "openManifest h (wdClock W 0) (dkFs dk) dir names = Some (fs, Inr ?m)" using f(1) by (simp add: dk)
  have e: "list_all2 (wal_holds (dkWals dk)) [] []" "\<forall>q \<in> set (concat []). req_ok \<rho> c (ValueThreshold ?o) q" "room (length (concat [] :: writeRequest list) + (2 ^ 63 - 1)) l"
    "104 + \<rho> * real_of_int (reqs_bytes (concat [])) + c \<le> real_of_int (memtableArenaSize (MemtableMaxBytes ?o))" "openSSTablesFromMeta h fs dir [] = Some (Inr [])"
    "lv_inv [] [] []" "list_all2 (level_rep (hXxh3 h)) [] []" "views l (concat []) Map.empty" "(2 ^ 63 - 1 :: nat) < 2 ^ 63"
    "\<forall>x \<in> set []. \<exists>c. tmFilename x = sstableID c \<and> tmCreatedAt x = int c \<and> c < wdClock W 0"
    using l(2) budget_empty [OF b] by (simp_all add: openSSTablesFromMeta_def lv_inv_def views_def)
  show ?thesis
  proof (rule openDB_shape [OF h W refl b sc mf e(5,6,7,10) vo l(1) e(3,8,9,1,2,4)])
    fix db l1 w xs
    assume d: "openDB h W None dk dir names [] opts = Some (dk\<lparr>dkFs := fs\<rparr>, Inr db)" "db_rel \<rho> c h W (2 ^ 63 - 1) db (foldl apply_request Map.empty (concat []))" "dbDir db = dir"
      "dbThreshold db = ValueThreshold ?o" "dbTables db = []" "dbMeta db = []" "dbManifest db = store_of dir []" "dbLog db = Some l1"
      "tables_rel h W db []" "dbWal db = Some w" "dbWalPaths db = [] @ [wName w]" "lgMax l1 = lgMax l"
    have "dur_tab h W (dk\<lparr>dkFs := fs\<rparr>) db []" using d f(2) unfolding dur_tab_def by simp
    moreover have "wals_named (dk\<lparr>dkFs := fs\<rparr>) db" using d(10,11) by (simp add: wals_named_def dk)
    ultimately show ?thesis using d l(3) unfolding on_disk_def by auto
  qed
qed

section \<open>Sessions\<close>

text \<open>
  The states of a directory between sessions: the disk, the files of the value log, a time after the last session, and the requests that were submitted so far.
  In a session a database is opened, runs, and is closed; the requests that are queued at that moment are answered by \<open>Close\<close>. \<open>db2\<close> is the
  database after the last request, whose value log is the one on disk.
\<close>

inductive sessions :: "host \<Rightarrow> (int \<Rightarrow> writeRequest \<Rightarrow> bool) \<Rightarrow> Options \<Rightarrow> string \<Rightarrow> disk \<Rightarrow> dirent list \<Rightarrow> nat \<Rightarrow> writeRequest list \<Rightarrow> bool" for h good opts dir where
  fresh: "sessions h good opts dir \<lparr>dkFs = (\<lambda>_. None), dkWals = (\<lambda>_. None)\<rparr> [] 0 []"
| session: "sessions h good opts dir dk vents now R \<Longrightarrow> world_ok W \<Longrightarrow> now \<le> wdClock W 0 \<Longrightarrow> lists_dir names dk dir \<Longrightarrow>
    openDB h W None dk dir names vents opts = Some (dk1, Inr db) \<Longrightarrow> (db_step h W (good (dbThreshold db)))\<^sup>*\<^sup>* (db_start dk1 db) s \<Longrightarrow>
    stopWrites W (dyDisk s, fst (markClosed (dyDB s))) (dyCh s) = Some ((dk2, db2), rs) \<Longrightarrow> dbLog db2 = Some l \<Longrightarrow> vlog_left l vents' \<Longrightarrow>
    db_Close h W None (dyCh s) (dyDisk s, dyDB s) = Some ((dk3, db3), answers, e) \<Longrightarrow> wdClock W (dbTick db3) \<le> now' \<Longrightarrow>
    sessions h good opts dir dk3 vents' now' (R @ dySubmitted s)"

definition between :: "host \<Rightarrow> Options \<Rightarrow> string \<Rightarrow> disk \<Rightarrow> dirent list \<Rightarrow> nat \<Rightarrow> writeRequest list \<Rightarrow> bool" where
  "between h opts dir dk vents now R \<longleftrightarrow> dk = \<lparr>dkFs = (\<lambda>_. None), dkWals = (\<lambda>_. None)\<rparr> \<and> vents = [] \<and> R = [] \<or>
     (\<exists>l. closed_dir h dk dir l now (foldl apply_request Map.empty R) \<and> vlog_left l vents \<and> lgMax l = segment_max (ValueLogSegmentMaxBytes opts) \<and> room (2 ^ 63 - 1 - length R) l)"

text \<open>Opening the directory between two sessions, and the run of a session.\<close>

lemma open_between:
  assumes "host_ok h" "world_ok W" "budget \<rho> c (MemtableMaxBytes (normalizeOptions opts))" "ValueLogSegmentMaxBytes opts < 2 ^ 62"
    and b: "between h opts dir dk vents now R" and "now \<le> wdClock W 0" "lists_dir names dk dir"
  shows "\<exists>dk1 db. openDB h W None dk dir names vents opts = Some (dk1, Inr db) \<and> db_rel \<rho> c h W (2 ^ 63 - 1 - length R) db (foldl apply_request Map.empty R) \<and> on_disk h W dk1 db \<and>
    dbDir db = dir \<and> map_option lgMax (dbLog db) = Some (segment_max (ValueLogSegmentMaxBytes opts))"
proof (cases "dk = \<lparr>dkFs = (\<lambda>_. None), dkWals = (\<lambda>_. None)\<rparr> \<and> vents = [] \<and> R = []")
  case True
  then show ?thesis using open_empty_dir [OF assms(1-4), of dk names dir] assms(7) by auto
next
  case False
  then obtain l where l: "closed_dir h dk dir l now (foldl apply_request Map.empty R)" "vlog_left l vents" "lgMax l = segment_max (ValueLogSegmentMaxBytes opts)" "room (2 ^ 63 - 1 - length R) l"
    using b unfolding between_def by blast
  have "2 ^ 63 - 1 - length R < 2 ^ 63" by (simp add: less_eq_Suc_le [symmetric] le_imp_less_Suc)
  from open_closed_dir [OF assms(1-3) l(1) assms(6) l(2-4) this assms(7)] show ?thesis by blast
qed

lemma session_run:
  assumes h: "host_ok h" "\<forall>ts. codec_ok h ts" and W: "world_ok W" and rel: "db_rel \<rho> c h W N db M" and d: "on_disk h W dk1 db"
    and run: "(db_step h W (req_ok \<rho> c (dbThreshold db)))\<^sup>*\<^sup>* (db_start dk1 db) s" and len: "length (dySubmitted s) \<le> N"
  shows "\<exists>dk2 db2 l dk' db'. stopWrites W (dyDisk s, fst (markClosed (dyDB s))) (dyCh s) = Some ((dk2, db2), replicate (length (dyCh s)) None) \<and> dbLog db2 = Some l \<and> log_ok l \<and>
    room (N - length (dySubmitted s)) l \<and> map_option lgMax (dbLog db) = Some (lgMax l) \<and>
    db_Close h W None (dyCh s) (dyDisk s, dyDB s) = Some ((dk', db'), replicate (length (dyCh s)) None, None) \<and>
    closed_dir h dk' (dbDir db) l (wdClock W (dbTick db')) (foldl apply_request M (dySubmitted s))"
proof -
  note s0 = start_rel [OF rel, of dk1]
  have "on_disk h W (dyDisk (db_start dk1 db)) (dyDB (db_start dk1 db))" using d by (simp add: db_start_def)
  note od = db_reach_on_disk [OF run s0 this h(1) W len]
  obtain qs where q: "dyCh s = map Some qs" "\<forall>r \<in> set qs. req_ok \<rho> c (dbThreshold (dyDB s)) r" "dySubmitted s = dyAcked s @ qs"
    and r: "db_rel \<rho> c h W (N - length (dyAcked s)) (dyDB s) (foldl apply_request M (dyAcked s))" using db_reach_rel [OF run s0 h(1) W len] unfolding sys_rel_def by metis
  have "N - length (dyAcked s) = (N - length (dySubmitted s)) + length qs" using q(3) len by simp
  then have r': "db_rel \<rho> c h W ((N - length (dySubmitted s)) + length qs) (dyDB s) (foldl apply_request M (dyAcked s))" using r by simp
  have f: "dbDir (dyDB s) = dbDir db" "map_option lgMax (dbLog (dyDB s)) = map_option lgMax (dbLog db)" using db_reach_frame [OF run] by (simp_all add: frame_def db_start_def)
  show ?thesis using db_Close_spec [OF h W r' od q(2)] unfolding f q(1) length_map by (simp add: q(3))
qed

lemma sessions_between:
  assumes h: "host_ok h" "\<forall>ts. codec_ok h ts" and o: "budget \<rho> c (MemtableMaxBytes (normalizeOptions opts))" "ValueLogSegmentMaxBytes opts < 2 ^ 62"
  shows "sessions h (req_ok \<rho> c) opts dir dk vents now R \<Longrightarrow> length R < 2 ^ 63 \<Longrightarrow> between h opts dir dk vents now R"
proof (induction rule: sessions.induct)
  case fresh
  show ?case by (simp add: between_def)
next
  case (session dk vents now R W names dk1 db s dk2 db2 rs l vents' dk3 db3 answers e now')
  let ?N = "2 ^ 63 - 1 - length R"
  have len: "length R < 2 ^ 63" "length (dySubmitted s) \<le> ?N" using session.prems by simp_all
  have op: "db_rel \<rho> c h W ?N db (foldl apply_request Map.empty R)" "on_disk h W dk1 db" "dbDir db = dir" "map_option lgMax (dbLog db) = Some (segment_max (ValueLogSegmentMaxBytes opts))"
    using open_between [OF h(1) session.hyps(2) o session.IH [OF len(1)] session.hyps(3,4)] session.hyps(5) by auto
  have r: "log_ok l" "room (?N - length (dySubmitted s)) l" "lgMax l = segment_max (ValueLogSegmentMaxBytes opts)"
    "closed_dir h dk3 dir l (wdClock W (dbTick db3)) (foldl apply_request (foldl apply_request Map.empty R) (dySubmitted s))"
    using session_run [OF h session.hyps(2) op(1,2) session.hyps(6) len(2)] session.hyps(7,8,10) op(3,4) by auto
  have "closed_dir h dk3 dir l now' (foldl apply_request Map.empty (R @ dySubmitted s))" using r(4) session.hyps(11) unfolding closed_dir_def foldl_append by (meson order.strict_trans2)
  then show ?case unfolding between_def using r(2,3) session.hyps(9) by (auto simp: diff_diff_eq)
qed


lemma lists_dir_none: "dkWals dk = (\<lambda>_. None) \<Longrightarrow> lists_dir [] dk dir"
  by (simp add: lists_dir_def lists_disk_def)


end
