(* ===== verification/Database_Faults.thy ===== *)
theory Database_Faults
  imports Database_Recovery
begin

text \<open>
  What a failed flush does to the order of the memtables. The flush loop leaves a memtable it cannot flush among the immutable ones and goes on
  with the next memtable of its channel. When that one is flushed, the older memtable stays in front of the newer table, so reads return the
  older value; its write-ahead log is the one that is kept, and a replay puts the older value in front again.
  The next section is about the other way a memtable can fail: the arena is sized by the bytes of keys and values only, so many small entries
  overrun it before the memtable is rotated. The last one is about opening: the logs of every memtable that was not flushed are replayed into
  one memtable, whose arena is as large as that of a single one.
\<close>

text \<open>A host whose device cannot create files.\<close>

definition broken :: "host \<Rightarrow> host" where
  "broken h = h\<lparr>hDev := (hDev h)\<lparr>devCreate := True\<rparr>\<rparr>"

lemma flush_turn_broken:
  assumes "dbFlushCh db = imm # ch" "dbLog db = Some l" "log_ok l" "dbMems db (imTable imm) = Some sk" "dbFlushErr db = None"
  shows "\<exists>db1. flush_turn (broken h) W (dk, db) = Some (dk, db1) \<and>
    db1 = db\<lparr>dbFlushCh := ch, dbTick := Suc (dbTick db), dbFlushErr := Some (ErrFlush (SstIO EIO))\<rparr>"
proof -
  have "(dbMems db)(imTable imm \<mapsto> sk) = dbMems db" using assms(4) by auto
  then show ?thesis using assms vlog_Sync_ok [OF assms(3)]
    by (simp add: flush_turn_def syncValueLogForFlush_def sst_Flush_def broken_def Flush_def Let_def setFlushErrIfNil_def)
qed

lemma db_Get_cong: "dbRead db' = dbRead db \<Longrightarrow> dbMems db' = dbMems db \<Longrightarrow> dbLog db' = dbLog db \<Longrightarrow> db_Get h db' k = db_Get h db k"
  by (simp only: db_Get_def)

lemma db_Get_memtable:
  assumes "dbRead db = snapshotReadStateLocked db" "\<not> dbClosed db" "dbMemtable db = Some m" "mem_holds (dbMems db) m r" "map_of r k = None"
    and "dbImmutable db = [im]" "mem_holds (dbMems db) (imTable im) r1" "map_of r1 k = Some s" "dbLog db = Some l" "log_ok l" "stored_as l s x"
  shows "db_Get h db k = Some (Inr x)"
proof -
  have "get_memtables (dbMems db) [m, imTable im] k = Some (find_run [r, r1] k)" using assms(4,7) by (intro get_memtables_spec) simp
  moreover have "readStoredValue (Some l) s = Inr x" by (rule read_stored_as [OF assms(10,11)])
  ultimately show ?thesis using assms by (simp add: db_Get_def snapshotReadStateLocked_def read_found_def Let_def)
qed

text \<open>
  C22: A flush that fails once makes an overwritten value come back. The database has two memtables to flush, the older one holds a key with
  the value \<open>x\<close>, and \<open>Get\<close> returns what the newer one holds. The flush of the older memtable fails, with no effect on reads; the flush of the newer one then succeeds,
  and from there on \<open>Get\<close> returns \<open>x\<close>.
\<close>
theorem failed_flush_brings_back_old_value:
  assumes rel: "db_rel \<rho> c h W n db M" and h: "host_ok h" and W: "world_ok W" and im: "dbImmutable db = [a, b]"
    and m: "dbMemtable db = Some m" "mem_holds (dbMems db) m r" "map_of r k = None"
    and a: "mem_holds (dbMems db) (imTable a) ra" "map_of ra k = Some s" "dbLog db = Some l" "stored_as l s x"
  shows "\<exists>dk1 db1 dk2 db2. flush_turn (broken h) W (dk, db) = Some (dk1, db1) \<and> flush_turn h W (dk1, db1) = Some (dk2, db2) \<and>
    db_Get h db k = Some (Inr (M k)) \<and> db_Get h db1 k = Some (Inr (M k)) \<and> db_Get h db2 k = Some (Inr x)"
proof -
  obtain rs where o: "open_ok db" and r: "runs_rel \<rho> c h W db rs" and l: "log_ok l" using rel a(3) unfolding db_rel_def log_rel_def by auto
  obtain ims rss where rest: "mems_ok db ims" "tables_rel h W db rss" using r unfolding runs_rel_def by blast
  have ch: "dbFlushCh db = [a, b]" "imTable a \<noteq> imTable b" using rest(1) im by (simp_all add: mems_ok_def)
  obtain rb where rb: "rb \<noteq> []" "flushable rb" "mem_holds (dbMems db) (imTable b) rb" using rest(1) im by (auto simp: mems_ok_def list_all2_Cons1)
  obtain ska where ska: "dbMems db (imTable a) = Some ska" using a(1) by (auto simp: mem_holds_def)
  define db1 where "db1 = db\<lparr>dbFlushCh := [b], dbTick := Suc (dbTick db), dbFlushErr := Some (ErrFlush (SstIO EIO))\<rparr>"
  have 1: "flush_turn (broken h) W (dk, db) = Some (dk, db1)" using flush_turn_broken [OF ch(1) a(3) l ska] o by (simp add: db1_def open_ok_def)
  have g: "db_Get h db k = Some (Inr (M k))" by (rule db_Get_view [OF rel])
  then have g1: "db_Get h db1 k = Some (Inr (M k))" using db_Get_cong [of db1 db h k] by (simp add: db1_def)
  let ?now = "wdClock W (dbTick db1)"
  have d: "dbFlushCh db1 = b # []" "dbLog db1 = Some l" "mem_holds (dbMems db1) (imTable b) rb" "tables_rel h W db1 rss"
    using a(3) rb(3) tables_rel_cong [OF rest(2) _ _ _ _ W, of db1] by (simp_all add: db1_def)
  obtain t mf dk2 where 2: "flush_turn h W (dk, db1) = Some (dk2, installed ?now b t mf (db1\<lparr>dbFlushCh := []\<rparr>))"
    using flush_turn_shape [OF d(1,2) l d(3) rb(1,2) d(4) h W refl, of dk] by blast
  have "db_Get h (installed ?now b t mf (db1\<lparr>dbFlushCh := []\<rparr>)) k = Some (Inr x)"
    by (rule db_Get_memtable [where m = m and r = r and im = a and ?r1.0 = ra and s = s and l = l])
      (use o m a l im ch(2) in \<open>simp_all add: db1_def open_ok_def\<close>)
  then show ?thesis using 1 2 g g1 by blast
qed

text \<open>The database after the two writes 2 and 9 to the key 7, each with a rotation: no table yet and two memtables to flush.\<close>

lemma two_memtables:
  "\<exists>db l. db_rel 200 500 (calm_host []) calm_world 5 db [[7] \<mapsto> [9]] \<and> dbImmutable db = [\<lparr>imTable = 1, imWals = []\<rparr>, \<lparr>imTable = 2, imWals = []\<rparr>] \<and> dbMemtable db = Some 0 \<and>
    mem_holds (dbMems db) 0 [] \<and> mem_holds (dbMems db) 1 [([7], [2])] \<and> dbLog db = Some l \<and> stored_as l [2] (Some [2])"
proof -
  let ?h = "calm_host []" and ?W = calm_world
  have "memtableArenaSize 1000 < 2 ^ 32" by (simp add: memtableArenaSize_def minMemtableArenaSize_def)
  from new_builder [OF this] obtain b0 where "sl_rel b0 []" "0 < slRef b0" "sl_cap b0 = nat (memtableArenaSize 1000)" "sl_used b0 = 104" by blast
  then have b0: "mem_room 200 500 1000 0 b0 []" by (simp add: mem_room_def arena_cost_def memtableArenaSize_def minMemtableArenaSize_def)
  have put: "\<exists>sk. sl_rel sk [([7], [v])] \<and> 0 < slRef sk" for v :: "8 word"
  proof -
    obtain s where s: "sl_rel s []" "sl_cap s = 330" "sl_used s = 104" using New_refines [of 330] by auto
    obtain t where "sl_rel t [([7], [v])]" using skl.put_rel [OF s(1), of "[7]" "[v]"] s by (auto simp: worst_cost_def node_cost_def maxHeight_def)
    then show ?thesis by (intro exI [of _ "t\<lparr>slRef := 1\<rparr>"]) simp
  qed
  obtain sa sb where sk: "sl_rel sa [([7], [2])]" "0 < slRef sa" "sl_rel sb [([7], [9])]" "0 < slRef sb" using put by blast
  obtain l where l: "log_ok l" "room (2 ^ 63 - 1) l" using openEmpty_ok [OF calm_ok, of 20 "''vlog''"] by auto
  obtain w where w: "wal_good 5 w" using createWAL_good [OF calm_ok, of 5 0] by auto
  let ?ims = "[\<lparr>imTable = 1, imWals = []\<rparr>, \<lparr>imTable = 2, imWals = []\<rparr>]"
  define db where "db = publishReadStateLocked \<lparr>dbDir = ''d'', dbMaxBytes = 1000, dbSyncInterval = 0, dbSegmentMax = 20, dbThreshold = 2048, dbAsync = False, dbWindow = 0,
    dbMems = [0 \<mapsto> b0, 1 \<mapsto> sa, 2 \<mapsto> sb], dbNextMem = 3, dbMemtable = Some 0, dbMemBytes = 0, dbWal = Some w, dbWalPaths = [], dbImmutable = ?ims, dbTables = [], dbLevels = [],
    dbMeta = [], dbManifest = \<lparr>mPath = (''d'', manifestFilename), mState = \<lparr>msVersion = manifestVersion, msTables = []\<rparr>\<rparr>, dbLog = Some l, dbFlushErr = None, dbClosed = False,
    dbRead = \<lparr>rsClosed = False, rsMemtable = None, rsImmutable = [], rsTables = [], rsLevels = []\<rparr>, dbFlushCh = ?ims, dbTick = 2\<rparr>"
  note d = db_def publishReadStateLocked_def
  have pl: "stored_as l [v] (Some [v])" for v
    by (simp add: stored_as_def represents_def plain_def isTombstoneValue_def tombstoneValue_def decodeValueRef_def ref_size_simps)
  have fl: "flushable [([7], [v])]" for v :: "8 word" by (simp add: flushable_def fits_def sst_consts)
  have "active_ok 200 500 db 0 []" using b0 by (simp add: d active_ok_def)
  moreover have "mems_ok db [[([7], [2])], [([7], [9])]]" using sk fl by (simp add: d mems_ok_def mem_holds_def)
  moreover have "tables_rel ?h ?W db []" by (simp add: d tables_rel_def lv_inv_def)
  ultimately have "runs_rel 200 500 ?h ?W db [[], [([7], [9])], [([7], [2])]]" unfolding runs_rel_def
    by (intro exI [of _ 0] exI [of _ "[]"] exI [of _ "[[([7], [2])], [([7], [9])]]"] exI [of _ "[] :: (bytes \<times> bytes) list list list"]) (simp add: d)
  moreover have "views l [[], [([7], [9])], [([7], [2])]] [[7] \<mapsto> [9]]" by (rule viewsI) (use pl in \<open>auto split: if_splits\<close>)
  then have "log_rel 5 db [[], [([7], [9])], [([7], [2])]] [[7] \<mapsto> [9]]" using l room_le [of "2 ^ 63 - 1" l 5] by (simp add: log_rel_def d)
  moreover have "open_ok db" by (simp add: open_ok_def d snapshotReadStateLocked_def)
  moreover have "budget 200 500 (dbMaxBytes db)" by (simp add: d budget_def memtableArenaSize_def minMemtableArenaSize_def)
  ultimately have "db_rel 200 500 ?h ?W 5 db [[7] \<mapsto> [9]]" unfolding db_rel_def using w by (auto simp: d)
  then show ?thesis using sk b0 pl by (intro exI [of _ db] exI [of _ l]) (simp add: d mem_holds_def mem_room_def)
qed

lemma failed_flush_brings_back_old_value_witness:
  "\<exists>db dk1 db1 dk2 db2. flush_turn (broken (calm_host [])) calm_world (\<lparr>dkFs = (\<lambda>_. None), dkWals = (\<lambda>_. None)\<rparr>, db) = Some (dk1, db1) \<and>
    flush_turn (calm_host []) calm_world (dk1, db1) = Some (dk2, db2) \<and> db_Get (calm_host []) db [7] = Some (Inr (Some [9])) \<and>
    db_Get (calm_host []) db2 [7] = Some (Inr (Some [2]))"
proof -
  obtain db l where db: "db_rel 200 500 (calm_host []) calm_world 5 db [[7] \<mapsto> [9]]" "dbImmutable db = [\<lparr>imTable = 1, imWals = []\<rparr>, \<lparr>imTable = 2, imWals = []\<rparr>]"
    "dbMemtable db = Some 0" "mem_holds (dbMems db) 0 []" "mem_holds (dbMems db) 1 [([7], [2])]" "dbLog db = Some l" "stored_as l [2] (Some [2])"
    using two_memtables by blast
  from failed_flush_brings_back_old_value [OF db(1) calm_setting(1,2) db(2,3,4) _ _ _ db(6,7), where k = "[7]" and dk = "\<lparr>dkFs = (\<lambda>_. None), dkWals = (\<lambda>_. None)\<rparr>"] db(5)
  show ?thesis by fastforce
qed

section \<open>Memtables of small entries\<close>

lemma newNode_overflow:
  assumes h: "h \<le> maxHeight" and n: "unat (arenaN a) + node_cost h + length key < 2 ^ 32" and full: "length (arenaBuf a) < unat (arenaN a) + node_cost h + length key"
  shows "newNode a key [] h = None"
proof -
  obtain a1 x where p: "putNode a h = (a1, x)" by (cases "putNode a h")
  have l: "(of_int (maxNodeSize - (int maxHeight - int h) * offsetSize + nodeAlign) :: u32) = of_nat (node_cost h)"
    using h by (simp add: maxNodeSize_def offsetSize_def nodeAlign_def maxHeight_def node_cost_def of_nat_diff algebra_simps)
  have a1: "unat (arenaN a1) = unat (arenaN a) + node_cost h" "arenaBuf a1 = arenaBuf a"
    using p n unfolding putNode_def Let_def l by (auto simp: unat_word_ariths unat_of_nat)
  show ?thesis
  proof (cases "putKey a1 key")
    case None
    then show ?thesis using p by (simp add: newNode_def)
  next
    case (Some r)
    obtain a2 ko where r: "r = (a2, ko)" by (cases r)
    have "unat (arenaN a2) = unat (arenaN a) + node_cost h + length key" "length (arenaBuf a2) = length (arenaBuf a)"
      using Some r a1 n by (auto simp: putKey_def copy_to_def Let_def unat_word_ariths unat_of_nat split: if_splits)
    then have "putVal a2 [] = None" using full by (simp add: putVal_def copy_to_def Let_def)
    then show ?thesis using p Some r by (simp add: newNode_def)
  qed
qed

lemma Put_overflow:
  assumes rel: "sl_rel s kvs" and new: "map_of kvs key = None" and n: "sl_used s + node_cost (randomHeight rand) + length key < 2 ^ 32"
    and full: "sl_cap s < sl_used s + node_cost (randomHeight rand) + length key"
  shows "Put rand s key [] = None"
proof -
  obtain ps where ps: "sl_inv s ps" "kvs = entries s ps" using rel by (auto simp: sl_rel_def)
  have absent: "\<forall>p \<in> set ps. nkey s p \<noteq> key" using new ps(2) entries_lookup_None by auto
  have "newNode (slArena s) key [] (randomHeight rand) = None"
    using newNode_overflow [OF randomHeight_bounds(2)] n full by (simp add: sl_used_def sl_cap_def)
  moreover obtain prev nxt where "put_descend s key [] (slHeight s) ((\<lambda>_. 0)(slHeight s := slHead s)) (\<lambda>_. 0) = Some (Inr (prev, nxt))"
    using put_descend_absent [of s "[]" ps key "(\<lambda>_. 0)(slHeight s := slHead s)" "slHeight s" "[]" "\<lambda>_. 0"] ps(1) absent sl_invD(2,5) [OF ps(1)] by auto
  ultimately show ?thesis by (simp add: Put_def Let_def)
qed

lemma put_all_overflow:
  assumes "sl_rel s kvs" "distinct (map (fst \<circ> snd) ws)" "\<forall>w \<in> set ws. map_of kvs (fst (snd w)) = None \<and> length (fst (snd w)) = 16 \<and> snd (snd w) = []"
    and "sl_cap s < sl_used s + 43 * length ws" "sl_cap s < 2 ^ 31" "sl_used s \<le> sl_cap s"
  shows "put_all Put ws s = None"
  using assms
proof (induction ws arbitrary: s kvs)
  case (Cons w ws)
  obtain rand k where w: "w = (rand, k, [])" using Cons.prems(3) by (cases w) auto
  have k: "map_of kvs k = None" "length k = 16" using Cons.prems(3) w by auto
  have h: "27 \<le> node_cost (randomHeight rand)" "node_cost (randomHeight rand) \<le> 103"
    using randomHeight_bounds [of rand] by (simp_all add: node_cost_def maxHeight_def)
  show ?case
  proof (cases "sl_used s + node_cost (randomHeight rand) + 16 \<le> sl_cap s")
    case False
    have "Put rand s k [] = None" by (rule Put_overflow [OF Cons.prems(1) k(1)]) (use False k(2) Cons.prems(5,6) h in simp_all)
    then show ?thesis using w by simp
  next
    case True
    have "sl_used s + put_cost kvs (randomHeight rand) k [] \<le> sl_cap s" using True k by (simp add: put_cost_def)
    then obtain t where t: "Put rand s k [] = Some t" "sl_rel t (assoc_put k [] kvs)" "sl_cap t = sl_cap s" "sl_used t = sl_used s + put_cost kvs (randomHeight rand) k []"
      using Put_refines [OF Cons.prems(1), of k rand "[]"] k(2) by auto
    have u: "sl_used t = sl_used s + node_cost (randomHeight rand) + 16" using t(4) k by (simp add: put_cost_def)
    have "put_all Put ws t = None"
    proof (rule Cons.IH [OF t(2)])
      show "\<forall>v \<in> set ws. map_of (assoc_put k [] kvs) (fst (snd v)) = None \<and> length (fst (snd v)) = 16 \<and> snd (snd v) = []"
        using Cons.prems(2,3) w by (auto simp: image_iff)
    qed (use Cons.prems(2,4,5) t(3) u h True in simp_all)
    then show ?thesis using w t(1) by simp
  qed
qed simp

text \<open>
  C39: The arena of a memtable can be too small for what the memtable is allowed to hold. With the default options, 200000 distinct keys of 16 bytes with empty values count
  as 3.2 million bytes, below the limit of 4 MiB at which the memtable is rotated, but whatever the random heights are, the writes run out of the arena of 8 MiB and \<open>Put\<close> panics.
\<close>
theorem small_entries_exhaust_arena:
  assumes "New (nat (memtableArenaSize defaultMemtableMaxBytes)) = Some s" "length ws = 200000" "distinct (map (fst \<circ> snd) ws)"
    and "\<forall>w \<in> set ws. length (fst (snd w)) = 16 \<and> snd (snd w) = []"
  shows "put_all Put ws s = None \<and> (\<Sum>w \<leftarrow> ws. memtableEntrySize (fst (snd w)) (snd (snd w))) < defaultMemtableMaxBytes"
proof -
  let ?n = "nat (memtableArenaSize defaultMemtableMaxBytes)"
  have n: "?n = 8388608" by (simp add: memtableArenaSize_def defaultMemtableMaxBytes_def minMemtableArenaSize_def)
  obtain t where "New ?n = Some t" "sl_rel t []" "sl_cap t = ?n" "sl_used t = 104" using New_refines [of ?n] n by auto
  then have s: "sl_rel s []" "sl_cap s = ?n" "sl_used s = 104" using assms(1) by auto
  have "put_all Put ws s = None" by (rule put_all_overflow [OF s(1) assms(3)]) (use s(2,3) n assms(2,4) in simp_all)
  moreover have "(\<Sum>w \<leftarrow> ws. memtableEntrySize (fst (snd w)) (snd (snd w))) = (\<Sum>w \<leftarrow> ws. 16)"
    using assms(4) by (intro arg_cong [where f = sum_list] map_cong) (auto simp: memtableEntrySize_def)
  ultimately show ?thesis using assms(2) by (simp add: sum_list_triv defaultMemtableMaxBytes_def)
qed

lemma small_entries_exhaust_arena_witness:
  "\<exists>s. New (nat (memtableArenaSize defaultMemtableMaxBytes)) = Some s \<and>
    put_all Put (map (\<lambda>i. (\<lambda>_. 0, put_u64 (of_nat i) @ put_u64 0, [])) [0..<200000]) s = None"
proof -
  let ?f = "\<lambda>i :: nat. (\<lambda>_ :: nat. 0 :: u32, put_u64 (of_nat i) @ put_u64 0, [] :: bytes)" and ?n = "nat (memtableArenaSize defaultMemtableMaxBytes)"
  have n: "?n = 8388608" by (simp add: memtableArenaSize_def defaultMemtableMaxBytes_def minMemtableArenaSize_def)
  obtain s where s: "New ?n = Some s" using New_refines [of ?n] n by auto
  have "inj_on (\<lambda>i. put_u64 (of_nat i) @ put_u64 0) {0..<200000 :: nat}"
  proof (rule inj_onI)
    fix i j :: nat
    assume ij: "i \<in> {0..<200000}" "j \<in> {0..<200000}" "put_u64 (of_nat i) @ put_u64 0 = put_u64 (of_nat j) @ put_u64 0"
    have "of_nat i = (of_nat j :: u64)" using arg_cong [OF ij(3), of get_u64] by simp
    then have "unat (of_nat i :: u64) = unat (of_nat j :: u64)" by simp
    then show "i = j" using ij(1,2) by (simp add: unat_of_nat)
  qed
  then have "distinct (map (fst \<circ> snd) (map ?f [0..<200000]))" unfolding map_map comp_def by (simp add: distinct_map)
  from small_entries_exhaust_arena [OF s _ this] show ?thesis using s by auto
qed

section \<open>Replaying the logs of several memtables\<close>

lemma replay_overflow:
  assumes "0 \<le> thr" "sl_rel sk kvs" "distinct (map fst es)" "\<forall>q \<in> set es. map_of kvs (fst q) = None \<and> length (fst q) = 100 \<and> snd q = []"
    and "sl_cap sk < sl_used sk + 127 * length es" "sl_cap sk < 2 ^ 31" "sl_used sk \<le> sl_cap sk"
  shows "\<exists>s'. run_callback (replay_entry W thr) es (l, sk, b, i) = (s', Some (Inr ()))"
  using assms(2-)
proof (induction es arbitrary: sk kvs b i)
  case (Cons q es)
  obtain k where q: "q = (k, [])" using Cons.prems(3) by (cases q) auto
  have k: "map_of kvs k = None" "length k = 100" using Cons.prems(3) q by auto
  have st: "storeValueForLSM (wdEnv W i) l thr k [] = (l, Inr [])" using assms(1) by (simp add: storeValueForLSM_def isTombstoneValue_def tombstoneValue_def)
  let ?h = "randomHeight (wdRand W i)"
  have h: "27 \<le> node_cost ?h" "node_cost ?h \<le> 103" using randomHeight_bounds [of "wdRand W i"] by (simp_all add: node_cost_def maxHeight_def)
  show ?case
  proof (cases "sl_used sk + node_cost ?h + 100 \<le> sl_cap sk")
    case False
    have "Put (wdRand W i) sk k [] = None" by (rule Put_overflow [OF Cons.prems(1) k(1)]) (use False k(2) Cons.prems(5,6) h in simp_all)
    then show ?thesis using q st by (simp add: replay_entry_def)
  next
    case True
    have "sl_used sk + put_cost kvs ?h k [] \<le> sl_cap sk" using True k by (simp add: put_cost_def)
    then obtain t where t: "Put (wdRand W i) sk k [] = Some t" "sl_rel t (assoc_put k [] kvs)" "sl_cap t = sl_cap sk" "sl_used t = sl_used sk + put_cost kvs ?h k []"
      using Put_refines [OF Cons.prems(1), of k "wdRand W i" "[]"] k(2) by auto
    have u: "sl_used t = sl_used sk + node_cost ?h + 100" using t(4) k by (simp add: put_cost_def)
    have "\<forall>q \<in> set es. map_of (assoc_put k [] kvs) (fst q) = None \<and> length (fst q) = 100 \<and> snd q = []" using Cons.prems(2,3) q by (auto simp: image_iff)
    then obtain s' where "run_callback (replay_entry W thr) es (l, t, b + memtableEntrySize k [], Suc i) = (s', Some (Inr ()))"
      using Cons.IH [OF t(2)] Cons.prems(2,4,5) t(3) u h True by fastforce
    moreover have "replay_entry W thr (l, sk, b, i) k [] = ((l, t, b + memtableEntrySize k [], Suc i), None)" using st t(1) by (simp add: replay_entry_def)
    ultimately show ?thesis using q by (intro exI [of _ s']) simp
  qed
qed simp

lemma replayWALs_panic:
  "list_all2 (wal_holds wals) ns ess \<Longrightarrow> run_callback (replay_entry W thr) (concat ess) s = (s', Some (Inr ())) \<Longrightarrow> replayWALs W wals thr ns s = None"
proof (induction ns ess arbitrary: s rule: list_all2_induct)
  case (Cons n ns es ess)
  obtain s1 e where s1: "run_callback (replay_entry W thr) es s = (s1, e)" by fastforce
  then show ?case using Cons.prems Cons.IH [of s1] replay_file [OF Cons.hyps(1), of "replay_entry W thr" s]
    by (cases e) (auto simp: run_callback_append)
qed simp

text \<open>
  C40: A backlog of memtables can make a database impossible to open. All write-ahead logs are replayed into one memtable; with the default options and 70000 requests in them, with distinct keys of 100 bytes
  and empty values, the replay runs out of the arena and \<open>openDB\<close> panics, whatever else is on disk. Two logs of memtables that were rotated at their limit have more than that.
\<close>
theorem backlog_blocks_open:
  assumes "host_ok h" "world_ok W" "MemtableMaxBytes opts = 0" "disk_tables h (dkFs dk) dir meta rss"
    and "vlog_left l vents" "lgMax l = segment_max (ValueLogSegmentMaxBytes opts)" "lists_wals names ws" "list_all2 (wal_holds (dkWals dk)) ws ess"
    and "distinct (map fst (concat ess))" "\<forall>q \<in> set (concat ess). length (fst q) = 100 \<and> snd q = []" "70000 \<le> length (concat ess)"
  shows "openDB h W None dk dir names vents opts = None"
proof -
  let ?o = "normalizeOptions opts"
  obtain ssts where sc: "scanDataFiles h dir names = Inr (ssts, ws)" using scan_wals [OF assms(7), of h dir] assms(1) by (auto simp: host_ok_def)
  obtain us levels where t: "openManifest h (wdClock W 0) (dkFs dk) dir names = Some (dkFs dk, Inr (store_of dir meta))" "openSSTablesFromMeta h (dkFs dk) dir meta = Some (Inr us)"
    "lv_inv levels meta us" using reopen_tables [OF assms(4,1)] by blast
  obtain l0 where v: "vlog_Open (wdEnv W 0) dir (ValueLogSegmentMaxBytes ?o) vents = Inr l0" using vlog_recovered [OF assms(5,6), of "wdEnv W 0" dir] by (auto simp: open_segment_size)
  have n: "nat (memtableArenaSize (MemtableMaxBytes ?o)) = 8388608" using assms(3) by (simp add: memtable_size_ok memtableArenaSize_def defaultMemtableMaxBytes_def minMemtableArenaSize_def)
  obtain sk where sk: "New (nat (memtableArenaSize (MemtableMaxBytes ?o))) = Some sk" "sl_rel sk []" "sl_cap sk = 8388608" "sl_used sk = 104" using New_refines [of 8388608] n by auto
  have "0 \<le> ValueThreshold ?o" by (simp add: open_segment_size defaultValueThreshold_def)
  from replay_overflow [OF this sk(2) assms(9), of W "Some l0" 0 1] obtain s' where
    "run_callback (replay_entry W (ValueThreshold ?o)) (concat ess) (Some l0, sk, 0, 1) = (s', Some (Inr ()))" using assms(10,11) sk(3,4) by auto
  from replayWALs_panic [OF assms(8) this] have "replayWALs W (dkWals dk) (ValueThreshold ?o) ws (Some l0, sk, 0, 1) = None" .
  moreover have "manifest_Tables (store_of dir meta) = meta" by (simp add: manifest_Tables_def store_of_def)
  ultimately show ?thesis using sc t(1,2) lv_inv_build [OF t(3)] v sk(1) by (simp add: openDB_def Let_def)
qed

lemma backlog_blocks_open_witness:
  "\<exists>dk vents. dkWals dk (walID 1) = Some (encs (map (\<lambda>i. (put_u64 (of_nat i) @ replicate 92 0, [])) [0..<35000]), perfect_device) \<and>
    dkWals dk (walID 2) = Some (encs (map (\<lambda>i. (put_u64 (of_nat i) @ replicate 92 0, [])) [35000..<70000]), perfect_device) \<and>
    openDB (calm_host []) calm_world None dk ''d'' [(walID 1, False), (walID 2, False)] vents (small_options\<lparr>MemtableMaxBytes := 0\<rparr>) = None"
proof -
  let ?f = "\<lambda>i :: nat. (put_u64 (of_nat i) @ replicate 92 0, [] :: bytes)" and ?h = "calm_host []" and ?o = "small_options\<lparr>MemtableMaxBytes := 0\<rparr>"
  define a b where ab: "a = map ?f [0..<35000]" "b = map ?f [35000..<70000]"
  define dk where "dk = \<lparr>dkFs = [(''d'', manifestFilename) \<mapsto> [1]], dkWals = [walID 1 \<mapsto> (encs a, perfect_device), walID 2 \<mapsto> (encs b, perfect_device)]\<rparr>"
  obtain l where l: "openEmpty calm ''d'' defaultSegmentMaxBytes = Inr l" "log_ok l" using openEmpty_ok [OF calm_ok, of defaultSegmentMaxBytes "''d''"] by (auto simp: defaultSegmentMaxBytes_def)
  have mx: "lgMax l = segment_max (ValueLogSegmentMaxBytes ?o)"
    using l(1) by (auto simp: segment_max_def small_options_def openEmpty_def rotateSegmentLocked_def Let_def split: option.splits if_splits)
  have vl: "vlog_left l (crash_image l [])" by (rule vlog_left_clean [OF l(2)])
  have dt: "disk_tables ?h (dkFs dk) ''d'' [] []" using calm_codec [of "[]"] by (auto simp: disk_tables_def dk_def lv_inv_def calm_host_def)
  have w: "walID 1 < walID 2" "walID 1 \<noteq> walID 2" by code_simp+
  then have ls: "lists_wals [(walID 1, False), (walID 2, False)] [walID 1, walID 2]" by (auto simp: lists_wals_def walID_def)
  have ab_ok: "list_all rec_ok a" "list_all rec_ok b" unfolding ab list_all_iff set_map set_upt by (auto simp: rec_ok_def)
  have wh: "list_all2 (wal_holds (dkWals dk)) [walID 1, walID 2] [a, b]"
    using w(2) ab_ok by (auto simp: dk_def intro!: encs_held_exact good_perfect)
  have up: "[i..<j] @ [j..<j + k] = [i..<j + k]" if "i \<le> j" for i j k :: nat using upt_add_eq_append [OF that] by simp
  have sum: "70000 = 35000 + (35000 :: nat)" by simp
  have cc: "concat [a, b] = map ?f [0..<70000]" unfolding ab concat.simps append_Nil2 map_append [symmetric] sum by (rule arg_cong [OF up]) (rule zero_le)
  have "inj_on (fst \<circ> ?f) {0..<70000}"
  proof (rule inj_onI)
    fix i j :: nat
    assume ij: "i \<in> {0..<70000}" "j \<in> {0..<70000}" "(fst \<circ> ?f) i = (fst \<circ> ?f) j"
    have "of_nat i = (of_nat j :: u64)" using arg_cong [OF ij(3), of get_u64] by simp
    then have "unat (of_nat i :: u64) = unat (of_nat j :: u64)" by simp
    then show "i = j" using ij(1,2) by (simp add: unat_of_nat)
  qed
  then have di: "distinct (map fst (concat [a, b]))" unfolding cc map_map distinct_map set_upt by (simp only: distinct_upt simp_thms)
  have "length (concat [a, b]) = 70000" "\<forall>q \<in> set (concat [a, b]). length (fst q) = 100 \<and> snd q = []" unfolding cc set_map set_upt by simp_all
  then have "openDB ?h calm_world None dk ''d'' [(walID 1, False), (walID 2, False)] (crash_image l []) ?o = None"
    by (intro backlog_blocks_open [OF calm_setting(1,2) _ dt vl mx ls wh di]) simp_all
  then show ?thesis using w(2) unfolding ab [symmetric] by (intro exI [of _ dk] exI [of _ "crash_image l []"]) (simp add: dk_def)
qed

end
