(* ===== verification/Database_Locking.thy ===== *)
theory Database_Locking
  imports Database_System
begin

text \<open>
  The databases of several processes and their directory locks: the part of \<open>openDB\<close> and \<open>Close\<close> that takes and gives back the lock,
  composed with the rest of both. The steps of the processes interleave: a process takes the lock, loads the database, works with it,
  closes it, or ends at any moment. On darwin no two processes have the same directory open.
\<close>

section \<open>Taking and giving back the lock\<close>

text \<open>\<open>mkdir\<close> is the outcome of creating the directory.\<close>

definition openDB_lock :: "platform \<Rightarrow> io_error option \<Rightarrow> lock_env \<Rightarrow> string \<Rightarrow> lock_table \<Rightarrow> lock_table \<times> (dberr + directoryLock)" where
  "openDB_lock pf mkdir le dir lt =
     (case mkdir of
        Some e \<Rightarrow> (lt, Inl (ErrIO e))
      | None \<Rightarrow> map_prod id (map_sum ErrDirLock id) (acquireDirectoryLock pf le dir lt))"

text \<open>The rest of \<open>openDB\<close>, which has the lock; an error gives it back and drops what the unlocking says.\<close>

definition openDB_load :: "host \<Rightarrow> world \<Rightarrow> lock_env \<Rightarrow> directoryLock \<Rightarrow> lock_table \<Rightarrow> disk \<Rightarrow> string \<Rightarrow> listing \<Rightarrow> dirent list \<Rightarrow> Options \<Rightarrow>
    (lock_table \<times> disk \<times> (dberr + DB)) option" where
  "openDB_load h W le l lt dk dir names vents opts = do {
     (dk', r) \<leftarrow> openDB h W None dk dir names vents opts;
     (case r of
        Inl e \<Rightarrow> Some (fst (lock_close le l lt), dk', Inl e)
      | Inr db \<Rightarrow> Some (lt, dk', Inr db))
   }"

definition closeDirectoryLockLocked :: "lock_env \<Rightarrow> directoryLock option \<Rightarrow> lock_table \<Rightarrow> lock_table \<times> directoryLock option \<times> lock_error option" where
  "closeDirectoryLockLocked le dirLock lt =
     (case dirLock of
        None \<Rightarrow> (lt, None, None)
      | Some l \<Rightarrow> (case lock_close le l lt of (lt', _, e) \<Rightarrow> (lt', None, e)))"

text \<open>Every path of \<open>Close\<close> that closes the database gives the lock back at its end; a second \<open>Close\<close> does nothing.\<close>

definition close_locked :: "host \<Rightarrow> world \<Rightarrow> lock_env \<Rightarrow> writeRequest option list \<Rightarrow> lock_table \<times> directoryLock option \<Rightarrow> disk \<times> DB \<Rightarrow>
    ((lock_table \<times> directoryLock option) \<times> (disk \<times> DB) \<times> dberr option list \<times> dberr option) option" where
  "close_locked h W le ch lk st =
     (if dbClosed (snd st) then map_option (Pair lk) (db_Close h W None ch st)
      else case closeDirectoryLockLocked le (snd lk) (fst lk) of
        (lt', dirLock', e) \<Rightarrow> map_option (Pair (lt', dirLock')) (db_Close h W (map_option ErrDirLock e) ch st))"

section \<open>The processes\<close>

text \<open>A handle is a process that has the directory open, or is about to (\<open>hdDB\<close> is \<open>None\<close> while it loads).\<close>

record handle =
  hdDir :: string
  hdLock :: "directoryLock option"
  hdDB :: "DB option"
  hdCh :: "writeRequest option list"

record site =
  siLocks :: lock_table
  siDisks :: "string \<Rightarrow> disk"
  siHandles :: "nat \<Rightarrow> handle option"

inductive site_step :: "platform \<Rightarrow> host \<Rightarrow> site \<Rightarrow> site \<Rightarrow> bool" for pf h where
  refused: "siHandles s i = None \<Longrightarrow> openDB_lock pf mkdir le dir (siLocks s) = (lt, Inl e) \<Longrightarrow> site_step pf h s (s\<lparr>siLocks := lt\<rparr>)"
| locked: "siHandles s i = None \<Longrightarrow> openDB_lock pf mkdir le dir (siLocks s) = (lt, Inr l) \<Longrightarrow>
    site_step pf h s (s\<lparr>siLocks := lt, siHandles := (siHandles s)(i \<mapsto> \<lparr>hdDir = dir, hdLock = Some l, hdDB = None, hdCh = []\<rparr>)\<rparr>)"
| failed: "siHandles s i = Some \<lparr>hdDir = dir, hdLock = Some l, hdDB = None, hdCh = []\<rparr> \<Longrightarrow>
    openDB_load h W le l (siLocks s) (siDisks s dir) dir names vents opts = Some (lt, dk, Inl e) \<Longrightarrow>
    site_step pf h s (s\<lparr>siLocks := lt, siDisks := (siDisks s)(dir := dk), siHandles := (siHandles s)(i := None)\<rparr>)"
| loaded: "siHandles s i = Some \<lparr>hdDir = dir, hdLock = Some l, hdDB = None, hdCh = []\<rparr> \<Longrightarrow>
    openDB_load h W le l (siLocks s) (siDisks s dir) dir names vents opts = Some (lt, dk, Inr db) \<Longrightarrow>
    site_step pf h s (s\<lparr>siLocks := lt, siDisks := (siDisks s)(dir := dk),
      siHandles := (siHandles s)(i \<mapsto> \<lparr>hdDir = dir, hdLock = Some l, hdDB = Some db, hdCh = []\<rparr>)\<rparr>)"
| works: "siHandles s i = Some \<lparr>hdDir = dir, hdLock = lk, hdDB = Some db, hdCh = ch\<rparr> \<Longrightarrow>
    db_step h W (\<lambda>_. True) \<lparr>dyDisk = siDisks s dir, dyDB = db, dyCh = ch, dySubmitted = [], dyAcked = []\<rparr> y \<Longrightarrow>
    site_step pf h s (s\<lparr>siDisks := (siDisks s)(dir := dyDisk y),
      siHandles := (siHandles s)(i \<mapsto> \<lparr>hdDir = dir, hdLock = lk, hdDB = Some (dyDB y), hdCh = dyCh y\<rparr>)\<rparr>)"
| closes: "siHandles s i = Some \<lparr>hdDir = dir, hdLock = lk, hdDB = Some db, hdCh = ch\<rparr> \<Longrightarrow>
    close_locked h W le ch (siLocks s, lk) (siDisks s dir, db) = Some ((lt, lk'), (dk, db'), answers, e) \<Longrightarrow>
    site_step pf h s (s\<lparr>siLocks := lt, siDisks := (siDisks s)(dir := dk),
      siHandles := (siHandles s)(i \<mapsto> \<lparr>hdDir = dir, hdLock = lk', hdDB = Some db', hdCh = []\<rparr>)\<rparr>)"
| exits: "siHandles s i = Some x \<Longrightarrow>
    site_step pf h s (s\<lparr>siLocks := (case hdLock x of None \<Rightarrow> siLocks s | Some l \<Rightarrow> lock_exit l (siLocks s)), siHandles := (siHandles s)(i := None)\<rparr>)"

text \<open>At the start no file is locked and no process runs.\<close>

definition site_init :: "site \<Rightarrow> bool" where
  "site_init s \<longleftrightarrow> ltHeld (siLocks s) = (\<lambda>_. None) \<and> siHandles s = (\<lambda>_. None)"

definition hd_open :: "handle \<Rightarrow> bool" where
  "hd_open x \<longleftrightarrow> (case hdDB x of None \<Rightarrow> True | Some db \<Rightarrow> \<not> dbClosed db)"

section \<open>A closed database stays closed\<close>

lemma setFlushErrIfNil_closed: "setFlushErrIfNil e db = (db', x) \<Longrightarrow> dbClosed db' = dbClosed db"
  by (auto simp: setFlushErrIfNil_def split: option.splits)

lemma map_setFlushErrIfNil_closed: "map_prod id f (setFlushErrIfNil e db) = (db', x) \<Longrightarrow> dbClosed db' = dbClosed db"
  by (auto simp: setFlushErrIfNil_def split: option.splits)

lemma fst_setFlushErrIfNil_closed [simp]: "dbClosed (fst (setFlushErrIfNil e db)) = dbClosed db"
  by (auto simp: setFlushErrIfNil_def split: option.splits)

lemma publish_closed [simp]: "dbClosed (publishReadStateLocked db) = dbClosed db"
  by (simp add: publishReadStateLocked_def)

lemma rotateMemtable_closed: "rotateMemtable W st = Some (st', e) \<Longrightarrow> dbClosed (snd st') = dbClosed (snd st)"
  by (auto simp: rotateMemtable_def Let_def split: prod.splits sum.splits option.splits Option.bind_splits)

lemma write_turn_closed: "write_turn W st batch = Some (st', rs, g) \<Longrightarrow> dbClosed (snd st') = dbClosed (snd st)"
  by (auto simp: write_turn_def Let_def split: prod.splits option.splits if_splits Option.bind_splits
      dest!: setFlushErrIfNil_closed map_setFlushErrIfNil_closed rotateMemtable_closed)

lemma processWriteBatch_closed:
  assumes "processWriteBatch W st b = Some (st', rs)"
  shows "dbClosed (snd st') = dbClosed (snd st)"
proof -
  have "processWriteBatch W (fst st, snd st) b = Some ((fst st', snd st'), rs)" using assms by simp
  moreover have "dbClosed db' = dbClosed db" if "write_turn W (dk, db) c = Some ((dk', db'), xs, g)" for dk db c dk' db' xs g using write_turn_closed [OF that] by simp
  ultimately show ?thesis using processWriteBatch_keeps [of "\<lambda>_ d. dbClosed d = dbClosed (snd st)" W "fst st" "snd st"] by metis
qed

lemma writeLoop_turn_closed: "writeLoop_turn W k arrived (s, ch) = Some ((s', ch'), rs, g) \<Longrightarrow> dbClosed (snd s') = dbClosed (snd s)"
  by (auto simp: writeLoop_turn_def split: list.splits option.splits prod.splits dest: processWriteBatch_closed)

lemma writeLoop_closed: "writeLoop W s ch = Some (s', rs) \<Longrightarrow> dbClosed (snd s') = dbClosed (snd s)"
proof (induction W s ch arbitrary: s' rs rule: writeLoop.induct)
  case (2 W s x ch)
  then obtain s1 ch1 rs1 g where t: "writeLoop_turn W 0 [] (s, x # ch) = Some ((s1, ch1), rs1, g)" by (auto split: option.splits)
  have c: "dbClosed (snd s1) = dbClosed (snd s)" by (rule writeLoop_turn_closed [OF t])
  show ?case
  proof (cases g)
    case True
    then obtain rs2 where "writeLoop W s1 ch1 = Some (s', rs2)" using "2.prems" t by auto
    then show ?thesis using "2.IH" [OF t refl refl refl True] c by simp
  next
    case False
    then show ?thesis using "2.prems" t c by simp
  qed
qed simp

lemma installFlushedTable_closed: "installFlushedTable h now (dk, db) imm sst = ((dk', db'), e) \<Longrightarrow> dbClosed db' = dbClosed db"
  by (auto simp: installFlushedTable_def Let_def split: prod.splits option.splits sum.splits)

lemma syncValueLogForFlush_closed: "syncValueLogForFlush db = Some (db', e) \<Longrightarrow> dbClosed db' = dbClosed db"
  by (auto simp: syncValueLogForFlush_def setFlushErrIfNil_def split: option.splits)

lemma flush_turn_closed: "flush_turn h W st = Some st' \<Longrightarrow> dbClosed (snd st') = dbClosed (snd st)"
  by (auto simp: flush_turn_def Let_def split: prod.splits list.splits option.splits sum.splits if_splits Option.bind_splits
      dest!: installFlushedTable_closed syncValueLogForFlush_closed)

lemma drain_flushes_closed: "drain_flushes h W n st = Some st' \<Longrightarrow> dbClosed (snd st') = dbClosed (snd st)"
  by (induction n arbitrary: st) (auto split: Option.bind_splits dest: flush_turn_closed)

lemma closeStorageLocked_closed: "closeStorageLocked u db x = (db', e) \<Longrightarrow> dbClosed db' = dbClosed db"
  by (auto simp: closeStorageLocked_def Let_def split: option.splits prod.splits)

lemma closeWithoutPendingFlush_closed:
  "closeWithoutPendingFlush h W u st w = Some (st', e) \<Longrightarrow> dbClosed (snd st') = dbClosed (snd st)"
  by (auto simp: closeWithoutPendingFlush_def split: prod.splits Option.bind_splits dest!: closeStorageLocked_closed drain_flushes_closed)

lemma flushPendingMemtableAndClose_closed:
  "flushPendingMemtableAndClose h W u st imm = Some (st', e) \<Longrightarrow> dbClosed (snd st') = dbClosed (snd st)"
  by (auto simp: flushPendingMemtableAndClose_def Let_def simp del: drain_flushes.simps split: prod.splits Option.bind_splits dest!: closeStorageLocked_closed drain_flushes_closed)

lemma stopWrites_closed: "stopWrites W st ch = Some (st', rs) \<Longrightarrow> dbClosed (snd st') = dbClosed (snd st)"
  unfolding stopWrites_def by (rule writeLoop_closed)

lemma db_Close_closed:
  assumes "db_Close h W u ch st = Some (st', rs, e)"
  shows "dbClosed (snd st')"
proof (cases "dbClosed (snd st)")
  case True
  then show ?thesis using assms by (auto simp: db_Close_def markClosed_def split: prod.splits)
next
  case False
  then show ?thesis using assms
    by (auto simp: db_Close_def markClosed_def Let_def split: prod.splits option.splits if_splits Option.bind_splits
        dest!: stopWrites_closed closeWithoutPendingFlush_closed flushPendingMemtableAndClose_closed)
qed

lemma openDB_opens: "openDB h W pre dk dir names vents opts = Some (dk', Inr db) \<Longrightarrow> \<not> dbClosed db"
  by (auto simp: openDB_def Let_def split: option.splits sum.splits prod.splits Option.bind_splits)

lemma db_step_closed: "db_step h W good s s' \<Longrightarrow> dbClosed (dyDB s') = dbClosed (dyDB s)"
  by (induction rule: db_step.induct) (auto dest: writeLoop_turn_closed flush_turn_closed)

section \<open>The locks are those of the open databases\<close>

definition held :: "site \<Rightarrow> nat \<Rightarrow> (string \<times> directoryLock) option" where
  "held s i = (case siHandles s i of None \<Rightarrow> None | Some x \<Rightarrow> map_option (Pair (hdDir x)) (hdLock x))"

definition site_ok :: "site \<Rightarrow> bool" where
  "site_ok s \<longleftrightarrow> dl.owned (siLocks s) (held s) \<and> (\<forall>i x. siHandles s i = Some x \<longrightarrow> (hd_open x \<longleftrightarrow> hdLock x \<noteq> None))"

lemma held_update:
  "held (s\<lparr>siLocks := lt, siHandles := (siHandles s)(i := x)\<rparr>) = (held s)(i := Option.bind x (\<lambda>y. map_option (Pair (hdDir y)) (hdLock y)))"
  "held (s\<lparr>siLocks := lt, siDisks := dks, siHandles := (siHandles s)(i := x)\<rparr>) = (held s)(i := Option.bind x (\<lambda>y. map_option (Pair (hdDir y)) (hdLock y)))"
  "held (s\<lparr>siDisks := dks, siHandles := (siHandles s)(i := x)\<rparr>) = (held s)(i := Option.bind x (\<lambda>y. map_option (Pair (hdDir y)) (hdLock y)))"
  "held (s\<lparr>siLocks := lt\<rparr>) = held s"
  by (auto simp: held_def fun_eq_iff split: option.split)

lemma openDB_lock_darwin:
  "openDB_lock Darwin mkdir le dir lt = (lt', Inr l) \<Longrightarrow> acquire_file_lock le dir lt = (lt', Inr l)"
  "openDB_lock Darwin mkdir le dir lt = (lt', Inl e) \<Longrightarrow> lt' = lt \<or> (\<exists>x. acquire_file_lock le dir lt = (lt', Inl x))"
  by (auto simp: openDB_lock_def acquireDirectoryLock_def map_prod_def split: option.splits prod.splits sum.splits)
     (metis map_sum.simps sum.exhaust sum.distinct(1) sum.inject(2) id_apply)+

lemma openDB_load_result:
  "openDB_load h W le l lt dk dir names vents opts = Some (lt', dk', Inl e) \<Longrightarrow> lt' = fst (lock_close le l lt)"
  "openDB_load h W le l lt dk dir names vents opts = Some (lt', dk', Inr db) \<Longrightarrow> lt' = lt \<and> \<not> dbClosed db"
  by (auto simp: openDB_load_def split: Option.bind_splits sum.splits dest: openDB_opens)

lemma close_locked_result:
  assumes "close_locked h W le ch (lt, lk) st = Some ((lt', lk'), st', rs, e)"
  shows "dbClosed (snd st')" "dbClosed (snd st) \<Longrightarrow> lt' = lt \<and> lk' = lk"
    "\<not> dbClosed (snd st) \<Longrightarrow> lk' = None \<and> lt' = (case lk of None \<Rightarrow> lt | Some l \<Rightarrow> fst (lock_close le l lt))"
  using assms by (auto simp: close_locked_def closeDirectoryLockLocked_def split: if_splits option.splits prod.splits dest: db_Close_closed)

lemma site_ok_init: "site_init s \<Longrightarrow> site_ok s"
  by (simp add: site_init_def site_ok_def dl.owned_def lt_ok_def lt_holds_def held_def)

lemma site_ok_update:
  assumes "site_ok s" "dl.owned lt ((held s)(i := Option.bind x (\<lambda>y. map_option (Pair (hdDir y)) (hdLock y))))"
    and "\<And>y. x = Some y \<Longrightarrow> hd_open y \<longleftrightarrow> hdLock y \<noteq> None"
  shows "site_ok (s\<lparr>siLocks := lt, siDisks := dks, siHandles := (siHandles s)(i := x)\<rparr>)"
  using assms by (auto simp: site_ok_def held_update)

lemma site_step_ok:
  assumes "site_step Darwin h s s'" "site_ok s"
  shows "site_ok s'"
  using assms
proof (induction rule: site_step.induct)
  case (refused s i mkdir le dir lt e)
  then have "dl.owned lt (held s)" using openDB_lock_darwin(2) [of mkdir le dir "siLocks s"] dl.owned_refused by (fastforce simp: site_ok_def)
  then show ?case using refused.prems by (simp add: site_ok_def held_update)
next
  case (locked s i mkdir le dir lt l)
  have "held s i = None" using locked.hyps(1) by (simp add: held_def)
  then have "dl.owned lt ((held s)(i \<mapsto> (dir, l)))"
    using openDB_lock_darwin(1) [OF locked.hyps(2)] locked.prems by (intro dl.owned_acquire) (simp_all add: site_ok_def)
  then show ?case using site_ok_update [OF locked.prems, of lt i "Some \<lparr>hdDir = dir, hdLock = Some l, hdDB = None, hdCh = []\<rparr>" "siDisks s"]
    by (simp add: hd_open_def)
next
  case (failed s i dir l W le names vents opts lt dk e)
  have "held s i = Some (dir, l)" using failed.hyps(1) by (simp add: held_def)
  then have "dl.owned lt ((held s)(i := None))"
    using failed.prems openDB_load_result(1) [OF failed.hyps(2)] dl.owned_release by (simp add: site_ok_def)
  then show ?case by (intro site_ok_update [OF failed.prems]) simp_all
next
  case (loaded s i dir l W le names vents opts lt dk db)
  have "held s i = Some (dir, l)" using loaded.hyps(1) by (simp add: held_def)
  then have "(held s)(i \<mapsto> (dir, l)) = held s" by auto
  then show ?case using loaded.prems openDB_load_result(2) [OF loaded.hyps(2)]
    by (intro site_ok_update [OF loaded.prems]) (auto simp: site_ok_def hd_open_def)
next
  case (works s i dir lk db ch W y)
  have "held s i = map_option (Pair dir) lk" using works.hyps(1) by (simp add: held_def)
  then have "(held s)(i := map_option (Pair dir) lk) = held s" by auto
  moreover have "hd_open \<lparr>hdDir = dir, hdLock = lk, hdDB = Some (dyDB y), hdCh = dyCh y\<rparr> \<longleftrightarrow> lk \<noteq> None"
    using works.hyps(1) works.prems db_step_closed [OF works.hyps(2)] by (fastforce simp: site_ok_def hd_open_def)
  ultimately show ?case using works.prems
      site_ok_update [OF works.prems, of "siLocks s" i "Some \<lparr>hdDir = dir, hdLock = lk, hdDB = Some (dyDB y), hdCh = dyCh y\<rparr>"]
    by (simp add: site_ok_def)
next
  case (closes s i dir lk db ch W le lt lk' dk db' answers e)
  note r = close_locked_result [OF closes.hyps(2), simplified]
  have open_iff: "dbClosed db \<longleftrightarrow> lk = None" using closes.hyps(1) closes.prems by (fastforce simp: site_ok_def hd_open_def)
  have own: "dl.owned (siLocks s) (held s)" "held s i = map_option (Pair dir) lk" using closes.hyps(1) closes.prems by (simp_all add: site_ok_def held_def)
  have "dl.owned lt ((held s)(i := None)) \<and> lk' = None"
  proof (cases lk)
    case None
    then have "(held s)(i := None) = held s" using own(2) by auto
    then show ?thesis using None own(1) r(2) open_iff by simp
  next
    case (Some l)
    then show ?thesis using own r(3) open_iff dl.owned_release [of "siLocks s" "held s" i dir l] by simp
  qed
  then show ?case using r(1) by (intro site_ok_update [OF closes.prems]) (auto simp: hd_open_def)
next
  case (exits s i x)
  let ?lt = "case hdLock x of None \<Rightarrow> siLocks s | Some l \<Rightarrow> lock_exit l (siLocks s)"
  have own: "dl.owned (siLocks s) (held s)" "held s i = map_option (Pair (hdDir x)) (hdLock x)" using exits by (simp_all add: site_ok_def held_def)
  have "dl.owned ?lt ((held s)(i := None))"
  proof (cases "hdLock x")
    case None
    then have "(held s)(i := None) = held s" using own(2) by auto
    then show ?thesis using None own(1) by simp
  next
    case (Some l)
    then show ?thesis using own dl.owned_leave [of "siLocks s" "held s" i "hdDir x" l] by simp
  qed
  then show ?case using site_ok_update [OF exits.prems, of ?lt i None "siDisks s"] by simp
qed

lemma site_reach_ok: "(site_step Darwin h)\<^sup>*\<^sup>* s0 s \<Longrightarrow> site_init s0 \<Longrightarrow> site_ok s"
  by (induction rule: rtranclp_induct) (auto intro: site_ok_init site_step_ok)

lemma locked_iff:
  assumes "site_ok s"
  shows "ltHeld (siLocks s) (dir, directoryLockFilename) \<noteq> None \<longleftrightarrow> (\<exists>i x. siHandles s i = Some x \<and> hd_open x \<and> hdDir x = dir)"
proof -
  have "ltHeld (siLocks s) (dir, directoryLockFilename) \<noteq> None \<longleftrightarrow> (\<exists>l. lt_holds (siLocks s) dir l)" by (auto simp: lt_holds_def)
  also have "\<dots> \<longleftrightarrow> (\<exists>l i. held s i = Some (dir, l))" using assms by (simp add: site_ok_def dl.owned_def)
  also have "\<dots> \<longleftrightarrow> (\<exists>i x. siHandles s i = Some x \<and> hd_open x \<and> hdDir x = dir)"
    using assms by (fastforce simp: held_def site_ok_def split: option.splits)
  finally show ?thesis .
qed

lemma openDB_lock_good:
  assumes "site_ok s" "le_good le"
  shows "if \<exists>i x. siHandles s i = Some x \<and> hd_open x \<and> hdDir x = dir
    then snd (openDB_lock Darwin None le dir (siLocks s)) = Inl (ErrDirLock ErrDatabaseLocked)
    else \<exists>l. snd (openDB_lock Darwin None le dir (siLocks s)) = Inr l"
proof -
  have "lt_ok (siLocks s)" using assms(1) by (simp add: site_ok_def dl.owned_def)
  then show ?thesis using acquire_good [of "siLocks s" le dir] assms(2) locked_iff [OF assms(1), of dir]
    by (auto simp: openDB_lock_def acquireDirectoryLock_def)
qed

lemma open_unique:
  assumes "site_ok s" "siHandles s i = Some x" "siHandles s j = Some y" "hd_open x" "hd_open y" "hdDir x = hdDir y"
  shows "i = j"
proof -
  obtain l l' where "held s i = Some (hdDir x, l)" "held s j = Some (hdDir x, l')"
    using assms by (fastforce simp: site_ok_def held_def)
  then show ?thesis using assms(1) dl.owned_exclusive unfolding site_ok_def by blast
qed

text \<open>
  C15: On darwin, whatever processes open, use and close databases and in whatever order they end, no two of them have the same directory
  open (or are loading it) at the same time; and opening a directory is refused with \<open>ErrDatabaseLocked\<close> exactly while some process has it
  open, and gets the lock otherwise, unless the calls of the operating system fail. So a lock never outlives the database or the process that took it.
\<close>

theorem one_database_per_directory:
  assumes "site_init s0" "(site_step Darwin h)\<^sup>*\<^sup>* s0 s"
  shows "(\<forall>i j x y. siHandles s i = Some x \<and> siHandles s j = Some y \<and> hd_open x \<and> hd_open y \<and> hdDir x = hdDir y \<longrightarrow> i = j) \<and>
    (\<forall>le dir. le_good le \<longrightarrow>
       (if \<exists>i x. siHandles s i = Some x \<and> hd_open x \<and> hdDir x = dir
        then snd (openDB_lock Darwin None le dir (siLocks s)) = Inl (ErrDirLock ErrDatabaseLocked)
        else \<exists>l. snd (openDB_lock Darwin None le dir (siLocks s)) = Inr l))"
proof -
  have ok: "site_ok s" by (rule site_reach_ok [OF assms(2,1)])
  show ?thesis using open_unique [OF ok] openDB_lock_good [OF ok] by simp
qed

text \<open>A site with one process that has taken the lock of the directory \<open>db\<close>.\<close>

definition no_fault :: lock_env where
  "no_fault = \<lparr>leOpen = None, leFlock = None, leUnlock = None, leClose = None\<rparr>"

definition site0 :: site where
  "site0 = \<lparr>siLocks = \<lparr>ltFiles = (\<lambda>_. None), ltHeld = (\<lambda>_. None), ltNext = 0\<rparr>, siDisks = (\<lambda>_. \<lparr>dkFs = (\<lambda>_. None), dkWals = (\<lambda>_. None)\<rparr>), siHandles = (\<lambda>_. None)\<rparr>"

definition site1 :: "platform \<Rightarrow> nat \<Rightarrow> site \<Rightarrow> site" where
  "site1 pf i s = (case openDB_lock pf None no_fault ''db'' (siLocks s) of
     (lt, Inr l) \<Rightarrow> s\<lparr>siLocks := lt, siHandles := (siHandles s)(i \<mapsto> \<lparr>hdDir = ''db'', hdLock = Some l, hdDB = None, hdCh = []\<rparr>)\<rparr>
   | (lt, Inl _) \<Rightarrow> s\<lparr>siLocks := lt\<rparr>)"

lemma site1_step: "siHandles s i = None \<Longrightarrow> site_step pf h s (site1 pf i s)"
  by (auto simp: site1_def split: prod.splits sum.splits intro: site_step.refused site_step.locked)

theorem one_database_per_directory_witness:
  "siHandles (site1 Darwin 0 site0) 0 \<noteq> None \<and>
   snd (openDB_lock Darwin None no_fault ''db'' (siLocks (site1 Darwin 0 site0))) = Inl (ErrDirLock ErrDatabaseLocked) \<and>
   (\<exists>l. snd (openDB_lock Darwin None no_fault ''other'' (siLocks (site1 Darwin 0 site0))) = Inr l)"
proof -
  have s: "(site_step Darwin (calm_host []))\<^sup>*\<^sup>* site0 (site1 Darwin 0 site0)" by (rule r_into_rtranclp, rule site1_step) (simp add: site0_def)
  have h: "siHandles (site1 Darwin 0 site0) = [0 \<mapsto> \<lparr>hdDir = ''db'', hdLock = Some (FileLock (Some \<lparr>ldFile = Some 0\<rparr>)), hdDB = None, hdCh = []\<rparr>]"
    by (simp add: site1_def site0_def openDB_lock_def acquireDirectoryLock_def acquire_file_lock_def lock_calls no_fault_def directoryLockFilename_def)
  have "site_init site0" by (simp add: site_init_def site0_def)
  note t = one_database_per_directory [OF this s, THEN conjunct2, rule_format, of no_fault]
  have "(\<exists>i x. siHandles (site1 Darwin 0 site0) i = Some x \<and> hd_open x \<and> hdDir x = d) \<longleftrightarrow> d = ''db''" for d by (auto simp: h hd_open_def)
  moreover have "le_good no_fault" by (simp add: le_good_def no_fault_def)
  ultimately show ?thesis using t [of "''db''"] t [of "''other''"] by (simp add: h)
qed

text \<open>On the other systems the lock excludes nobody: two processes load the same directory.\<close>

theorem other_systems_do_not_lock:
  "(site_step OtherOS h)\<^sup>*\<^sup>* site0 (site1 OtherOS 1 (site1 OtherOS 0 site0)) \<and>
   (\<forall>i < 2. \<exists>x. siHandles (site1 OtherOS 1 (site1 OtherOS 0 site0)) i = Some x \<and> hd_open x \<and> hdDir x = ''db'')"
proof
  have n: "site1 OtherOS i s = s\<lparr>siHandles := (siHandles s)(i \<mapsto> \<lparr>hdDir = ''db'', hdLock = Some NoopLock, hdDB = None, hdCh = []\<rparr>)\<rparr>" for i s
    by (simp add: site1_def openDB_lock_def acquireDirectoryLock_def acquire_noop_lock_def)
  show "(site_step OtherOS h)\<^sup>*\<^sup>* site0 (site1 OtherOS 1 (site1 OtherOS 0 site0))"
    by (rule rtranclp.rtrancl_into_rtrancl [OF r_into_rtranclp], rule site1_step, simp add: site0_def, rule site1_step) (simp add: n site0_def)
  show "\<forall>i < 2. \<exists>x. siHandles (site1 OtherOS 1 (site1 OtherOS 0 site0)) i = Some x \<and> hd_open x \<and> hdDir x = ''db''"
    by (auto simp: n hd_open_def less_2_cases_iff)
qed

end
