(* ===== verification/Database_Submit.thy ===== *)
theory Database_Submit
  imports Database_Locking
begin

text \<open>
  How callers, the write loop and \<open>Close\<close> meet (\<open>submitWrite\<close>, \<open>beginSubmit\<close>, \<open>finishSubmit\<close>, \<open>waitForSubmitters\<close>, \<open>stopWrites\<close>, the pool of requests of
  \<^verbatim>\<open>src/db.go\<close>), one atomic action per step. A caller counts itself, looks at the closed flag and at the error, sends its request, uncounts itself and waits for the answer;
  \<open>Close\<close> sets the flag, waits on a condition variable until nobody is counted, and sends the nil that ends the write loop. Requests are objects that a pool hands out again.

  Shown: no request is ever behind the nil, an object belongs to one call at a time, its wait group never goes below zero, no wake-up is lost, and when no new call starts every call and
  \<open>Close\<close> return after finitely many steps.
\<close>

section \<open>Requests\<close>

type_synonym rid = nat

record pooledRequest =
  rqKey :: bytes
  rqValue :: bytes
  rqErr :: "dberr option"
  rqWg :: nat

definition acquireWriteRequest :: "bytes \<Rightarrow> bytes \<Rightarrow> pooledRequest \<Rightarrow> pooledRequest" where
  "acquireWriteRequest key val req = req\<lparr>rqKey := key, rqValue := val, rqErr := None, rqWg := Suc (rqWg req)\<rparr>"

text \<open>A wait group below zero panics.\<close>

definition req_finish :: "dberr option \<Rightarrow> pooledRequest \<Rightarrow> pooledRequest option" where
  "req_finish e req = (if rqWg req = 0 then None else Some (req\<lparr>rqErr := e, rqWg := rqWg req - 1\<rparr>))"

definition req_reset :: "pooledRequest \<Rightarrow> pooledRequest" where
  "req_reset req = req\<lparr>rqKey := [], rqValue := [], rqErr := None\<rparr>"

definition new_request :: pooledRequest where
  "new_request = \<lparr>rqKey = [], rqValue = [], rqErr = None, rqWg = 0\<rparr>"

section \<open>Threads\<close>

text \<open>
  Where a call of \<open>submitWrite\<close> is. It leaves \<open>beginSubmit\<close>, or the part between it and \<open>wait\<close>, with an error to answer itself with, or with its request sent (\<open>None\<close>).
\<close>

datatype caller =
    Idle
  | Acquired rid
  | Counted rid
  | Admitted rid
  | Sending rid
  | Leaving rid "dberr option"
  | Notifying rid "dberr option"
  | Ending rid "dberr option"
  | Awaiting rid

text \<open>Where \<open>Close\<close> is in \<open>stopWrites\<close>: it takes the mutex, has it, sleeps on the condition variable, sends the nil, waits for the write loop.\<close>

datatype closer = NotClosing | Locking | Holding | Asleep | SendNil | Joining | Stopped

text \<open>
  The write loop between two batches, while it drains the channel (the flag says that it has slept for the group commit), after it found the channel empty, while it hands out the results, and after its end.
\<close>

datatype writer = Ready | Collecting "rid list" bool | Drained "rid list" | Answering "(rid \<times> dberr option) list" bool | Ended

record subsys =
  sbSt :: "disk \<times> DB"
  sbHeap :: "rid \<Rightarrow> pooledRequest option"
  sbPool :: "rid set"
  sbCount :: int
  sbCh :: "rid option list"
  sbCallers :: "caller list"
  sbCloser :: closer
  sbWriter :: writer

definition writeChCap :: nat where "writeChCap = 256"

text \<open>\<open>req.finish\<close> on an object.\<close>

definition finish_req :: "rid \<Rightarrow> dberr option \<Rightarrow> subsys \<Rightarrow> subsys option" where
  "finish_req r e s = do { req \<leftarrow> sbHeap s r; req' \<leftarrow> req_finish e req; Some (s\<lparr>sbHeap := (sbHeap s)(r \<mapsto> req')\<rparr>) }"

text \<open>
  \<open>beginSubmit\<close> and \<open>finishSubmit\<close> have two actions each: they change the count, and look at the flag or, when the count fell to zero, broadcast under the mutex. The broadcast wakes \<open>Close\<close>,
  which then takes the mutex again.
\<close>

definition beginSubmit_add :: "subsys \<Rightarrow> subsys" where
  "beginSubmit_add s = s\<lparr>sbCount := sbCount s + 1\<rparr>"

definition beginSubmit_check :: "subsys \<Rightarrow> bool" where
  "beginSubmit_check s = (\<not> rsClosed (dbRead (snd (sbSt s))))"

definition finishSubmit_add :: "subsys \<Rightarrow> subsys \<times> bool" where
  "finishSubmit_add s = (s\<lparr>sbCount := sbCount s - 1\<rparr>, sbCount s - 1 \<noteq> 0)"

definition finishSubmit_broadcast :: "subsys \<Rightarrow> subsys option" where
  "finishSubmit_broadcast s =
     (if sbCloser s = Holding then None else Some (s\<lparr>sbCloser := (if sbCloser s = Asleep then Locking else sbCloser s)\<rparr>))"

text \<open>The next action of a call; \<open>None\<close> when it has to wait.\<close>

definition caller_turn :: "nat \<Rightarrow> subsys \<Rightarrow> subsys option" where
  "caller_turn i s =
     (case sbCallers s ! i of
        Idle \<Rightarrow> None
      | Acquired r \<Rightarrow> Some ((beginSubmit_add s)\<lparr>sbCallers := (sbCallers s)[i := Counted r]\<rparr>)
      | Counted r \<Rightarrow> Some (s\<lparr>sbCallers := (sbCallers s)[i := if beginSubmit_check s then Admitted r else Leaving r (Some ErrDbClosed)]\<rparr>)
      | Admitted r \<Rightarrow> Some (s\<lparr>sbCallers := (sbCallers s)[i := case dbFlushErr (snd (sbSt s)) of Some e \<Rightarrow> Leaving r (Some e) | None \<Rightarrow> Sending r]\<rparr>)
      | Sending r \<Rightarrow>
          if length (sbCh s) < writeChCap then Some (s\<lparr>sbCh := sbCh s @ [Some r], sbCallers := (sbCallers s)[i := Leaving r None]\<rparr>) else None
      | Leaving r e \<Rightarrow>
          (case finishSubmit_add s of (t, others) \<Rightarrow> Some (t\<lparr>sbCallers := (sbCallers s)[i := if others then Ending r e else Notifying r e]\<rparr>))
      | Notifying r e \<Rightarrow> map_option (\<lambda>t. t\<lparr>sbCallers := (sbCallers s)[i := Ending r e]\<rparr>) (finishSubmit_broadcast s)
      | Ending r e \<Rightarrow>
          (case e of
             None \<Rightarrow> Some (s\<lparr>sbCallers := (sbCallers s)[i := Awaiting r]\<rparr>)
           | Some x \<Rightarrow> map_option (\<lambda>t. t\<lparr>sbCallers := (sbCallers s)[i := Awaiting r]\<rparr>) (finish_req r e s))
      | Awaiting r \<Rightarrow>
          (case sbHeap s r of
             None \<Rightarrow> None
           | Some req \<Rightarrow>
               if rqWg req = 0
               then Some (s\<lparr>sbHeap := (sbHeap s)(r \<mapsto> req_reset req), sbPool := insert r (sbPool s), sbCallers := (sbCallers s)[i := Idle]\<rparr>)
               else None))"

lemmas caller_turn_defs = caller_turn_def beginSubmit_add_def beginSubmit_check_def finishSubmit_add_def finishSubmit_broadcast_def

text \<open>With the mutex \<open>Close\<close> looks at the count: it sleeps, which gives the mutex back, or goes on. A sleeper is woken by a broadcast only.\<close>

definition waitForSubmitters :: "subsys \<Rightarrow> closer" where
  "waitForSubmitters s = (if sbCount s \<noteq> 0 then Asleep else SendNil)"

definition closer_turn :: "subsys \<Rightarrow> subsys option" where
  "closer_turn s =
     (case sbCloser s of
        NotClosing \<Rightarrow> None
      | Locking \<Rightarrow> Some (s\<lparr>sbCloser := Holding\<rparr>)
      | Holding \<Rightarrow> Some (s\<lparr>sbCloser := waitForSubmitters s\<rparr>)
      | Asleep \<Rightarrow> None
      | SendNil \<Rightarrow> if length (sbCh s) < writeChCap then Some (s\<lparr>sbCh := sbCh s @ [None], sbCloser := Joining\<rparr>) else None
      | Joining \<Rightarrow> if sbWriter s = Ended then Some (s\<lparr>sbCloser := Stopped\<rparr>) else None
      | Stopped \<Rightarrow> None)"

text \<open>
  The write loop takes requests until the batch is full, the channel is empty or the nil comes. When it found the channel empty the first time it may sleep and drain the channel once more;
  the sleep is a moment in which others move. Then the batch is processed and each request gets its result.
\<close>

definition req_of :: "subsys \<Rightarrow> rid \<Rightarrow> writeRequest" where
  "req_of s r = (case sbHeap s r of None \<Rightarrow> ([], []) | Some req \<Rightarrow> (rqKey req, rqValue req))"

definition process_batch :: "world \<Rightarrow> subsys \<Rightarrow> rid list \<Rightarrow> bool \<Rightarrow> subsys option" where
  "process_batch W s rs closing =
     map_option (\<lambda>(st, es). s\<lparr>sbSt := st, sbWriter := Answering (zip rs es) closing\<rparr>) (processWriteBatch W (sbSt s) (map (req_of s) rs))"

definition writer_turn :: "world \<Rightarrow> subsys \<Rightarrow> subsys option" where
  "writer_turn W s =
     (case sbWriter s of
        Ready \<Rightarrow>
          (case sbCh s of
             [] \<Rightarrow> None
           | None # ch \<Rightarrow> Some (s\<lparr>sbCh := ch, sbWriter := Ended\<rparr>)
           | Some r # ch \<Rightarrow> Some (s\<lparr>sbCh := ch, sbWriter := Collecting [r] False\<rparr>))
      | Collecting rs slept \<Rightarrow>
          if length rs < batchCap then
            (case sbCh s of
               [] \<Rightarrow> if slept then process_batch W s rs False else Some (s\<lparr>sbWriter := Drained rs\<rparr>)
             | None # ch \<Rightarrow> process_batch W (s\<lparr>sbCh := ch\<rparr>) rs True
             | Some r # ch \<Rightarrow> Some (s\<lparr>sbCh := ch, sbWriter := Collecting (rs @ [r]) slept\<rparr>))
          else process_batch W s rs False
      | Drained rs \<Rightarrow>
          if shouldWaitForGroupCommit (snd (sbSt s)) (map (map_option (req_of s)) (sbCh s)) (sbCount s)
          then Some (s\<lparr>sbWriter := Collecting rs True\<rparr>)
          else process_batch W s rs False
      | Answering [] closing \<Rightarrow> Some (s\<lparr>sbWriter := if closing then Ended else Ready\<rparr>)
      | Answering ((r, e) # as) closing \<Rightarrow> map_option (\<lambda>t. t\<lparr>sbWriter := Answering as closing\<rparr>) (finish_req r e s)
      | Ended \<Rightarrow> None)"

inductive sub_step :: "world \<Rightarrow> subsys \<Rightarrow> subsys \<Rightarrow> bool" for W where
  caller: "i < length (sbCallers s) \<Longrightarrow> caller_turn i s = Some s' \<Longrightarrow> sub_step W s s'"
| closer: "closer_turn s = Some s' \<Longrightarrow> sub_step W s s'"
| writer: "writer_turn W s = Some s' \<Longrightarrow> sub_step W s s'"

text \<open>What comes from outside: a new call, which gets an object of the pool or a new one, the first call of \<open>Close\<close>, and the turns of the flush loop.\<close>

inductive sub_event :: "host \<Rightarrow> world \<Rightarrow> subsys \<Rightarrow> subsys \<Rightarrow> bool" for h W where
  step: "sub_step W s s' \<Longrightarrow> sub_event h W s s'"
| call: "i < length (sbCallers s) \<Longrightarrow> sbCallers s ! i = Idle \<Longrightarrow> r \<in> sbPool s \<or> sbHeap s r = None \<Longrightarrow>
    sub_event h W s (s\<lparr>sbHeap := (sbHeap s)(r \<mapsto> acquireWriteRequest key val (case sbHeap s r of Some req \<Rightarrow> req | None \<Rightarrow> new_request)),
      sbPool := sbPool s - {r}, sbCallers := (sbCallers s)[i := Acquired r]\<rparr>)"
| "close": "markClosed (snd (sbSt s)) = (db, True) \<Longrightarrow> sub_event h W s (s\<lparr>sbSt := (fst (sbSt s), db), sbCloser := Locking\<rparr>)"
| flush: "flush_turn h W (sbSt s) = Some st \<Longrightarrow> sub_event h W s (s\<lparr>sbSt := st\<rparr>)"

definition sub_init :: "subsys \<Rightarrow> bool" where
  "sub_init s \<longleftrightarrow> \<not> dbClosed (snd (sbSt s)) \<and> \<not> rsClosed (dbRead (snd (sbSt s))) \<and> sbHeap s = (\<lambda>_. None) \<and> sbPool s = {} \<and> sbCount s = 0 \<and> sbCh s = [] \<and>
     (\<forall>c \<in> set (sbCallers s). c = Idle) \<and> sbCloser s = NotClosing \<and> sbWriter s = Ready"

section \<open>Every request of a batch gets one result\<close>

lemma write_turn_length:
  assumes "write_turn W st b = Some (st', rs, g)"
  shows "length rs \<le> length b \<and> (\<not> g \<longrightarrow> length rs = length b)"
  using assms by (auto simp: write_turn_def Let_def neq_Nil_conv split: prod.splits option.splits if_splits Option.bind_splits dest!: prepare_length)

lemma processWriteBatch_length: "processWriteBatch W st b = Some (st', rs) \<Longrightarrow> length rs = length b"
proof (induction "length b" arbitrary: b st rs rule: less_induct)
  case less
  show ?case
  proof (cases "b = []")
    case True
    then show ?thesis using less.prems by (simp add: processWriteBatch.simps)
  next
    case False
    then obtain st1 rs1 g where t: "write_turn W st b = Some (st1, rs1, g)" using less.prems by (subst (asm) processWriteBatch.simps) (auto split: option.splits)
    note l = write_turn_length [OF t]
    show ?thesis
    proof (cases g)
      case True
      then have "rs1 \<noteq> []" using write_turn_progress [of W st b] t by simp
      then have lt: "length (drop (length rs1) b) < length b" using False by simp
      obtain rs2 where r: "processWriteBatch W st1 (drop (length rs1) b) = Some (st', rs2)" "rs = rs1 @ rs2"
        using less.prems t True False by (auto simp: processWriteBatch.simps [of W st b])
      have "length rs2 = length b - length rs1" using less.hyps [OF lt r(1)] by simp
      then show ?thesis using l r(2) by simp
    next
      case False
      then show ?thesis using less.prems t l \<open>b \<noteq> []\<close> by (subst (asm) processWriteBatch.simps) auto
    qed
  qed
qed

section \<open>The objects\<close>

fun caller_rid :: "caller \<Rightarrow> rid option" where
  "caller_rid Idle = None"
| "caller_rid (Acquired r) = Some r"
| "caller_rid (Counted r) = Some r"
| "caller_rid (Admitted r) = Some r"
| "caller_rid (Sending r) = Some r"
| "caller_rid (Leaving r e) = Some r"
| "caller_rid (Notifying r e) = Some r"
| "caller_rid (Ending r e) = Some r"
| "caller_rid (Awaiting r) = Some r"

text \<open>A call that has not sent its request nor answered itself.\<close>

fun unsent :: "caller \<Rightarrow> bool" where
  "unsent (Leaving r e) = (e \<noteq> None)"
| "unsent (Notifying r e) = (e \<noteq> None)"
| "unsent (Ending r e) = (e \<noteq> None)"
| "unsent (Awaiting r) = False"
| "unsent Idle = False"
| "unsent (Acquired r) = True"
| "unsent (Counted r) = True"
| "unsent (Admitted r) = True"
| "unsent (Sending r) = True"

fun queued :: "rid option list \<Rightarrow> rid list" where
  "queued [] = []"
| "queued (None # ch) = queued ch"
| "queued (Some r # ch) = r # queued ch"

fun writer_rids :: "writer \<Rightarrow> rid list" where
  "writer_rids Ready = []"
| "writer_rids (Collecting rs w) = rs"
| "writer_rids (Drained rs) = rs"
| "writer_rids (Answering as c) = map fst as"
| "writer_rids Ended = []"

lemma queued_append [simp]: "queued (a @ b) = queued a @ queued b"
  by (induction a rule: queued.induct) simp_all

text \<open>
  \<open>F\<close> are the requests in flight: with the write loop or in the channel. Each belongs to a call that has sent it; a call has its object for itself; the wait group counts one answer to come.
\<close>

definition wg_is :: "(rid \<Rightarrow> pooledRequest option) \<Rightarrow> rid \<Rightarrow> nat \<Rightarrow> bool" where
  "wg_is heap r n \<longleftrightarrow> (\<exists>q. heap r = Some q \<and> rqWg q = n)"

definition objs :: "(nat \<Rightarrow> rid option) \<Rightarrow> (nat \<Rightarrow> bool) \<Rightarrow> (rid \<Rightarrow> pooledRequest option) \<Rightarrow> rid set \<Rightarrow> rid list \<Rightarrow> bool" where
  "objs R U heap pool F \<longleftrightarrow> (\<forall>i r. R i = Some r \<longrightarrow> r \<notin> pool \<and> wg_is heap r (if U i \<or> r \<in> set F then 1 else 0)) \<and>
     (\<forall>i j r. R i = Some r \<longrightarrow> R j = Some r \<longrightarrow> i = j) \<and> (\<forall>r \<in> pool. wg_is heap r 0) \<and> distinct F \<and> (\<forall>r \<in> set F. \<exists>i. R i = Some r \<and> \<not> U i)"

lemma objsI:
  assumes "\<And>i r. R i = Some r \<Longrightarrow> r \<notin> pool" "\<And>i r. R i = Some r \<Longrightarrow> wg_is heap r (if U i \<or> r \<in> set F then 1 else 0)" "\<And>i j r. R i = Some r \<Longrightarrow> R j = Some r \<Longrightarrow> i = j"
    and "\<And>r. r \<in> pool \<Longrightarrow> wg_is heap r 0" "distinct F" "\<And>r. r \<in> set F \<Longrightarrow> \<exists>i. R i = Some r \<and> \<not> U i"
  shows "objs R U heap pool F"
  using assms unfolding objs_def by blast

lemma objsD:
  assumes "objs R U heap pool F"
  shows "R i = Some r \<Longrightarrow> r \<notin> pool" "R i = Some r \<Longrightarrow> wg_is heap r (if U i \<or> r \<in> set F then 1 else 0)" "R i = Some r \<Longrightarrow> R j = Some r \<Longrightarrow> i = j"
    "r \<in> pool \<Longrightarrow> wg_is heap r 0" "distinct F" "r \<in> set F \<Longrightarrow> \<exists>i. R i = Some r \<and> \<not> U i"
  using assms unfolding objs_def by blast+

lemma objs_unsent: "objs R U heap pool F \<Longrightarrow> R i = Some r \<Longrightarrow> U i \<Longrightarrow> r \<notin> set F"
  using objsD(3,6) by metis

lemma wg_is_upd [simp]: "wg_is (heap(r \<mapsto> q)) r' n \<longleftrightarrow> (if r' = r then rqWg q = n else wg_is heap r' n)"
  by (simp add: wg_is_def)

lemma objs_send:
  assumes o: "objs R U heap pool F" and i: "R i = Some r" "U i"
  shows "objs R (U(i := False)) heap pool (F @ [r])"
proof (rule objsI)
  have n: "r \<notin> set F" by (rule objs_unsent [OF o i])
  show "distinct (F @ [r])" using n objsD(5) [OF o] by simp
  show "wg_is heap r' (if (U(i := False)) j \<or> r' \<in> set (F @ [r]) then 1 else 0)" if "R j = Some r'" for j r'
    using objsD(2) [OF o that] objsD(3) [OF o that, of i] i that by (cases "j = i") auto
  show "\<exists>j. R j = Some r' \<and> \<not> (U(i := False)) j" if "r' \<in> set (F @ [r])" for r' using that objsD(6) [OF o, of r'] i by auto
qed (use objsD [OF o] in blast)+

text \<open>An answer that the call gives itself.\<close>

lemma objs_refuse:
  assumes o: "objs R U heap pool F" and i: "R i = Some r" "U i" and q: "rqWg q = 0"
  shows "objs R (U(i := False)) (heap(r \<mapsto> q)) pool F"
proof (rule objsI)
  have n: "r \<notin> set F" by (rule objs_unsent [OF o i])
  show "wg_is (heap(r \<mapsto> q)) r' (if (U(i := False)) j \<or> r' \<in> set F then 1 else 0)" if "R j = Some r'" for j r'
    using objsD(2) [OF o that] objsD(3) [OF o that, of i] i that q n by (cases "j = i") auto
  show "wg_is (heap(r \<mapsto> q)) r' 0" if "r' \<in> pool" for r' using objsD(4) [OF o that] q by simp
  show "\<exists>j. R j = Some r' \<and> \<not> (U(i := False)) j" if "r' \<in> set F" for r' using objsD(6) [OF o that] by auto
qed (use objsD [OF o] in blast)+

text \<open>An answer of the write loop.\<close>

lemma objs_answer:
  assumes o: "objs R U heap pool (r # F)" and q: "rqWg q = 0"
  shows "objs R U (heap(r \<mapsto> q)) pool F"
proof (rule objsI)
  obtain i where i: "R i = Some r" "\<not> U i" using objsD(6) [OF o, of r] by auto
  have n: "r \<notin> set F" using objsD(5) [OF o] by simp
  show "wg_is (heap(r \<mapsto> q)) r' (if U j \<or> r' \<in> set F then 1 else 0)" if "R j = Some r'" for j r'
    using objsD(2) [OF o that] objsD(3) [OF o that, of i] i that q n by (cases "j = i") auto
  show "wg_is (heap(r \<mapsto> q)) r' 0" if "r' \<in> pool" for r' using objsD(4) [OF o that] q by simp
  show "\<exists>j. R j = Some r' \<and> \<not> U j" if "r' \<in> set F" for r' using objsD(6) [OF o, of r'] that by simp
qed (use objsD [OF o] in auto)

text \<open>The call returns and its object goes back to the pool; a new call takes one.\<close>

lemma objs_return:
  assumes o: "objs R U heap pool F" and i: "R i = Some r" "\<not> U i" "wg_is heap r 0" and q: "rqWg q = 0"
  shows "objs (R(i := None)) U (heap(r \<mapsto> q)) (insert r pool) F"
proof (rule objsI)
  have n: "r \<notin> set F" using objsD(2) [OF o i(1)] i(3) by (auto simp: wg_is_def split: if_splits)
  have other: "r' \<noteq> r" if "(R(i := None)) j = Some r'" for j r' using objsD(3) [OF o i(1), of j] that by (auto split: if_splits)
  show "r' \<notin> insert r pool" if "(R(i := None)) j = Some r'" for j r' using other [OF that] objsD(1) [OF o, of j r'] that by (auto split: if_splits)
  show "wg_is (heap(r \<mapsto> q)) r' (if U j \<or> r' \<in> set F then 1 else 0)" if "(R(i := None)) j = Some r'" for j r'
    using objsD(2) [OF o, of j r'] other [OF that] that by (auto split: if_splits)
  show "j = k" if "(R(i := None)) j = Some r'" "(R(i := None)) k = Some r'" for j k r' using objsD(3) [OF o, of j r' k] that by (auto split: if_splits)
  show "wg_is (heap(r \<mapsto> q)) r' 0" if "r' \<in> insert r pool" for r' using objsD(4) [OF o, of r'] that q by auto
  show "distinct F" using objsD(5) [OF o] .
  show "\<exists>j. (R(i := None)) j = Some r' \<and> \<not> U j" if "r' \<in> set F" for r' using objsD(6) [OF o that] n i(1) that by (metis fun_upd_other option.inject)
qed

lemma objs_call:
  assumes o: "objs R U heap pool F" and i: "R i = None" and r: "r \<in> pool \<or> heap r = None" and q: "rqWg q = 1"
  shows "objs (R(i \<mapsto> r)) (U(i := True)) (heap(r \<mapsto> q)) (pool - {r}) F"
proof (rule objsI)
  have free: "R j \<noteq> Some r" for j using objsD(1,2) [OF o, of j r] r by (auto simp: wg_is_def)
  then have n: "r \<notin> set F" using objsD(6) [OF o, of r] by blast
  show "r' \<notin> pool - {r}" if "(R(i \<mapsto> r)) j = Some r'" for j r' using objsD(1) [OF o, of j r'] that by (auto split: if_splits)
  show "wg_is (heap(r \<mapsto> q)) r' (if (U(i := True)) j \<or> r' \<in> set F then 1 else 0)" if "(R(i \<mapsto> r)) j = Some r'" for j r'
    using objsD(2) [OF o, of j r'] free [of j] that q by (auto split: if_splits)
  show "j = k" if "(R(i \<mapsto> r)) j = Some r'" "(R(i \<mapsto> r)) k = Some r'" for j k r' using objsD(3) [OF o, of j r' k] free that by (auto split: if_splits)
  show "wg_is (heap(r \<mapsto> q)) r' 0" if "r' \<in> pool - {r}" for r' using objsD(4) [OF o, of r'] that by auto
  show "distinct F" using objsD(5) [OF o] .
  show "\<exists>j. (R(i \<mapsto> r)) j = Some r' \<and> \<not> (U(i := True)) j" if "r' \<in> set F" for r' using objsD(6) [OF o that] i by (metis fun_upd_other option.distinct(1))
qed

section \<open>The invariant\<close>

fun counted :: "caller \<Rightarrow> bool" where
  "counted (Counted r) = True"
| "counted (Admitted r) = True"
| "counted (Sending r) = True"
| "counted (Leaving r e) = True"
| "counted _ = False"

text \<open>A call that may still send; and the write loop before and after it takes the nil.\<close>

fun inside :: "caller \<Rightarrow> bool" where
  "inside (Admitted r) = True"
| "inside (Sending r) = True"
| "inside _ = False"

fun notifies :: "caller \<Rightarrow> bool" where
  "notifies (Notifying r e) = True"
| "notifies _ = False"

fun running :: "writer \<Rightarrow> bool" where
  "running (Answering as c) = (\<not> c)"
| "running Ended = False"
| "running _ = True"

definition rids :: "caller list \<Rightarrow> nat \<Rightarrow> rid option" where
  "rids cs i = (if i < length cs then caller_rid (cs ! i) else None)"

definition unsents :: "caller list \<Rightarrow> nat \<Rightarrow> bool" where
  "unsents cs i = (i < length cs \<and> unsent (cs ! i))"

definition in_flight :: "subsys \<Rightarrow> rid list" where
  "in_flight s = writer_rids (sbWriter s) @ queued (sbCh s)"

definition num_counted :: "caller list \<Rightarrow> int" where
  "num_counted cs = (\<Sum>c \<leftarrow> cs. of_bool (counted c))"

text \<open>The flag that callers read is that of the database, and it is set when \<open>Close\<close> begins.\<close>

definition flags :: "DB \<Rightarrow> closer \<Rightarrow> bool" where
  "flags db c \<longleftrightarrow> rsClosed (dbRead db) = dbClosed db \<and> (dbClosed db \<longleftrightarrow> c \<noteq> NotClosing)"

definition nil_last :: "rid option list \<Rightarrow> closer \<Rightarrow> writer \<Rightarrow> bool" where
  "nil_last ch c w \<longleftrightarrow>
     (case c of
        Joining \<Rightarrow> (\<exists>xs. ch = map Some xs @ [None] \<and> running w) \<or> ch = [] \<and> \<not> running w
      | Stopped \<Rightarrow> ch = [] \<and> w = Ended
      | _ \<Rightarrow> (\<exists>xs. ch = map Some xs) \<and> running w)"

definition sub_inv :: "subsys \<Rightarrow> bool" where
  "sub_inv s \<longleftrightarrow> objs (rids (sbCallers s)) (unsents (sbCallers s)) (sbHeap s) (sbPool s) (in_flight s) \<and>
     sbCount s = num_counted (sbCallers s) \<and> flags (snd (sbSt s)) (sbCloser s) \<and> nil_last (sbCh s) (sbCloser s) (sbWriter s) \<and>
     (sbCloser s \<in> {SendNil, Joining, Stopped} \<longrightarrow> (\<forall>c \<in> set (sbCallers s). \<not> inside c)) \<and>
     (sbCloser s = Asleep \<longrightarrow> sbCount s \<noteq> 0 \<or> (\<exists>c \<in> set (sbCallers s). notifies c))"

lemma rids_update: "i < length cs \<Longrightarrow> rids (cs[i := c]) = (rids cs)(i := caller_rid c)"
  by (auto simp: rids_def fun_eq_iff nth_list_update)

lemma unsents_update: "i < length cs \<Longrightarrow> unsents (cs[i := c]) = (unsents cs)(i := unsent c)"
  by (auto simp: unsents_def fun_eq_iff nth_list_update)

lemma num_counted_update: "i < length cs \<Longrightarrow> num_counted (cs[i := c]) = num_counted cs + of_bool (counted c) - of_bool (counted (cs ! i))"
proof (induction cs arbitrary: i)
  case (Cons d cs)
  then show ?case by (cases i) (auto simp: num_counted_def)
qed simp

lemma num_counted_nonneg: "0 \<le> num_counted cs"
  by (induction cs) (auto simp: num_counted_def)

lemma num_counted_pos: "c \<in> set cs \<Longrightarrow> counted c \<Longrightarrow> 0 < num_counted cs"
proof (induction cs)
  case (Cons d cs)
  then show ?case using num_counted_nonneg [of cs] by (auto simp: num_counted_def)
qed simp

lemma num_counted_zero: "num_counted cs = 0 \<Longrightarrow> c \<in> set cs \<Longrightarrow> \<not> counted c"
  using num_counted_pos by fastforce

lemma num_counted_idle: "\<forall>c \<in> set cs. c = Idle \<Longrightarrow> num_counted cs = 0"
  by (induction cs) (simp_all add: num_counted_def)

lemma inside_counted: "inside c \<Longrightarrow> counted c"
  by (cases c) simp_all

text \<open>The database's side: the closed flag and the published one.\<close>

lemma setFlushErrIfNil_read: "setFlushErrIfNil e db = (db', x) \<Longrightarrow> rsClosed (dbRead db') = rsClosed (dbRead db)"
  by (auto simp: setFlushErrIfNil_def split: option.splits)

definition same_flag :: "DB \<Rightarrow> DB \<Rightarrow> bool" where
  "same_flag db db' \<longleftrightarrow> dbClosed db' = dbClosed db \<and> (rsClosed (dbRead db) = dbClosed db \<longrightarrow> rsClosed (dbRead db') = dbClosed db')"

lemma flags_same: "flags db c \<Longrightarrow> same_flag db db' \<Longrightarrow> flags db' c"
  by (auto simp: flags_def same_flag_def)

text \<open>Every change of the read state republishes the closed flag.\<close>

lemma rotateMemtable_flag: "rotateMemtable W st = Some (st', e) \<Longrightarrow> rsClosed (dbRead (snd st')) \<in> {rsClosed (dbRead (snd st)), dbClosed (snd st)}"
  by (auto simp: rotateMemtable_def Let_def publishReadStateLocked_def snapshotReadStateLocked_def split: prod.splits sum.splits option.splits Option.bind_splits)

lemma map_setFlushErrIfNil_read: "map_prod id f (setFlushErrIfNil e db) = (db', x) \<Longrightarrow> rsClosed (dbRead db') = rsClosed (dbRead db) \<and> dbClosed db' = dbClosed db"
  by (auto simp: setFlushErrIfNil_def split: option.splits)

lemma write_turn_flag: "write_turn W st b = Some (st', rs, g) \<Longrightarrow> rsClosed (dbRead (snd st')) \<in> {rsClosed (dbRead (snd st)), dbClosed (snd st)}"
  by (auto simp: write_turn_def Let_def split: prod.splits option.splits if_splits Option.bind_splits
      dest!: setFlushErrIfNil_read map_setFlushErrIfNil_read rotateMemtable_flag)

lemma processWriteBatch_same:
  assumes "processWriteBatch W st b = Some (st', rs)"
  shows "same_flag (snd st) (snd st')"
proof -
  have "processWriteBatch W (fst st, snd st) b = Some ((fst st', snd st'), rs)" using assms by simp
  moreover have "same_flag (snd st) db'" if "same_flag (snd st) db" "write_turn W (dk, db) c = Some ((dk', db'), xs, g)" for dk db c dk' db' xs g
    using that(1) write_turn_flag [OF that(2)] write_turn_closed [OF that(2)] by (auto simp: same_flag_def)
  moreover have "same_flag (snd st) (snd st)" by (simp add: same_flag_def)
  ultimately show ?thesis using processWriteBatch_keeps [of "\<lambda>_. same_flag (snd st)" W "fst st" "snd st"] by metis
qed

lemma installFlushedTable_flag: "installFlushedTable h now (dk, db) imm sst = ((dk', db'), e) \<Longrightarrow> rsClosed (dbRead db') \<in> {rsClosed (dbRead db), dbClosed db}"
  by (auto simp: installFlushedTable_def Let_def publishReadStateLocked_def snapshotReadStateLocked_def split: prod.splits option.splits sum.splits)

lemma syncValueLogForFlush_read: "syncValueLogForFlush db = Some (db', e) \<Longrightarrow> dbRead db' = dbRead db \<and> dbClosed db' = dbClosed db"
  by (auto simp: syncValueLogForFlush_def setFlushErrIfNil_def split: option.splits)

lemma fst_setFlushErrIfNil_read [simp]: "dbRead (fst (setFlushErrIfNil e db)) = dbRead db"
  by (auto simp: setFlushErrIfNil_def split: option.splits)

lemma flush_turn_flag: "flush_turn h W st = Some st' \<Longrightarrow> rsClosed (dbRead (snd st')) \<in> {rsClosed (dbRead (snd st)), dbClosed (snd st)}"
  by (auto simp: flush_turn_def Let_def split: prod.splits list.splits option.splits sum.splits if_splits Option.bind_splits
      dest!: installFlushedTable_flag syncValueLogForFlush_read)

lemma flush_turn_same: "flush_turn h W st = Some st' \<Longrightarrow> same_flag (snd st) (snd st')"
  using flush_turn_flag [of h W st st'] flush_turn_closed [of h W st st'] by (auto simp: same_flag_def)

lemma markClosed_flags: "markClosed db = (db', True) \<Longrightarrow> flags db' Locking \<and> \<not> dbClosed db"
  by (auto simp: markClosed_def flags_def publishReadStateLocked_def snapshotReadStateLocked_def split: if_splits)

section \<open>Every step keeps the invariant\<close>

lemma sub_invI:
  assumes "objs (rids (sbCallers s)) (unsents (sbCallers s)) (sbHeap s) (sbPool s) (in_flight s)" "sbCount s = num_counted (sbCallers s)"
    and "flags (snd (sbSt s)) (sbCloser s)" "nil_last (sbCh s) (sbCloser s) (sbWriter s)"
    and "sbCloser s \<in> {SendNil, Joining, Stopped} \<Longrightarrow> \<forall>c \<in> set (sbCallers s). \<not> inside c" "sbCloser s = Asleep \<Longrightarrow> sbCount s \<noteq> 0 \<or> (\<exists>c \<in> set (sbCallers s). notifies c)"
  shows "sub_inv s"
  using assms unfolding sub_inv_def by blast

lemma sub_invD:
  assumes "sub_inv s"
  shows "objs (rids (sbCallers s)) (unsents (sbCallers s)) (sbHeap s) (sbPool s) (in_flight s)" "sbCount s = num_counted (sbCallers s)"
    and "flags (snd (sbSt s)) (sbCloser s)" "nil_last (sbCh s) (sbCloser s) (sbWriter s)"
    and "sbCloser s \<in> {SendNil, Joining, Stopped} \<Longrightarrow> \<forall>c \<in> set (sbCallers s). \<not> inside c" "sbCloser s = Asleep \<Longrightarrow> sbCount s \<noteq> 0 \<or> (\<exists>c \<in> set (sbCallers s). notifies c)"
  using assms unfolding sub_inv_def by blast+

lemma rids_same: "i < length cs \<Longrightarrow> caller_rid c = caller_rid (cs ! i) \<Longrightarrow> rids (cs[i := c]) = rids cs"
  by (auto simp: rids_def fun_eq_iff nth_list_update)

lemma unsents_same: "i < length cs \<Longrightarrow> unsent c = unsent (cs ! i) \<Longrightarrow> unsents (cs[i := c]) = unsents cs"
  by (auto simp: unsents_def fun_eq_iff nth_list_update)

lemma inside_kept: "\<forall>c \<in> set cs. \<not> inside c \<Longrightarrow> \<not> inside c' \<Longrightarrow> \<forall>c \<in> set (cs[i := c']). \<not> inside c"
  using set_update_subset_insert [of cs i c'] by blast

lemma notifies_kept: "\<exists>c \<in> set cs. notifies c \<Longrightarrow> \<not> notifies (cs ! i) \<Longrightarrow> \<exists>c \<in> set (cs[i := c']). notifies c"
  by (metis in_set_conv_nth length_list_update nth_list_update_neq)

lemma in_flight_update [simp]: "in_flight (s\<lparr>sbCallers := cs\<rparr>) = in_flight s" "in_flight (s\<lparr>sbCount := n\<rparr>) = in_flight s" "in_flight (s\<lparr>sbCloser := c\<rparr>) = in_flight s"
  "in_flight (s\<lparr>sbHeap := heap\<rparr>) = in_flight s" "in_flight (s\<lparr>sbPool := pool\<rparr>) = in_flight s" "in_flight (s\<lparr>sbSt := st\<rparr>) = in_flight s"
  by (simp_all add: in_flight_def)

text \<open>A call that moves and keeps its object: what it does to the count, the channel and the object is given apart.\<close>

lemma caller_move:
  assumes inv: "sub_inv s" and i: "i < length (sbCallers s)" and now: "\<not> notifies (sbCallers s ! i)"
    and o: "objs (rids ((sbCallers s)[i := c])) (unsents ((sbCallers s)[i := c])) heap pool (writer_rids (sbWriter s) @ queued ch)"
    and n: "n = sbCount s + of_bool (counted c) - of_bool (counted (sbCallers s ! i))"
    and ch: "nil_last ch (sbCloser s) (sbWriter s)"
    and "in": "inside c \<Longrightarrow> sbCloser s \<notin> {SendNil, Joining, Stopped}" and wake: "n = 0 \<Longrightarrow> sbCount s \<noteq> 0 \<Longrightarrow> notifies c"
  shows "sub_inv (s\<lparr>sbHeap := heap, sbPool := pool, sbCount := n, sbCh := ch, sbCallers := (sbCallers s)[i := c]\<rparr>)"
proof (rule sub_invI)
  let ?s = "s\<lparr>sbHeap := heap, sbPool := pool, sbCount := n, sbCh := ch, sbCallers := (sbCallers s)[i := c]\<rparr>"
  show "objs (rids (sbCallers ?s)) (unsents (sbCallers ?s)) (sbHeap ?s) (sbPool ?s) (in_flight ?s)" using o by (simp add: in_flight_def)
  show "sbCount ?s = num_counted (sbCallers ?s)" using sub_invD(2) [OF inv] n by (simp add: num_counted_update i)
  show "flags (snd (sbSt ?s)) (sbCloser ?s)" using sub_invD(3) [OF inv] by simp
  show "nil_last (sbCh ?s) (sbCloser ?s) (sbWriter ?s)" using ch by simp
  show "\<forall>c \<in> set (sbCallers ?s). \<not> inside c" if "sbCloser ?s \<in> {SendNil, Joining, Stopped}"
    using inside_kept [OF sub_invD(5) [OF inv]] that "in" by auto
  show "sbCount ?s \<noteq> 0 \<or> (\<exists>c \<in> set (sbCallers ?s). notifies c)" if a: "sbCloser ?s = Asleep"
  proof (cases "n = 0 \<and> sbCount s = 0")
    case True
    then have "\<exists>c \<in> set (sbCallers s). notifies c" using sub_invD(6) [OF inv] a by simp
    then show ?thesis using notifies_kept [OF _ now] by simp
  next
    case False
    then show ?thesis using wake i by (auto simp: set_update_memI)
  qed
qed

text \<open>When the move also keeps whether the request is unsent.\<close>

lemma caller_walk:
  assumes inv: "sub_inv s" and i: "i < length (sbCallers s)" and now: "\<not> notifies (sbCallers s ! i)" and r: "caller_rid c = caller_rid (sbCallers s ! i)" "unsent c = unsent (sbCallers s ! i)"
    and n: "n = sbCount s + of_bool (counted c) - of_bool (counted (sbCallers s ! i))"
    and "in": "inside c \<Longrightarrow> sbCloser s \<notin> {SendNil, Joining, Stopped}" and wake: "n = 0 \<Longrightarrow> sbCount s \<noteq> 0 \<Longrightarrow> notifies c"
  shows "sub_inv (s\<lparr>sbCount := n, sbCallers := (sbCallers s)[i := c]\<rparr>)"
proof -
  have "objs (rids ((sbCallers s)[i := c])) (unsents ((sbCallers s)[i := c])) (sbHeap s) (sbPool s) (writer_rids (sbWriter s) @ queued (sbCh s))"
    using sub_invD(1) [OF inv] by (simp add: rids_same [OF i r(1)] unsents_same [OF i r(2)] in_flight_def)
  from caller_move [OF inv i now this n sub_invD(4) [OF inv] "in" wake] show ?thesis by simp
qed

lemma wg_answer:
  assumes "wg_is (sbHeap s) r 1"
  obtains q where "sbHeap s r = Some q" "finish_req r e s = Some (s\<lparr>sbHeap := (sbHeap s)(r \<mapsto> q\<lparr>rqErr := e, rqWg := 0\<rparr>)\<rparr>)"
  using assms that by (auto simp: wg_is_def finish_req_def req_finish_def)

lemma own_object:
  assumes "sub_inv s" "i < length (sbCallers s)" "caller_rid (sbCallers s ! i) = Some r"
  shows "wg_is (sbHeap s) r (if unsent (sbCallers s ! i) \<or> r \<in> set (in_flight s) then 1 else 0)" "rids (sbCallers s) i = Some r"
    "unsents (sbCallers s) i = unsent (sbCallers s ! i)"
  using objsD(2) [OF sub_invD(1) [OF assms(1)], of i r] assms(2,3) by (simp_all add: rids_def unsents_def)

lemma inside_open: "sub_inv s \<Longrightarrow> i < length (sbCallers s) \<Longrightarrow> inside (sbCallers s ! i) \<Longrightarrow> sbCloser s \<notin> {SendNil, Joining, Stopped}"
  using sub_invD(5) nth_mem by blast

lemma open_NotClosing: "sub_inv s \<Longrightarrow> \<not> rsClosed (dbRead (snd (sbSt s))) \<Longrightarrow> sbCloser s = NotClosing"
  using sub_invD(3) by (simp add: flags_def)

lemma nil_last_open: "c \<notin> {Joining, Stopped} \<Longrightarrow> nil_last ch c w \<longleftrightarrow> (\<exists>xs. ch = map Some xs) \<and> running w"
  by (cases c) (simp_all add: nil_last_def)

lemma nil_last_append:
  assumes n: "nil_last ch c w" and c: "c \<notin> {Joining, Stopped}"
  shows "nil_last (ch @ [Some r]) c w"
proof -
  obtain xs where "ch = map Some xs" "running w" using n nil_last_open [OF c] by auto
  then have "ch @ [Some r] = map Some (xs @ [r])" "running w" by simp_all
  then show ?thesis using nil_last_open [OF c] by blast
qed

lemma sending_inv:
  assumes inv: "sub_inv s" and i: "i < length (sbCallers s)" and c: "sbCallers s ! i = Sending r"
  shows "sub_inv (s\<lparr>sbCh := sbCh s @ [Some r], sbCallers := (sbCallers s)[i := Leaving r None]\<rparr>)"
proof -
  note own = own_object [OF inv i, of r]
  have "objs (rids (sbCallers s)) ((unsents (sbCallers s))(i := False)) (sbHeap s) (sbPool s) (in_flight s @ [r])"
    using objs_send [OF sub_invD(1) [OF inv], of i r] own c by simp
  then have o: "objs (rids ((sbCallers s)[i := Leaving r None])) (unsents ((sbCallers s)[i := Leaving r None])) (sbHeap s) (sbPool s) (writer_rids (sbWriter s) @ queued (sbCh s @ [Some r]))"
    by (simp add: rids_same [OF i] unsents_update [OF i] c in_flight_def)
  have "sbCloser s \<notin> {Joining, Stopped}" using inside_open [OF inv i] c by simp
  from nil_last_append [OF sub_invD(4) [OF inv] this] have "nil_last (sbCh s @ [Some r]) (sbCloser s) (sbWriter s)" .
  from caller_move [OF inv i _ o refl this] show ?thesis by (simp add: c)
qed

lemma ending_inv:
  assumes inv: "sub_inv s" and i: "i < length (sbCallers s)" and c: "sbCallers s ! i = Ending r (Some e)" and q: "rqWg q = 0"
  shows "sub_inv (s\<lparr>sbHeap := (sbHeap s)(r \<mapsto> q), sbCallers := (sbCallers s)[i := Awaiting r]\<rparr>)"
proof -
  note own = own_object [OF inv i, of r]
  have "objs (rids (sbCallers s)) ((unsents (sbCallers s))(i := False)) ((sbHeap s)(r \<mapsto> q)) (sbPool s) (in_flight s)"
    using objs_refuse [OF sub_invD(1) [OF inv], of i r q] own c q by simp
  then have o: "objs (rids ((sbCallers s)[i := Awaiting r])) (unsents ((sbCallers s)[i := Awaiting r])) ((sbHeap s)(r \<mapsto> q)) (sbPool s) (writer_rids (sbWriter s) @ queued (sbCh s))"
    by (simp add: rids_same [OF i] unsents_update [OF i] c in_flight_def)
  from caller_move [OF inv i _ o refl sub_invD(4) [OF inv]] show ?thesis by (simp add: c)
qed

lemma waiting_inv:
  assumes inv: "sub_inv s" and i: "i < length (sbCallers s)" and c: "sbCallers s ! i = Awaiting r" and q: "sbHeap s r = Some q" "rqWg q = 0"
  shows "sub_inv (s\<lparr>sbHeap := (sbHeap s)(r \<mapsto> req_reset q), sbPool := insert r (sbPool s), sbCallers := (sbCallers s)[i := Idle]\<rparr>)"
proof -
  note own = own_object [OF inv i, of r]
  have "objs ((rids (sbCallers s))(i := None)) (unsents (sbCallers s)) ((sbHeap s)(r \<mapsto> req_reset q)) (insert r (sbPool s)) (in_flight s)"
    using objs_return [OF sub_invD(1) [OF inv], of i r "req_reset q"] own c q by (simp add: wg_is_def req_reset_def)
  then have o: "objs (rids ((sbCallers s)[i := Idle])) (unsents ((sbCallers s)[i := Idle])) ((sbHeap s)(r \<mapsto> req_reset q)) (insert r (sbPool s)) (writer_rids (sbWriter s) @ queued (sbCh s))"
    by (simp add: rids_update [OF i] unsents_same [OF i] c in_flight_def)
  from caller_move [OF inv i _ o refl sub_invD(4) [OF inv]] show ?thesis by (simp add: c)
qed

lemma notifying_inv:
  assumes inv: "sub_inv s" and i: "i < length (sbCallers s)" and c: "sbCallers s ! i = Notifying r e"
  shows "sub_inv (s\<lparr>sbCloser := (if sbCloser s = Asleep then Locking else sbCloser s), sbCallers := (sbCallers s)[i := Ending r e]\<rparr>)" (is "sub_inv ?s")
proof (rule sub_invI)
  show "objs (rids (sbCallers ?s)) (unsents (sbCallers ?s)) (sbHeap ?s) (sbPool ?s) (in_flight ?s)"
    using sub_invD(1) [OF inv] by (simp add: rids_same [OF i] unsents_same [OF i] c in_flight_def)
  show "sbCount ?s = num_counted (sbCallers ?s)" using sub_invD(2) [OF inv] by (simp add: num_counted_update i c)
  show "flags (snd (sbSt ?s)) (sbCloser ?s)" using sub_invD(3) [OF inv] by (simp add: flags_def)
  show "nil_last (sbCh ?s) (sbCloser ?s) (sbWriter ?s)" using sub_invD(4) [OF inv] by (simp add: nil_last_def split: closer.splits)
  show "\<forall>c \<in> set (sbCallers ?s). \<not> inside c" if "sbCloser ?s \<in> {SendNil, Joining, Stopped}"
    using inside_kept [OF sub_invD(5) [OF inv], of "Ending r e" i] that by (auto split: if_splits)
qed (auto split: if_splits)

lemma caller_turn_inv:
  assumes inv: "sub_inv s" and i: "i < length (sbCallers s)" and t: "caller_turn i s = Some s'"
  shows "sub_inv s'"
proof (cases "sbCallers s ! i")
  case Idle
  then show ?thesis using t by (simp add: caller_turn_defs)
next
  case (Acquired r)
  have "0 \<le> sbCount s" using sub_invD(2) [OF inv] num_counted_nonneg by simp
  then show ?thesis using t caller_walk [OF inv i, of "Counted r" "sbCount s + 1"] Acquired by (simp add: caller_turn_defs)
next
  case (Counted r)
  show ?thesis using t caller_walk [OF inv i, of "if beginSubmit_check s then Admitted r else Leaving r (Some ErrDbClosed)" "sbCount s"] Counted open_NotClosing [OF inv]
    by (simp add: caller_turn_defs split: if_splits)
next
  case (Admitted r)
  show ?thesis using t caller_walk [OF inv i, of "case dbFlushErr (snd (sbSt s)) of Some e \<Rightarrow> Leaving r (Some e) | None \<Rightarrow> Sending r" "sbCount s"] Admitted inside_open [OF inv i]
    by (simp add: caller_turn_defs split: option.splits)
next
  case (Sending r)
  then show ?thesis using t sending_inv [OF inv i] by (auto simp: caller_turn_defs split: if_splits)
next
  case (Leaving r e)
  show ?thesis using t caller_walk [OF inv i, of "if sbCount s - 1 \<noteq> 0 then Ending r e else Notifying r e" "sbCount s - 1"] Leaving by (simp add: caller_turn_defs split: if_splits)
next
  case (Notifying r e)
  then show ?thesis using t notifying_inv [OF inv i] by (auto simp: caller_turn_defs split: if_splits)
next
  case (Ending r e)
  show ?thesis
  proof (cases e)
    case None
    then show ?thesis using t caller_walk [OF inv i, of "Awaiting r" "sbCount s"] Ending by (simp add: caller_turn_defs)
  next
    case (Some x)
    have "wg_is (sbHeap s) r 1" using own_object(1) [OF inv i, of r] Ending Some by simp
    then obtain q where "finish_req r e s = Some (s\<lparr>sbHeap := (sbHeap s)(r \<mapsto> q\<lparr>rqErr := e, rqWg := 0\<rparr>)\<rparr>)" by (rule wg_answer)
    then show ?thesis using t ending_inv [OF inv i Ending [unfolded Some], of "q\<lparr>rqErr := e, rqWg := 0\<rparr>"] Ending Some by (auto simp: caller_turn_defs)
  qed
next
  case (Awaiting r)
  then show ?thesis using t waiting_inv [OF inv i Awaiting] by (auto simp: caller_turn_defs split: option.splits if_splits)
qed

lemma closer_turn_inv:
  assumes inv: "sub_inv s" and t: "closer_turn s = Some s'"
  shows "sub_inv s'"
proof -
  note d = sub_invD [OF inv]
  have nobody: "\<forall>c \<in> set (sbCallers s). \<not> inside c" if "sbCount s = 0" using num_counted_zero [of "sbCallers s"] d(2) that inside_counted by auto
  show ?thesis
  proof (cases "sbCloser s")
    case SendNil
    then have "\<exists>xs. sbCh s = map Some xs" "running (sbWriter s)" using d(4) by (simp_all add: nil_last_def)
    then show ?thesis using t d(1-3,5) SendNil by (auto simp: closer_turn_def waitForSubmitters_def sub_inv_def in_flight_def flags_def nil_last_def split: if_splits)
  next
    case Joining
    then have "sbCh s = []" if "sbWriter s = Ended" using d(4) that by (simp add: nil_last_def)
    then show ?thesis using t d(1-3,5) Joining by (auto simp: closer_turn_def waitForSubmitters_def sub_inv_def in_flight_def flags_def nil_last_def split: if_splits)
  qed (use t d nobody in \<open>auto simp: closer_turn_def waitForSubmitters_def sub_inv_def flags_def nil_last_def split: if_splits\<close>)
qed

lemma nil_last_take: "nil_last (Some r # ch) c w \<Longrightarrow> running w' \<Longrightarrow> nil_last ch c w'"
  by (cases c) (auto simp: nil_last_def Cons_eq_append_conv Cons_eq_map_conv)

lemma nil_last_nil: "nil_last (None # ch) c w \<Longrightarrow> \<not> running w' \<Longrightarrow> ch = [] \<and> nil_last ch c w'"
  by (cases c) (auto simp: nil_last_def Cons_eq_append_conv Cons_eq_map_conv)

lemma nil_last_running: "nil_last ch c w \<Longrightarrow> w \<noteq> Ended \<Longrightarrow> running w' = running w \<Longrightarrow> nil_last ch c w'"
  by (cases c) (auto simp: nil_last_def)

text \<open>A move of the write loop.\<close>

lemma writer_move:
  assumes inv: "sub_inv s" and o: "objs (rids (sbCallers s)) (unsents (sbCallers s)) heap (sbPool s) (writer_rids w @ queued ch)"
    and n: "nil_last ch (sbCloser s) w" and f: "same_flag (snd (sbSt s)) (snd st)"
  shows "sub_inv (s\<lparr>sbSt := st, sbHeap := heap, sbCh := ch, sbWriter := w\<rparr>)"
  using sub_invD [OF inv] o n flags_same [OF sub_invD(3) [OF inv] f] by (intro sub_invI) (simp_all add: in_flight_def)

lemma same_flag_refl [simp]: "same_flag db db"
  by (simp add: same_flag_def)

lemma process_batch_inv:
  assumes inv: "sub_inv s" and p: "process_batch W (s\<lparr>sbCh := ch\<rparr>) rs closing = Some s'"
    and q: "writer_rids (sbWriter s) = rs" "queued ch = queued (sbCh s)" and n: "nil_last ch (sbCloser s) (Answering [] closing)"
  shows "sub_inv s'"
proof -
  obtain st es where b: "processWriteBatch W (sbSt s) (map (req_of (s\<lparr>sbCh := ch\<rparr>)) rs) = Some (st, es)" and s': "s' = s\<lparr>sbSt := st, sbCh := ch, sbWriter := Answering (zip rs es) closing\<rparr>"
    using p by (auto simp: process_batch_def)
  have "length es = length rs" using b by (metis length_map processWriteBatch_length)
  then have o: "objs (rids (sbCallers s)) (unsents (sbCallers s)) (sbHeap s) (sbPool s) (writer_rids (Answering (zip rs es) closing) @ queued ch)"
    using sub_invD(1) [OF inv] q by (simp add: in_flight_def)
  have "nil_last ch (sbCloser s) (Answering (zip rs es) closing)" by (rule nil_last_running [OF n]) simp_all
  from writer_move [OF inv o this processWriteBatch_same [OF b]] show ?thesis by (simp add: s')
qed

lemma answer_inv:
  assumes inv: "sub_inv s" and w: "sbWriter s = Answering ((r, e) # as) closing"
  obtains q where "finish_req r e s = Some (s\<lparr>sbHeap := (sbHeap s)(r \<mapsto> q)\<rparr>)" "sub_inv (s\<lparr>sbHeap := (sbHeap s)(r \<mapsto> q), sbWriter := Answering as closing\<rparr>)"
proof -
  note o = sub_invD(1) [OF inv]
  have f: "in_flight s = r # writer_rids (Answering as closing) @ queued (sbCh s)" by (simp add: in_flight_def w)
  obtain i where "rids (sbCallers s) i = Some r" using objsD(6) [OF o, of r] f by auto
  then have "wg_is (sbHeap s) r 1" using objsD(2) [OF o, of i r] f by simp
  then obtain q where q: "finish_req r e s = Some (s\<lparr>sbHeap := (sbHeap s)(r \<mapsto> q\<lparr>rqErr := e, rqWg := 0\<rparr>)\<rparr>)" by (rule wg_answer)
  let ?h = "(sbHeap s)(r \<mapsto> q\<lparr>rqErr := e, rqWg := 0\<rparr>)"
  have "objs (rids (sbCallers s)) (unsents (sbCallers s)) ?h (sbPool s) (writer_rids (Answering as closing) @ queued (sbCh s))"
    using objs_answer [OF o [unfolded f]] by simp
  moreover have "nil_last (sbCh s) (sbCloser s) (Answering as closing)" using nil_last_running [OF sub_invD(4) [OF inv], of "Answering as closing"] w by simp
  ultimately have "sub_inv (s\<lparr>sbSt := sbSt s, sbHeap := ?h, sbCh := sbCh s, sbWriter := Answering as closing\<rparr>)" by (intro writer_move [OF inv]) simp_all
  then show ?thesis using that [OF q] by simp
qed

lemma writer_turn_inv:
  assumes inv: "sub_inv s" and t: "writer_turn W s = Some s'"
  shows "sub_inv s'"
proof -
  note n = sub_invD(4) [OF inv]
  have walk: "sub_inv (s\<lparr>sbCh := ch, sbWriter := w\<rparr>)" if "writer_rids w @ queued ch = in_flight s" "nil_last ch (sbCloser s) w" for ch w
    using writer_move [OF inv _ that(2), of "sbHeap s" "sbSt s"] that(1) sub_invD(1) [OF inv] by simp
  have stay: "sub_inv (s\<lparr>sbWriter := w\<rparr>)" if "writer_rids w @ queued (sbCh s) = in_flight s" "nil_last (sbCh s) (sbCloser s) w" for w
    using walk [OF that] by simp
  have go: "sub_inv s1" if "process_batch W s rs False = Some s1" "writer_rids (sbWriter s) = rs" "running (sbWriter s)" for rs s1
    using process_batch_inv [OF inv, of W "sbCh s" rs False s1] that nil_last_running [OF n, of "Answering [] False"] by (cases "sbWriter s") simp_all
  have stop: "sub_inv s1" if "process_batch W (s\<lparr>sbCh := ch\<rparr>) rs True = Some s1" "sbCh s = None # ch" "writer_rids (sbWriter s) = rs" for rs ch s1
  proof -
    have "ch = [] \<and> nil_last ch (sbCloser s) (Answering [] True)" by (rule nil_last_nil [OF n [unfolded that(2)]]) simp
    then show ?thesis using process_batch_inv [OF inv that(1) that(3)] that(2) by auto
  qed
  show ?thesis
  proof (cases "sbWriter s")
    case Ready
    then show ?thesis using t walk n nil_last_nil [of _ _ Ready Ended] nil_last_take [of _ _ _ Ready "Collecting _ False"]
      by (auto simp: writer_turn_def in_flight_def split: list.splits option.splits)
  next
    case (Collecting rs w)
    show ?thesis
    proof (cases "sbCh s")
      case Nil
      then show ?thesis using t Collecting go stay [of "Drained rs"] nil_last_running [OF n, of "Drained rs"] by (auto simp: writer_turn_def in_flight_def split: if_splits)
    next
      case (Cons x ch)
      then show ?thesis using t Collecting go stop walk [of _ ch] nil_last_take [of _ ch _ "Collecting rs w" "Collecting _ w"] n
        by (auto simp: writer_turn_def in_flight_def split: option.splits if_splits)
    qed
  next
    case (Drained rs)
    then show ?thesis using t go stay [of "Collecting rs True"] nil_last_running [OF n, of "Collecting rs True"] by (auto simp: writer_turn_def in_flight_def split: if_splits)
  next
    case (Answering as closing)
    show ?thesis
    proof (cases as)
      case Nil
      then show ?thesis using t Answering stay [of "if closing then Ended else Ready"] nil_last_running [OF n, of "if closing then Ended else Ready"]
        by (auto simp: writer_turn_def in_flight_def split: if_splits)
    next
      case (Cons a as')
      obtain r e where "a = (r, e)" by (cases a)
      then have w: "sbWriter s = Answering ((r, e) # as') closing" using Answering Cons by simp
      show ?thesis by (rule answer_inv [OF inv w]) (use t in \<open>auto simp: writer_turn_def w\<close>)
    qed
  next
    case Ended
    then show ?thesis using t by (simp add: writer_turn_def)
  qed
qed

lemma sub_step_inv: "sub_step W s s' \<Longrightarrow> sub_inv s \<Longrightarrow> sub_inv s'"
  by (induction rule: sub_step.induct) (auto intro: caller_turn_inv closer_turn_inv writer_turn_inv)

lemma call_inv:
  assumes inv: "sub_inv s" and i: "i < length (sbCallers s)" "sbCallers s ! i = Idle" and r: "r \<in> sbPool s \<or> sbHeap s r = None"
  shows "sub_inv (s\<lparr>sbHeap := (sbHeap s)(r \<mapsto> acquireWriteRequest key val (case sbHeap s r of Some req \<Rightarrow> req | None \<Rightarrow> new_request)),
    sbPool := sbPool s - {r}, sbCallers := (sbCallers s)[i := Acquired r]\<rparr>)"
proof -
  let ?q = "acquireWriteRequest key val (case sbHeap s r of Some req \<Rightarrow> req | None \<Rightarrow> new_request)"
  note o = sub_invD(1) [OF inv]
  have q: "rqWg ?q = 1" using r objsD(4) [OF o, of r] by (auto simp: acquireWriteRequest_def new_request_def wg_is_def split: option.splits)
  have "rids (sbCallers s) i = None" using i by (simp add: rids_def)
  from objs_call [OF o this r q]
  have "objs (rids ((sbCallers s)[i := Acquired r])) (unsents ((sbCallers s)[i := Acquired r])) ((sbHeap s)(r \<mapsto> ?q)) (sbPool s - {r}) (writer_rids (sbWriter s) @ queued (sbCh s))"
    by (simp add: rids_update unsents_update i in_flight_def)
  from caller_move [OF inv i(1) _ this refl sub_invD(4) [OF inv]] show ?thesis by (simp add: i)
qed

lemma close_inv:
  assumes inv: "sub_inv s" and m: "markClosed (snd (sbSt s)) = (db, True)"
  shows "sub_inv (s\<lparr>sbSt := (fst (sbSt s), db), sbCloser := Locking\<rparr>)"
proof -
  note d = sub_invD [OF inv]
  have c: "sbCloser s = NotClosing" using d(3) markClosed_flags [OF m] by (simp add: flags_def)
  show ?thesis using d(1,2,4) c markClosed_flags [OF m] by (intro sub_invI) (simp_all add: nil_last_def in_flight_def)
qed

lemma sub_event_inv: "sub_event h W s s' \<Longrightarrow> sub_inv s \<Longrightarrow> sub_inv s'"
proof (induction rule: sub_event.induct)
  case (flush s st)
  note d = sub_invD [OF flush(2)]
  show ?case using d(1,2,4-6) flags_same [OF d(3) flush_turn_same [OF flush(1)]] by (intro sub_invI) (simp_all add: in_flight_def)
qed (auto intro: sub_step_inv call_inv close_inv)

lemma sub_init_inv:
  assumes "sub_init s"
  shows "sub_inv s"
proof (rule sub_invI)
  have "rids (sbCallers s) = (\<lambda>_. None)" using assms nth_mem by (fastforce simp: rids_def sub_init_def)
  then show "objs (rids (sbCallers s)) (unsents (sbCallers s)) (sbHeap s) (sbPool s) (in_flight s)"
    using assms by (intro objsI) (simp_all add: sub_init_def in_flight_def)
  show "sbCount s = num_counted (sbCallers s)" using assms by (simp add: sub_init_def num_counted_idle)
qed (use assms in \<open>auto simp: sub_init_def flags_def nil_last_def\<close>)

lemma sub_reach_inv: "(sub_event h W)\<^sup>*\<^sup>* s0 s \<Longrightarrow> sub_init s0 \<Longrightarrow> sub_inv s"
  by (induction rule: rtranclp_induct) (auto intro: sub_init_inv sub_event_inv)

section \<open>Every call returns\<close>

text \<open>The work that is left: what a call, \<open>Close\<close>, the write loop and a request in the channel still do when no new call starts.\<close>

fun caller_work :: "caller \<Rightarrow> nat" where
  "caller_work Idle = 0"
| "caller_work (Acquired r) = 17"
| "caller_work (Counted r) = 16"
| "caller_work (Admitted r) = 15"
| "caller_work (Sending r) = 14"
| "caller_work (Leaving r e) = 6"
| "caller_work (Notifying r e) = 5"
| "caller_work (Ending r e) = 2"
| "caller_work (Awaiting r) = 1"

fun closer_work :: "closer \<Rightarrow> nat" where
  "closer_work NotClosing = 0"
| "closer_work Locking = 12"
| "closer_work Holding = 11"
| "closer_work Asleep = 10"
| "closer_work SendNil = 9"
| "closer_work Joining = 1"
| "closer_work Stopped = 0"

fun writer_work :: "writer \<Rightarrow> nat" where
  "writer_work Ready = 0"
| "writer_work (Collecting rs slept) = (if slept then 2 else 4) + 2 * length rs"
| "writer_work (Drained rs) = 3 + 2 * length rs"
| "writer_work (Answering as closing) = 1 + 2 * length as"
| "writer_work Ended = 0"

definition work :: "subsys \<Rightarrow> nat" where
  "work s = sum_list (map caller_work (sbCallers s)) + closer_work (sbCloser s) + writer_work (sbWriter s) + 7 * length (sbCh s)"

lemma callers_work: "i < length cs \<Longrightarrow> sum_list (map caller_work (cs[i := c])) + caller_work (cs ! i) = sum_list (map caller_work cs) + caller_work c"
proof (induction cs arbitrary: i)
  case (Cons d cs)
  then show ?case by (cases i) auto
qed simp

lemma finish_req_frame: "finish_req r e s = Some t \<Longrightarrow> \<exists>heap. t = s\<lparr>sbHeap := heap\<rparr>"
  by (auto simp: finish_req_def split: Option.bind_splits)

lemma process_batch_work: "process_batch W s rs closing = Some s' \<Longrightarrow> sbCallers s' = sbCallers s \<and> sbCloser s' = sbCloser s \<and> sbCh s' = sbCh s \<and> writer_work (sbWriter s') = 1 + 2 * length rs"
  by (auto simp: process_batch_def dest!: processWriteBatch_length)

lemma caller_turn_work:
  assumes i: "i < length (sbCallers s)" and t: "caller_turn i s = Some s'"
  shows "work s' < work s"
proof -
  have w: "sum_list (map caller_work ((sbCallers s)[i := c])) + caller_work (sbCallers s ! i) = sum_list (map caller_work (sbCallers s)) + caller_work c" for c by (rule callers_work [OF i])
  show ?thesis using t w [of "sbCallers s' ! i"] i
    by (auto simp: caller_turn_defs work_def split: caller.splits if_splits option.splits dest!: finish_req_frame)
qed

lemma closer_turn_work: "closer_turn s = Some s' \<Longrightarrow> work s' < work s"
  by (auto simp: closer_turn_def waitForSubmitters_def work_def split: closer.splits if_splits)

lemma writer_turn_work: "writer_turn W s = Some s' \<Longrightarrow> work s' < work s"
  by (auto simp: writer_turn_def work_def split: writer.splits list.splits option.splits if_splits prod.splits dest!: finish_req_frame process_batch_work)

lemma sub_step_work: "sub_step W s s' \<Longrightarrow> work s' < work s"
  by (induction rule: sub_step.induct) (auto intro: caller_turn_work closer_turn_work writer_turn_work)

text \<open>Where steps stop: nobody is in a call, and \<open>Close\<close> has not begun or has its writes stopped.\<close>

definition quiet :: "subsys \<Rightarrow> bool" where
  "quiet s \<longleftrightarrow> (\<forall>c \<in> set (sbCallers s). c = Idle) \<and> sbCh s = [] \<and> (sbCloser s = NotClosing \<and> sbWriter s = Ready \<or> sbCloser s = Stopped \<and> sbWriter s = Ended)"

fun batch_rids :: "writer \<Rightarrow> rid list option" where
  "batch_rids (Collecting rs slept) = Some rs"
| "batch_rids (Drained rs) = Some rs"
| "batch_rids _ = None"

definition batch_panics :: "world \<Rightarrow> subsys \<Rightarrow> bool" where
  "batch_panics W s \<longleftrightarrow> (case batch_rids (sbWriter s) of None \<Rightarrow> False | Some rs \<Rightarrow> processWriteBatch W (sbSt s) (map (req_of s) rs) = None)"

lemma writer_moves:
  assumes inv: "sub_inv s"
  shows "(\<exists>t. writer_turn W s = Some t) \<or> batch_panics W s \<or> in_flight s = [] \<and> (sbWriter s = Ready \<and> sbCh s = [] \<or> sbWriter s = Ended)"
proof -
  have p: "(\<exists>t. process_batch W s' rs closing = Some t) \<or> batch_panics W s" if "batch_rids (sbWriter s) = Some rs" "sbSt s' = sbSt s" "sbHeap s' = sbHeap s" for s' rs closing
  proof -
    have "req_of s' = req_of s" using that(3) by (simp add: req_of_def fun_eq_iff)
    then show ?thesis using that(1,2) by (cases "processWriteBatch W (sbSt s) (map (req_of s) rs)") (simp_all add: process_batch_def batch_panics_def split_beta)
  qed
  show ?thesis
  proof (cases "sbWriter s")
    case Ready
    then show ?thesis by (auto simp: writer_turn_def in_flight_def split: list.splits option.splits)
  next
    case (Collecting rs slept)
    then show ?thesis using p [of rs s False] p [of rs "s\<lparr>sbCh := tl (sbCh s)\<rparr>" True] by (auto simp: writer_turn_def split: list.splits option.splits)
  next
    case (Drained rs)
    then show ?thesis using p [of rs s False] by (auto simp: writer_turn_def)
  next
    case (Answering as closing)
    show ?thesis
    proof (cases as)
      case Nil
      then show ?thesis by (simp add: writer_turn_def Answering)
    next
      case (Cons a as')
      obtain r e where "a = (r, e)" by (cases a)
      then have w: "sbWriter s = Answering ((r, e) # as') closing" using Answering Cons by simp
      show ?thesis by (rule answer_inv [OF inv w]) (simp add: writer_turn_def w)
    qed
  next
    case Ended
    then have "sbCh s = []" using sub_invD(4) [OF inv] by (auto simp: nil_last_def split: closer.splits)
    then show ?thesis using Ended by (simp add: in_flight_def)
  qed
qed

lemma caller_moves:
  assumes inv: "sub_inv s" and f: "in_flight s = []" "sbCh s = []" and i: "i < length (sbCallers s)" "sbCallers s ! i \<noteq> Idle"
  shows "(\<exists>t. caller_turn i s = Some t) \<or> sbCloser s = Holding"
proof (cases "sbCallers s ! i")
  case (Ending r e)
  show ?thesis
  proof (cases e)
    case (Some x)
    have "wg_is (sbHeap s) r 1" using own_object(1) [OF inv i(1), of r] Ending Some by simp
    then show ?thesis by (rule wg_answer [where e = e]) (simp add: caller_turn_defs Ending Some)
  qed (simp add: caller_turn_defs Ending)
next
  case (Awaiting r)
  then have "wg_is (sbHeap s) r 0" using own_object(1) [OF inv i(1), of r] f by simp
  then show ?thesis by (auto simp: caller_turn_defs Awaiting wg_is_def)
qed (use i f in \<open>simp_all add: caller_turn_defs writeChCap_def\<close>)

lemma sub_progress:
  assumes inv: "sub_inv s" and stuck: "\<And>t. \<not> sub_step W s t"
  shows "batch_panics W s \<or> quiet s"
proof (cases "batch_panics W s")
  case False
  have no: "writer_turn W s \<noteq> Some t" "closer_turn s \<noteq> Some t" "i < length (sbCallers s) \<Longrightarrow> caller_turn i s \<noteq> Some t" for t i
    using stuck [of t] by (auto intro: sub_step.intros)
  have f: "in_flight s = []" and w: "sbWriter s = Ready \<and> sbCh s = [] \<or> sbWriter s = Ended" using writer_moves [OF inv, of W] no(1) False by auto
  note n = sub_invD(4) [OF inv]
  have ch: "sbCh s = []" using w n by (auto simp: nil_last_def split: closer.splits)
  have c: "closer_turn s = None" using no(2) by (cases "closer_turn s") auto
  then have h: "sbCloser s \<noteq> Holding" by (auto simp: closer_turn_def waitForSubmitters_def)
  have idle: "sbCallers s ! i = Idle" if "i < length (sbCallers s)" for i using caller_moves [OF inv f ch that] no(3) [OF that] h by auto
  then have all: "\<forall>c \<in> set (sbCallers s). c = Idle" by (metis in_set_conv_nth)
  have "sbCount s = 0" using num_counted_idle [OF all] sub_invD(2) [OF inv] by simp
  then have "sbCloser s \<noteq> Asleep" using sub_invD(6) [OF inv] all by (metis notifies.simps(2))
  then have "sbCloser s = NotClosing \<and> sbWriter s = Ready \<or> sbCloser s = Stopped \<and> sbWriter s = Ended"
    using c n ch h by (cases "sbCloser s") (use w in \<open>auto simp: closer_turn_def waitForSubmitters_def nil_last_def writeChCap_def\<close>)
  then show ?thesis using all ch by (simp add: quiet_def)
qed simp

lemma sub_reach_steps:
  assumes "(sub_event h W)\<^sup>*\<^sup>* s0 s" "(sub_step W)\<^sup>*\<^sup>* s t"
  shows "(sub_event h W)\<^sup>*\<^sup>* s0 t"
proof -
  have "sub_step W \<le> sub_event h W" by (auto intro: sub_event.step)
  then have "(sub_event h W)\<^sup>*\<^sup>* s t" using assms(2) rtranclp_mono by blast
  then show ?thesis using assms(1) by simp
qed

lemma sub_steps_closed: "(sub_step W)\<^sup>*\<^sup>* s t \<Longrightarrow> dbClosed (snd (sbSt t)) = dbClosed (snd (sbSt s))"
proof (induction rule: rtranclp_induct)
  case (step t u)
  have "dbClosed (snd (sbSt u)) = dbClosed (snd (sbSt t))" using step(2)
    by (induction rule: sub_step.induct) (auto simp: caller_turn_defs closer_turn_def waitForSubmitters_def writer_turn_def process_batch_def split: caller.splits closer.splits writer.splits list.splits option.splits if_splits prod.splits
      dest!: finish_req_frame processWriteBatch_closed)
  then show ?case using step(3) by simp
qed simp

lemma sub_steps_work: "(sub_step W ^^ n) s t \<Longrightarrow> n + work t \<le> work s"
proof (induction n arbitrary: t)
  case (Suc n)
  then obtain u where "(sub_step W ^^ n) s u" "sub_step W u t" by auto
  then show ?case using Suc.IH [of u] sub_step_work [of W u t] by simp
qed simp

text \<open>
  C12: Every call and \<open>Close\<close> return. Start with an open database and any number of callers, and let calls of \<open>Put\<close> and \<open>Delete\<close>, the first \<open>Close\<close>, the write
  loop and the flush loop interleave in any way. From the state that is reached, the calls in progress, \<open>Close\<close> and the write loop take at most \<open>work s\<close> more steps
  when no new call starts. Where they stop, unless a batch panics in the database, every call has its answer and has returned, the channel is empty, and a \<open>Close\<close> that had begun has stopped the write loop:
  no wake-up of the condition variable is lost, no request is sent behind the nil that ends the loop, and no object of the pool serves two calls.
\<close>
theorem every_call_returns:
  assumes "sub_init s0" "(sub_event h W)\<^sup>*\<^sup>* s0 s"
  shows "(\<forall>n t. (sub_step W ^^ n) s t \<longrightarrow> n \<le> work s) \<and>
    (\<forall>t. (sub_step W)\<^sup>*\<^sup>* s t \<longrightarrow> (\<nexists>u. sub_step W t u) \<longrightarrow> batch_panics W t \<or>
      (\<forall>c \<in> set (sbCallers t). c = Idle) \<and> sbCh t = [] \<and> (dbClosed (snd (sbSt s)) \<longrightarrow> sbCloser t = Stopped \<and> sbWriter t = Ended))"
proof (intro conjI allI impI)
  show "n \<le> work s" if "(sub_step W ^^ n) s t" for n t using sub_steps_work [OF that] by simp
next
  fix t
  assume t: "(sub_step W)\<^sup>*\<^sup>* s t" "\<nexists>u. sub_step W t u"
  have inv: "sub_inv t" using sub_reach_inv [OF sub_reach_steps [OF assms(2) t(1)] assms(1)] .
  then have "batch_panics W t \<or> quiet t" using sub_progress [of t W] t(2) by blast
  moreover have "sbCloser t \<noteq> NotClosing" if "dbClosed (snd (sbSt s))" using sub_invD(3) [OF inv] sub_steps_closed [OF t(1)] that by (simp add: flags_def)
  ultimately show "batch_panics W t \<or> (\<forall>c \<in> set (sbCallers t). c = Idle) \<and> sbCh t = [] \<and> (dbClosed (snd (sbSt s)) \<longrightarrow> sbCloser t = Stopped \<and> sbWriter t = Ended)"
    by (auto simp: quiet_def)
qed

lemma every_call_returns_witness:
  "\<exists>s0 s. sub_init s0 \<and> (sub_event (calm_host []) calm_world)\<^sup>*\<^sup>* s0 s \<and> sbCallers s = [Acquired 0] \<and>
    (\<forall>n t. (sub_step calm_world ^^ n) s t \<longrightarrow> n \<le> 29) \<and>
    (\<forall>t. (sub_step calm_world)\<^sup>*\<^sup>* s t \<longrightarrow> (\<nexists>u. sub_step calm_world t u) \<longrightarrow> batch_panics calm_world t \<or>
      (\<forall>c \<in> set (sbCallers t). c = Idle) \<and> sbCh t = [] \<and> sbCloser t = Stopped \<and> sbWriter t = Ended)"
proof -
  obtain dk db where o: "openDB (calm_host []) calm_world None \<lparr>dkFs = (\<lambda>_. None), dkWals = (\<lambda>_. None)\<rparr> ''d'' [] [] small_options = Some (dk, Inr db)"
    "db_rel 200 500 (calm_host []) calm_world (2 ^ 63 - 1) db Map.empty"
    using openDB_empty [OF calm_setting(1-4), of "\<lambda>_. None" "''d''"] by blast
  let ?q = "acquireWriteRequest [1] [2] new_request"
  define s0 where "s0 = \<lparr>sbSt = (dk, db), sbHeap = (\<lambda>_. None), sbPool = {}, sbCount = 0, sbCh = [], sbCallers = [Idle], sbCloser = NotClosing, sbWriter = Ready\<rparr>"
  define s where "s = s0\<lparr>sbSt := (dk, fst (markClosed db)), sbHeap := [0 \<mapsto> ?q], sbCallers := [Acquired 0], sbCloser := Locking\<rparr>"
  have op: "\<not> dbClosed db" "\<not> rsClosed (dbRead db)" using o(2) by (simp_all add: db_rel_def open_ok_def snapshotReadStateLocked_def)
  have "sub_init s0" using op by (simp add: sub_init_def s0_def)
  moreover have "(sub_event (calm_host []) calm_world)\<^sup>*\<^sup>* s0 s"
  proof (rule converse_rtranclp_into_rtranclp)
    show "sub_event (calm_host []) calm_world s0 (s0\<lparr>sbHeap := [0 \<mapsto> ?q], sbCallers := [Acquired 0]\<rparr>)"
      using sub_event.call [of 0 s0 0 "calm_host []" calm_world "[1]" "[2]"] by (simp add: s0_def)
    show "(sub_event (calm_host []) calm_world)\<^sup>*\<^sup>* (s0\<lparr>sbHeap := [0 \<mapsto> ?q], sbCallers := [Acquired 0]\<rparr>) s"
      using sub_event.close [of "s0\<lparr>sbHeap := [0 \<mapsto> ?q], sbCallers := [Acquired 0]\<rparr>" "fst (markClosed db)" "calm_host []" calm_world] op
      by (intro r_into_rtranclp) (simp add: s_def s0_def markClosed_def)
  qed
  moreover have "sbCallers s = [Acquired 0]" "work s = 29" "dbClosed (snd (sbSt s))" using op
    by (simp_all add: s_def s0_def work_def markClosed_def publishReadStateLocked_def)
  ultimately show ?thesis using every_call_returns [of s0 "calm_host []" calm_world s] by (intro exI [of _ s0] exI [of _ s]) simp
qed

end
