(* ===== verification/Gc.thy ===== *)
theory Gc
  imports Database
begin

text \<open>
  The garbage collection of the value log, \<^verbatim>\<open>src/gc.go\<close>, and \<open>DB.Compact\<close> of \<^verbatim>\<open>src/compaction.go\<close>: the maintenance that closes the
  database, rewrites its files and opens it again.

  \<open>rebuildLiveState\<close> reads the tables from the newest to the oldest, keeps the first entry of each key unless it is a
  deletion, copies its value into a new value log and writes new tables into a temporary directory. \<open>replaceRewrittenFiles\<close> moves the new
  files into the directory, removes the old ones and writes the manifest.

  A value log's files are the entries of a directory (\<open>dirent\<close>), so a \<open>gcDisk\<close> has, beside the files of tables and manifest, the
  value log files of each directory. The callback of the scan cannot panic in the model of \<open>Scan\<close>; a panic of \<open>Put\<close> or \<open>New\<close> in it is
  the error \<open>Inr ()\<close>, which \<open>gc_scan\<close> turns back into \<open>None\<close>.
\<close>

section \<open>Rebuilding the live state\<close>

datatype gc_error =
    GcManifest manifest_error
  | GcTable sst_error
  | GcLevels level_error
  | GcLog vlog_error
  | GcStored db_error
  | GcIO io_error
  | GcRemove string io_error

record gcState =
  gsSeen :: "bytes list"
  gsNew :: "Log option"
  gsBuilder :: Skiplist
  gsBytes :: int
  gsFlushed :: "Table list"
  gsMeta :: "TableMeta list"
  gsFs :: fs
  gsCount :: nat

text \<open>The meta data of an output keep the level and the creation time of the table it was made from.\<close>

definition gc_flushBuilder :: "flush_fn \<Rightarrow> (nat \<Rightarrow> nat) \<Rightarrow> string \<Rightarrow> int \<Rightarrow> TableMeta \<Rightarrow> gcState \<Rightarrow> (gcState \<times> gc_error option) option" where
  "gc_flushBuilder flushFn clock tempDir maxBytes sourceMeta st = do {
     empty \<leftarrow> Empty (gsBuilder st);
     (if empty then Some (st, None)
      else do {
        (fs', sk, r) \<leftarrow> flushFn (clock (gsCount st)) (gsFs st) tempDir (gsBuilder st);
        let st' = st\<lparr>gsFs := fs', gsBuilder := sk, gsCount := Suc (gsCount st)\<rparr> in
        (case r of
           Inl e \<Rightarrow> Some (st', Some (GcTable e))
         | Inr sst \<Rightarrow> do {
             b \<leftarrow> New (nat (memtableArenaSize maxBytes));
             let meta = (tableMetaFromSST (clock (gsCount st)) (Table_Metadata (Some sst)) (tmLevel sourceMeta))\<lparr>tmCreatedAt := tmCreatedAt sourceMeta\<rparr> in
             Some (st'\<lparr>gsFlushed := gsFlushed st @ [sst], gsMeta := gsMeta st @ [meta], gsBuilder := b, gsBytes := 0\<rparr>, None)
           })
      })
   }"

text \<open>The callback: a key that was seen is skipped; a deleted one is only noted.\<close>

definition gc_entry :: "flush_fn \<Rightarrow> world \<Rightarrow> string \<Rightarrow> Options \<Rightarrow> TableMeta \<Rightarrow> Log option \<Rightarrow> gcState \<Rightarrow> bytes \<Rightarrow> bytes \<Rightarrow> gcState \<times> (gc_error + unit) option" where
  "gc_entry flushFn W tempDir opts sourceMeta oldVlog st key stv =
     (if key \<in> set (gsSeen st) then (st, None)
      else
        let st1 = st\<lparr>gsSeen := key # gsSeen st\<rparr> in
        (case resolveStoredValue oldVlog stv of
           Inl e \<Rightarrow> (st1, Some (Inl (GcStored e)))
         | Inr (val, deleted) \<Rightarrow>
             if deleted then (st1, None)
             else
               (case storeValueForLSM (wdEnv W (gsCount st)) (gsNew st) (ValueThreshold opts) key (go_bytes val) of
                  (new, Inl e) \<Rightarrow> (st1\<lparr>gsNew := new, gsCount := Suc (gsCount st)\<rparr>, Some (Inl (GcStored e)))
                | (new, Inr rewritten) \<Rightarrow>
                    let st2 = st1\<lparr>gsNew := new, gsCount := Suc (gsCount st)\<rparr> in
                    (case Put (wdRand W (gsCount st)) (gsBuilder st) key rewritten of
                       None \<Rightarrow> (st2, Some (Inr ()))
                     | Some b \<Rightarrow>
                         let st3 = st2\<lparr>gsBuilder := b, gsBytes := gsBytes st + memtableEntrySize key (go_bytes val)\<rparr> in
                         if gsBytes st3 < MemtableMaxBytes opts then (st3, None)
                         else
                           (case gc_flushBuilder flushFn (wdClock W) tempDir (MemtableMaxBytes opts) sourceMeta st3 of
                              None \<Rightarrow> (st3, Some (Inr ()))
                            | Some (st4, e) \<Rightarrow> (st4, map_option Inl e))))))"

text \<open>One table: a fresh builder, the scan, and the flush of what is left in the builder.\<close>

definition gc_table :: "host \<Rightarrow> flush_fn \<Rightarrow> world \<Rightarrow> string \<Rightarrow> Options \<Rightarrow> Log option \<Rightarrow> TableMeta \<Rightarrow> Table \<Rightarrow> gcState \<Rightarrow> (gcState \<times> gc_error option) option" where
  "gc_table h flushFn W tempDir opts oldVlog sourceMeta table st = do {
     b \<leftarrow> New (nat (memtableArenaSize (MemtableMaxBytes opts)));
     (t', st1, e) \<leftarrow> Scan (hStale h) table (Some (gc_entry flushFn W tempDir opts sourceMeta oldVlog)) (st\<lparr>gsBuilder := b, gsBytes := 0\<rparr>);
     (case e of
        Some (Inl e) \<Rightarrow> Some (st1, Some (GcTable e))
      | Some (Inr (Inl e)) \<Rightarrow> Some (st1, Some e)
      | Some (Inr (Inr _)) \<Rightarrow> None
      | None \<Rightarrow> gc_flushBuilder flushFn (wdClock W) tempDir (MemtableMaxBytes opts) sourceMeta st1)
   }"

text \<open>The loops over the levels and over their tables, each with its meta data.\<close>

fun gc_tables :: "host \<Rightarrow> flush_fn \<Rightarrow> world \<Rightarrow> string \<Rightarrow> Options \<Rightarrow> Log option \<Rightarrow> (TableMeta \<times> Table) list \<Rightarrow> gcState \<Rightarrow> (gcState \<times> gc_error option) option" where
  "gc_tables h flushFn W tempDir opts oldVlog [] st = Some (st, None)"
| "gc_tables h flushFn W tempDir opts oldVlog ((m, t) # mts) st = do {
     (st', e) \<leftarrow> gc_table h flushFn W tempDir opts oldVlog m t st;
     (if e \<noteq> None then Some (st', e) else gc_tables h flushFn W tempDir opts oldVlog mts st')
   }"

text \<open>The result: the files, the new log, and the new tables with their meta data. \<open>n\<close> is the number of the next call on the world.\<close>

definition rebuildLiveState ::
    "host \<Rightarrow> flush_fn \<Rightarrow> world \<Rightarrow> nat \<Rightarrow> fs \<Rightarrow> string \<Rightarrow> tableLevelState list \<Rightarrow> Log option \<Rightarrow> Log option \<Rightarrow> Options \<Rightarrow>
      (fs \<times> Log option \<times> nat \<times> (gc_error + Table list \<times> TableMeta list)) option" where
  "rebuildLiveState h flushFn W n fs tempDir levels oldVlog newVlog opts = do {
     b \<leftarrow> New (nat (memtableArenaSize (MemtableMaxBytes opts)));
     (st, e) \<leftarrow> gc_tables h flushFn W tempDir opts oldVlog (concat (map (\<lambda>l. zip (lsMeta l) (lsTables l)) levels))
       \<lparr>gsSeen = [], gsNew = newVlog, gsBuilder = b, gsBytes = 0, gsFlushed = [], gsMeta = [], gsFs = fs, gsCount = n\<rparr>;
     Some (gsFs st, gsNew st, gsCount st, case e of Some e \<Rightarrow> Inl e | None \<Rightarrow> Inr (gsFlushed st, gsMeta st))
   }"

section \<open>Replacing the files\<close>

record gcDisk =
  gdFs :: fs
  gdVlogs :: "string \<Rightarrow> dirent list"

definition scanValueLogPaths :: "host \<Rightarrow> string \<Rightarrow> dirent list \<Rightarrow> io_error + string list" where
  "scanValueLogPaths h dir ents =
     (if hFault h (OpReadDir dir) \<noteq> None then Inl EIO
      else Inr (map fst (filter (\<lambda>e. snd e \<noteq> None \<and> has_suffix (fst e) ''.vlog'') ents)))"

definition vlog_rename :: "host \<Rightarrow> gcDisk \<Rightarrow> string \<Rightarrow> string \<Rightarrow> string \<Rightarrow> gcDisk \<times> io_error option" where
  "vlog_rename h gd tempDir dir n =
     (if hFault h (OpRename (tempDir, n) (dir, n)) \<noteq> None then (gd, Some EIO)
      else case map_of (gdVlogs gd tempDir) n of
        None \<Rightarrow> (gd, Some ENoent)
      | Some c \<Rightarrow> (gd\<lparr>gdVlogs := (gdVlogs gd)(tempDir := AList.delete n (gdVlogs gd tempDir), dir := AList.update n c (gdVlogs gd dir))\<rparr>, None))"

definition vlog_remove :: "host \<Rightarrow> gcDisk \<Rightarrow> string \<Rightarrow> string \<Rightarrow> gcDisk \<times> io_error option" where
  "vlog_remove h gd dir n =
     (if hFault h (OpRemove (dir, n)) \<noteq> None then (gd, Some EIO)
      else case map_of (gdVlogs gd dir) n of
        None \<Rightarrow> (gd, Some ENoent)
      | Some c \<Rightarrow> (gd\<lparr>gdVlogs := (gdVlogs gd)(dir := AList.delete n (gdVlogs gd dir))\<rparr>, None))"

fun gc_rename :: "host \<Rightarrow> gcDisk \<Rightarrow> string \<Rightarrow> string \<Rightarrow> string list \<Rightarrow> gcDisk \<times> io_error option" where
  "gc_rename h gd tempDir dir [] = (gd, None)"
| "gc_rename h gd tempDir dir (n # ns) =
     (case (if has_suffix n ''.sst'' then map_prod (\<lambda>fs. gd\<lparr>gdFs := fs\<rparr>) id (os_Rename h (gdFs gd) (tempDir, n) (dir, n)) else vlog_rename h gd tempDir dir n) of
        (gd', Some e) \<Rightarrow> (gd', Some e)
      | (gd', None) \<Rightarrow> gc_rename h gd' tempDir dir ns)"

fun gc_remove :: "(gcDisk \<Rightarrow> string \<Rightarrow> gcDisk \<times> io_error option) \<Rightarrow> gcDisk \<Rightarrow> string list \<Rightarrow> string list \<Rightarrow> gcDisk \<times> gc_error option" where
  "gc_remove rm gd newNames [] = (gd, None)"
| "gc_remove rm gd newNames (n # ns) =
     (if n \<in> set newNames then gc_remove rm gd newNames ns
      else case rm gd n of
        (gd', e) \<Rightarrow> if e \<noteq> None \<and> e \<noteq> Some ENoent then (gd', Some (GcRemove n (the e))) else gc_remove rm gd' newNames ns)"

definition gc_RemoveAll :: "host \<Rightarrow> gcDisk \<Rightarrow> string \<Rightarrow> gcDisk \<times> io_error option" where
  "gc_RemoveAll h gd dir =
     (case os_RemoveAll h (gdFs gd) dir of (fs', e) \<Rightarrow> (gd\<lparr>gdFs := fs', gdVlogs := (if e = None then (gdVlogs gd)(dir := []) else gdVlogs gd)\<rparr>, e))"

text \<open>\<open>newEntries\<close> is the listing of the temporary directory.\<close>

definition replaceRewrittenFiles ::
    "host \<Rightarrow> gcDisk \<Rightarrow> string \<Rightarrow> manifestStore \<Rightarrow> TableMeta list \<Rightarrow> TableMeta list \<Rightarrow> string \<Rightarrow> listing \<Rightarrow> gcDisk \<times> manifestStore \<times> gc_error option" where
  "replaceRewrittenFiles h gd dir manifest oldTables newTables tempDir newEntries =
     (case scanValueLogPaths h dir (gdVlogs gd dir) of
        Inl e \<Rightarrow> (gd, manifest, Some (GcIO e))
      | Inr oldVlogPaths \<Rightarrow>
          if hFault h (OpReadDir tempDir) \<noteq> None then (gd, manifest, Some (GcIO EIO))
          else
            let newNames = map fst (filter (\<lambda>e. \<not> snd e \<and> (has_suffix (fst e) ''.sst'' \<or> has_suffix (fst e) ''.vlog'')) newEntries) in
            (case gc_rename h gd tempDir dir newNames of
               (gd1, Some e) \<Rightarrow> (gd1, manifest, Some (GcIO e))
             | (gd1, None) \<Rightarrow>
                 (case gc_remove (\<lambda>gd n. map_prod (\<lambda>fs. gd\<lparr>gdFs := fs\<rparr>) id (os_Remove h (gdFs gd) (dir, n))) gd1 newNames (map tmFilename oldTables) of
                    (gd2, Some e) \<Rightarrow> (gd2, manifest, Some e)
                  | (gd2, None) \<Rightarrow>
                      (case gc_remove (\<lambda>gd n. vlog_remove h gd dir n) gd2 newNames oldVlogPaths of
                         (gd3, Some e) \<Rightarrow> (gd3, manifest, Some e)
                       | (gd3, None) \<Rightarrow>
                           (case ReplaceTables h (gdFs gd3) manifest (orderTableMetaForManifest (cloneTableMeta newTables)) of
                              (fs', m', Some e) \<Rightarrow> (gd3\<lparr>gdFs := fs'\<rparr>, m', Some (GcIO e))
                            | (fs', m', None) \<Rightarrow>
                                (case gc_RemoveAll h (gd3\<lparr>gdFs := fs'\<rparr>) tempDir of (gd4, e) \<Rightarrow> (gd4, m', map_option GcIO e)))))))"

section \<open>The whole rewrite\<close>

text \<open>The files of an open log in its directory.\<close>

definition vlog_files :: "Log \<Rightarrow> dirent list" where
  "vlog_files l = map (\<lambda>(sid, f). (segmentName sid, Some (fData f, fDev f))) (lgFiles l)"

definition set_vlogs :: "gcDisk \<Rightarrow> string \<Rightarrow> Log option \<Rightarrow> gcDisk" where
  "set_vlogs gd dir l =
     gd\<lparr>gdVlogs := (gdVlogs gd)(dir := filter (\<lambda>e. \<not> has_suffix (fst e) ''.vlog'') (gdVlogs gd dir) @ (case l of None \<Rightarrow> [] | Some l \<Rightarrow> vlog_files l))\<rparr>"

text \<open>
  \<open>names\<close> is the listing of the directory and \<open>newEntries\<close> that of the temporary directory after the rebuild. On an error after its creation the temporary
  directory is removed, and the error of that removal is dropped; closing the tables does not touch their files.
\<close>

definition rewriteValueLogFiles ::
    "host \<Rightarrow> flush_fn \<Rightarrow> world \<Rightarrow> gcDisk \<Rightarrow> string \<Rightarrow> string \<Rightarrow> listing \<Rightarrow> listing \<Rightarrow> Options \<Rightarrow> (gcDisk \<times> gc_error option) option" where
  "rewriteValueLogFiles h flushFn W gd dir tempDir names newEntries opts0 =
     (let opts = normalizeOptions opts0; maxBytes = ValueLogSegmentMaxBytes opts; failed = (\<lambda>gd e. Some (fst (gc_RemoveAll h gd tempDir), Some e)) in
      case openManifest h (wdClock W 0) (gdFs gd) dir names of
        None \<Rightarrow> None
      | Some (fs1, Inl e) \<Rightarrow> Some (gd\<lparr>gdFs := fs1\<rparr>, Some (GcManifest e))
      | Some (fs1, Inr manifest) \<Rightarrow>
          let gd1 = gd\<lparr>gdFs := fs1\<rparr>; tableMeta = manifest_Tables manifest in
          (case openSSTablesFromMeta h fs1 dir tableMeta of
             None \<Rightarrow> None
           | Some (Inl e) \<Rightarrow> Some (gd1, Some (GcTable e))
           | Some (Inr oldSSTs) \<Rightarrow>
               (case buildLevelState tableMeta oldSSTs of
                  Inl e \<Rightarrow> Some (gd1, Some (GcLevels e))
                | Inr (levels, _, _) \<Rightarrow>
                    (case vlog_Open (wdEnv W 0) dir maxBytes (gdVlogs gd1 dir) of
                       Inl e \<Rightarrow> Some (gd1, Some (GcLog e))
                     | Inr oldVlog \<Rightarrow>
                         let gd2 = set_vlogs gd1 dir (Some oldVlog) in
                         if hFault h (OpMkdirTemp dir) \<noteq> None then Some (gd2, Some (GcIO EIO))
                         else
                           (case vlog_Open (wdEnv W 1) tempDir maxBytes [] of
                              Inl e \<Rightarrow> failed gd2 (GcLog e)
                            | Inr newVlog0 \<Rightarrow> do {
                                (fs3, newVlog, n, r) \<leftarrow> rebuildLiveState h flushFn W 2 fs1 tempDir levels (Some oldVlog) (Some newVlog0) opts;
                                let gd3 = set_vlogs (gd2\<lparr>gdFs := fs3\<rparr>) tempDir newVlog;
                                (case r of
                                   Inl e \<Rightarrow> failed gd3 e
                                 | Inr (newSSTs, newMeta) \<Rightarrow> do {
                                     l \<leftarrow> newVlog;
                                     (case (vlog_Close l, vlog_Close oldVlog) of
                                        ((_, Some e), _) \<Rightarrow> failed gd3 (GcIO e)
                                      | ((_, None), (_, Some e)) \<Rightarrow> failed gd3 (GcIO e)
                                      | ((_, None), (_, None)) \<Rightarrow>
                                          (case replaceRewrittenFiles h gd3 dir manifest tableMeta newMeta tempDir newEntries of
                                             (gd4, _, Some e) \<Rightarrow> failed gd4 e
                                           | (gd4, _, None) \<Rightarrow> Some (gd4, None)))
                                   })
                              })))))"

section \<open>Closing, rewriting and opening again\<close>

datatype maint_error = MtDb dberr | MtGc gc_error | MtPlan manifest_error | MtCompact compact_error

definition optionsSnapshot :: "DB \<Rightarrow> Options" where
  "optionsSnapshot db =
     \<lparr>MemtableMaxBytes = dbMaxBytes db, WALSyncInterval = dbSyncInterval db, ValueLogSegmentMaxBytes = dbSegmentMax db, ValueThreshold = dbThreshold db,
      AsyncWrites = dbAsync db, WriteBatchWindow = dbWindow db\<rparr>"

text \<open>
  What the calls take from outside: the outcomes of releasing and taking the directory lock, the worlds of the three phases, and the listings of the directory before
  and after the rewrite and of the temporary directory.
\<close>

record maint_env =
  meUnlock :: "dberr option"
  meLock :: "dberr option"
  meClose :: world
  meRewrite :: world
  meOpen :: world
  meTemp :: string
  meNames :: listing
  meNew :: listing
  meAfter :: listing

definition reopen :: "host \<Rightarrow> maint_env \<Rightarrow> disk \<Rightarrow> string \<Rightarrow> dirent list \<Rightarrow> Options \<Rightarrow> (disk \<times> (maint_error + DB)) option" where
  "reopen h me dk dir vents opts =
     map_option (\<lambda>(dk', r). (dk', case r of Inl e \<Rightarrow> Inl (MtDb e) | Inr db \<Rightarrow> Inr db)) (openDB h (meOpen me) (meLock me) dk dir (meAfter me) vents opts)"

definition RunValueLogGC :: "host \<Rightarrow> maint_env \<Rightarrow> writeRequest option list \<Rightarrow> disk \<times> DB \<Rightarrow> (disk \<times> (maint_error + DB)) option" where
  "RunValueLogGC h me ch st =
     (let opts = optionsSnapshot (snd st); dir = dbDir (snd st) in do {
        ((dk, db), _, e) \<leftarrow> db_Close h (meClose me) (meUnlock me) ch st;
        (case e of
           Some e \<Rightarrow> Some (dk, Inl (MtDb e))
         | None \<Rightarrow> do {
             let gd = set_vlogs \<lparr>gdFs = dkFs dk, gdVlogs = (\<lambda>_. [])\<rparr> dir (dbLog db);
             (gd', e') \<leftarrow> rewriteValueLogFiles h (sst_Flush h) (meRewrite me) gd dir (meTemp me) (meNames me) (meNew me) opts;
             (case e' of
                Some e \<Rightarrow> Some (dk\<lparr>dkFs := gdFs gd'\<rparr>, Inl (MtGc e))
              | None \<Rightarrow> reopen h me (dk\<lparr>dkFs := gdFs gd'\<rparr>) dir (gdVlogs gd' dir) opts)
           })
      })"

definition Compact :: "host \<Rightarrow> (string list \<Rightarrow> string list) \<Rightarrow> maint_env \<Rightarrow> writeRequest option list \<Rightarrow> disk \<times> DB \<Rightarrow> (disk \<times> (maint_error + DB)) option" where
  "Compact h map_order me ch st =
     (let opts = optionsSnapshot (snd st); dir = dbDir (snd st); W = meRewrite me in do {
        ((dk, db), _, e) \<leftarrow> db_Close h (meClose me) (meUnlock me) ch st;
        (case e of
           Some e \<Rightarrow> Some (dk, Inl (MtDb e))
         | None \<Rightarrow> do {
             (fs1, planned) \<leftarrow> Plan h (wdClock W 0) (dkFs dk) dir (meNames me) (MemtableMaxBytes opts);
             (case planned of
                Inl e \<Rightarrow> Some (dk\<lparr>dkFs := fs1\<rparr>, Inl (MtPlan e))
              | Inr plan \<Rightarrow> do {
                  (fs2, e') \<leftarrow> executeCompactionPlan h map_order (sst_Flush h) (wdClock W 1) (\<lambda>i. wdClock W (i + 2)) (wdRand W) fs1 dir (meTemp me) (meNames me) (meNew me) plan;
                  (case e' of
                     Some e \<Rightarrow> Some (dk\<lparr>dkFs := fs2\<rparr>, Inl (MtCompact e))
                   | None \<Rightarrow> reopen h me (dk\<lparr>dkFs := fs2\<rparr>) dir (case dbLog db of None \<Rightarrow> [] | Some l \<Rightarrow> vlog_files l) opts)
                })
           })
      })"

end
