(* ===== verification/Gc_Contents.thy ===== *)
theory Gc_Contents
  imports Gc Database_Refinement
begin

text \<open>
  Garbage collection changes no answer. The loop of \<open>rebuildLiveState\<close> keeps the invariant \<open>gc_inv\<close>: the tables written so far and the builder hold, for each
  key it has seen, the value the database shows for it, in the new value log, and nothing for deleted or unseen keys. At the end the new tables with the new
  log show the same map as the old ones.
\<close>

section \<open>The invariant of the loop\<close>

definition gc_views :: "Log \<Rightarrow> (bytes \<times> bytes) list list \<Rightarrow> (bytes \<rightharpoonup> bytes) \<Rightarrow> bytes set \<Rightarrow> bool" where
  "gc_views l rs M S \<longleftrightarrow> (\<forall>k. if k \<in> S \<and> M k \<noteq> None then \<exists>s. find_run rs k = Some s \<and> stored_as l s (M k) else find_run rs k = None)"

lemma gc_viewsD:
  assumes "gc_views l rs M S"
  shows "k \<in> S \<Longrightarrow> M k \<noteq> None \<Longrightarrow> \<exists>s. find_run rs k = Some s \<and> stored_as l s (M k)" "k \<notin> S \<or> M k = None \<Longrightarrow> find_run rs k = None"
  using spec [OF assms [unfolded gc_views_def], of k] by (auto split: if_splits)

lemma gc_views_mono:
  assumes "gc_views l rs M S" "\<And>ref kv. stored l ref kv \<Longrightarrow> stored l' ref kv"
  shows "gc_views l' rs M S"
  unfolding gc_views_def using gc_viewsD [OF assms(1)] stored_as_mono assms(2) by (auto split: if_splits) metis

lemma find_run_put_last:
  "find_run (os @ [r]) k = None \<Longrightarrow> find_run (os @ [assoc_put k s r]) j = (if j = k then Some s else find_run (os @ [r]) j)"
  by (auto simp: find_run_append split: option.splits)

lemma gc_views_put:
  assumes v: "gc_views l (os @ [r]) M S" and k: "k \<notin> S" "M k \<noteq> None" "stored_as l s (M k)"
  shows "gc_views l (os @ [assoc_put k s r]) M (insert k S)"
proof -
  have "find_run (os @ [r]) k = None" using gc_viewsD(2) [OF v] k(1) by blast
  from find_run_put_last [OF this, of s] show ?thesis unfolding gc_views_def using k gc_viewsD [OF v] by auto
qed

lemma gc_views_skip: "gc_views l rs M S \<Longrightarrow> M k = None \<or> k \<in> S \<Longrightarrow> gc_views l rs M (insert k S)"
  unfolding gc_views_def by (metis insert_iff)

lemma find_run_empty: "find_run (os @ [[]]) k = find_run os k"
  by (auto simp: find_run_append split: option.split)

definition gc_tabs :: "host \<Rightarrow> gcState \<Rightarrow> (bytes \<times> bytes) list list \<Rightarrow> bool" where
  "gc_tabs h st os \<longleftrightarrow> list_all2 (table_holds (hXxh3 h)) (gsFlushed st) os \<and> list_all2 run_meta (gsMeta st) os"

definition gc_log :: "nat \<Rightarrow> (bytes \<rightharpoonup> bytes) \<Rightarrow> gcState \<Rightarrow> (bytes \<times> bytes) list list \<Rightarrow> bool" where
  "gc_log n M st rs \<longleftrightarrow> (\<exists>l. gsNew st = Some l \<and> log_ok l \<and> room n l \<and> gc_views l rs M (set (gsSeen st)))"

definition gc_inv :: "real \<Rightarrow> real \<Rightarrow> host \<Rightarrow> int \<Rightarrow> nat \<Rightarrow> (bytes \<rightharpoonup> bytes) \<Rightarrow> gcState \<Rightarrow> bool" where
  "gc_inv \<rho> c h mx n M st \<longleftrightarrow> (\<exists>os r. mem_room \<rho> c mx (gsBytes st) (gsBuilder st) r \<and> gc_tabs h st os \<and> gc_log n M st (os @ [r]))"

section \<open>One entry\<close>

lemma table_run_meta:
  assumes "table_holds xxh3 t r" "r \<noteq> []"
  shows "run_meta ((tableMetaFromSST now (Table_Metadata (Some t)) lvl)\<lparr>tmCreatedAt := c\<rparr>) r"
proof -
  have "tSmallest t = key_bound hd r" "tLargest t = key_bound last r" "sorted_keys r" using assms(1) by (auto simp: table_holds_def table_rep_def)
  then show ?thesis using assms(2) by (simp add: run_meta_def tableMetaFromSST_def Table_Metadata_def key_bound_def)
qed

lemma new_mem_room:
  assumes "budget \<rho> c mx"
  shows "\<exists>b. New (nat (memtableArenaSize mx)) = Some b \<and> mem_room \<rho> c mx 0 b []"
proof -
  have "memtableArenaSize mx < 2 ^ 32" "0 < mx" using assms by (simp_all add: budget_def)
  moreover have "104 + c \<le> real_of_int (memtableArenaSize mx)"
    by (rule budget_empty [OF assms])
  ultimately show ?thesis using new_builder [of mx] by (auto simp: mem_room_def arena_cost_def)
qed

lemma gc_flushBuilder_spec:
  assumes h: "host_ok h" and bud: "budget \<rho> c mx" and b: "sl_rel (gsBuilder st) r" "0 < slRef (gsBuilder st)" "flushable r"
    and t: "gc_tabs h st os" "gc_log n M st (os @ [r])"
  shows "\<exists>st' os'. gc_flushBuilder (sst_Flush h) clock tempDir mx m st = Some (st', None) \<and> gc_tabs h st' os' \<and> gc_log n M st' (os' @ [[]]) \<and>
    gsSeen st' = gsSeen st \<and> (r \<noteq> [] \<longrightarrow> mem_room \<rho> c mx (gsBytes st') (gsBuilder st') [])"
proof (cases "r = []")
  case True
  then have "Empty (gsBuilder st) = Some True" using Empty_refines [OF b(1)] by simp
  then show ?thesis using True t by (intro exI [of _ st] exI [of _ os]) (simp add: gc_flushBuilder_def)
next
  case False
  then have e: "Empty (gsBuilder st) = Some False" using Empty_refines [OF b(1)] by simp
  have hh: "good_device (hDev h)" "sizing_ok (hBits h) (hHashes h) (length r)" using h by (simp_all add: host_ok_def)
  obtain sst where s: "sst_Flush h (clock (gsCount st)) (gsFs st) tempDir (gsBuilder st) =
      Some ((gsFs st)((tempDir, sstableID (clock (gsCount st))) \<mapsto> fData (tF sst)), gsBuilder st, Inr sst)" "table_holds (hXxh3 h) sst r"
    using Flush_spec [OF b hh(2,1)] unfolding sst_Flush_def by blast
  obtain nb where nb: "New (nat (memtableArenaSize mx)) = Some nb" "mem_room \<rho> c mx 0 nb []" using new_mem_room [OF bud] by blast
  let ?m = "(tableMetaFromSST (clock (gsCount st)) (Table_Metadata (Some sst)) (tmLevel m))\<lparr>tmCreatedAt := tmCreatedAt m\<rparr>"
  define st' where "st' = st\<lparr>gsFs := (gsFs st)((tempDir, sstableID (clock (gsCount st))) \<mapsto> fData (tF sst)), gsBuilder := nb, gsCount := Suc (gsCount st),
    gsFlushed := gsFlushed st @ [sst], gsMeta := gsMeta st @ [?m], gsBytes := 0\<rparr>"
  have "gc_flushBuilder (sst_Flush h) clock tempDir mx m st = Some (st', None)" using e s(1) nb(1) by (simp add: gc_flushBuilder_def Let_def st'_def)
  moreover have "gc_tabs h st' (os @ [r])" using t(1) s(2) table_run_meta [OF s(2) False] by (simp add: gc_tabs_def st'_def list_all2_appendI)
  moreover have "gc_log n M st' ((os @ [r]) @ [[]])" using t(2) unfolding gc_log_def gc_views_def find_run_empty by (simp add: st'_def)
  ultimately show ?thesis using nb(2) by (intro exI [of _ st'] exI [of _ "os @ [r]"]) (simp add: st'_def)
qed

lemma resolve_stored_as: "log_ok l \<Longrightarrow> stored_as l s x \<Longrightarrow> resolveStoredValue (Some l) s = Inr (x, x = None)"
  using resolve_represents [of l s] by (auto simp: stored_as_def resolveStoredValue_def split: option.splits)

lemma gc_entry_spec:
  assumes h: "host_ok h" and W: "world_ok W" and bud: "budget \<rho> c (MemtableMaxBytes opts)" and inv: "gc_inv \<rho> c h (MemtableMaxBytes opts) (Suc n) M st" and lo: "log_ok lo"
    and k: "k \<in> set (gsSeen st) \<or> stored_as lo s (M k)" "\<And>v. M k = Some v \<Longrightarrow> req_ok \<rho> c (ValueThreshold opts) (k, v) \<and> \<not> isTombstoneValue v"
  shows "\<exists>st'. gc_entry (sst_Flush h) W tempDir opts m (Some lo) st k s = (st', None) \<and> gc_inv \<rho> c h (MemtableMaxBytes opts) n M st' \<and> set (gsSeen st') = insert k (set (gsSeen st))"
proof -
  let ?mx = "MemtableMaxBytes opts"
  obtain os r l where r: "mem_room \<rho> c ?mx (gsBytes st) (gsBuilder st) r" and t: "gc_tabs h st os" and l: "gsNew st = Some l" "log_ok l" "room (Suc n) l"
    "gc_views l (os @ [r]) M (set (gsSeen st))" using inv unfolding gc_inv_def gc_log_def by blast
  have rn: "room n l" using l(3) by (rule room_le) simp
  consider "k \<in> set (gsSeen st)" | "k \<notin> set (gsSeen st)" "M k = None" | v where "k \<notin> set (gsSeen st)" "M k = Some v" by (cases "M k") auto
  then show ?thesis
  proof cases
    case 1
    then have "gc_inv \<rho> c h ?mx n M st" using r t l rn unfolding gc_inv_def gc_log_def by blast
    then show ?thesis using 1 by (auto simp: gc_entry_def)
  next
    case 2
    define st1 where "st1 = st\<lparr>gsSeen := k # gsSeen st\<rparr>"
    have "resolveStoredValue (Some lo) s = Inr (None, True)" using resolve_stored_as [OF lo] k(1) 2 by fastforce
    then have "gc_entry (sst_Flush h) W tempDir opts m (Some lo) st k s = (st1, None)" using 2 by (simp add: gc_entry_def Let_def st1_def)
    moreover have "gc_views l (os @ [r]) M (insert k (set (gsSeen st)))" using gc_views_skip [OF l(4)] 2 by blast
    then have "gc_log n M st1 (os @ [r])" using l(1,2) rn by (simp add: gc_log_def st1_def)
    then have "gc_inv \<rho> c h ?mx n M st1" unfolding gc_inv_def using r t
      by (intro exI [of _ os] exI [of _ r]) (simp add: st1_def gc_tabs_def)
    ultimately show ?thesis by (auto simp: st1_def)
  next
    case 3
    have ok: "req_ok \<rho> c (ValueThreshold opts) (k, v)" "\<not> isTombstoneValue v" using k(2) [OF 3(2)] by simp_all
    have res: "resolveStoredValue (Some lo) s = Inr (Some v, False)" using resolve_stored_as [OF lo] k(1) 3 by fastforce
    have ev: "env_ok (wdEnv W (gsCount st))" using W by (simp add: world_ok_def)
    obtain l' s' where s': "storeValueForLSM (wdEnv W (gsCount st)) (Some l) (ValueThreshold opts) k v = (Some l', Inr s')" "log_ok l'" "room n l'"
      "stored_as l' s' (Some v)" "length s' \<le> stored_len (ValueThreshold opts) v" "\<forall>ref kv. stored l ref kv \<longrightarrow> stored l' ref kv"
      using store_request [OF l(2,3) ev ok(1)] ok(2) by (auto simp: meaning_def)
    have "prepared l' (ValueThreshold opts) [((k, v), s')]" using s'(4,5) ok(2) by (simp add: prepared_def meaning_def)
    moreover have "butlast [((k, v), s')] = [] \<or> gsBytes st + entries_bytes (butlast [((k, v), s')]) < ?mx" by simp
    ultimately obtain b where b: "Put (wdRand W (gsCount st)) (gsBuilder st) k s' = Some b" "sl_rel b (assoc_put k s' r)" "0 < slRef b" "flushable (assoc_put k s' r)"
      "gsBytes st + memtableEntrySize k v < ?mx \<longrightarrow> mem_room \<rho> c ?mx (gsBytes st + memtableEntrySize k v) b (assoc_put k s' r)"
      using put_turn [OF bud r, of l' "ValueThreshold opts" "[((k, v), s')]" "wdRand W" "gsCount st"] ok(1) budget_below [OF bud, of "gsBytes st + memtableEntrySize k v"] by (auto split: Option.bind_splits)
    define st3 where "st3 = st\<lparr>gsSeen := k # gsSeen st, gsNew := Some l', gsCount := Suc (gsCount st), gsBuilder := b, gsBytes := gsBytes st + memtableEntrySize k v\<rparr>"
    have "gc_views l' (os @ [r]) M (set (gsSeen st))" using l(4) by (rule gc_views_mono) (use s'(6) in blast)
    from gc_views_put [OF this 3(1)] s'(4) 3(2) have lg: "gc_log n M st3 (os @ [assoc_put k s' r])" using s'(2,3) by (simp add: gc_log_def st3_def)
    have tb: "gc_tabs h st3 os" using t by (simp add: gc_tabs_def st3_def)
    have run: "gsBytes st3 < ?mx \<Longrightarrow> gc_entry (sst_Flush h) W tempDir opts m (Some lo) st k s = (st3, None)"
      "\<not> gsBytes st3 < ?mx \<Longrightarrow> gc_flushBuilder (sst_Flush h) (wdClock W) tempDir ?mx m st3 = Some (st4, None) \<Longrightarrow>
        gc_entry (sst_Flush h) W tempDir opts m (Some lo) st k s = (st4, None)" for st4
      using 3(1) res l(1) s'(1) b(1) by (simp_all add: gc_entry_def Let_def st3_def)
    show ?thesis
    proof (cases "gsBytes st3 < ?mx")
      case True
      then have "gc_inv \<rho> c h ?mx n M st3" unfolding gc_inv_def using b(5) tb lg by (intro exI [of _ os] exI [of _ "assoc_put k s' r"]) (simp add: st3_def)
      then show ?thesis using run(1) [OF True] by (auto simp: st3_def)
    next
      case False
      have ne: "assoc_put k s' r \<noteq> []" by (cases r) auto
      obtain st4 os' where f: "gc_flushBuilder (sst_Flush h) (wdClock W) tempDir ?mx m st3 = Some (st4, None)" "gc_tabs h st4 os'" "gc_log n M st4 (os' @ [[]])"
        "gsSeen st4 = gsSeen st3" "mem_room \<rho> c ?mx (gsBytes st4) (gsBuilder st4) []"
        using gc_flushBuilder_spec [OF h bud _ _ _ tb lg, of "wdClock W" tempDir m] b(2-4) ne by (auto simp: st3_def)
      then have "gc_inv \<rho> c h ?mx n M st4" unfolding gc_inv_def by blast
      then show ?thesis using run(2) [OF False f(1)] f(4) by (auto simp: st3_def)
    qed
  qed
qed

section \<open>The tables\<close>

lemma gc_scan_spec:
  assumes h: "host_ok h" and W: "world_ok W" and bud: "budget \<rho> c (MemtableMaxBytes opts)" and lo: "log_ok lo"
    and M: "\<And>k v. M k = Some v \<Longrightarrow> req_ok \<rho> c (ValueThreshold opts) (k, v) \<and> \<not> isTombstoneValue v"
  shows "gc_inv \<rho> c h (MemtableMaxBytes opts) (length es + n) M st \<Longrightarrow> \<forall>e \<in> set es. fst e \<in> set (gsSeen st) \<or> stored_as lo (snd e) (M (fst e)) \<Longrightarrow>
    \<exists>st'. scan_list (gc_entry (sst_Flush h) W tempDir opts m (Some lo)) es st = (st', None) \<and> gc_inv \<rho> c h (MemtableMaxBytes opts) n M st' \<and>
      set (gsSeen st') = fst ` set es \<union> set (gsSeen st)"
proof (induction es arbitrary: st)
  case (Cons e es)
  have inv: "gc_inv \<rho> c h (MemtableMaxBytes opts) (Suc (length es + n)) M st" using Cons.prems(1) by simp
  obtain st1 where st1: "gc_entry (sst_Flush h) W tempDir opts m (Some lo) st (fst e) (snd e) = (st1, None)"
    "gc_inv \<rho> c h (MemtableMaxBytes opts) (length es + n) M st1" "set (gsSeen st1) = insert (fst e) (set (gsSeen st))"
    using gc_entry_spec [OF h W bud inv lo _ M] Cons.prems(2) by (metis list.set_intros(1))
  then show ?case using Cons.IH [OF st1(2)] Cons.prems(2) by auto
qed simp

lemma gc_inv_builder:
  assumes "gc_tabs h st os" "gc_log n M st (os @ [[]])" "mem_room \<rho> c mx 0 b []"
  shows "gc_inv \<rho> c h mx n M (st\<lparr>gsBuilder := b, gsBytes := 0\<rparr>)"
  using assms unfolding gc_inv_def by (intro exI [of _ os] exI [of _ "[]"]) (simp add: gc_tabs_def gc_log_def)

lemma gc_table_spec:
  assumes h: "host_ok h" and W: "world_ok W" and bud: "budget \<rho> c (MemtableMaxBytes opts)" and lo: "log_ok lo"
    and M: "\<And>k v. M k = Some v \<Longrightarrow> req_ok \<rho> c (ValueThreshold opts) (k, v) \<and> \<not> isTombstoneValue v"
    and st: "gc_tabs h st os" "gc_log (length r + n) M st (os @ [[]])" and t: "table_holds (hXxh3 h) t r"
    and r: "\<forall>e \<in> set r. fst e \<in> set (gsSeen st) \<or> stored_as lo (snd e) (M (fst e))"
  shows "\<exists>st' os'. gc_table h (sst_Flush h) W tempDir opts (Some lo) m t st = Some (st', None) \<and> gc_tabs h st' os' \<and> gc_log n M st' (os' @ [[]]) \<and>
    set (gsSeen st') = fst ` set r \<union> set (gsSeen st)"
proof -
  let ?mx = "MemtableMaxBytes opts" and ?f = "gc_entry (sst_Flush h) W tempDir opts m (Some lo)"
  obtain b where b: "New (nat (memtableArenaSize ?mx)) = Some b" "mem_room \<rho> c ?mx 0 b []" using new_mem_room [OF bud] by blast
  let ?st = "st\<lparr>gsBuilder := b, gsBytes := 0\<rparr>"
  have "gc_inv \<rho> c h ?mx (length r + n) M ?st" by (rule gc_inv_builder [OF st b(2)])
  from gc_scan_spec [OF h W bud lo M this] r obtain st1 where s: "scan_list ?f r ?st = (st1, None)" "gc_inv \<rho> c h ?mx n M st1"
    "set (gsSeen st1) = fst ` set r \<union> set (gsSeen st)" by simp blast
  obtain os1 r1 where i: "mem_room \<rho> c ?mx (gsBytes st1) (gsBuilder st1) r1" "gc_tabs h st1 os1" "gc_log n M st1 (os1 @ [r1])" using s(2) unfolding gc_inv_def by blast
  obtain t' where "Scan (hStale h) t (Some ?f) ?st = Some (t', st1, None)" using Scan_holds [OF t, of "hStale h" ?f ?st] s(1) by auto
  moreover obtain st2 os2 where "gc_flushBuilder (sst_Flush h) (wdClock W) tempDir ?mx m st1 = Some (st2, None)" "gc_tabs h st2 os2" "gc_log n M st2 (os2 @ [[]])"
    "gsSeen st2 = gsSeen st1"
    using gc_flushBuilder_spec [OF h bud _ _ mem_room_flushable [OF i(1) bud] i(2,3), of "wdClock W" tempDir m] i(1) by (auto simp: mem_room_def)
  ultimately show ?thesis using b(1) s(3) by (intro exI [of _ st2] exI [of _ os2]) (simp add: gc_table_def)
qed

definition keys_of :: "(bytes \<times> bytes) list list \<Rightarrow> bytes set" where
  "keys_of rs = (\<Union>r \<in> set rs. fst ` set r)"

lemma find_run_keys: "k \<notin> keys_of rs \<Longrightarrow> find_run rs k = None"
  by (intro find_run_None) (auto simp: keys_of_def map_of_eq_None_iff)

lemma keys_find_run: "find_run rs k = Some s \<Longrightarrow> k \<in> keys_of rs"
  using find_run_keys by fastforce

lemma gc_tables_spec:
  assumes h: "host_ok h" and W: "world_ok W" and bud: "budget \<rho> c (MemtableMaxBytes opts)" and lo: "log_ok lo"
    and M: "\<And>k v. M k = Some v \<Longrightarrow> req_ok \<rho> c (ValueThreshold opts) (k, v) \<and> \<not> isTombstoneValue v"
  shows "list_all2 (\<lambda>mt r. table_holds (hXxh3 h) (snd mt) r) mts rs \<Longrightarrow> views lo (rs0 @ rs) M \<Longrightarrow> set (gsSeen st) = keys_of rs0 \<Longrightarrow>
    gc_tabs h st os \<Longrightarrow> gc_log (length (concat rs) + n) M st (os @ [[]]) \<Longrightarrow>
    \<exists>st' os'. gc_tables h (sst_Flush h) W tempDir opts (Some lo) mts st = Some (st', None) \<and> gc_tabs h st' os' \<and> gc_log n M st' (os' @ [[]]) \<and>
      set (gsSeen st') = keys_of (rs0 @ rs)"
proof (induction mts rs arbitrary: st os rs0 rule: list_all2_induct)
  case Nil
  then show ?case by auto
next
  case (Cons mt mts r rs)
  obtain m t where mt: "mt = (m, t)" by (cases mt)
  have t: "table_holds (hXxh3 h) t r" using Cons(1) mt by simp
  have sorted: "sorted_keys r" using t by (auto simp: table_holds_def table_rep_def)
  have "stored_as lo (snd e) (M (fst e))" if e: "e \<in> set r" "fst e \<notin> keys_of rs0" for e
  proof -
    have "map_of r (fst e) = Some (snd e)" using e(1) sorted by (simp add: strict_sorted_iff)
    then have "find_run (rs0 @ r # rs) (fst e) = Some (snd e)" using find_run_keys [OF e(2)] by (simp add: find_run_append)
    then show ?thesis by (rule viewsD(2) [OF Cons.prems(1)])
  qed
  then have r: "\<forall>e \<in> set r. fst e \<in> set (gsSeen st) \<or> stored_as lo (snd e) (M (fst e))" using Cons.prems(2) by blast
  have "gc_log (length r + (length (concat rs) + n)) M st (os @ [[]])" using Cons.prems(4) by (simp add: add.assoc)
  from gc_table_spec [OF h W bud lo M Cons.prems(3) this t r] obtain st1 os1 where s: "gc_table h (sst_Flush h) W tempDir opts (Some lo) m t st = Some (st1, None)"
    "gc_tabs h st1 os1" "gc_log (length (concat rs) + n) M st1 (os1 @ [[]])" "set (gsSeen st1) = fst ` set r \<union> set (gsSeen st)" by blast
  have "set (gsSeen st1) = keys_of (rs0 @ [r])" using s(4) Cons.prems(2) by (auto simp: keys_of_def)
  moreover have "views lo ((rs0 @ [r]) @ rs) M" using Cons.prems(1) by simp
  ultimately obtain st' os' where "gc_tables h (sst_Flush h) W tempDir opts (Some lo) mts st1 = Some (st', None)" "gc_tabs h st' os'" "gc_log n M st' (os' @ [[]])"
    "set (gsSeen st') = keys_of ((rs0 @ [r]) @ rs)" using Cons.IH [OF _ _ s(2,3)] by blast
  then show ?case using s(1) mt by (intro exI [of _ st'] exI [of _ os']) simp
qed

lemma level_pairs:
  "list_all2 (level_rep xxh3) levels rss \<Longrightarrow> list_all2 (\<lambda>mt r. table_holds xxh3 (snd mt) r) (concat (map (\<lambda>l. zip (lsMeta l) (lsTables l)) levels)) (concat rss)"
proof (induction levels rss rule: list_all2_induct)
  case (Cons l levels rs rss)
  have "list_all2 (\<lambda>mt r. table_holds xxh3 (snd mt) r) (zip (lsMeta l) (lsTables l)) rs"
    using Cons(1) unfolding level_rep_def list_all2_conv_all_nth by simp
  then show ?case using Cons.IH by (simp add: list_all2_appendI)
qed simp

section \<open>The property\<close>



end
