(* ===== verification/Spec2Isabelle.thy ===== *)
theory Spec2Isabelle
  imports Bloom Database_Sessions Database_Faults Database_Submit Gc_Contents
begin

text \<open>
  Verification of \<^bold>\<open>seol\<close>, an embedded log-structured key-value store in Go.

  \<^bold>\<open>The program.\<close> A write goes to the write-ahead log (\<^verbatim>\<open>src/wal.go\<close>) and to an in-memory skiplist
  (\<^verbatim>\<open>src/skiplist\<close>); a value above a threshold is first appended to the value log (\<^verbatim>\<open>src/vlog\<close>) and the tree keeps an
  encoded reference to it (\<^verbatim>\<open>src/value_ref.go\<close>). A full memtable is flushed to an immutable sorted table
  (\<^verbatim>\<open>src/sstable\<close>) with a bloom filter (\<^verbatim>\<open>src/bloom\<close>), and the manifest (\<^verbatim>\<open>src/manifest.go\<close>) lists the live tables with
  their levels and key ranges. Compaction (\<^verbatim>\<open>src/compaction.go\<close>) merges tables of level 0 into the sorted, disjoint
  tables of level 1. \<^verbatim>\<open>src/db.go\<close> ties the parts together and \<^verbatim>\<open>src/gc.go\<close> rewrites the value log.

  \<^bold>\<open>Theories.\<close>
  \<^item> \<^verbatim>\<open>Seol_Prelude\<close>, \<^verbatim>\<open>Go_IO\<close>: what the code uses of Go. Byte strings and their order, little-endian integers, CRC-32,
    \<^verbatim>\<open>sort.Search\<close> and \<^verbatim>\<open>sort.Slice\<close>; files with an injected fault plan (\<open>device\<close>), \<^verbatim>\<open>io.ReadFull\<close>, \<^verbatim>\<open>bufio.Writer\<close>,
    number parsing; the locales \<open>cursor\<close> (iterators) and their client lemmas.
  \<^item> \<^verbatim>\<open>Bloom\<close>: all of \<^verbatim>\<open>bloom.go\<close>: no false negatives, exact file format, membership reported by insertion.
  \<^item> \<^verbatim>\<open>Skiplist\<close>, \<^verbatim>\<open>Skiplist_Put\<close>: the arena, the node towers, \<open>Put\<close>, \<open>Get\<close>, searches and iterator of
    \<^verbatim>\<open>skiplist.go\<close>; refinement of sorted association lists, interpreted as \<open>memtable_store\<close> and \<open>cursor\<close>.
  \<^item> \<^verbatim>\<open>Sstable_Block\<close>, \<^verbatim>\<open>Sstable\<close>, \<^verbatim>\<open>Sstable_Flush\<close>: blocks, block cache, index, \<open>Flush\<close>, \<open>Open\<close>, \<open>Get\<close>, \<open>Scan\<close> and the
    iterator of \<^verbatim>\<open>sstable.go\<close>; the predicate \<open>table_holds\<close> says which entries a table holds, and every operation is shown to
    respect it.
  \<^item> \<^verbatim>\<open>Record_Format\<close>: the checksummed record that both logs write, and the split of a file into whole records and a tail.
  \<^item> \<^verbatim>\<open>Vlog\<close>, \<^verbatim>\<open>Vlog_Recovery\<close>: the value log; appends with rotation, exact reads, recovery after a crash in an append. The
    locale \<open>value_store\<close> states what the tree relies on and is interpreted on the log.
  \<^item> \<^verbatim>\<open>Value_Ref\<close>: stored values; \<open>represents\<close> relates a stored byte string to the value it stands for.
  \<^item> \<^verbatim>\<open>Wal\<close>, \<^verbatim>\<open>Wal_Durability\<close>: replay and batches; the step relation \<open>wal_step\<close> interleaves appends, waiting writers, the
    sync loop, close and device faults, and its invariant shows that acknowledged entries survive a crash.
  \<^item> \<^verbatim>\<open>Manifest\<close>: the directory scan and the manifest file; replacing the tables is all or nothing.
  \<^item> \<^verbatim>\<open>Levels\<close>: grouping and ordering of tables, the compaction planner, the lookup through the levels.
  \<^item> \<^verbatim>\<open>Compaction\<close>, \<^verbatim>\<open>Compaction_Contents\<close>: the merge iterator, the writing of the merged tables, the replacement of the
    files; a planned compaction changes no answer of a lookup; what is lost when the manifest cannot be written.
  \<^item> \<^verbatim>\<open>Database\<close>: the state and the operations of \<^verbatim>\<open>db.go\<close>: \<open>openDB\<close> with the replay of the write-ahead logs, \<open>db_Get\<close>, the write path
    (\<open>submitWrite\<close>, \<open>collectWriteBatch\<close>, \<open>processWriteBatch\<close>, \<open>rotateMemtable\<close>), the flush loop (\<open>flush_turn\<close>) and \<open>db_Close\<close>.
  \<^item> \<^verbatim>\<open>Database_View\<close>, \<^verbatim>\<open>Database_Refinement\<close>: the database without faults. \<open>db_rel\<close> relates its state to the map a client sees; reads return
    this map, a batch of writes updates it in order, a flush leaves it unchanged.
  \<^item> \<^verbatim>\<open>Database_System\<close>: clients, the write loop and the flush loop in any interleaving (\<open>db_step\<close>). The database opened on an empty directory refines
    a map and makes progress; after an error it is frozen.
  \<^item> \<^verbatim>\<open>Database_Submit\<close>: how callers with their pooled requests, the write loop and \<open>Close\<close> meet, one atomic action per step (\<open>caller_turn\<close>,
    \<open>closer_turn\<close>, \<open>writer_turn\<close>): the count of submitters, the condition variable and the nil that ends the loop. The invariant \<open>sub_inv\<close> and the measure \<open>work\<close>
    show that every call and \<open>Close\<close> return.
  \<^item> \<^verbatim>\<open>Database_Recovery\<close>: opening what another database left on disk: the manifest and its tables, the value log with a torn record, the replay of the
    write-ahead logs (\<open>open_recovers\<close>). \<open>dur\<close> says what the disk keeps of a running database.
  \<^item> \<^verbatim>\<open>Database_Durability\<close>: every step of the system keeps \<open>dur\<close>, so the acknowledged requests survive a crash at any moment.
  \<^item> \<^verbatim>\<open>Database_Sessions\<close>: \<open>db_Close\<close> answers what is queued, flushes every memtable and leaves no write-ahead log, so any number of sessions that open, run and
    close the database (\<open>sessions\<close>) keep every request, with asynchronous writes too.
  \<^item> \<^verbatim>\<open>Database_Faults\<close>: a flush that fails once brings overwritten values back, and a memtable of many small entries overruns its arena; the logs of a backlog of memtables overrun the arena of the replay.
  \<^item> \<^verbatim>\<open>Dir_Lock\<close>, \<^verbatim>\<open>Database_Locking\<close>: the directory lock of \<^verbatim>\<open>dir_lock_darwin.go\<close> and \<^verbatim>\<open>dir_lock_other.go\<close> with its contract, the locale
    \<open>exclusive_lock\<close>; processes that open, use and close databases in any interleaving (\<open>site_step\<close>) never share a directory.
  \<^item> \<^verbatim>\<open>Gc\<close>, \<^verbatim>\<open>Gc_Contents\<close>: the garbage collection of the value log and \<open>DB.Compact\<close>; the rebuild keeps the map of the database.

  \<^bold>\<open>Conventions.\<close> A Go struct is a record and an error a value of a sum type (\<open>Inl\<close>). A panic (an index out of range, a full
  arena, an explicit panic) is \<open>None\<close>, and so is a loop that does not end where the loop is a \<open>partial_function\<close>; the theorems
  state that the result is \<open>Some\<close>. Loops that always end have a termination proof, and no fuel is used. Integers have their
  width where wrap-around can matter (offsets, sequence numbers, hashes) and are \<open>int\<close> or \<open>nat\<close> elsewhere. nil and the
  empty slice are told apart (\<open>None\<close> and \<open>Some []\<close>) where the code tells them apart.

  \<^bold>\<open>Parameters.\<close> The xxh3 hash, the two floating-point sizing formulas of the bloom filter, the JSON codec of the manifest, the
  random numbers, the clock, the contents of pooled buffers, the device of each file and the iteration order of Go maps are
  arguments. What a theorem relies on of them is a named hypothesis (\<open>sizing_ok\<close>, \<open>codec_ok\<close>, \<open>good_device\<close>, \<open>env_ok\<close>,
  \<open>compact_env\<close>, \<open>host_ok\<close>, \<open>world_ok\<close>, \<open>budget\<close>), which a witness instantiates.

  \<^bold>\<open>Not modelled.\<close> Locks and atomics as such: a method holds its lock for its whole body, so it is one step; the write-ahead
  log and the loops of the database, where goroutines wait for each other, are step relations. The pool of requests, the count of submitters and the condition variable of \<open>Close\<close> are modelled in \<^verbatim>\<open>Database_Submit\<close> and abstracted in the other theories of the database. The command scripts and benchmarks measure the program.
\<close>

end
